(* ===== verification/Prelude.thy ===== *)
theory Prelude
  imports Main "HOL-Library.Sublist" "HOL-Library.Word" "HOL-Library.Signed_Division"
begin

text \<open>
  Shared vocabulary of the development: the named collections that carry the component proofs,
  C++ array accesses whose out-of-range case is visible (\<open>None\<close>), and the generic list, sum
  and function-update lemmas used by several components.
\<close>

named_theorems step_defs \<open>definitions of the instructions of a component\<close>
named_theorems array_simps \<open>rewriting of checked array accesses\<close>

section \<open>Compile-time limits\<close>

text \<open>\<open>common/include/globals.h\<close>\<close>

definition MAX_ALLOC_NR_THREADS :: nat where
  "MAX_ALLOC_NR_THREADS = 4096"

definition MAX_NR_THREADS :: nat where
  "MAX_NR_THREADS = 28"

section \<open>Benchmark configuration\<close>

text \<open>
  What a driver hands to its benchmark threads: the number of threads and, for each thread
  number, the \<open>nr_iter\<close> argument of its \<open>*_sync\<close> call (an \<open>int\<close> of the source).
\<close>

record bench =
  nr_threads :: nat
  iters :: "nat \<Rightarrow> int"

definition valid_bench :: "bench \<Rightarrow> bool" where
  "valid_bench b \<longleftrightarrow> 0 < nr_threads b \<and> (\<forall>i. 0 \<le> iters b i)"

lemma valid_benchD:
  assumes "valid_bench b"
  shows "0 < nr_threads b" and "0 \<le> iters b i"
  using assms by (auto simp: valid_bench_def)

text \<open>Two threads with one iteration each, the smallest configuration with contention.\<close>

definition two_threads :: bench where
  "two_threads = \<lparr>nr_threads = 2, iters = \<lambda>_. 1\<rparr>"

lemma two_threads_simps [simp]:
  "nr_threads two_threads = 2" "iters two_threads i = 1" "valid_bench two_threads"
  by (simp_all add: two_threads_def valid_bench_def)

section \<open>Checked array accesses\<close>

text \<open>
  Reading or writing a C array outside its bounds is undefined behaviour; the model makes it
  the result \<open>None\<close>, so that a theorem has to show that it cannot happen.
\<close>

definition array_load :: "'a list \<Rightarrow> nat \<Rightarrow> 'a option" where
  "array_load xs k = (if k < length xs then Some (xs ! k) else None)"

definition array_store :: "'a list \<Rightarrow> nat \<Rightarrow> 'a \<Rightarrow> 'a list option" where
  "array_store xs k v = (if k < length xs then Some (xs[k := v]) else None)"

lemma array_load_in [array_simps]: "k < length xs \<Longrightarrow> array_load xs k = Some (xs ! k)"
  by (simp add: array_load_def)

lemma array_load_None_iff [array_simps]: "array_load xs k = None \<longleftrightarrow> length xs \<le> k"
  by (auto simp: array_load_def)

lemma array_store_in [array_simps]:
  "k < length xs \<Longrightarrow> array_store xs k v = Some (xs[k := v])"
  by (simp add: array_store_def)

lemma array_store_None_iff [array_simps]: "array_store xs k v = None \<longleftrightarrow> length xs \<le> k"
  by (auto simp: array_store_def)

lemma array_load_Some_iff:
  "array_load xs k = Some v \<longleftrightarrow> k < length xs \<and> xs ! k = v"
  by (auto simp: array_load_def)

lemma array_store_Some_iff:
  "array_store xs k v = Some ys \<longleftrightarrow> k < length xs \<and> ys = xs[k := v]"
  by (auto simp: array_store_def)

section \<open>Atomic read-modify-write operations\<close>

text \<open>
  \<open>std::atomic::exchange\<close> and \<open>fetch_add\<close>: the new value of the variable and the value returned
  (the old one), in one step. \<open>atomic_flag::test_and_set\<close> is an exchange with true.
\<close>

definition atomic_exchange :: "'a \<Rightarrow> 'a \<Rightarrow> 'a \<times> 'a" where
  "atomic_exchange old new = (new, old)"

definition atomic_fetch_add :: "'a::plus \<Rightarrow> 'a \<Rightarrow> 'a \<times> 'a" where
  "atomic_fetch_add old k = (old + k, old)"

section \<open>Machine integers\<close>

text \<open>A 64-bit signed variable that was counted up fewer than $2^{63}$ times has not wrapped.\<close>

lemma sint_small_nat: "m < 2 ^ 31 \<Longrightarrow> sint (of_nat m :: 32 word) = int m"
  by (simp add: signed_of_nat signed_take_bit_int_eq_self)

lemma sint_of_nat_small: "m < 2 ^ 63 \<Longrightarrow> sint (of_nat m :: 64 word) = int m"
  by (simp add: signed_of_nat signed_take_bit_int_eq_self)

text \<open>The remainder of truncating division, on operands that are not negative.\<close>

lemma smod_of_nat: "int a smod int n = int (a mod n)"
  by (simp add: signed_modulo_int_def sgn_if zmod_int)

section \<open>Sums over threads\<close>

text \<open>Changing the value of one thread's summand by less makes the whole sum smaller.\<close>

lemma sum_fun_upd_add:
  fixes f :: "nat \<Rightarrow> 'a" and g :: "nat \<Rightarrow> 'a \<Rightarrow> 'b::comm_monoid_add"
  assumes "i < n"
  shows "(\<Sum>j<n. g j ((f(i := x)) j)) + g i (f i) = (\<Sum>j<n. g j (f j)) + g i x"
proof -
  have "(\<Sum>j<n. g j ((f(i := x)) j)) = g i x + (\<Sum>j\<in>{..<n} - {i}. g j (f j))"
    using assms by (subst sum.remove [of _ i]) (auto intro: sum.cong)
  moreover have "(\<Sum>j<n. g j (f j)) = g i (f i) + (\<Sum>j\<in>{..<n} - {i}. g j (f j))"
    using assms by (subst sum.remove [of _ i]) auto
  ultimately show ?thesis by (simp add: ac_simps)
qed

lemma sum_fun_upd_less:
  fixes f :: "nat \<Rightarrow> 'a" and g :: "nat \<Rightarrow> 'a \<Rightarrow> nat"
  assumes "i < n" and "g i x < g i (f i)"
  shows "(\<Sum>j<n. g j ((f(i := x)) j)) < (\<Sum>j<n. g j (f j))"
proof (rule sum_strict_mono_ex1)
  show "\<forall>j\<in>{..<n}. g j ((f(i := x)) j) \<le> g j (f j)"
    using assms(2) by simp
  show "\<exists>a\<in>{..<n}. g a ((f(i := x)) a) < g a (f a)"
    using assms by (auto intro!: bexI [of _ i])
qed simp

end
