(* ===== verification/Executions.thy ===== *)
theory Executions
  imports Prelude
begin

text \<open>
  The executions of a benchmark one after the other. A driver repeats the measured call, in every run,
  \<open>nr_exec\<close> times; a barrier separates the executions, and the shared data stays as an execution
  leaves it. \<open>E x s sched\<close> is what execution \<open>x\<close> leaves of the shared data \<open>s\<close> when its threads are
  scheduled as \<open>sched\<close> says; \<open>None\<close>: not all of its threads have returned yet.
\<close>

fun executions :: "('x \<Rightarrow> 's \<Rightarrow> 'sched \<Rightarrow> 's option) \<Rightarrow> 'x list \<Rightarrow> 'sched list \<Rightarrow> 's \<Rightarrow> 's option" where
  "executions E [] scheds s = Some s"
| "executions E (x # xs) [] s = None"
| "executions E (x # xs) (sched # scheds) s =
     (case E x s sched of None \<Rightarrow> None | Some s' \<Rightarrow> executions E xs scheds s')"

text \<open>\<open>ok x s\<close> holds for every execution \<open>x\<close> of the list and all data \<open>s\<close> the ones before it can leave.\<close>

fun each_execution :: "('x \<Rightarrow> 's \<Rightarrow> 'sched \<Rightarrow> 's option) \<Rightarrow> ('x \<Rightarrow> 's \<Rightarrow> bool) \<Rightarrow> 'x list \<Rightarrow> 's \<Rightarrow> bool" where
  "each_execution E ok [] s \<longleftrightarrow> True"
| "each_execution E ok (x # xs) s \<longleftrightarrow>
     ok x s \<and> (\<forall>sched s'. E x s sched = Some s' \<longrightarrow> each_execution E ok xs s')"

text \<open>Whatever the threads of the execution have done, they can go on until all of them return.\<close>

definition never_stuck :: "('x \<Rightarrow> 's \<Rightarrow> 'i list \<Rightarrow> 's option) \<Rightarrow> 'x \<Rightarrow> 's \<Rightarrow> bool" where
  "never_stuck E x s \<longleftrightarrow> (\<forall>sched. \<exists>more. E x s (sched @ more) \<noteq> None)"

lemma never_stuck_returns: "never_stuck E x s \<Longrightarrow> \<exists>sched s'. E x s sched = Some s'"
  unfolding never_stuck_def by (metis append_Nil not_Some_eq)

lemma each_execution_invariant:
  assumes "I s" and "\<And>x s. x \<in> set xs \<Longrightarrow> I s \<Longrightarrow> ok x s"
    and "\<And>x s sched s'. x \<in> set xs \<Longrightarrow> I s \<Longrightarrow> E x s sched = Some s' \<Longrightarrow> I s'"
  shows "each_execution E ok xs s"
  using assms
proof (induction xs arbitrary: s)
  case (Cons x xs)
  have "each_execution E ok xs s'" if "E x s sched = Some s'" for sched s'
  proof (rule Cons.IH)
    show "I s'" using Cons.prems(3) [OF _ Cons.prems(1) that] by simp
    show "ok x s" if "x \<in> set xs" "I s" for x s using Cons.prems(2) that by simp
    show "I s'" if "x \<in> set xs" "I s" "E x s sched = Some s'" for x s sched s'
      using Cons.prems(3) [of x s sched s'] that by simp
  qed
  with Cons.prems(1,2) show ?case by simp
qed simp

text \<open>
  Containers in which the executions leave elements: \<open>contains l s\<close> says that \<open>s\<close> is at rest with
  \<open>l\<close> elements, \<open>gain x\<close> is what execution \<open>x\<close> adds, and it needs \<open>room\<close> for what is there in the end.
\<close>

locale accumulating =
  fixes E :: "'x \<Rightarrow> 's \<Rightarrow> 'i list \<Rightarrow> 's option"
    and regular :: "'x \<Rightarrow> bool"
    and contains :: "nat \<Rightarrow> 's \<Rightarrow> bool"
    and gain :: "'x \<Rightarrow> nat"
    and room :: "nat \<Rightarrow> bool"
  assumes completes: "regular x \<Longrightarrow> contains l s \<Longrightarrow> never_stuck E x s \<longleftrightarrow> room (l + gain x)"
    and leaves: "regular x \<Longrightarrow> contains l s \<Longrightarrow> E x s sched = Some s' \<Longrightarrow> contains (l + gain x) s'"
    and room_less: "room (l + m) \<Longrightarrow> room l"
begin

lemma executions_leave:
  assumes "list_all regular xs" and "contains l s" and "executions E xs scheds s = Some s'"
  shows "contains (l + sum_list (map gain xs)) s'"
  using assms
proof (induction xs arbitrary: scheds s l)
  case (Cons x xs)
  then obtain sched rest s1 where "scheds = sched # rest" "E x s sched = Some s1" "executions E xs rest s1 = Some s'"
    by (cases scheds) (auto split: option.splits)
  with Cons.IH [of "l + gain x" s1 rest] Cons.prems(1,2) leaves show ?case by (simp add: add.assoc)
qed simp

lemma completes_iff:
  assumes "list_all regular xs" and "contains l s" and "room l"
  shows "each_execution E (never_stuck E) xs s \<longleftrightarrow> room (l + sum_list (map gain xs))"
  using assms
proof (induction xs arbitrary: l s)
  case (Cons x xs)
  have reg: "regular x" "list_all regular xs" using Cons.prems(1) by simp_all
  note stuck = completes [OF reg(1) Cons.prems(2)]
  show ?case
  proof (cases "never_stuck E x s")
    case True
    then have "room (l + gain x)" using stuck by simp
    then have rest: "each_execution E (never_stuck E) xs s' \<longleftrightarrow> room (l + gain x + sum_list (map gain xs))"
      if "E x s sched = Some s'" for sched s'
      using Cons.IH [OF reg(2) leaves [OF reg(1) Cons.prems(2) that]] by simp
    from True never_stuck_returns obtain sched s' where "E x s sched = Some s'" by metis
    with True rest show ?thesis by (auto simp: add.assoc)
  next
    case False
    with stuck have "\<not> room (l + gain x)" by simp
    then have "\<not> room (l + gain x + sum_list (map gain xs))" using room_less by blast
    with False show ?thesis by (simp add: add.assoc)
  qed
qed simp

end

end
