(* ===== verification/Interleave.thy ===== *)
theory Interleave
  imports Prelude
begin

text \<open>
  Threads that share memory. A program gives, for each thread number, one instruction at a time:
  a step reads and writes the shared state at most once, as one sequentially consistent atomic
  access does, and moves the thread's own state on (\<open>None\<close>: the thread has returned).
  A schedule, a list of thread numbers, determines a run, so concrete interleavings evaluate;
  the states some schedule leads to are the reachable ones, over which invariants are proved.
\<close>

section \<open>Programs, schedules and reachable configurations\<close>

type_synonym ('s, 'l) prog = "nat \<Rightarrow> 's \<Rightarrow> 'l \<Rightarrow> ('s \<times> 'l) option"
type_synonym ('s, 'l) cfg = "'s \<times> (nat \<Rightarrow> 'l)"

definition thread_step :: "('s, 'l) prog \<Rightarrow> nat \<Rightarrow> ('s, 'l) cfg \<Rightarrow> ('s, 'l) cfg option" where
  "thread_step P i c =
     (case P i (fst c) (snd c i) of
        None \<Rightarrow> None
      | Some (s', l') \<Rightarrow> Some (s', (snd c)(i := l')))"

text \<open>Scheduling a thread that has returned changes nothing.\<close>

definition sched_step :: "('s, 'l) prog \<Rightarrow> nat \<Rightarrow> nat \<Rightarrow> ('s, 'l) cfg \<Rightarrow> ('s, 'l) cfg" where
  "sched_step P n i c =
     (if i < n then (case thread_step P i c of None \<Rightarrow> c | Some c' \<Rightarrow> c') else c)"

fun run_sched :: "('s, 'l) prog \<Rightarrow> nat \<Rightarrow> nat list \<Rightarrow> ('s, 'l) cfg \<Rightarrow> ('s, 'l) cfg" where
  "run_sched P n [] c = c"
| "run_sched P n (i # is) c = run_sched P n is (sched_step P n i c)"

inductive reach :: "('s, 'l) prog \<Rightarrow> nat \<Rightarrow> ('s, 'l) cfg \<Rightarrow> ('s, 'l) cfg \<Rightarrow> bool"
  for P :: "('s, 'l) prog" and n :: nat and c0 :: "('s, 'l) cfg" where
  reach_init: "reach P n c0 c0"
| reach_step: "reach P n c0 (s, ls) \<Longrightarrow> i < n \<Longrightarrow> P i s (ls i) = Some (s', l') \<Longrightarrow>
     reach P n c0 (s', ls(i := l'))"

lemma thread_step_Some_iff:
  "thread_step P i c = Some c' \<longleftrightarrow>
     (\<exists>s' l'. P i (fst c) (snd c i) = Some (s', l') \<and> c' = (s', (snd c)(i := l')))"
  by (auto simp: thread_step_def split: option.splits)

lemma thread_step_None_iff: "thread_step P i c = None \<longleftrightarrow> P i (fst c) (snd c i) = None"
  by (auto simp: thread_step_def split: option.splits)

lemma sched_step_cases:
  obtains "sched_step P n i c = c"
  | s' l' where "i < n" and "P i (fst c) (snd c i) = Some (s', l')"
      and "sched_step P n i c = (s', (snd c)(i := l'))"
proof (cases "thread_step P i c")
  case None
  then show ?thesis using that(1) by (simp add: sched_step_def)
next
  case (Some c')
  then obtain s' l' where step: "P i (fst c) (snd c i) = Some (s', l')"
    and c': "c' = (s', (snd c)(i := l'))"
    by (auto simp: thread_step_Some_iff)
  show ?thesis
  proof (cases "i < n")
    case True
    with step c' Some show ?thesis using that(2) by (simp add: sched_step_def)
  next
    case False
    then show ?thesis using that(1) by (simp add: sched_step_def)
  qed
qed

lemma sched_step_other: "j \<noteq> i \<Longrightarrow> snd (sched_step P n i c) j = snd c j"
  by (rule sched_step_cases [of P n i c]) auto

lemma run_sched_append: "run_sched P n (xs @ ys) c = run_sched P n ys (run_sched P n xs c)"
  by (induction xs arbitrary: c) auto

lemma reach_sched_step: "reach P n c0 c \<Longrightarrow> reach P n c0 (sched_step P n i c)"
  by (cases c, rule sched_step_cases [of P n i c]) (auto intro: reach_step)

lemma reach_run_sched_from: "reach P n c0 c \<Longrightarrow> reach P n c0 (run_sched P n is c)"
  by (induction "is" arbitrary: c) (simp_all add: reach_sched_step del: split_paired_All)

lemma reach_run_sched: "reach P n c0 (run_sched P n is c0)"
  by (rule reach_run_sched_from) (rule reach_init)

text \<open>Every reachable configuration is the result of some schedule.\<close>

lemma reach_imp_sched: "reach P n c0 c \<Longrightarrow> \<exists>is. c = run_sched P n is c0"
proof (induction rule: reach.induct)
  case reach_init
  then show ?case by (metis run_sched.simps(1))
next
  case (reach_step s ls i s' l')
  then obtain "is" where "(s, ls) = run_sched P n is c0" by blast
  moreover have "sched_step P n i (s, ls) = (s', ls(i := l'))"
    using reach_step.hyps by (simp add: sched_step_def thread_step_def)
  ultimately have "(s', ls(i := l')) = run_sched P n (is @ [i]) c0"
    by (metis run_sched.simps run_sched_append)
  then show ?case by blast
qed

text \<open>
  Invariants: what holds at the start and is kept by every step of every thread holds in every
  reachable configuration.
\<close>

lemma reach_invariant:
  assumes "reach P n c0 c" and "I c0"
    and "\<And>s ls i s' l'. I (s, ls) \<Longrightarrow> i < n \<Longrightarrow> P i s (ls i) = Some (s', l') \<Longrightarrow> I (s', ls(i := l'))"
  shows "I c"
  using assms by (induction rule: reach.induct) auto

text \<open>Thread numbers that are not used never move.\<close>

lemma reach_idle: "reach P n c0 c \<Longrightarrow> n \<le> i \<Longrightarrow> snd c i = snd c0 i"
  by (induction rule: reach.induct) auto

section \<open>One thread running alone\<close>

fun solo :: "('s \<Rightarrow> 'l \<Rightarrow> ('s \<times> 'l) option) \<Rightarrow> nat \<Rightarrow> 's \<Rightarrow> 'l \<Rightarrow> 's \<times> 'l" where
  "solo f 0 s l = (s, l)"
| "solo f (Suc m) s l = (case f s l of None \<Rightarrow> (s, l) | Some (s', l') \<Rightarrow> solo f m s' l')"

lemma run_sched_solo:
  assumes "i < n" and "solo (P i) m s (ls i) = (s', l')"
  shows "run_sched P n (replicate m i) (s, ls) = (s', ls(i := l'))"
  using assms(2)
proof (induction m arbitrary: s ls)
  case 0
  then show ?case by auto
next
  case (Suc m)
  show ?case
  proof (cases "P i s (ls i)")
    case None
    then have "run_sched P n (replicate k i) (s, ls) = (s, ls)" for k
      using assms(1) by (induction k) (simp_all add: sched_step_def thread_step_def)
    then show ?thesis using None Suc.prems by (simp del: replicate.simps) auto
  next
    case (Some x)
    obtain s1 l1 where x: "x = (s1, l1)" by (cases x)
    have "solo (P i) m s1 ((ls(i := l1)) i) = (s', l')" using Suc.prems Some x by simp
    from Suc.IH [of s1 "ls(i := l1)", OF this]
    have "run_sched P n (replicate m i) (s1, ls(i := l1)) = (s', ls(i := l'))"
      by (simp only: fun_upd_upd)
    then show ?thesis
      using assms(1) Some x by (simp add: sched_step_def thread_step_def del: fun_upd_apply)
  qed
qed

section \<open>A resource with at most one owner\<close>

text \<open>
  \<open>own\<close> says of a thread's state that it owns the resource; \<open>owned_by own ls h\<close>: the owner is
  the thread \<open>h\<close>, or nobody. A step keeps the owner, takes a free resource or gives it up.
\<close>

definition owned_by :: "('l \<Rightarrow> bool) \<Rightarrow> (nat \<Rightarrow> 'l) \<Rightarrow> nat option \<Rightarrow> bool" where
  "owned_by own ls h \<longleftrightarrow> (\<forall>j. own (ls j) \<longleftrightarrow> h = Some j)"

lemma owned_by_keep:
  "owned_by own ls h \<Longrightarrow> own t' = own (ls i) \<Longrightarrow> owned_by own (ls(i := t')) h"
  by (simp add: owned_by_def)

lemma owned_by_take: "owned_by own ls None \<Longrightarrow> own t' \<Longrightarrow> owned_by own (ls(i := t')) (Some i)"
  by (auto simp: owned_by_def)

lemma owned_by_drop:
  "owned_by own ls h \<Longrightarrow> own (ls i) \<Longrightarrow> \<not> own t' \<Longrightarrow> owned_by own (ls(i := t')) None"
  by (auto simp: owned_by_def)

lemma owned_by_unique: "owned_by own ls h \<Longrightarrow> own (ls i) \<Longrightarrow> own (ls j) \<Longrightarrow> i = j"
  by (simp add: owned_by_def)

lemma owned_by_owner: "owned_by own ls h \<Longrightarrow> own (ls i) \<longleftrightarrow> h = Some i"
  by (simp add: owned_by_def)

section \<open>Traces of labelled steps\<close>

text \<open>
  A labelling names the steps an observer sees. The trace of a schedule lists them in order with
  the thread that made them.
\<close>

fun trace_of :: "('s, 'l) prog \<Rightarrow> nat \<Rightarrow> ('l \<Rightarrow> 'l \<Rightarrow> 'e option) \<Rightarrow> nat list \<Rightarrow> ('s, 'l) cfg
    \<Rightarrow> (nat \<times> 'e) list" where
  "trace_of P n lab [] c = []"
| "trace_of P n lab (i # is) c =
     (let c' = sched_step P n i c in
      (if i < n then (case lab (snd c i) (snd c' i) of None \<Rightarrow> [] | Some e \<Rightarrow> [(i, e)]) else [])
      @ trace_of P n lab is c')"

lemma trace_of_append:
  "trace_of P n lab (xs @ ys) c =
     trace_of P n lab xs c @ trace_of P n lab ys (run_sched P n xs c)"
  by (induction xs arbitrary: c) (auto simp: Let_def)

section \<open>Completion: a schedule that finishes all threads\<close>

text \<open>
  If from every reachable configuration with an unfinished thread some continuation makes a
  measure smaller, then from every reachable configuration some continuation finishes all
  threads: no reachable configuration is deadlocked or livelocked.
\<close>

lemma completion_by_measure:
  fixes \<mu> :: "('s, 'l) cfg \<Rightarrow> nat"
  assumes progress: "\<And>c. reach P n c0 c \<Longrightarrow> \<not> fin c \<Longrightarrow> \<exists>is. \<mu> (run_sched P n is c) < \<mu> c"
    and "reach P n c0 c"
  shows "\<exists>is. fin (run_sched P n is c)"
  using assms(2)
proof (induction "\<mu> c" arbitrary: c rule: less_induct)
  case less
  show ?case
  proof (cases "fin c")
    case True
    then have "fin (run_sched P n [] c)" by simp
    then show ?thesis by blast
  next
    case False
    with less.prems progress obtain xs where xs: "\<mu> (run_sched P n xs c) < \<mu> c" by blast
    from less.hyps [OF xs reach_run_sched_from [OF less.prems]]
    obtain ys where "fin (run_sched P n ys (run_sched P n xs c))" by blast
    then have "fin (run_sched P n (xs @ ys) c)" by (simp add: run_sched_append)
    then show ?thesis by blast
  qed
qed

end
