(* ===== verification/Barrier.thy ===== *)
theory Barrier
  imports Interleave
begin

text \<open>
  The barrier (\<open>common/barrier/barrier.cpp\<close>): one 64-bit counter per thread. \<open>barrier_wait\<close> counts
  its own counter up, reads it back, and then waits, counter by counter, until all of them have
  reached that value. The threads here call \<open>barrier_wait\<close> a given number of times, with other
  work in between; the theory shows when nobody leaves too early, and when everybody leaves.
\<close>

section \<open>The code\<close>

text \<open>The counters \<open>ctr[MAX_ALLOC_NR_THREADS]\<close>; \<open>nr_threads\<close> is the static variable.\<close>

record barrier_env =
  ctr :: "64 word list"
  barrier_threads :: int

text \<open>\<open>barrier_init\<close>; \<open>None\<close>: a counter outside the array was written.\<close>

fun clear_counters :: "nat \<Rightarrow> nat \<Rightarrow> barrier_env \<Rightarrow> barrier_env option" where
  "clear_counters i 0 env = Some env"
| "clear_counters i (Suc k) env =
     (case array_store (ctr env) i 0 of
        None \<Rightarrow> None
      | Some c \<Rightarrow> clear_counters (Suc i) k (env\<lparr>ctr := c\<rparr>))"

definition barrier_init :: "int \<Rightarrow> barrier_env \<Rightarrow> barrier_env option" where
  "barrier_init nr_thrds env = clear_counters 0 (nat nr_thrds) (env\<lparr>barrier_threads := nr_thrds\<rparr>)"

text \<open>
  \<open>barrier_wait(tid)\<close>, one access to a counter per instruction. \<open>Scan my_level thr\<close> is the test of
  the loops at \<open>thr\<close>. \<open>None\<close>: an access outside the array; \<open>Some (_, None)\<close>: the call returns.
\<close>

datatype barrier_label = Increment | LoadLevel | Scan "64 word" int

fun barrier_wait ::
  "nat \<Rightarrow> barrier_env \<Rightarrow> barrier_label \<Rightarrow> (barrier_env \<times> barrier_label option) option" where
  "barrier_wait tid env Increment =
     (case array_load (ctr env) tid of
        None \<Rightarrow> None
      | Some c \<Rightarrow> Some (env\<lparr>ctr := (ctr env)[tid := c + 1]\<rparr>, Some LoadLevel))"
| "barrier_wait tid env LoadLevel =
     (case array_load (ctr env) tid of
        None \<Rightarrow> None
      | Some my_level \<Rightarrow> Some (env, Some (Scan my_level 0)))"
| "barrier_wait tid env (Scan my_level thr) =
     (if \<not> thr < barrier_threads env then Some (env, None)
      else case array_load (ctr env) (nat thr) of
        None \<Rightarrow> None
      | Some c \<Rightarrow> Some (env, Some (Scan my_level (if c < my_level then thr else thr + 1))))"

section \<open>Threads that meet at the barrier\<close>

text \<open>Thread \<open>tid\<close> calls \<open>barrier_wait\<close> \<open>rounds tid\<close> times; \<open>passed\<close> counts the calls that returned.\<close>

datatype barrier_pc = Outside | Inside barrier_label | Left | Broken

record barrier_thread =
  bpc :: barrier_pc
  passed :: nat

definition meet_step ::
  "(nat \<Rightarrow> nat) \<Rightarrow> nat \<Rightarrow> barrier_env \<Rightarrow> barrier_thread \<Rightarrow> (barrier_env \<times> barrier_thread) option" where
  "meet_step rounds tid env t =
     (case bpc t of
        Outside \<Rightarrow> Some (env, t\<lparr>bpc := (if passed t < rounds tid then Inside Increment else Left)\<rparr>)
      | Inside l \<Rightarrow>
          (case barrier_wait tid env l of
             None \<Rightarrow> Some (env, t\<lparr>bpc := Broken\<rparr>)
           | Some (env', None) \<Rightarrow> Some (env', t\<lparr>bpc := Outside, passed := passed t + 1\<rparr>)
           | Some (env', Some l') \<Rightarrow> Some (env', t\<lparr>bpc := Inside l'\<rparr>))
      | Left \<Rightarrow> None
      | Broken \<Rightarrow> None)"

definition barrier_static :: barrier_env where
  "barrier_static = \<lparr>ctr = replicate MAX_ALLOC_NR_THREADS 0, barrier_threads = 0\<rparr>"

text \<open>Start: \<open>barrier_init n\<close> has run, nobody has called \<open>barrier_wait\<close>.\<close>

definition meet_init :: "nat \<Rightarrow> (barrier_env, barrier_thread) cfg" where
  "meet_init n =
     ((case barrier_init (int n) barrier_static of Some env \<Rightarrow> env | None \<Rightarrow> barrier_static),
      \<lambda>_. \<lparr>bpc = Outside, passed = 0\<rparr>)"

definition meet_run :: "nat \<Rightarrow> (nat \<Rightarrow> nat) \<Rightarrow> nat list \<Rightarrow> (barrier_env, barrier_thread) cfg" where
  "meet_run n rounds sched = run_sched (meet_step rounds) n sched (meet_init n)"

text \<open>Calls that have arrived at the barrier: those whose increment has been done.\<close>

definition arrived :: "barrier_thread \<Rightarrow> nat" where
  "arrived t = passed t +
     (case bpc t of Inside LoadLevel \<Rightarrow> 1 | Inside (Scan _ _) \<Rightarrow> 1 | _ \<Rightarrow> 0)"

definition valid_meet :: "nat \<Rightarrow> (nat \<Rightarrow> nat) \<Rightarrow> bool" where
  "valid_meet n rounds \<longleftrightarrow> n \<le> MAX_ALLOC_NR_THREADS \<and> (\<forall>i<n. rounds i < 2 ^ 64)"

section \<open>Initialisation\<close>

lemma clear_counters_result:
  "i + k \<le> length (ctr env) \<Longrightarrow>
   clear_counters i k env =
     Some (env\<lparr>ctr := take i (ctr env) @ replicate k 0 @ drop (i + k) (ctr env)\<rparr>)"
proof (induction i k env rule: clear_counters.induct)
  case (1 i env)
  then show ?case by simp
next
  case (2 i k env)
  then have i: "i < length (ctr env)" by simp
  with 2 have "clear_counters (Suc i) k (env\<lparr>ctr := (ctr env)[i := 0]\<rparr>) =
      Some (env\<lparr>ctr := take (Suc i) ((ctr env)[i := 0]) @ replicate k 0 @
        drop (Suc i + k) ((ctr env)[i := 0])\<rparr>)"
    by (simp add: array_simps)
  moreover have "take (Suc i) ((ctr env)[i := 0]) = take i (ctr env) @ [0]"
    using i by (simp add: take_Suc_conv_app_nth)
  ultimately show ?case using i by (simp add: array_simps)
qed

lemma meet_init_eq:
  assumes "n \<le> MAX_ALLOC_NR_THREADS"
  shows "meet_init n = (\<lparr>ctr = replicate MAX_ALLOC_NR_THREADS 0, barrier_threads = int n\<rparr>,
    \<lambda>_. \<lparr>bpc = Outside, passed = 0\<rparr>)"
proof -
  have "clear_counters 0 n (barrier_static\<lparr>barrier_threads := int n\<rparr>) =
      Some \<lparr>ctr = replicate n 0 @ replicate (MAX_ALLOC_NR_THREADS - n) 0, barrier_threads = int n\<rparr>"
    using assms by (subst clear_counters_result) (simp_all add: barrier_static_def)
  moreover have "replicate n 0 @ replicate (MAX_ALLOC_NR_THREADS - n) (0 :: 64 word) =
      replicate MAX_ALLOC_NR_THREADS 0"
    using assms by (simp add: replicate_add [symmetric])
  ultimately show ?thesis by (simp add: meet_init_def barrier_init_def)
qed

section \<open>Invariant: nobody has passed more calls than everybody has arrived at\<close>

definition barrier_inv ::
  "nat \<Rightarrow> (nat \<Rightarrow> nat) \<Rightarrow> (barrier_env, barrier_thread) cfg \<Rightarrow> bool" where
  "barrier_inv n rounds c \<longleftrightarrow>
     length (ctr (fst c)) = MAX_ALLOC_NR_THREADS \<and> barrier_threads (fst c) = int n \<and>
     (\<forall>i<n. ctr (fst c) ! i = of_nat (arrived (snd c i)) \<and> arrived (snd c i) \<le> rounds i \<and>
        bpc (snd c i) \<noteq> Broken \<and>
        (bpc (snd c i) = Inside Increment \<longrightarrow> passed (snd c i) < rounds i) \<and>
        (bpc (snd c i) = Left \<longrightarrow> passed (snd c i) = rounds i)) \<and>
     (\<forall>i<n. \<forall>j<n. passed (snd c i) \<le> arrived (snd c j)) \<and>
     (\<forall>i<n. \<forall>l thr. bpc (snd c i) = Inside (Scan l thr) \<longrightarrow>
        l = of_nat (arrived (snd c i)) \<and> 0 \<le> thr \<and>
        (\<forall>j<n. int j < thr \<longrightarrow> arrived (snd c i) \<le> arrived (snd c j)))"

lemma arrived_simps [simp]:
  "bpc t = Outside \<Longrightarrow> arrived t = passed t"
  "bpc t = Left \<Longrightarrow> arrived t = passed t"
  "bpc t = Inside Increment \<Longrightarrow> arrived t = passed t"
  "bpc t = Inside LoadLevel \<Longrightarrow> arrived t = Suc (passed t)"
  "bpc t = Inside (Scan l thr) \<Longrightarrow> arrived t = Suc (passed t)"
  by (simp_all add: arrived_def)

lemma barrier_inv_init:
  assumes "valid_meet n rounds"
  shows "barrier_inv n rounds (meet_init n)"
  using assms by (simp add: barrier_inv_def meet_init_eq valid_meet_def)

lemma barrier_inv_parts:
  assumes "barrier_inv n rounds (s, ls)"
  shows "length (ctr s) = MAX_ALLOC_NR_THREADS" and "barrier_threads s = int n"
    and "i < n \<Longrightarrow> ctr s ! i = of_nat (arrived (ls i))"
    and "i < n \<Longrightarrow> arrived (ls i) \<le> rounds i"
    and "i < n \<Longrightarrow> bpc (ls i) \<noteq> Broken"
    and "i < n \<Longrightarrow> bpc (ls i) = Inside Increment \<Longrightarrow> passed (ls i) < rounds i"
    and "i < n \<Longrightarrow> bpc (ls i) = Left \<Longrightarrow> passed (ls i) = rounds i"
    and "i < n \<Longrightarrow> j < n \<Longrightarrow> passed (ls i) \<le> arrived (ls j)"
    and "i < n \<Longrightarrow> bpc (ls i) = Inside (Scan l thr) \<Longrightarrow>
      l = of_nat (arrived (ls i)) \<and> 0 \<le> thr \<and>
      (\<forall>j<n. int j < thr \<longrightarrow> arrived (ls i) \<le> arrived (ls j))"
  using assms unfolding barrier_inv_def fst_conv snd_conv by blast+

text \<open>A step that changes only thread \<open>i\<close>'s own counter, upwards, and its state.\<close>

lemma barrier_inv_update:
  assumes inv: "barrier_inv n rounds (s, ls)" and "i < n" and "i < length (ctr s)"
    and env: "ctr s' = (ctr s)[i := of_nat (arrived t')]" "barrier_threads s' = barrier_threads s"
    and own: "arrived (ls i) \<le> arrived t'" "arrived t' \<le> rounds i" "bpc t' \<noteq> Broken"
      "bpc t' = Inside Increment \<Longrightarrow> passed t' < rounds i"
      "bpc t' = Left \<Longrightarrow> passed t' = rounds i"
    and passed: "\<And>j. j < n \<Longrightarrow> j \<noteq> i \<Longrightarrow> passed t' \<le> arrived (ls j)" "passed t' \<le> arrived t'"
    and scan: "\<And>l thr. bpc t' = Inside (Scan l thr) \<Longrightarrow> l = of_nat (arrived t') \<and> 0 \<le> thr \<and>
      (\<forall>j<n. int j < thr \<longrightarrow> j \<noteq> i \<longrightarrow> arrived t' \<le> arrived (ls j))"
  shows "barrier_inv n rounds (s', ls(i := t'))"
proof -
  note p = barrier_inv_parts [OF inv]
  have up: "arrived (ls j) \<le> arrived ((ls(i := t')) j)" for j using own(1) by simp
  show ?thesis
    unfolding barrier_inv_def fst_conv snd_conv
  proof (intro conjI allI impI)
    show "length (ctr s') = MAX_ALLOC_NR_THREADS" using p(1) env(1) by simp
    show "barrier_threads s' = int n" using p(2) env(2) by simp
  next
    fix j assume j: "j < n"
    show "arrived ((ls(i := t')) j) \<le> rounds j" using p(4) [OF j] own(2) by simp
    show "bpc ((ls(i := t')) j) \<noteq> Broken" using p(5) [OF j] own(3) by simp
    show "ctr s' ! j = of_nat (arrived ((ls(i := t')) j))"
      using p(3) [OF j] env(1) \<open>i < length (ctr s)\<close> by (cases "j = i") simp_all
  next
    fix j assume "j < n" "bpc ((ls(i := t')) j) = Inside Increment"
    then show "passed ((ls(i := t')) j) < rounds j"
      using p(6) own(4) by (cases "j = i") auto
  next
    fix j assume "j < n" "bpc ((ls(i := t')) j) = Left"
    then show "passed ((ls(i := t')) j) = rounds j"
      using p(7) own(5) by (cases "j = i") auto
  next
    fix j k assume "j < n" "k < n"
    then show "passed ((ls(i := t')) j) \<le> arrived ((ls(i := t')) k)"
      using p(8) [of j k] passed up [of k] by (cases "j = i"; cases "k = i") auto
  next
    fix j l thr k
    assume "j < n" "bpc ((ls(i := t')) j) = Inside (Scan l thr)"
    then have "l = of_nat (arrived ((ls(i := t')) j)) \<and> 0 \<le> thr \<and>
       (\<forall>k<n. int k < thr \<longrightarrow> k \<noteq> j \<longrightarrow> arrived ((ls(i := t')) j) \<le> arrived ((ls(i := t')) k))"
    proof (cases "j = i")
      case True
      with \<open>bpc ((ls(i := t')) j) = _\<close> scan [of l thr] show ?thesis by auto
    next
      case False
      with \<open>bpc ((ls(i := t')) j) = _\<close> p(9) [OF \<open>j < n\<close>, of l thr] up show ?thesis
        by (metis fun_upd_other order_trans)
    qed
    then show "l = of_nat (arrived ((ls(i := t')) j))" "0 \<le> thr"
      "k < n \<Longrightarrow> int k < thr \<Longrightarrow> arrived ((ls(i := t')) j) \<le> arrived ((ls(i := t')) k)"
      by auto
  qed
qed

lemma barrier_inv_step:
  assumes valid: "valid_meet n rounds" and inv: "barrier_inv n rounds (s, ls)" and i: "i < n"
    and step: "meet_step rounds i s (ls i) = Some (s', t')"
  shows "barrier_inv n rounds (s', ls(i := t'))"
proof -
  note p = barrier_inv_parts [OF inv]
  have len: "i < length (ctr s)" using i p(1) valid by (simp add: valid_meet_def)
  note upd = barrier_inv_update [OF inv i len]
  have keep: "ctr s = (ctr s)[i := of_nat (arrived t')]" if "arrived t' = arrived (ls i)"
    using p(3) [OF i] that by (metis list_update_id)
  have mine: "passed (ls i) \<le> arrived (ls j)" if "j < n" for j
    using p(8) [OF i that] .
  show ?thesis
  proof (cases "bpc (ls i)")
    case Outside
    then have "s' = s" "t' = (ls i)\<lparr>bpc := (if passed (ls i) < rounds i then Inside Increment else Left)\<rparr>"
      using step by (auto simp: meet_step_def)
    moreover have "arrived t' = arrived (ls i)"
      using Outside calculation(2) by (cases "passed (ls i) < rounds i") simp_all
    ultimately show ?thesis
      using keep Outside p(4) [OF i] mine by (intro upd) (auto split: if_splits)
  next
    case (Inside l)
    show ?thesis
    proof (cases l)
      case Increment
      with Inside step len have eq: "s' = s\<lparr>ctr := (ctr s)[i := ctr s ! i + 1]\<rparr>"
        "t' = (ls i)\<lparr>bpc := Inside LoadLevel\<rparr>"
        by (auto simp: meet_step_def array_simps)
      moreover have "ctr s ! i + 1 = of_nat (arrived t')"
        using p(3) [OF i] Inside Increment eq(2) by simp
      ultimately show ?thesis
        using Inside Increment p(6) [OF i] mine by (intro upd) auto
    next
      case LoadLevel
      with Inside step len have eq: "s' = s" "t' = (ls i)\<lparr>bpc := Inside (Scan (ctr s ! i) 0)\<rparr>"
        by (auto simp: meet_step_def array_simps)
      then have "arrived t' = arrived (ls i)" using Inside LoadLevel by simp
      with eq keep show ?thesis
        using Inside LoadLevel p(3,4) [OF i] mine by (intro upd) auto
    next
      case (Scan lvl thr)
      with Inside have pc: "bpc (ls i) = Inside (Scan lvl thr)" by simp
      note sc = p(9) [OF i pc]
      have arr: "arrived (ls i) = Suc (passed (ls i))" using pc by simp
      show ?thesis
      proof (cases "thr < int n")
        case False
        with pc step p(2) have eq: "s' = s" "t' = (ls i)\<lparr>bpc := Outside, passed := passed (ls i) + 1\<rparr>"
          by (auto simp: meet_step_def)
        then have "arrived t' = arrived (ls i)" using arr by simp
        with eq keep show ?thesis
          using sc arr p(4) [OF i] False by (intro upd) auto
      next
        case True
        then have j: "nat thr < n" using sc by (simp add: nat_less_iff)
        have c: "ctr s ! nat thr = of_nat (arrived (ls (nat thr)))" using p(3) [OF j] .
        have small: "arrived (ls k) < 2 ^ 64" if "k < n" for k
          using p(4) [OF that] valid that by (auto simp: valid_meet_def intro: le_less_trans)
        have less: "ctr s ! nat thr < lvl \<longleftrightarrow> arrived (ls (nat thr)) < arrived (ls i)"
          using sc c small [OF i] small [OF j] by (simp add: word_less_nat_alt unat_of_nat)
        have "nat thr < length (ctr s)" using j p(1) valid by (simp add: valid_meet_def)
        with pc step p(2) True have eq: "s' = s"
          "t' = (ls i)\<lparr>bpc := Inside (Scan lvl (if ctr s ! nat thr < lvl then thr else thr + 1))\<rparr>"
          by (auto simp: meet_step_def array_simps)
        then have "arrived t' = arrived (ls i)" using arr by simp
        moreover have "arrived (ls i) \<le> arrived (ls k)"
          if "k < n" "int k < (if ctr s ! nat thr < lvl then thr else thr + 1)" for k
          using sc that less by (cases "int k < thr") (auto split: if_splits)
        ultimately show ?thesis
          using eq keep sc p(4) [OF i] mine by (intro upd) (auto split: if_splits)
      qed
    qed
  qed (use step in \<open>simp_all add: meet_step_def\<close>)
qed

lemma barrier_inv_run:
  assumes "valid_meet n rounds"
  shows "barrier_inv n rounds (meet_run n rounds sched)"
  unfolding meet_run_def
proof (rule reach_invariant [OF reach_run_sched])
  show "barrier_inv n rounds (meet_init n)" by (rule barrier_inv_init [OF assms])
qed (rule barrier_inv_step [OF assms])

section \<open>With equal numbers of calls nobody waits for ever\<close>

definition all_left :: "nat \<Rightarrow> (barrier_env, barrier_thread) cfg \<Rightarrow> bool" where
  "all_left n c \<longleftrightarrow> (\<forall>i<n. bpc (snd c i) = Left)"

text \<open>How far a thread is from \<open>Left\<close>; the spinning test of \<open>Scan\<close> does not change it.\<close>

definition meet_rank :: "nat \<Rightarrow> nat \<Rightarrow> barrier_thread \<Rightarrow> nat" where
  "meet_rank n m t = (m - passed t) * (n + 5) +
     (case bpc t of
        Outside \<Rightarrow> n + 6
      | Inside Increment \<Rightarrow> n + 5
      | Inside LoadLevel \<Rightarrow> n + 4
      | Inside (Scan _ thr) \<Rightarrow> nat (int n - thr) + 3
      | _ \<Rightarrow> 0)"

definition meets :: "nat \<Rightarrow> (nat \<Rightarrow> nat) \<Rightarrow> nat \<Rightarrow> barrier_env \<Rightarrow> barrier_thread \<Rightarrow> bool" where
  "meets n rounds i s t \<longleftrightarrow>
     (\<exists>s' t'. meet_step rounds i s t = Some (s', t') \<and> meet_rank n (rounds i) t' < meet_rank n (rounds i) t)"

lemma meets_step:
  "meet_step rounds i s t = Some (s', t') \<Longrightarrow> meet_rank n (rounds i) t' < meet_rank n (rounds i) t \<Longrightarrow>
   meets n rounds i s t"
  by (auto simp: meets_def)

text \<open>Every step lowers the rank except a scan that finds a counter behind.\<close>

lemma barrier_meets:
  assumes valid: "valid_meet n rounds" and inv: "barrier_inv n rounds (s, ls)"
    and i: "i < n" "bpc (ls i) \<noteq> Left"
    and scan: "\<And>l thr. bpc (ls i) = Inside (Scan l thr) \<Longrightarrow> thr < int n \<Longrightarrow> \<not> ctr s ! nat thr < l"
  shows "meets n rounds i s (ls i)"
proof -
  note p = barrier_inv_parts [OF inv]
  have len: "j < length (ctr s)" if "j < n" for j
    using that p(1) valid by (simp add: valid_meet_def)
  have ok: "bpc (ls i) \<noteq> Broken" using p(5) i by simp
  show ?thesis
  proof (cases "bpc (ls i)")
    case Outside
    then show ?thesis by (intro meets_step) (auto simp: meet_step_def meet_rank_def)
  next
    case (Inside l)
    show ?thesis
    proof (cases l)
      case (Scan lvl thr)
      with Inside have pc: "bpc (ls i) = Inside (Scan lvl thr)" by simp
      note sc = p(9) [OF i(1) pc]
      show ?thesis
      proof (cases "thr < int n")
        case True
        then have "nat thr < n" using sc by (simp add: nat_less_iff)
        then have "array_load (ctr s) (nat thr) = Some (ctr s ! nat thr)"
          by (simp add: array_simps len)
        then have step: "meet_step rounds i s (ls i) =
            Some (s, (ls i)\<lparr>bpc := Inside (Scan lvl (thr + 1))\<rparr>)"
          using pc True scan [OF pc True] p(2) by (simp add: meet_step_def)
        show ?thesis
          by (rule meets_step [OF step]) (use pc True in \<open>simp add: meet_rank_def\<close>)
      next
        case False
        have "passed (ls i) < rounds i" using p(4) [OF i(1)] pc by simp
        then obtain d where "rounds i - passed (ls i) = Suc d" "rounds i - Suc (passed (ls i)) = d"
          by (metis Suc_diff_Suc)
        with pc False p(2) show ?thesis
          by (intro meets_step) (auto simp: meet_step_def meet_rank_def)
      qed
    qed (use Inside len [OF i(1)] in
      \<open>auto intro!: meets_step simp: meet_step_def meet_rank_def array_simps\<close>)
  qed (use i ok in simp_all)
qed

text \<open>Among threads that all scan, the one that has passed the fewest calls finds every counter ahead.\<close>

lemma barrier_progress:
  assumes valid: "valid_meet n rounds" and inv: "barrier_inv n rounds (s, ls)"
    and eq: "\<And>i. i < n \<Longrightarrow> rounds i = m" and unfinished: "\<not> all_left n (s, ls)"
  shows "\<exists>i<n. meets n rounds i s (ls i)"
proof -
  note p = barrier_inv_parts [OF inv]
  let ?U = "{i. i < n \<and> bpc (ls i) \<noteq> Left}"
  from unfinished obtain k where k: "k \<in> ?U" by (auto simp: all_left_def)
  from ex_has_least_nat [where P = "\<lambda>i. i \<in> ?U" and m = "\<lambda>i. passed (ls i)", OF k]
  obtain i where "i \<in> ?U" and least: "\<And>j. j \<in> ?U \<Longrightarrow> passed (ls i) \<le> passed (ls j)"
    by blast
  then have i: "i < n" "bpc (ls i) \<noteq> Left" by simp_all
  show ?thesis
  proof (cases "\<exists>j\<in>?U. \<forall>l thr. bpc (ls j) \<noteq> Inside (Scan l thr)")
    case True
    then show ?thesis using barrier_meets [OF valid inv] by blast
  next
    case False
    have "\<not> ctr s ! nat thr < l" if pc: "bpc (ls i) = Inside (Scan l thr)" and "thr < int n" for l thr
    proof -
      note sc = p(9) [OF i(1) pc]
      define j where "j = nat thr"
      have j: "j < n" using sc \<open>thr < int n\<close> by (simp add: j_def nat_less_iff)
      have "arrived (ls i) \<le> arrived (ls j)"
      proof (cases "bpc (ls j) = Left")
        case True
        then have "arrived (ls j) = m" using p(7) [OF j] eq [OF j] by simp
        then show ?thesis using p(4) [OF i(1)] eq [OF i(1)] by simp
      next
        case False
        with j \<open>\<not> (\<exists>j\<in>?U. _ j)\<close> obtain l' thr' where "bpc (ls j) = Inside (Scan l' thr')" by blast
        moreover have "passed (ls i) \<le> passed (ls j)" using least j False by simp
        ultimately show ?thesis using pc by simp
      qed
      moreover have "ctr s ! j = of_nat (arrived (ls j))" using p(3) [OF j] .
      moreover have "arrived (ls k) < 2 ^ 64" if "k < n" for k
        using p(4) [OF that] valid that by (auto simp: valid_meet_def intro: le_less_trans)
      ultimately show ?thesis
        using sc i(1) j by (simp add: j_def [symmetric] word_less_nat_alt unat_of_nat)
    qed
    with barrier_meets [OF valid inv i] i(1) show ?thesis by blast
  qed
qed

lemma meet_rank_step:
  assumes "i < n" and "meets n rounds i (fst c) (snd c i)"
  shows "(\<Sum>j<n. meet_rank n (rounds j) (snd (run_sched (meet_step rounds) n [i] c) j)) <
    (\<Sum>j<n. meet_rank n (rounds j) (snd c j))"
proof -
  from assms(2) obtain s' t' where step: "meet_step rounds i (fst c) (snd c i) = Some (s', t')"
    and less: "meet_rank n (rounds i) t' < meet_rank n (rounds i) (snd c i)"
    by (auto simp: meets_def)
  have "run_sched (meet_step rounds) n [i] c = (s', (snd c)(i := t'))"
    using assms(1) step by (simp add: sched_step_def thread_step_def)
  then show ?thesis
    using sum_fun_upd_less [where f = "snd c" and i = i and x = t' and
        g = "\<lambda>j. meet_rank n (rounds j)", OF assms(1) less]
    by simp
qed

lemma meet_completes:
  assumes valid: "valid_meet n rounds" and eq: "\<And>i. i < n \<Longrightarrow> rounds i = m"
  shows "\<exists>more. all_left n (meet_run n rounds (sched @ more))"
proof -
  have "\<exists>more. all_left n (run_sched (meet_step rounds) n more
      (run_sched (meet_step rounds) n sched (meet_init n)))"
  proof (rule completion_by_measure [where \<mu> = "\<lambda>c. \<Sum>j<n. meet_rank n (rounds j) (snd c j)"])
    fix c assume r: "reach (meet_step rounds) n (meet_init n) c" and "\<not> all_left n c"
    have "barrier_inv n rounds c"
      by (rule reach_invariant [where I = "barrier_inv n rounds", OF r barrier_inv_init [OF valid]])
        (rule barrier_inv_step [OF valid])
    with barrier_progress [OF valid _ eq, of "fst c" "snd c"] \<open>\<not> all_left n c\<close>
    obtain i where "i < n" "meets n rounds i (fst c) (snd c i)" by auto
    from meet_rank_step [OF this]
    show "\<exists>is. (\<Sum>j<n. meet_rank n (rounds j) (snd (run_sched (meet_step rounds) n is c) j)) <
        (\<Sum>j<n. meet_rank n (rounds j) (snd c j))"
      by blast
  qed (rule reach_run_sched)
  then show ?thesis by (simp add: meet_run_def run_sched_append)
qed

text \<open>Conversely, when all have left, all have made the same number of calls.\<close>

lemma left_equal:
  assumes valid: "valid_meet n rounds" and left: "all_left n (meet_run n rounds sched)"
    and "i < n" and "j < n"
  shows "rounds i = rounds j"
proof -
  obtain s ls where c: "meet_run n rounds sched = (s, ls)" by fastforce
  note inv = barrier_inv_run [OF valid, of sched, unfolded c]
  have "rounds k \<le> rounds l" if "k < n" "l < n" for k l
    using barrier_inv_parts(7,8) [OF inv] left that by (simp add: all_left_def c)
  with assms show ?thesis by (simp add: le_antisym)
qed

section \<open>Properties\<close>

text \<open>
  C18: No thread leaves its \<open>k\<close>-th \<open>barrier_wait\<close> before every thread has arrived at its \<open>k\<close>-th one,
  and no call ever accesses a counter outside the array. So at any moment two threads are at
  most one barrier phase apart.
\<close>

theorem barrier_safe:
  assumes "valid_meet n rounds" and "i < n" and "j < n"
  shows "passed (snd (meet_run n rounds sched) i) \<le> arrived (snd (meet_run n rounds sched) j) \<and>
    passed (snd (meet_run n rounds sched) i) \<le> passed (snd (meet_run n rounds sched) j) + 1 \<and>
    bpc (snd (meet_run n rounds sched) i) \<noteq> Broken"
proof -
  obtain s ls where c: "meet_run n rounds sched = (s, ls)" by fastforce
  note p = barrier_inv_parts [OF barrier_inv_run [OF assms(1), of sched, unfolded c]]
  have "arrived (ls j) \<le> passed (ls j) + 1"
    by (simp add: arrived_def split: barrier_pc.splits barrier_label.splits)
  with p(5) [OF assms(2)] p(8) [OF assms(2,3)] show ?thesis by (simp add: c)
qed

theorem barrier_safe_witness:
  "passed (snd (meet_run 2 (\<lambda>_. 3) [0, 0, 0, 1, 0, 0]) 0)
     \<le> arrived (snd (meet_run 2 (\<lambda>_. 3) [0, 0, 0, 1, 0, 0]) 1) \<and>
   passed (snd (meet_run 2 (\<lambda>_. 3) [0, 0, 0, 1, 0, 0]) 0)
     \<le> passed (snd (meet_run 2 (\<lambda>_. 3) [0, 0, 0, 1, 0, 0]) 1) + 1 \<and>
   bpc (snd (meet_run 2 (\<lambda>_. 3) [0, 0, 0, 1, 0, 0]) 0) \<noteq> Broken"
  using barrier_safe [of 2 "\<lambda>_. 3" 0 1 "[0, 0, 0, 1, 0, 0]"]
  by (simp add: valid_meet_def MAX_ALLOC_NR_THREADS_def)

text \<open>
  C19: Threads that use the barrier can always go on to the end, whatever happened so far, exactly
  when all of them call \<open>barrier_wait\<close> equally often.
\<close>

theorem barrier_completes_iff:
  assumes "valid_meet n rounds"
  shows "(\<forall>sched. \<exists>more. all_left n (meet_run n rounds (sched @ more))) \<longleftrightarrow>
    (\<forall>i<n. \<forall>j<n. rounds i = rounds j)"
proof
  assume "\<forall>sched. \<exists>more. all_left n (meet_run n rounds (sched @ more))"
  then show "\<forall>i<n. \<forall>j<n. rounds i = rounds j" using left_equal [OF assms] by blast
next
  assume eq: "\<forall>i<n. \<forall>j<n. rounds i = rounds j"
  show "\<forall>sched. \<exists>more. all_left n (meet_run n rounds (sched @ more))"
    using meet_completes [OF assms, of "rounds 0"] eq by (metis gr_implies_not0 gr0I)
qed

theorem barrier_completes_iff_witness:
  "(\<forall>sched. \<exists>more. all_left 2 (meet_run 2 (\<lambda>_. 3) (sched @ more))) \<longleftrightarrow>
    (\<forall>i<2::nat. \<forall>j<2::nat. (3::nat) = 3)"
  using barrier_completes_iff [of 2 "\<lambda>_. 3"] by (simp add: valid_meet_def MAX_ALLOC_NR_THREADS_def)

end
