(* ===== verification/Driver.thy ===== *)
theory Driver
  imports Barrier "HOL-Library.Signed_Division"
begin

text \<open>
  What the benchmark drivers (\<open>driver.cpp\<close> of every benchmark) have in common. A thread function is
  modelled by the list of the calls it makes, in order; \<open>main\<close> by the list of the calls it makes
  for given results of the command-line parser and of PAPI, which are not part of the repository.
  The threads synchronise at the barrier before each measured call, so the theory also says when
  they cannot block each other.
\<close>

section \<open>Calls of a benchmark thread\<close>

text \<open>
  \<open>'c\<close>: the calls into the benchmarked component. \<open>Enter_sample tid exec run\<close> enters the
  difference of the two preceding clock readings.
\<close>

datatype 'c thread_action =
    Barrier_wait int
  | Get_nsec
  | Call 'c
  | Enter_sample int int int
  | Thread_init_failed int
  | Exit_failure

text \<open>
  \<open>iter_per_thread\<close>: the share of thread \<open>k\<close> (counting from 0) of \<open>nr_iter\<close> iterations over
  \<open>n\<close> threads. Both operators of the source truncate towards zero.
\<close>

definition split_iters :: "int \<Rightarrow> int \<Rightarrow> int \<Rightarrow> int" where
  "split_iters nr_iter n k = nr_iter sdiv n + (if k < nr_iter smod n then 1 else 0)"

text \<open>
  The loops over runs \<open>0..last_run\<close> and executions: what a thread does before the measured call in each
  execution, the measured call itself if the thread takes part in the run, and what it does
  afterwards.
\<close>

definition measured_loop ::
  "int \<Rightarrow> int \<Rightarrow> int \<Rightarrow> (int \<Rightarrow> bool) \<Rightarrow> 'c thread_action list \<Rightarrow> (int \<Rightarrow> 'c) \<Rightarrow> 'c thread_action list
    \<Rightarrow> 'c thread_action list" where
  "measured_loop tid last_run nr_exec takes_part before measured after =
     concat (map (\<lambda>run.
       concat (map (\<lambda>exec.
           before @
           (if takes_part run
            then [Get_nsec, Call (measured run), Get_nsec, Enter_sample tid exec run] else []) @
           after)
         [0..nr_exec - 1]))
       [0..last_run])"

section \<open>Calls of \<open>main\<close>\<close>

text \<open>
  \<open>'t\<close>: a thread function with its arguments other than the thread number, \<open>'u\<close>: the calls that
  prepare and remove the benchmarked component. \<open>Dump_data ovw range\<close>: with the collector over
  \<open>(population, start, stop, scaling)\<close> and the file name, or with the default collector.
  \<open>Undefined\<close>: behaviour the language does not define (overflow, or an array whose length is not
  positive).
\<close>

datatype ('t, 'u) main_action =
    Uncaught_exception
  | Print_usage
  | Print_too_many_threads
  | Print_papi_failed
  | Exit_with_failure
  | Undefined
  | Barrier_init int
  | Init_stats int int int
  | Component_call 'u
  | Create int 't
  | Join int
  | Dump_data bool "(int \<times> int \<times> int \<times> bool \<times> string) option"
  | Delete_samples
  | Return_0

section \<open>What can be read off the calls\<close>

fun barrier_calls :: "'c thread_action list \<Rightarrow> nat" where
  "barrier_calls [] = 0"
| "barrier_calls (Barrier_wait t # as) = Suc (barrier_calls as)"
| "barrier_calls (a # as) = barrier_calls as"

fun samples :: "'c thread_action list \<Rightarrow> (int \<times> int \<times> int) list" where
  "samples [] = []"
| "samples (Enter_sample t e r # as) = (t, e, r) # samples as"
| "samples (a # as) = samples as"

text \<open>Each sample with the call it measures: the last one before it.\<close>

fun measurements :: "'c option \<Rightarrow> 'c thread_action list \<Rightarrow> ('c \<times> int \<times> int) list" where
  "measurements c [] = []"
| "measurements c (Call c' # as) = measurements (Some c') as"
| "measurements c (Enter_sample t e r # as) =
     (case c of None \<Rightarrow> [] | Some c' \<Rightarrow> [(c', e, r)]) @ measurements None as"
| "measurements c (a # as) = measurements c as"

text \<open>The iterations (\<open>n_of\<close> of the measured call) behind the samples of one execution of one run.\<close>

definition work :: "('c \<Rightarrow> int) \<Rightarrow> int \<Rightarrow> int \<Rightarrow> 'c thread_action list \<Rightarrow> int" where
  "work n_of exec run as =
     sum_list (map (\<lambda>(c, e, r). if e = exec \<and> r = run then n_of c else 0) (measurements None as))"

lemma barrier_calls_append [simp]: "barrier_calls (as @ bs) = barrier_calls as + barrier_calls bs"
  by (induction as rule: barrier_calls.induct) auto

lemma samples_append [simp]: "samples (as @ bs) = samples as @ samples bs"
  by (induction as rule: samples.induct) auto

lemma barrier_calls_concat: "barrier_calls (concat ass) = sum_list (map barrier_calls ass)"
  by (induction ass) auto

lemma samples_concat: "samples (concat ass) = concat (map samples ass)"
  by (induction ass) auto

text \<open>A list of calls without a sample only changes the call remembered.\<close>

fun last_call :: "'c option \<Rightarrow> 'c thread_action list \<Rightarrow> 'c option" where
  "last_call c [] = c"
| "last_call c (Call c' # as) = last_call (Some c') as"
| "last_call c (Enter_sample t e r # as) = last_call None as"
| "last_call c (a # as) = last_call c as"

lemma measurements_append:
  "measurements c (as @ bs) = measurements c as @ measurements (last_call c as) bs"
  by (induction c as rule: last_call.induct) (auto split: option.splits)

lemma measurements_no_sample: "samples as = [] \<Longrightarrow> measurements c as = []"
  by (induction c as rule: measurements.induct) auto

lemma measurements_round:
  assumes "samples before = []" and "samples after = []"
  shows "measurements c (before @ [Get_nsec, Call m, Get_nsec, Enter_sample t e r] @ after) = [(m, e, r)]"
  using assms by (simp add: measurements_append measurements_no_sample)

section \<open>Splitting the iterations\<close>

lemma split_iters_nonneg:
  assumes "0 \<le> nr_iter" and "0 < n"
  shows "split_iters nr_iter n k = nr_iter div n + (if k < nr_iter mod n then 1 else 0)"
  using assms by (simp add: split_iters_def signed_divide_int_def signed_modulo_int_def sgn_if)

lemma split_iters_ge_0: "0 \<le> nr_iter \<Longrightarrow> 0 < n \<Longrightarrow> 0 \<le> split_iters nr_iter n k"
  by (simp add: split_iters_nonneg pos_imp_zdiv_nonneg_iff)

text \<open>The shares of the \<open>n\<close> threads add up to \<open>nr_iter\<close>: nothing is lost or done twice.\<close>

lemma sum_split_iters:
  assumes "0 \<le> nr_iter" and "0 < n"
  shows "(\<Sum>k<n. split_iters nr_iter (int n) (int k)) = nr_iter"
proof -
  have "(\<Sum>k<n. if int k < nr_iter mod int n then 1 else 0 :: int) =
      (\<Sum>k\<in>{k. k < n \<and> int k < nr_iter mod int n}. 1)"
    by (subst sum.inter_filter [symmetric]) (auto intro!: sum.cong)
  also have "\<dots> = int (card {k. k < n \<and> int k < nr_iter mod int n})" by simp
  also have "{k. k < n \<and> int k < nr_iter mod int n} = {..<nat (nr_iter mod int n)}"
  proof -
    have "nat (nr_iter mod int n) < n" using assms by (simp add: nat_less_iff)
    then show ?thesis using assms by auto
  qed
  finally have "(\<Sum>k<n. if int k < nr_iter mod int n then 1 else 0 :: int) = nr_iter mod int n"
    using assms by simp
  then show ?thesis
    using assms by (simp add: split_iters_nonneg sum.distrib)
qed

section \<open>The measured loop\<close>

text \<open>
  The part before and after the measured call enters no sample; its barrier calls decide how the
  threads of a benchmark meet.
\<close>

lemma barrier_calls_measured_loop:
  assumes "0 \<le> last_run" and "0 \<le> nr_exec"
  shows "barrier_calls (measured_loop tid last_run nr_exec takes_part before measured after) =
    nat (last_run + 1) * (nat nr_exec * (barrier_calls before + barrier_calls after))"
  using assms
  by (simp add: measured_loop_def barrier_calls_concat comp_def if_distrib [of barrier_calls]
      sum_list_triv algebra_simps cong: if_cong)

lemma samples_measured_loop:
  assumes "samples before = []" and "samples after = []"
  shows "samples (measured_loop tid last_run nr_exec takes_part before measured after) =
    concat (map (\<lambda>run. concat (map (\<lambda>exec. if takes_part run then [(tid, exec, run)] else [])
      [0..nr_exec - 1])) [0..last_run])"
  using assms
  by (simp add: measured_loop_def samples_concat comp_def if_distrib [of samples] cong: if_cong)

lemma measurements_concat_map:
  assumes "\<And>x c. measurements c (f x) = g x"
  shows "measurements c (concat (map f xs)) = concat (map g xs)"
  using assms by (induction xs arbitrary: c) (simp_all add: measurements_append)

lemma measurements_measured_loop:
  assumes "samples before = []" and "samples after = []"
  shows "measurements c (measured_loop tid last_run nr_exec takes_part before measured after) =
    concat (map (\<lambda>run. concat (map (\<lambda>exec. if takes_part run then [(measured run, exec, run)] else [])
      [0..nr_exec - 1])) [0..last_run])"
  unfolding measured_loop_def
proof (intro measurements_concat_map)
  fix run exec c
  show "measurements c (before @ (if takes_part run then [Get_nsec, Call (measured run), Get_nsec,
      Enter_sample tid exec run] else []) @ after) =
    (if takes_part run then [(measured run, exec, run)] else [])"
    using assms measurements_round [OF assms]
    by (simp add: measurements_append measurements_no_sample)
qed

lemma sum_list_concat_map: "sum_list (map g (concat (map f xs))) = sum_list (map (\<lambda>x. sum_list (map g (f x))) xs)"
  by (induction xs) simp_all

lemma sum_list_upto: "sum_list (map f [a..b]) = (\<Sum>x\<in>{a..b}. f x)"
  by (simp add: sum_list_distinct_conv_sum_set)

lemma work_measured_loop:
  assumes "samples before = []" and "samples after = []"
    and "0 \<le> exec" "exec < nr_exec" "0 \<le> run" "run \<le> last_run"
  shows "work n_of exec run (measured_loop tid last_run nr_exec takes_part before measured after) =
    (if takes_part run then n_of (measured run) else 0)"
proof -
  have "work n_of exec run (measured_loop tid last_run nr_exec takes_part before measured after) =
     (\<Sum>r\<in>{0..last_run}. \<Sum>e\<in>{0..nr_exec - 1}.
        if takes_part r \<and> e = exec \<and> r = run then n_of (measured r) else 0)"
    unfolding work_def measurements_measured_loop [OF assms(1,2)]
    by (simp add: sum_list_concat_map sum_list_upto if_distrib [of "map _"] if_distrib [of sum_list]
        cong: if_cong) (auto intro!: sum.cong)
  also have "\<dots> = (\<Sum>r\<in>{0..last_run}. if r = run then (if takes_part run then n_of (measured run) else 0) else 0)"
    using assms(3,4) by (intro sum.cong) (auto simp: sum.delta)
  also have "\<dots> = (if takes_part run then n_of (measured run) else 0)"
    using assms(5,6) by (simp add: sum.delta)
  finally show ?thesis .
qed

lemma distinct_measured_samples:
  assumes "samples before = []" and "samples after = []"
  shows "distinct (samples (measured_loop tid last_run nr_exec takes_part before measured after))"
proof -
  have exec: "concat (map (\<lambda>exec. if takes_part run then [(tid, exec, run)] else []) xs) =
      (if takes_part run then map (\<lambda>exec. (tid, exec, run)) xs else [])" for run and xs :: "int list"
    by (induction xs) auto
  have "distinct (concat (map (\<lambda>run. concat (map (\<lambda>exec. if takes_part run then [(tid, exec, run)] else [])
      [0..nr_exec - 1])) rs))" if "distinct rs" for rs :: "int list"
    using that by (induction rs) (auto simp: exec distinct_map inj_on_def)
  then show ?thesis unfolding samples_measured_loop [OF assms] by simp
qed

lemma set_measured_samples:
  assumes "samples before = []" and "samples after = []"
  shows "set (samples (measured_loop tid last_run nr_exec takes_part before measured after)) =
    {(t, e, r). t = tid \<and> 0 \<le> e \<and> e < nr_exec \<and> 0 \<le> r \<and> r \<le> last_run \<and> takes_part r}"
  unfolding samples_measured_loop [OF assms] by (auto split: if_splits)

section \<open>The interface between a driver, the barrier and the sample store\<close>

text \<open>
  A family of drivers indexed by its parameters: the number of threads and the calls of each. The
  laws ask that the threads call the barrier equally often and not too often for its counters.
\<close>

locale balanced_driver =
  fixes valid :: "'p \<Rightarrow> bool"
    and threads :: "'p \<Rightarrow> nat"
    and actions :: "'p \<Rightarrow> nat \<Rightarrow> 'c thread_action list"
  assumes enough_counters: "valid p \<Longrightarrow> threads p \<le> MAX_ALLOC_NR_THREADS"
    and same_barriers: "valid p \<Longrightarrow> i < threads p \<Longrightarrow> j < threads p \<Longrightarrow>
      barrier_calls (actions p i) = barrier_calls (actions p j)"
    and few_barriers: "valid p \<Longrightarrow> i < threads p \<Longrightarrow> barrier_calls (actions p i) < 2 ^ 64"
begin

lemma valid_barriers: "valid p \<Longrightarrow> valid_meet (threads p) (\<lambda>i. barrier_calls (actions p i))"
  using enough_counters few_barriers by (simp add: valid_meet_def)

text \<open>The threads of a driver never wait for each other at the barrier for ever.\<close>

lemma no_deadlock:
  assumes "valid p"
  shows "\<exists>more. all_left (threads p)
    (meet_run (threads p) (\<lambda>i. barrier_calls (actions p i)) (sched @ more))"
  using meet_completes [OF valid_barriers [OF assms], of "barrier_calls (actions p 0)" sched]
    same_barriers [OF assms] by (metis gr_implies_not0 gr0I)

end

text \<open>Such a driver whose samples fill slots of the sample store, none of them twice.\<close>

locale sampling_driver = balanced_driver valid threads actions
  for valid :: "'p \<Rightarrow> bool"
    and threads :: "'p \<Rightarrow> nat"
    and actions :: "'p \<Rightarrow> nat \<Rightarrow> 'c thread_action list" +
  fixes execs :: "'p \<Rightarrow> int" and runs :: "'p \<Rightarrow> int"
  assumes own_samples: "valid p \<Longrightarrow> i < threads p \<Longrightarrow> x \<in> set (samples (actions p i)) \<Longrightarrow>
      \<exists>e r. x = (int i, e, r) \<and> 0 \<le> e \<and> e < execs p \<and> 0 \<le> r \<and> r < runs p"
    and distinct_samples: "valid p \<Longrightarrow> i < threads p \<Longrightarrow> distinct (samples (actions p i))"
begin

definition all_samples :: "'p \<Rightarrow> (int \<times> int \<times> int) list" where
  "all_samples p = concat (map (\<lambda>i. samples (actions p i)) [0..<threads p])"

lemma slots_in_store:
  assumes "valid p" and "(t, e, r) \<in> set (all_samples p)"
  shows "0 \<le> t \<and> t < int (threads p) \<and> 0 \<le> e \<and> e < execs p \<and> 0 \<le> r \<and> r < runs p"
  using assms own_samples by (fastforce simp: all_samples_def)

lemma slots_distinct:
  assumes "valid p"
  shows "distinct (all_samples p)"
proof -
  have "distinct (concat (map (\<lambda>i. samples (actions p i)) is))"
    if "distinct is" "set is \<subseteq> {..<threads p}" for "is"
    using that
  proof (induction "is")
    case (Cons i js)
    have "x \<notin> set (samples (actions p j))" if "x \<in> set (samples (actions p i))" "j \<in> set js" for x j
      using own_samples [OF assms, of i x] own_samples [OF assms, of j x] that Cons.prems by auto
    then show ?case using Cons distinct_samples [OF assms, of i] by auto
  qed simp
  from this [of "[0..<threads p]"] show ?thesis
    unfolding all_samples_def by (simp add: lessThan_atLeast0)
qed

end

end
