(* ===== verification/Pair_Drivers.thy ===== *)
theory Pair_Drivers
  imports Driver
begin

text \<open>
  The drivers of the five producer/consumer benchmarks (\<open>benchmark/nonblocking/*/driver.cpp\<close> and
  \<open>benchmark/blocking/C++11MutexStack/driver.cpp\<close>): \<open>f_prod\<close>, \<open>f_cons\<close> and \<open>main\<close> of each. Producer
  \<open>k\<close> is thread \<open>k\<close> and consumer \<open>k\<close> is thread \<open>nr_pairs + k\<close>. The drivers differ in how a consumer
  computes its share of the iterations, and the difference matters.
\<close>

section \<open>\<open>f_prod\<close> and \<open>f_cons\<close>\<close>

text \<open>The measured calls; a queue argument is given by its index in \<open>queues\<close>.\<close>

datatype pair_call =
    Sync_producer int
  | Sync_consumer int
  | Sync_consumer_tid int int
  | Sync_producer_queue int int
  | Sync_consumer_queue int int

fun pair_iter_of :: "pair_call \<Rightarrow> int" where
  "pair_iter_of (Sync_producer k) = k"
| "pair_iter_of (Sync_consumer k) = k"
| "pair_iter_of (Sync_consumer_tid k tid) = k"
| "pair_iter_of (Sync_producer_queue k q) = k"
| "pair_iter_of (Sync_consumer_queue k q) = k"

text \<open>
  The text the ten functions share. \<open>member\<close> is compared with the run number to decide on
  taking part, \<open>scaled\<close> and \<open>fixed\<close> with the remainder, in scaling runs and otherwise, to decide on
  one more iteration.
\<close>

definition pair_thread_f ::
  "(int \<Rightarrow> pair_call) \<Rightarrow> int \<Rightarrow> int \<Rightarrow> int \<Rightarrow> bool \<Rightarrow> int \<Rightarrow> int \<Rightarrow> int \<Rightarrow> int \<Rightarrow> bool
    \<Rightarrow> pair_call thread_action list" where
  "pair_thread_f sync member scaled fixed papi_ok tid nr_pairs nr_iter nr_exec sc_runs =
     (if \<not> papi_ok then [Thread_init_failed tid, Exit_failure]
      else measured_loop tid ((if sc_runs then nr_pairs else 1) - 1) nr_exec
             (\<lambda>run. \<not> sc_runs \<or> member \<le> run)
             [Barrier_wait tid]
             (\<lambda>run. sync (if sc_runs then split_iters nr_iter (run + 1) scaled
                          else split_iters nr_iter nr_pairs fixed))
             [])"

definition bqueue_f_prod :: "int \<Rightarrow> bool \<Rightarrow> int \<Rightarrow> int \<Rightarrow> int \<Rightarrow> int \<Rightarrow> bool \<Rightarrow> pair_call thread_action list" where
  "bqueue_f_prod queue papi_ok tid nr_pairs =
     pair_thread_f (\<lambda>k. Sync_producer_queue k queue) tid tid tid papi_ok tid nr_pairs"

definition bqueue_f_cons :: "int \<Rightarrow> bool \<Rightarrow> int \<Rightarrow> int \<Rightarrow> int \<Rightarrow> int \<Rightarrow> bool \<Rightarrow> pair_call thread_action list" where
  "bqueue_f_cons queue papi_ok tid nr_pairs =
     pair_thread_f (\<lambda>k. Sync_consumer_queue k queue) (tid - nr_pairs) (tid - nr_pairs) tid
       papi_ok tid nr_pairs"

definition spsc_f_prod :: "int \<Rightarrow> bool \<Rightarrow> int \<Rightarrow> int \<Rightarrow> int \<Rightarrow> int \<Rightarrow> bool \<Rightarrow> pair_call thread_action list" where
  "spsc_f_prod queue papi_ok tid nr_pairs =
     pair_thread_f (\<lambda>k. Sync_producer_queue k queue) tid tid tid papi_ok tid nr_pairs"

definition spsc_f_cons :: "int \<Rightarrow> bool \<Rightarrow> int \<Rightarrow> int \<Rightarrow> int \<Rightarrow> int \<Rightarrow> bool \<Rightarrow> pair_call thread_action list" where
  "spsc_f_cons queue papi_ok tid nr_pairs =
     pair_thread_f (\<lambda>k. Sync_consumer_queue k queue) (tid - nr_pairs) (tid - nr_pairs) tid
       papi_ok tid nr_pairs"

definition mpmc_f_prod :: "bool \<Rightarrow> int \<Rightarrow> int \<Rightarrow> int \<Rightarrow> int \<Rightarrow> bool \<Rightarrow> pair_call thread_action list" where
  "mpmc_f_prod papi_ok tid nr_pairs =
     pair_thread_f Sync_producer tid tid tid papi_ok tid nr_pairs"

definition mpmc_f_cons :: "bool \<Rightarrow> int \<Rightarrow> int \<Rightarrow> int \<Rightarrow> int \<Rightarrow> bool \<Rightarrow> pair_call thread_action list" where
  "mpmc_f_cons papi_ok tid nr_pairs =
     pair_thread_f Sync_consumer (tid - nr_pairs) tid tid papi_ok tid nr_pairs"

definition costack_f_prod :: "bool \<Rightarrow> int \<Rightarrow> int \<Rightarrow> int \<Rightarrow> int \<Rightarrow> bool \<Rightarrow> pair_call thread_action list" where
  "costack_f_prod papi_ok tid nr_pairs =
     pair_thread_f Sync_producer tid tid tid papi_ok tid nr_pairs"

definition costack_f_cons :: "bool \<Rightarrow> int \<Rightarrow> int \<Rightarrow> int \<Rightarrow> int \<Rightarrow> bool \<Rightarrow> pair_call thread_action list" where
  "costack_f_cons papi_ok tid nr_pairs =
     pair_thread_f (\<lambda>k. Sync_consumer_tid k tid) (tid - nr_pairs) (tid - nr_pairs) (tid - nr_pairs)
       papi_ok tid nr_pairs"

definition mutexstack_f_prod :: "bool \<Rightarrow> int \<Rightarrow> int \<Rightarrow> int \<Rightarrow> int \<Rightarrow> bool \<Rightarrow> pair_call thread_action list" where
  "mutexstack_f_prod papi_ok tid nr_pairs =
     pair_thread_f Sync_producer tid tid tid papi_ok tid nr_pairs"

definition mutexstack_f_cons :: "bool \<Rightarrow> int \<Rightarrow> int \<Rightarrow> int \<Rightarrow> int \<Rightarrow> bool \<Rightarrow> pair_call thread_action list" where
  "mutexstack_f_cons papi_ok tid nr_pairs =
     pair_thread_f Sync_consumer (tid - nr_pairs) (tid - nr_pairs) (tid - nr_pairs)
       papi_ok tid nr_pairs"

section \<open>\<open>main\<close>\<close>

record pair_options =
  pair_exec :: int
  pair_iter :: int
  pair_pairs :: int
  pair_sc_runs :: bool
  pair_ovw :: bool

definition pair_defaults :: pair_options where
  "pair_defaults = \<lparr>pair_exec = 1, pair_iter = 10000000, pair_pairs = 1, pair_sc_runs = False,
     pair_ovw = False\<rparr>"

datatype pair_option = Pair_exec | Pair_iter | Pair_pairs | Pair_runs | Pair_ovw | Pair_help | Pair_positional

definition pair_option_table :: "(string \<times> pair_option) list" where
  "pair_option_table =
     [(''e,executions'', Pair_exec), (''i,iterations'', Pair_iter), (''t,threadpairs'', Pair_pairs),
      (''r,runs'', Pair_runs), (''o,ovw'', Pair_ovw), (''h,help'', Pair_help),
      (''positional'', Pair_positional)]"

text \<open>The command-line library, as for the lock drivers.\<close>

type_synonym pair_parser =
  "string \<Rightarrow> (string \<times> pair_option) list \<Rightarrow> pair_options \<Rightarrow> (pair_options \<times> nat \<times> nat) option"

text \<open>
  \<open>F_prod nr_pairs nr_iter nr_exec sc_runs queue\<close> and \<open>F_cons ...\<close>; the last argument is absent in
  drivers with a global container.
\<close>

datatype pair_thread =
    F_prod int int int bool "int option"
  | F_cons int int int bool "int option"

datatype queue_call = Queue_init int | New_queue int | Delete_queue int

type_synonym pair_main_action = "(pair_thread, queue_call) main_action"

text \<open>An \<open>int\<close> of the source, 32 bits wide.\<close>

definition is_int :: "int \<Rightarrow> bool" where
  "is_int k \<longleftrightarrow> - (2 ^ 31) \<le> k \<and> k < 2 ^ 31"

definition pair_main ::
  "string \<Rightarrow> (int \<Rightarrow> queue_call) option \<Rightarrow> (int \<Rightarrow> queue_call) option \<Rightarrow> string \<Rightarrow> string
    \<Rightarrow> pair_parser \<Rightarrow> bool \<Rightarrow> pair_main_action list" where
  "pair_main program prepare remove prod_file cons_file parse papi_ok =
     (case parse program pair_option_table pair_defaults of
        None \<Rightarrow> [Uncaught_exception]
      | Some (opt, help, positional) \<Rightarrow>
          if help \<noteq> 0 \<or> positional \<noteq> 0 then [Print_usage, Exit_with_failure]
          else if \<not> is_int (2 * pair_pairs opt) then [Undefined]
          else if 2 * pair_pairs opt > int MAX_ALLOC_NR_THREADS
            then [Print_too_many_threads, Exit_with_failure]
          else if \<not> papi_ok then [Print_papi_failed, Exit_with_failure]
          else
            let n = pair_pairs opt; sc = pair_sc_runs opt;
                queue = (\<lambda>k. case prepare of None \<Rightarrow> None | Some _ \<Rightarrow> Some k)
            in [Barrier_init (2 * n),
                Init_stats (2 * n) (pair_exec opt) (if sc then n else 1)] @
               (if n \<le> 0 then [Undefined]
                else (case prepare of None \<Rightarrow> [] | Some f \<Rightarrow> map (Component_call \<circ> f) [0..n - 1]) @
                     concat (map (\<lambda>tid.
                       [Create tid (F_prod n (pair_iter opt) (pair_exec opt) sc (queue tid)),
                        Create (tid + n) (F_cons n (pair_iter opt) (pair_exec opt) sc (queue tid))])
                       [0..n - 1]) @
                     concat (map (\<lambda>tid. [Join tid, Join (tid + n)]) [0..n - 1]) @
                     [Dump_data (pair_ovw opt) (Some (2 * n, 0, n, sc, prod_file)),
                      Dump_data (pair_ovw opt) (Some (2 * n, n, 2 * n, sc, cons_file)),
                      Delete_samples] @
                     (case remove of None \<Rightarrow> [] | Some f \<Rightarrow> map (Component_call \<circ> f) [0..n - 1]) @
                     [Return_0]))"

definition bqueue_main :: "pair_parser \<Rightarrow> bool \<Rightarrow> pair_main_action list" where
  "bqueue_main = pair_main ''Bqueue'' (Some Queue_init) None
     ''BQueue_producers.txt'' ''BQueue_consumers.txt''"

definition spsc_main :: "pair_parser \<Rightarrow> bool \<Rightarrow> pair_main_action list" where
  "spsc_main = pair_main ''boost_spsc'' (Some New_queue) (Some Delete_queue)
     ''boost_spsc_producers.txt'' ''boost_spsc_consumers.txt''"

definition mpmc_main :: "pair_parser \<Rightarrow> bool \<Rightarrow> pair_main_action list" where
  "mpmc_main = pair_main ''boost_mpmc'' None None
     ''boost_mpmc_producers.txt'' ''boost_mpmc_consumers.txt''"

definition costack_main :: "pair_parser \<Rightarrow> bool \<Rightarrow> pair_main_action list" where
  "costack_main = pair_main ''COstack'' None None ''COstack_push.txt'' ''COstack_pop.txt''"

text \<open>The mutex stack's driver gives its program the name of the other stack.\<close>

definition mutexstack_main :: "pair_parser \<Rightarrow> bool \<Rightarrow> pair_main_action list" where
  "mutexstack_main = pair_main ''COstack'' None None ''MutexStack_push.txt'' ''MutexStack_pop.txt''"

section \<open>The five drivers as one family\<close>

datatype pair_name = BQueue | Boost_SPSC | Boost_MPMC | COstack | Mutex_stack

fun f_prod_of :: "pair_name \<Rightarrow> int \<Rightarrow> bool \<Rightarrow> int \<Rightarrow> int \<Rightarrow> int \<Rightarrow> int \<Rightarrow> bool \<Rightarrow> pair_call thread_action list" where
  "f_prod_of BQueue q = bqueue_f_prod q"
| "f_prod_of Boost_SPSC q = spsc_f_prod q"
| "f_prod_of Boost_MPMC q = mpmc_f_prod"
| "f_prod_of COstack q = costack_f_prod"
| "f_prod_of Mutex_stack q = mutexstack_f_prod"

fun f_cons_of :: "pair_name \<Rightarrow> int \<Rightarrow> bool \<Rightarrow> int \<Rightarrow> int \<Rightarrow> int \<Rightarrow> int \<Rightarrow> bool \<Rightarrow> pair_call thread_action list" where
  "f_cons_of BQueue q = bqueue_f_cons q"
| "f_cons_of Boost_SPSC q = spsc_f_cons q"
| "f_cons_of Boost_MPMC q = mpmc_f_cons"
| "f_cons_of COstack q = costack_f_cons"
| "f_cons_of Mutex_stack q = mutexstack_f_cons"

fun pair_main_of :: "pair_name \<Rightarrow> pair_parser \<Rightarrow> bool \<Rightarrow> pair_main_action list" where
  "pair_main_of BQueue = bqueue_main"
| "pair_main_of Boost_SPSC = spsc_main"
| "pair_main_of Boost_MPMC = mpmc_main"
| "pair_main_of COstack = costack_main"
| "pair_main_of Mutex_stack = mutexstack_main"

record pair_bench =
  q_driver :: pair_name
  q_pairs :: nat
  q_iter :: int
  q_exec :: int
  q_scaling :: bool

definition valid_pair_bench :: "pair_bench \<Rightarrow> bool" where
  "valid_pair_bench p \<longleftrightarrow> 0 < q_pairs p \<and> 2 * q_pairs p \<le> MAX_ALLOC_NR_THREADS \<and>
     0 \<le> q_iter p \<and> 0 \<le> q_exec p \<and> q_exec p < 2 ^ 31"

definition pair_bench_runs :: "pair_bench \<Rightarrow> int" where
  "pair_bench_runs p = (if q_scaling p then int (q_pairs p) else 1)"

text \<open>Thread \<open>i\<close> of the \<open>2 * nr_pairs\<close> threads, on the queue \<open>main\<close> gives it.\<close>

definition pair_bench_actions :: "pair_bench \<Rightarrow> nat \<Rightarrow> pair_call thread_action list" where
  "pair_bench_actions p i =
     (if i < q_pairs p then f_prod_of (q_driver p) (int i)
      else f_cons_of (q_driver p) (int (i - q_pairs p)))
     True (int i) (int (q_pairs p)) (q_iter p) (q_exec p) (q_scaling p)"

lemmas f_prod_defs =
  bqueue_f_prod_def spsc_f_prod_def mpmc_f_prod_def costack_f_prod_def mutexstack_f_prod_def

lemmas f_cons_defs =
  bqueue_f_cons_def spsc_f_cons_def mpmc_f_cons_def costack_f_cons_def mutexstack_f_cons_def

lemmas pair_main_defs =
  bqueue_main_def spsc_main_def mpmc_main_def costack_main_def mutexstack_main_def

text \<open>What the drivers compare with the run number and with the remainders.\<close>

definition member_id :: "pair_bench \<Rightarrow> nat \<Rightarrow> int" where
  "member_id p i = (if i < q_pairs p then int i else int i - int (q_pairs p))"

definition scaled_id :: "pair_bench \<Rightarrow> nat \<Rightarrow> int" where
  "scaled_id p i = (if q_driver p = Boost_MPMC then int i else member_id p i)"

definition fixed_id :: "pair_bench \<Rightarrow> nat \<Rightarrow> int" where
  "fixed_id p i = (if q_driver p \<in> {COstack, Mutex_stack} then member_id p i else int i)"

lemmas id_defs = member_id_def scaled_id_def fixed_id_def

lemma pair_bench_loop:
  obtains sync where
    "pair_bench_actions p i = pair_thread_f sync (member_id p i) (scaled_id p i) (fixed_id p i)
       True (int i) (int (q_pairs p)) (q_iter p) (q_exec p) (q_scaling p)"
    and "\<And>k. pair_iter_of (sync k) = k"
proof -
  note defs = pair_bench_actions_def f_prod_defs f_cons_defs id_defs
  show thesis
    by (cases "q_driver p"; cases "i < q_pairs p"; rule that; (simp add: defs; fail)?; simp add: defs)
qed

lemma pair_bench_barriers:
  assumes "valid_pair_bench p"
  shows "barrier_calls (pair_bench_actions p i) = nat (pair_bench_runs p) * nat (q_exec p)"
proof (rule pair_bench_loop [of p i])
  fix sync
  assume "pair_bench_actions p i = pair_thread_f sync (member_id p i) (scaled_id p i) (fixed_id p i)
       True (int i) (int (q_pairs p)) (q_iter p) (q_exec p) (q_scaling p)"
  then show ?thesis
    using assms by (simp add: pair_thread_f_def barrier_calls_measured_loop valid_pair_bench_def
        pair_bench_runs_def)
qed

lemma pair_bench_samples:
  "set (samples (pair_bench_actions p i)) = {(t, e, r). t = int i \<and> 0 \<le> e \<and> e < q_exec p \<and>
     0 \<le> r \<and> r < pair_bench_runs p \<and> (\<not> q_scaling p \<or> member_id p i \<le> r)}"
  "distinct (samples (pair_bench_actions p i))"
  by (rule pair_bench_loop [of p i];
      simp add: pair_thread_f_def set_measured_samples distinct_measured_samples pair_bench_runs_def)+

interpretation pair_driver: sampling_driver valid_pair_bench "\<lambda>p. 2 * q_pairs p" pair_bench_actions
  q_exec pair_bench_runs
proof unfold_locales
  fix p i
  assume p: "valid_pair_bench p"
  then have "nat (pair_bench_runs p) \<le> 4096"
    by (auto simp: valid_pair_bench_def pair_bench_runs_def MAX_ALLOC_NR_THREADS_def)
  moreover have "nat (q_exec p) \<le> 2 ^ 31" using p by (auto simp: valid_pair_bench_def)
  ultimately have "barrier_calls (pair_bench_actions p i) \<le> 4096 * 2 ^ 31"
    unfolding pair_bench_barriers [OF p] by (rule mult_le_mono)
  also have "\<dots> < 2 ^ 64" by simp
  finally show "barrier_calls (pair_bench_actions p i) < 2 ^ 64" .
next
  fix p i j
  assume "valid_pair_bench p"
  then show "barrier_calls (pair_bench_actions p i) = barrier_calls (pair_bench_actions p j)"
    by (simp add: pair_bench_barriers)
next
  fix p i x
  assume "x \<in> set (samples (pair_bench_actions p i))"
  then show "\<exists>e r. x = (int i, e, r) \<and> 0 \<le> e \<and> e < q_exec p \<and> 0 \<le> r \<and> r < pair_bench_runs p"
    unfolding pair_bench_samples by auto
next
  fix p
  assume "valid_pair_bench p"
  then show "2 * q_pairs p \<le> MAX_ALLOC_NR_THREADS" by (simp add: valid_pair_bench_def)
qed (rule pair_bench_samples)

section \<open>How the iterations are split\<close>

lemma pair_bench_work:
  assumes "0 \<le> exec" "exec < q_exec p" and "0 \<le> run" "run < pair_bench_runs p"
  shows "work pair_iter_of exec run (pair_bench_actions p i) =
    (if q_scaling p then (if member_id p i \<le> run then split_iters (q_iter p) (run + 1) (scaled_id p i) else 0)
     else split_iters (q_iter p) (int (q_pairs p)) (fixed_id p i))"
proof (rule pair_bench_loop [of p i])
  fix sync
  assume "pair_bench_actions p i = pair_thread_f sync (member_id p i) (scaled_id p i) (fixed_id p i)
       True (int i) (int (q_pairs p)) (q_iter p) (q_exec p) (q_scaling p)"
    and "\<And>k. pair_iter_of (sync k) = k"
  then show ?thesis
    using assms by (simp add: pair_thread_f_def work_measured_loop pair_bench_runs_def)
qed

text \<open>A sum over the first \<open>m\<close> of \<open>n\<close> threads.\<close>

lemma sum_first_threads:
  fixes g :: "nat \<Rightarrow> int"
  assumes "m \<le> n"
  shows "(\<Sum>i<n. if i < m then g i else 0) = (\<Sum>i<m. g i)"
  using assms by (intro sum.mono_neutral_cong_right) auto

text \<open>The number of pairs that take part in a run.\<close>

definition pairs_in_run :: "pair_bench \<Rightarrow> int \<Rightarrow> int" where
  "pairs_in_run p run = (if q_scaling p then run + 1 else int (q_pairs p))"

lemma pairs_in_run:
  assumes "valid_pair_bench p" and "0 \<le> run" "run < pair_bench_runs p"
  obtains m where "pairs_in_run p run = int m" and "m \<le> q_pairs p" and "0 < m"
    and "\<And>k. k < q_pairs p \<Longrightarrow> (\<not> q_scaling p \<or> int k \<le> run) \<longleftrightarrow> k < m"
proof (cases "q_scaling p")
  case True
  with assms show ?thesis
    by (intro that [of "Suc (nat run)"]) (auto simp: pairs_in_run_def pair_bench_runs_def)
next
  case False
  with assms show ?thesis
    by (intro that [of "q_pairs p"]) (auto simp: pairs_in_run_def valid_pair_bench_def)
qed

lemma share_sum:
  assumes p: "valid_pair_bench p" and r: "0 \<le> run" "run < pair_bench_runs p"
    and w: "\<And>k. k < q_pairs p \<Longrightarrow> g k =
      (if \<not> q_scaling p \<or> int k \<le> run then split_iters (q_iter p) (pairs_in_run p run) (int k) else 0)"
  shows "(\<Sum>k<q_pairs p. g k) = q_iter p"
proof -
  from pairs_in_run [OF p r] obtain m where m: "pairs_in_run p run = int m" "m \<le> q_pairs p" "0 < m"
    and first: "\<And>k. k < q_pairs p \<Longrightarrow> (\<not> q_scaling p \<or> int k \<le> run) \<longleftrightarrow> k < m"
    by blast
  have "(\<Sum>k<q_pairs p. g k) = (\<Sum>k<q_pairs p. if k < m then split_iters (q_iter p) (int m) (int k) else 0)"
    using w first m(1) by (intro sum.cong refl) auto
  also have "\<dots> = q_iter p"
    using p m by (simp add: sum_first_threads sum_split_iters valid_pair_bench_def)
  finally show ?thesis .
qed

lemma floor_sum:
  assumes p: "valid_pair_bench p" and r: "0 \<le> run" "run < pair_bench_runs p"
    and w: "\<And>k. k < q_pairs p \<Longrightarrow> g k =
      (if \<not> q_scaling p \<or> int k \<le> run then q_iter p div pairs_in_run p run else 0)"
  shows "(\<Sum>k<q_pairs p. g k) = q_iter p - q_iter p mod pairs_in_run p run"
proof -
  from pairs_in_run [OF p r] obtain m where m: "pairs_in_run p run = int m" "m \<le> q_pairs p"
    and first: "\<And>k. k < q_pairs p \<Longrightarrow> (\<not> q_scaling p \<or> int k \<le> run) \<longleftrightarrow> k < m"
    by blast
  have "(\<Sum>k<q_pairs p. g k) = (\<Sum>k<q_pairs p. if k < m then q_iter p div int m else 0)"
    using w first m(1) by (intro sum.cong refl) auto
  also have "\<dots> = int m * (q_iter p div int m)"
    using m by (simp add: sum_first_threads)
  also have "\<dots> = q_iter p - q_iter p mod pairs_in_run p run"
    unfolding m(1) by (simp add: minus_mod_eq_mult_div)
  finally show ?thesis .
qed

text \<open>Whether the consumers of a driver split the iterations as its producers do.\<close>

definition splits_evenly :: "pair_bench \<Rightarrow> bool" where
  "splits_evenly p \<longleftrightarrow> (case q_driver p of
     COstack \<Rightarrow> True | Mutex_stack \<Rightarrow> True
   | BQueue \<Rightarrow> q_scaling p | Boost_SPSC \<Rightarrow> q_scaling p | Boost_MPMC \<Rightarrow> False)"

lemma split_iters_beyond:
  assumes "0 \<le> nr_iter" and "0 < n" and "n \<le> k"
  shows "split_iters nr_iter n k = nr_iter div n"
proof -
  have "\<not> k < nr_iter mod n" using assms pos_mod_bound [of n nr_iter] by linarith
  then show ?thesis using assms by (simp add: split_iters_nonneg)
qed

text \<open>A consumer's share: the producers' one, or the quotient without the remainder.\<close>

lemma pair_share:
  assumes p: "valid_pair_bench p" and e: "0 \<le> exec" "exec < q_exec p"
    and r: "0 \<le> run" "run < pair_bench_runs p" and k: "k < q_pairs p"
  shows "work pair_iter_of exec run (pair_bench_actions p k) =
      (if \<not> q_scaling p \<or> int k \<le> run then split_iters (q_iter p) (pairs_in_run p run) (int k) else 0)"
    and "work pair_iter_of exec run (pair_bench_actions p (q_pairs p + k)) =
      (if \<not> q_scaling p \<or> int k \<le> run then
         if splits_evenly p then split_iters (q_iter p) (pairs_in_run p run) (int k)
         else q_iter p div pairs_in_run p run
       else 0)"
proof -
  from p have iter: "0 \<le> q_iter p" "0 < int (q_pairs p)" by (simp_all add: valid_pair_bench_def)
  show "work pair_iter_of exec run (pair_bench_actions p k) =
      (if \<not> q_scaling p \<or> int k \<le> run then split_iters (q_iter p) (pairs_in_run p run) (int k) else 0)"
    using k unfolding pair_bench_work [OF e r] by (simp add: id_defs pairs_in_run_def)
  have "split_iters (q_iter p) (int (q_pairs p)) (int (q_pairs p + k)) = q_iter p div int (q_pairs p)"
    using split_iters_beyond [OF iter] by simp
  moreover have "split_iters (q_iter p) (run + 1) (int (q_pairs p + k)) = q_iter p div (run + 1)"
    if "q_scaling p"
    using split_iters_beyond [OF iter(1), of "run + 1"] r that by (simp add: pair_bench_runs_def)
  ultimately show "work pair_iter_of exec run (pair_bench_actions p (q_pairs p + k)) =
      (if \<not> q_scaling p \<or> int k \<le> run then
         if splits_evenly p then split_iters (q_iter p) (pairs_in_run p run) (int k)
         else q_iter p div pairs_in_run p run
       else 0)"
    unfolding pair_bench_work [OF e r]
    by (cases "q_driver p"; cases "q_scaling p") (simp_all add: id_defs splits_evenly_def pairs_in_run_def)
qed

lemma pair_work_sums:
  assumes "valid_pair_bench p" and "0 \<le> exec" "exec < q_exec p" and "0 \<le> run" "run < pair_bench_runs p"
  shows "(\<Sum>k<q_pairs p. work pair_iter_of exec run (pair_bench_actions p k)) = q_iter p \<and>
    (\<Sum>k<q_pairs p. work pair_iter_of exec run (pair_bench_actions p (q_pairs p + k))) =
      q_iter p - (if splits_evenly p then 0 else q_iter p mod pairs_in_run p run)"
proof
  show "(\<Sum>k<q_pairs p. work pair_iter_of exec run (pair_bench_actions p k)) = q_iter p"
    by (rule share_sum [OF assms(1,4,5)]) (simp add: pair_share [OF assms])
  show "(\<Sum>k<q_pairs p. work pair_iter_of exec run (pair_bench_actions p (q_pairs p + k))) =
      q_iter p - (if splits_evenly p then 0 else q_iter p mod pairs_in_run p run)"
  proof (cases "splits_evenly p")
    case True
    have "(\<Sum>k<q_pairs p. work pair_iter_of exec run (pair_bench_actions p (q_pairs p + k))) = q_iter p"
      by (rule share_sum [OF assms(1,4,5)]) (simp add: pair_share [OF assms] True)
    with True show ?thesis by simp
  next
    case False
    have "(\<Sum>k<q_pairs p. work pair_iter_of exec run (pair_bench_actions p (q_pairs p + k))) =
        q_iter p - q_iter p mod pairs_in_run p run"
      by (rule floor_sum [OF assms(1,4,5)]) (simp add: pair_share [OF assms] False)
    with False show ?thesis by simp
  qed
qed

section \<open>Properties\<close>


text \<open>Three pairs share ten iterations: one element remains in a queue.\<close>

definition example_pair_bench :: pair_bench where
  "example_pair_bench =
     \<lparr>q_driver = BQueue, q_pairs = 3, q_iter = 10, q_exec = 1, q_scaling = False\<rparr>"




end
