(* ===== verification/BQueue.thy ===== *)
theory BQueue
  imports Interleave "HOL-Library.Word"
begin

text \<open>
  The BQueue benchmark: the single-producer single-consumer ring buffer
  (\<open>benchmark/nonblocking/BQueue/fifo.c\<close>, \<open>fifo.h\<close>) in the variant the build files compile (neither
  \<open>PROD_BATCH\<close> nor \<open>CONS_BATCH\<close> is defined), and the loops of \<open>bqueue.cpp\<close>. The cells of \<open>data\<close> are
  the only variables both threads access, a zero cell is free; \<open>head\<close> belongs to the producer and
  \<open>tail\<close> to the consumer, so their accesses belong to the step of the access to \<open>data\<close> beside them.
\<close>

section \<open>The queue\<close>

definition QUEUE_SIZE :: nat where
  "QUEUE_SIZE = 1024 * 8"

definition SUCCESS :: int where "SUCCESS = 0"
definition BUFFER_FULL :: int where "BUFFER_FULL = - 1"
definition BUFFER_EMPTY :: int where "BUFFER_EMPTY = - 2"

record queue_t =
  head :: "32 word"
  tail :: "32 word"
  data :: "int list"

definition queue_init :: queue_t where
  "queue_init = \<lparr>head = 0, tail = 0, data = replicate QUEUE_SIZE 0\<rparr>"

text \<open>Where a call is: before an access to \<open>data\<close>, returned with a code, or out of bounds.\<close>

datatype 'p call_state = At 'p | Returned int | Fault

datatype enqueue_label = Enq_test | Enq_store
datatype dequeue_label = Deq_test | Deq_load | Deq_clear

text \<open>\<open>x ++; if (x >= QUEUE_SIZE) x = 0\<close>\<close>

definition advance :: "32 word \<Rightarrow> 32 word" where
  "advance x = (if of_nat QUEUE_SIZE \<le> x + 1 then 0 else x + 1)"

fun enqueue :: "int \<Rightarrow> queue_t \<Rightarrow> enqueue_label \<Rightarrow> queue_t \<times> enqueue_label call_state" where
  "enqueue value q Enq_test =
     (case array_load (data q) (unat (head q)) of
        None \<Rightarrow> (q, Fault)
      | Some d \<Rightarrow> (q, if d \<noteq> 0 then Returned BUFFER_FULL else At Enq_store))"
| "enqueue value q Enq_store =
     (case array_store (data q) (unat (head q)) value of
        None \<Rightarrow> (q, Fault)
      | Some d \<Rightarrow> (q\<lparr>data := d, head := advance (head q)\<rparr>, Returned SUCCESS))"

text \<open>\<open>value\<close>: the variable the result is stored to.\<close>

fun dequeue :: "int \<Rightarrow> queue_t \<Rightarrow> dequeue_label \<Rightarrow> queue_t \<times> int \<times> dequeue_label call_state" where
  "dequeue value q Deq_test =
     (case array_load (data q) (unat (tail q)) of
        None \<Rightarrow> (q, value, Fault)
      | Some d \<Rightarrow> (q, value, if d = 0 then Returned BUFFER_EMPTY else At Deq_load))"
| "dequeue value q Deq_load =
     (case array_load (data q) (unat (tail q)) of
        None \<Rightarrow> (q, value, Fault)
      | Some d \<Rightarrow> (q, d, At Deq_clear))"
| "dequeue value q Deq_clear =
     (case array_store (data q) (unat (tail q)) 0 of
        None \<Rightarrow> (q, value, Fault)
      | Some d \<Rightarrow> (q\<lparr>data := d, tail := advance (tail q)\<rparr>, value, Returned SUCCESS))"

section \<open>A producer and a consumer\<close>

datatype bq_pc = For_test | In_enqueue enqueue_label | In_dequeue dequeue_label | Loop_left | Out_of_bounds

record bq_thread =
  bq_pc :: bq_pc
  bq_i :: int
  bq_value :: int

text \<open>\<open>for (int i = 0; i != iter; ++i) { while (enqueue(queue, i+1) != SUCCESS); }\<close>\<close>

definition sync_producer :: "int \<Rightarrow> queue_t \<Rightarrow> bq_thread \<Rightarrow> (queue_t \<times> bq_thread) option" where
  "sync_producer iter q t =
     (case bq_pc t of
        For_test \<Rightarrow> Some (q, t\<lparr>bq_pc := if bq_i t \<noteq> iter then In_enqueue Enq_test else Loop_left\<rparr>)
      | In_enqueue p \<Rightarrow>
          (case enqueue (bq_i t + 1) q p of
             (q', At p') \<Rightarrow> Some (q', t\<lparr>bq_pc := In_enqueue p'\<rparr>)
           | (q', Returned code) \<Rightarrow>
               Some (q', if code \<noteq> SUCCESS then t\<lparr>bq_pc := In_enqueue Enq_test\<rparr>
                         else t\<lparr>bq_pc := For_test, bq_i := bq_i t + 1\<rparr>)
           | (q', Fault) \<Rightarrow> Some (q', t\<lparr>bq_pc := Out_of_bounds\<rparr>))
      | _ \<Rightarrow> None)"

text \<open>\<open>for (int i = 0; i != iter; ++i) { while (dequeue(queue, &value) != SUCCESS); }\<close>\<close>

definition sync_consumer :: "int \<Rightarrow> queue_t \<Rightarrow> bq_thread \<Rightarrow> (queue_t \<times> bq_thread) option" where
  "sync_consumer iter q t =
     (case bq_pc t of
        For_test \<Rightarrow> Some (q, t\<lparr>bq_pc := if bq_i t \<noteq> iter then In_dequeue Deq_test else Loop_left\<rparr>)
      | In_dequeue p \<Rightarrow>
          (case dequeue (bq_value t) q p of
             (q', v, At p') \<Rightarrow> Some (q', t\<lparr>bq_value := v, bq_pc := In_dequeue p'\<rparr>)
           | (q', v, Returned code) \<Rightarrow>
               Some (q', if code \<noteq> SUCCESS then t\<lparr>bq_value := v, bq_pc := In_dequeue Deq_test\<rparr>
                         else t\<lparr>bq_value := v, bq_pc := For_test, bq_i := bq_i t + 1\<rparr>)
           | (q', v, Fault) \<Rightarrow> Some (q', t\<lparr>bq_pc := Out_of_bounds\<rparr>))
      | _ \<Rightarrow> None)"

text \<open>One pair: thread 0 produces \<open>k\<close> elements, thread 1 consumes \<open>m\<close>.\<close>

definition bq_pair :: "int \<Rightarrow> int \<Rightarrow> (queue_t, bq_thread) prog" where
  "bq_pair k m tid = (if tid = 0 then sync_producer k else sync_consumer m)"

definition bq_start :: "queue_t \<Rightarrow> (queue_t, bq_thread) cfg" where
  "bq_start q = (q, \<lambda>_. \<lparr>bq_pc = For_test, bq_i = 0, bq_value = 0\<rparr>)"

definition bq_run :: "int \<Rightarrow> int \<Rightarrow> queue_t \<Rightarrow> nat list \<Rightarrow> (queue_t, bq_thread) cfg" where
  "bq_run k m q sched = run_sched (bq_pair k m) 2 sched (bq_start q)"

section \<open>The abstract queue\<close>

datatype queue_event = Enqueued int | Dequeued int

text \<open>An element is enqueued or dequeued when the call that does it returns \<open>SUCCESS\<close>.\<close>

definition bq_label :: "bq_thread \<Rightarrow> bq_thread \<Rightarrow> queue_event option" where
  "bq_label t t' =
     (if bq_i t' \<noteq> bq_i t then
        (if bq_pc t = In_enqueue Enq_store then Some (Enqueued (bq_i t + 1)) else Some (Dequeued (bq_value t')))
      else None)"

definition bq_trace :: "int \<Rightarrow> int \<Rightarrow> queue_t \<Rightarrow> nat list \<Rightarrow> (nat \<times> queue_event) list" where
  "bq_trace k m q sched = trace_of (bq_pair k m) 2 bq_label sched (bq_start q)"

text \<open>The specification: a bounded first-in first-out queue; \<open>None\<close>: not a behaviour of one.\<close>

fun bounded_fifo :: "nat \<Rightarrow> int list \<Rightarrow> (nat \<times> queue_event) list \<Rightarrow> int list option" where
  "bounded_fifo cap xs [] = Some xs"
| "bounded_fifo cap xs ((i, Enqueued v) # es) =
     (if length xs < cap then bounded_fifo cap (xs @ [v]) es else None)"
| "bounded_fifo cap [] ((i, Dequeued v) # es) = None"
| "bounded_fifo cap (x # xs) ((i, Dequeued v) # es) = (if v = x then bounded_fifo cap xs es else None)"

lemma bounded_fifo_append:
  "bounded_fifo cap xs (es @ es') =
     (case bounded_fifo cap xs es of None \<Rightarrow> None | Some ys \<Rightarrow> bounded_fifo cap ys es')"
  by (induction cap xs es rule: bounded_fifo.induct) auto

section \<open>The ring holds a queue\<close>

text \<open>From \<open>tail\<close> on, the cells hold the elements in order, and the others are zero.\<close>

definition ring :: "queue_t \<Rightarrow> int list \<Rightarrow> bool" where
  "ring q xs \<longleftrightarrow> length (data q) = QUEUE_SIZE \<and> unat (tail q) < QUEUE_SIZE \<and> length xs \<le> QUEUE_SIZE \<and>
     unat (head q) = (unat (tail q) + length xs) mod QUEUE_SIZE \<and> 0 \<notin> set xs \<and>
     (\<forall>k<QUEUE_SIZE. data q ! ((unat (tail q) + k) mod QUEUE_SIZE) = (if k < length xs then xs ! k else 0))"

lemma QUEUE_SIZE_pos: "0 < QUEUE_SIZE"
  by (simp add: QUEUE_SIZE_def)

lemma unat_advance:
  assumes "unat x < QUEUE_SIZE"
  shows "unat (advance x) = Suc (unat x) mod QUEUE_SIZE"
proof -
  have "unat x + 1 < 2 ^ 32" using assms by (simp add: QUEUE_SIZE_def)
  then have u: "unat (x + 1) = Suc (unat x)" by (simp add: unat_word_ariths)
  have "unat (of_nat QUEUE_SIZE :: 32 word) = QUEUE_SIZE" by (simp add: QUEUE_SIZE_def)
  with assms u show ?thesis
    by (auto simp: advance_def word_le_nat_alt mod_Suc)
qed

lemma ring_init: "ring queue_init []"
  by (simp add: ring_def queue_init_def QUEUE_SIZE_def)

lemma ring_head_lt: "ring q xs \<Longrightarrow> unat (head q) < QUEUE_SIZE"
  using QUEUE_SIZE_pos by (simp add: ring_def)

lemma ring_cell:
  "ring q xs \<Longrightarrow> k < QUEUE_SIZE \<Longrightarrow>
    data q ! ((unat (tail q) + k) mod QUEUE_SIZE) = (if k < length xs then xs ! k else 0)"
  by (simp add: ring_def)

text \<open>The producer's cell tells whether the queue is full, the consumer's whether it is empty.\<close>

lemma ring_tail_cell:
  assumes "ring q xs"
  shows "data q ! unat (tail q) = (if xs = [] then 0 else hd xs)"
  using ring_cell [OF assms QUEUE_SIZE_pos] assms by (cases xs) (simp_all add: ring_def)

lemma ring_head_cell:
  assumes "ring q xs"
  shows "data q ! unat (head q) = 0 \<longleftrightarrow> length xs < QUEUE_SIZE"
proof (cases "length xs < QUEUE_SIZE")
  case True
  with ring_cell [OF assms True] show ?thesis using assms by (simp add: ring_def)
next
  case False
  then have l: "length xs = QUEUE_SIZE" "xs \<noteq> []" using assms QUEUE_SIZE_pos by (auto simp: ring_def)
  then have "head q = tail q" using assms by (auto simp: ring_def intro: word_unat_eq_iff [THEN iffD2])
  then have "data q ! unat (head q) = hd xs" using ring_tail_cell [OF assms] l(2) by simp
  moreover have "hd xs \<in> set xs" using l(2) by simp
  ultimately show ?thesis using assms l(1) by (auto simp: ring_def)
qed

lemma mod_shift_inj:
  fixes a k j n :: nat
  assumes "(a + k) mod n = (a + j) mod n" "k < n" "j < n"
  shows "k = j"
  using assms
proof (induction k j rule: linorder_wlog)
  case (le k j)
  then have "n dvd (a + j) - (a + k)" using mod_eq_dvd_iff_nat [of "a + k" "a + j" n] by simp
  with le show ?case using nat_dvd_not_less [of "j - k" n] by fastforce
next
  case (sym k j)
  then show ?case by simp
qed

lemma ring_enqueue:
  assumes r: "ring q xs" and free: "length xs < QUEUE_SIZE" and v: "v \<noteq> 0"
  shows "ring (q\<lparr>data := (data q)[unat (head q) := v], head := advance (head q)\<rparr>) (xs @ [v])"
proof -
  let ?t = "unat (tail q)" and ?n = QUEUE_SIZE
  have h: "unat (head q) = (?t + length xs) mod ?n" using r by (simp add: ring_def)
  have len: "length (data q) = ?n" using r by (simp add: ring_def)
  have cells: "(data q)[unat (head q) := v] ! ((?t + k) mod ?n) =
      (if k < length (xs @ [v]) then (xs @ [v]) ! k else 0)" if k: "k < ?n" for k
  proof (cases "k = length xs")
    case True
    then show ?thesis using len QUEUE_SIZE_pos by (simp add: h)
  next
    case False
    then have "(?t + k) mod ?n \<noteq> (?t + length xs) mod ?n" using mod_shift_inj k free by blast
    then have "(data q)[unat (head q) := v] ! ((?t + k) mod ?n) = data q ! ((?t + k) mod ?n)"
      by (simp add: h)
    with ring_cell [OF r k] False show ?thesis by (auto simp: nth_append)
  qed
  have "unat (advance (head q)) = (?t + length (xs @ [v])) mod ?n"
    using unat_advance [OF ring_head_lt [OF r]] by (simp add: h mod_Suc_eq)
  with r free v cells show ?thesis by (simp add: ring_def)
qed

lemma ring_dequeue:
  assumes r: "ring q (x # xs)"
  shows "ring (q\<lparr>data := (data q)[unat (tail q) := 0], tail := advance (tail q)\<rparr>) xs"
proof -
  let ?t = "unat (tail q)" and ?n = QUEUE_SIZE
  have t: "?t < ?n" and len: "length (data q) = ?n" and fits: "Suc (length xs) \<le> ?n"
    using r by (simp_all add: ring_def)
  have adv: "unat (advance (tail q)) = Suc ?t mod ?n" by (rule unat_advance [OF t])
  have cells: "(data q)[?t := 0] ! ((Suc ?t mod ?n + k) mod ?n) = (if k < length xs then xs ! k else 0)"
    if k: "k < ?n" for k
  proof -
    have shift: "(Suc ?t mod ?n + k) mod ?n = (?t + Suc k) mod ?n" by (simp add: mod_simps)
    show ?thesis
    proof (cases "Suc k = ?n")
      case True
      then have "(?t + Suc k) mod ?n = ?t" using t by simp
      then show ?thesis unfolding shift using True fits t len by simp
    next
      case False
      with k have k1: "Suc k < ?n" by simp
      then have "(?t + Suc k) mod ?n \<noteq> (?t + 0) mod ?n" using mod_shift_inj QUEUE_SIZE_pos by blast
      then have "(data q)[?t := 0] ! ((?t + Suc k) mod ?n) = data q ! ((?t + Suc k) mod ?n)" using t by simp
      with ring_cell [OF r k1] show ?thesis unfolding shift by simp
    qed
  qed
  have "unat (head q) = (Suc ?t mod ?n + length xs) mod ?n" using r by (simp add: ring_def mod_simps)
  with r cells adv QUEUE_SIZE_pos show ?thesis by (simp add: ring_def)
qed


section \<open>The threads refine the abstract queue\<close>

definition producer_ok :: "int \<Rightarrow> bq_thread \<Rightarrow> int list \<Rightarrow> bool" where
  "producer_ok k t xs \<longleftrightarrow> 0 \<le> bq_i t \<and> bq_i t \<le> k \<and>
     (case bq_pc t of
        For_test \<Rightarrow> True
      | In_enqueue p \<Rightarrow> bq_i t < k \<and> (p = Enq_store \<longrightarrow> length xs < QUEUE_SIZE)
      | Loop_left \<Rightarrow> bq_i t = k
      | _ \<Rightarrow> False)"

definition consumer_ok :: "int \<Rightarrow> bq_thread \<Rightarrow> int list \<Rightarrow> bool" where
  "consumer_ok m t xs \<longleftrightarrow> 0 \<le> bq_i t \<and> bq_i t \<le> m \<and>
     (case bq_pc t of
        For_test \<Rightarrow> True
      | In_dequeue p \<Rightarrow> bq_i t < m \<and> (p \<noteq> Deq_test \<longrightarrow> xs \<noteq> []) \<and> (p = Deq_clear \<longrightarrow> bq_value t = hd xs)
      | Loop_left \<Rightarrow> bq_i t = m
      | _ \<Rightarrow> False)"

text \<open>What one thread does to the queue leaves what the other knows of it intact.\<close>

lemma consumer_ok_snoc: "consumer_ok m t xs \<Longrightarrow> consumer_ok m t (xs @ [v])"
  by (cases xs) (auto simp: consumer_ok_def split: bq_pc.splits)

lemma producer_ok_tl: "producer_ok k t (x # xs) \<Longrightarrow> producer_ok k t xs"
  by (auto simp: producer_ok_def split: bq_pc.splits)

definition events :: "nat \<Rightarrow> bq_thread \<Rightarrow> bq_thread \<Rightarrow> (nat \<times> queue_event) list" where
  "events i t t' = (case bq_label t t' of None \<Rightarrow> [] | Some e \<Rightarrow> [(i, e)])"

lemma events_none [simp]: "bq_i t' = bq_i t \<Longrightarrow> events i t t' = []"
  by (simp add: events_def bq_label_def)

text \<open>Distance to the end of the loop: what is left of it, and where the thread is in a round.\<close>

fun bq_place :: "bq_pc \<Rightarrow> int" where
  "bq_place For_test = 4"
| "bq_place (In_enqueue Enq_test) = 3"
| "bq_place (In_enqueue Enq_store) = 2"
| "bq_place (In_dequeue Deq_test) = 3"
| "bq_place (In_dequeue Deq_load) = 2"
| "bq_place (In_dequeue Deq_clear) = 1"
| "bq_place Loop_left = 0"
| "bq_place Out_of_bounds = 0"

definition bq_rank :: "int \<Rightarrow> bq_thread \<Rightarrow> nat" where
  "bq_rank k t = nat (4 * (k - bq_i t) + bq_place (bq_pc t))"

lemma producer_step:
  assumes "ring q xs" and "producer_ok k t xs" and "sync_producer k q t = Some (q', t')"
  shows "\<exists>xs'. ring q' xs' \<and> producer_ok k t' xs' \<and> (xs' = xs \<or> (\<exists>v. xs' = xs @ [v])) \<and>
    bounded_fifo QUEUE_SIZE xs (events i t t') = Some xs' \<and>
    int (length xs') - bq_i t' = int (length xs) - bq_i t \<and>
    (bq_rank k t' < bq_rank k t \<or> length xs = QUEUE_SIZE \<and> bq_i t < k)"
proof (cases "bq_pc t")
  case For_test
  with assms have "q' = q" and t': "t' = t\<lparr>bq_pc := if bq_i t \<noteq> k then In_enqueue Enq_test else Loop_left\<rparr>"
    by (auto simp: sync_producer_def)
  moreover have "producer_ok k t' xs" using assms(2) For_test by (auto simp: producer_ok_def t')
  moreover have "bq_rank k t' < bq_rank k t" using assms(2) For_test by (auto simp: bq_rank_def t' producer_ok_def)
  ultimately show ?thesis using assms(1) by (intro exI [of _ xs]) simp
next
  case (In_enqueue p)
  have len: "unat (head q) < length (data q)"
    using ring_head_lt [OF assms(1)] assms(1) by (simp add: ring_def)
  show ?thesis
  proof (cases p)
    case Enq_test
    with In_enqueue assms(3) len ring_head_cell [OF assms(1)]
    have "q' = q" and t': "t' = t\<lparr>bq_pc := In_enqueue (if length xs < QUEUE_SIZE then Enq_store else Enq_test)\<rparr>"
      by (auto simp: sync_producer_def array_simps SUCCESS_def BUFFER_FULL_def split: if_splits)
    moreover have "producer_ok k t' xs" using assms(2) In_enqueue by (auto simp: producer_ok_def t')
    moreover have "bq_rank k t' < bq_rank k t \<or> length xs = QUEUE_SIZE \<and> bq_i t < k"
      using assms(1,2) In_enqueue Enq_test by (auto simp: bq_rank_def t' producer_ok_def ring_def)
    ultimately show ?thesis using assms(1) by (intro exI [of _ xs]) (simp add: t')
  next
    case Enq_store
    let ?v = "bq_i t + 1"
    have q': "q' = q\<lparr>data := (data q)[unat (head q) := ?v], head := advance (head q)\<rparr>"
      and t': "t' = t\<lparr>bq_pc := For_test, bq_i := ?v\<rparr>"
      using In_enqueue Enq_store assms(3) len by (auto simp: sync_producer_def array_simps SUCCESS_def)
    have free: "length xs < QUEUE_SIZE" "0 \<le> bq_i t" "bq_i t < k"
      using assms(2) In_enqueue Enq_store by (auto simp: producer_ok_def)
    have "ring q' (xs @ [?v])" unfolding q' using free by (intro ring_enqueue [OF assms(1)]) simp_all
    moreover have "producer_ok k t' (xs @ [?v])" using free by (simp add: producer_ok_def t')
    moreover have "bounded_fifo QUEUE_SIZE xs (events i t t') = Some (xs @ [?v])"
      using free(1) In_enqueue Enq_store by (simp add: events_def bq_label_def t')
    moreover have "bq_rank k t' < bq_rank k t" using free In_enqueue Enq_store by (simp add: bq_rank_def t')
    ultimately show ?thesis by (intro exI [of _ "xs @ [?v]"]) (simp add: t')
  qed
qed (use assms in \<open>auto simp: sync_producer_def producer_ok_def\<close>)


lemma consumer_step:
  assumes "ring q xs" and "consumer_ok m t xs" and "sync_consumer m q t = Some (q', t')"
  shows "\<exists>xs'. ring q' xs' \<and> consumer_ok m t' xs' \<and> (xs' = xs \<or> (\<exists>v. xs = v # xs')) \<and>
    bounded_fifo QUEUE_SIZE xs (events i t t') = Some xs' \<and>
    int (length xs') + bq_i t' = int (length xs) + bq_i t \<and>
    (bq_rank m t' < bq_rank m t \<or> xs = [] \<and> bq_i t < m)"
proof (cases "bq_pc t")
  case For_test
  with assms have "q' = q" and t': "t' = t\<lparr>bq_pc := if bq_i t \<noteq> m then In_dequeue Deq_test else Loop_left\<rparr>"
    by (auto simp: sync_consumer_def)
  moreover have "consumer_ok m t' xs" using assms(2) For_test by (auto simp: consumer_ok_def t')
  moreover have "bq_rank m t' < bq_rank m t" using assms(2) For_test by (auto simp: bq_rank_def t' consumer_ok_def)
  ultimately show ?thesis using assms(1) by (intro exI [of _ xs]) simp
next
  case (In_dequeue p)
  have len: "unat (tail q) < length (data q)" using assms(1) by (simp add: ring_def)
  have cell: "data q ! unat (tail q) = (if xs = [] then 0 else hd xs)" by (rule ring_tail_cell [OF assms(1)])
  have hd: "hd xs \<noteq> 0" if "xs \<noteq> []" using assms(1) that by (cases xs) (auto simp: ring_def)
  show ?thesis
  proof (cases p)
    case Deq_test
    with In_dequeue assms(3) len cell hd
    have "q' = q" and t': "t' = t\<lparr>bq_pc := In_dequeue (if xs = [] then Deq_test else Deq_load)\<rparr>"
      by (auto simp: sync_consumer_def array_simps SUCCESS_def BUFFER_EMPTY_def split: if_splits)
    moreover have "consumer_ok m t' xs" using assms(2) In_dequeue by (auto simp: consumer_ok_def t')
    moreover have "bq_rank m t' < bq_rank m t \<or> xs = [] \<and> bq_i t < m"
      using assms(2) In_dequeue Deq_test by (auto simp: bq_rank_def t' consumer_ok_def)
    ultimately show ?thesis using assms(1) by (intro exI [of _ xs]) (simp add: t')
  next
    case Deq_load
    have ne: "xs \<noteq> []" "bq_i t < m" "0 \<le> bq_i t" using assms(2) In_dequeue Deq_load by (auto simp: consumer_ok_def)
    with In_dequeue Deq_load assms(3) len cell
    have "q' = q" and t': "t' = t\<lparr>bq_value := hd xs, bq_pc := In_dequeue Deq_clear\<rparr>"
      by (auto simp: sync_consumer_def array_simps)
    moreover have "consumer_ok m t' xs" using ne by (simp add: consumer_ok_def t')
    moreover have "bq_rank m t' < bq_rank m t" using ne In_dequeue Deq_load by (simp add: bq_rank_def t')
    ultimately show ?thesis using assms(1) by (intro exI [of _ xs]) (simp add: t')
  next
    case Deq_clear
    have ok: "xs \<noteq> []" "bq_i t < m" "0 \<le> bq_i t" "bq_value t = hd xs"
      using assms(2) In_dequeue Deq_clear by (auto simp: consumer_ok_def)
    then obtain x ys where xs: "xs = x # ys" by (cases xs) auto
    have q': "q' = q\<lparr>data := (data q)[unat (tail q) := 0], tail := advance (tail q)\<rparr>"
      and t': "t' = t\<lparr>bq_pc := For_test, bq_i := bq_i t + 1\<rparr>"
      using In_dequeue Deq_clear assms(3) len by (auto simp: sync_consumer_def array_simps SUCCESS_def)
    have "ring q' ys" unfolding q' by (rule ring_dequeue) (use assms(1) xs in simp)
    moreover have "consumer_ok m t' ys" using ok by (simp add: consumer_ok_def t')
    moreover have "bounded_fifo QUEUE_SIZE xs (events i t t') = Some ys"
      using ok In_dequeue Deq_clear by (simp add: events_def bq_label_def t' xs)
    moreover have "bq_rank m t' < bq_rank m t" using ok In_dequeue Deq_clear by (simp add: bq_rank_def t')
    ultimately show ?thesis by (intro exI [of _ ys]) (simp add: t' xs)
  qed
qed (use assms in \<open>auto simp: sync_consumer_def consumer_ok_def\<close>)

text \<open>The invariant of a pair that started with the elements \<open>xs0\<close> in the queue.\<close>

definition bq_inv :: "int \<Rightarrow> int \<Rightarrow> nat \<Rightarrow> (queue_t, bq_thread) cfg \<Rightarrow> int list \<Rightarrow> bool" where
  "bq_inv k m l0 c xs \<longleftrightarrow> ring (fst c) xs \<and> producer_ok k (snd c 0) xs \<and> consumer_ok m (snd c 1) xs \<and>
     int (length xs) = int l0 + bq_i (snd c 0) - bq_i (snd c 1)"

lemma bq_inv_start:
  assumes "ring q xs" "0 \<le> k" "0 \<le> m"
  shows "bq_inv k m (length xs) (bq_start q) xs"
  using assms by (simp add: bq_inv_def bq_start_def producer_ok_def consumer_ok_def)

definition bq_measure :: "int \<Rightarrow> int \<Rightarrow> (queue_t, bq_thread) cfg \<Rightarrow> nat" where
  "bq_measure k m c = bq_rank k (snd c 0) + bq_rank m (snd c 1)"

text \<open>A step: the invariant and the specification move together, and unless the thread waits the
  measure decreases.\<close>

lemma bq_inv_step:
  assumes "bq_inv k m l0 (q, ls) xs" and "i < 2" and "bq_pair k m i q (ls i) = Some (q', t')"
  shows "\<exists>xs'. bq_inv k m l0 (q', ls(i := t')) xs' \<and>
    bounded_fifo QUEUE_SIZE xs (events i (ls i) t') = Some xs' \<and>
    (bq_measure k m (q', ls(i := t')) < bq_measure k m (q, ls) \<or>
     (if i = 0 then length xs = QUEUE_SIZE \<and> bq_i (ls 0) < k else xs = [] \<and> bq_i (ls 1) < m))"
proof (cases "i = 0")
  case True
  from assms True have ok: "ring q xs" "producer_ok k (ls 0) xs" "consumer_ok m (ls 1) xs"
    "sync_producer k q (ls 0) = Some (q', t')" "int (length xs) = int l0 + bq_i (ls 0) - bq_i (ls 1)"
    by (simp_all add: bq_inv_def bq_pair_def)
  from producer_step [OF ok(1,2,4), of 0] obtain xs' where
    x: "ring q' xs'" "producer_ok k t' xs'" "xs' = xs \<or> (\<exists>v. xs' = xs @ [v])"
    "bounded_fifo QUEUE_SIZE xs (events 0 (ls 0) t') = Some xs'"
    "int (length xs') - bq_i t' = int (length xs) - bq_i (ls 0)"
    "bq_rank k t' < bq_rank k (ls 0) \<or> length xs = QUEUE_SIZE \<and> bq_i (ls 0) < k" by blast
  have "consumer_ok m (ls 1) xs'" using x(3) ok(3) consumer_ok_snoc by auto
  with x ok(5) True show ?thesis by (intro exI [of _ xs']) (auto simp: bq_inv_def bq_measure_def)
next
  case False
  with assms(2) have i: "i = 1" by simp
  with assms have ok: "ring q xs" "producer_ok k (ls 0) xs" "consumer_ok m (ls 1) xs"
    "sync_consumer m q (ls 1) = Some (q', t')" "int (length xs) = int l0 + bq_i (ls 0) - bq_i (ls 1)"
    by (simp_all add: bq_inv_def bq_pair_def)
  from consumer_step [OF ok(1,3,4), of 1] obtain xs' where
    x: "ring q' xs'" "consumer_ok m t' xs'" "xs' = xs \<or> (\<exists>v. xs = v # xs')"
    "bounded_fifo QUEUE_SIZE xs (events 1 (ls 1) t') = Some xs'"
    "int (length xs') + bq_i t' = int (length xs) + bq_i (ls 1)"
    "bq_rank m t' < bq_rank m (ls 1) \<or> xs = [] \<and> bq_i (ls 1) < m" by blast
  have "producer_ok k (ls 0) xs'" using x(3) ok(2) producer_ok_tl by auto
  with x ok(5) i show ?thesis by (intro exI [of _ xs']) (auto simp: bq_inv_def bq_measure_def)
qed

lemma bq_run_refines:
  assumes "bq_inv k m l0 c xs"
  shows "\<exists>xs'. bq_inv k m l0 (run_sched (bq_pair k m) 2 sched c) xs' \<and>
    bounded_fifo QUEUE_SIZE xs (trace_of (bq_pair k m) 2 bq_label sched c) = Some xs'"
  using assms
proof (induction sched arbitrary: c xs)
  case (Cons i sched)
  let ?c' = "sched_step (bq_pair k m) 2 i c"
  let ?ev = "if i < 2 then events i (snd c i) (snd ?c' i) else []"
  have "\<exists>xs1. bq_inv k m l0 ?c' xs1 \<and> bounded_fifo QUEUE_SIZE xs ?ev = Some xs1"
  proof (rule sched_step_cases [of "bq_pair k m" 2 i c])
    assume "?c' = c"
    with Cons.prems show ?thesis by simp
  next
    fix q' t'
    assume i: "i < 2" and st: "bq_pair k m i (fst c) (snd c i) = Some (q', t')"
      and c': "?c' = (q', (snd c)(i := t'))"
    from bq_inv_step [of k m l0 "fst c" "snd c" xs i q' t'] Cons.prems i st
    show ?thesis by (auto simp: c')
  qed
  then obtain xs1 where x1: "bq_inv k m l0 ?c' xs1" "bounded_fifo QUEUE_SIZE xs ?ev = Some xs1" by blast
  from Cons.IH [OF x1(1)] obtain xs' where
    x': "bq_inv k m l0 (run_sched (bq_pair k m) 2 sched ?c') xs'"
    "bounded_fifo QUEUE_SIZE xs1 (trace_of (bq_pair k m) 2 bq_label sched ?c') = Some xs'" by blast
  have "trace_of (bq_pair k m) 2 bq_label (i # sched) c =
      ?ev @ trace_of (bq_pair k m) 2 bq_label sched ?c'"
    by (simp add: Let_def events_def)
  with x1(2) x' show ?case by (auto simp: bounded_fifo_append)
qed simp


section \<open>Completion\<close>

definition bq_done :: "(queue_t, bq_thread) cfg \<Rightarrow> bool" where
  "bq_done c \<longleftrightarrow> bq_pc (snd c 0) = Loop_left \<and> bq_pc (snd c 1) = Loop_left"

lemma bq_thread_steps:
  assumes "bq_inv k m l0 c xs" and "i < 2" and "bq_pc (snd c i) \<noteq> Loop_left"
  shows "\<exists>q' t'. bq_pair k m i (fst c) (snd c i) = Some (q', t')"
proof (cases "i = 0")
  case True
  obtain p where "bq_pc (snd c 0) = For_test \<or> bq_pc (snd c 0) = In_enqueue p"
    using assms True by (cases "bq_pc (snd c 0)") (auto simp: bq_inv_def producer_ok_def)
  then show ?thesis using True
    by (cases "enqueue (bq_i (snd c 0) + 1) (fst c) p")
      (auto simp: bq_pair_def sync_producer_def split: call_state.splits)
next
  case False
  with assms(2) have i: "i = 1" by simp
  obtain p where "bq_pc (snd c 1) = For_test \<or> bq_pc (snd c 1) = In_dequeue p"
    using assms i by (cases "bq_pc (snd c 1)") (auto simp: bq_inv_def consumer_ok_def)
  then show ?thesis using i
    by (cases "dequeue (bq_value (snd c 1)) (fst c) p")
      (auto simp: bq_pair_def sync_consumer_def split: call_state.splits)
qed

lemma bq_progress:
  assumes inv: "bq_inv k m l0 c xs" and "\<not> bq_done c"
    and room: "m \<le> int l0 + k" "int l0 + k \<le> m + int QUEUE_SIZE"
  shows "\<exists>is. bq_measure k m (run_sched (bq_pair k m) 2 is c) < bq_measure k m c"
proof -
  let ?waits = "\<lambda>i :: nat. if i = 0 then length xs = QUEUE_SIZE \<and> bq_i (snd c 0) < k
    else xs = [] \<and> bq_i (snd c 1) < m"
  have len: "int (length xs) = int l0 + bq_i (snd c 0) - bq_i (snd c 1)"
    and left: "bq_pc (snd c 0) = Loop_left \<Longrightarrow> bq_i (snd c 0) = k"
      "bq_pc (snd c 1) = Loop_left \<Longrightarrow> bq_i (snd c 1) = m"
    using inv by (auto simp: bq_inv_def producer_ok_def consumer_ok_def)
  have "\<exists>i<2. bq_pc (snd c i) \<noteq> Loop_left \<and> \<not> ?waits i"
  proof (rule ccontr)
    assume no: "\<not> ?thesis"
    have w: "bq_pc (snd c i) = Loop_left \<or> ?waits i" if "i < 2" for i
      using no that by blast
    have p: "bq_pc (snd c 0) = Loop_left \<or> ?waits 0" by (rule w) simp
    have t: "bq_pc (snd c 1) = Loop_left \<or> ?waits 1" by (rule w) simp
    have "?waits 0 \<or> ?waits 1" using assms(2) p t by (auto simp: bq_done_def)
    with p t len left room QUEUE_SIZE_pos show False by (auto split: if_splits)
  qed
  then obtain i where i: "i < 2" "bq_pc (snd c i) \<noteq> Loop_left" "\<not> ?waits i" by blast
  from bq_thread_steps [OF inv i(1,2)] obtain q' t' where
    st: "bq_pair k m i (fst c) (snd c i) = Some (q', t')" by blast
  from bq_inv_step [of k m l0 "fst c" "snd c" xs i q' t'] inv i st
  have "bq_measure k m (q', (snd c)(i := t')) < bq_measure k m c" by auto
  moreover have "run_sched (bq_pair k m) 2 [i] c = (q', (snd c)(i := t'))"
    using i(1) st by (simp add: sched_step_def thread_step_def)
  ultimately show ?thesis by metis
qed

lemma bq_completes:
  assumes inv: "bq_inv k m l0 c xs" and room: "m \<le> int l0 + k" "int l0 + k \<le> m + int QUEUE_SIZE"
  shows "\<exists>is. bq_done (run_sched (bq_pair k m) 2 is c)"
proof (rule completion_by_measure [where \<mu> = "bq_measure k m" and ?c0.0 = c])
  fix c' assume "reach (bq_pair k m) 2 c c'" and "\<not> bq_done c'"
  moreover from this(1) obtain sched where "c' = run_sched (bq_pair k m) 2 sched c"
    using reach_imp_sched by metis
  ultimately show "\<exists>is. bq_measure k m (run_sched (bq_pair k m) 2 is c') < bq_measure k m c'"
    using bq_run_refines [OF inv] bq_progress room by blast
qed (rule reach_init)

section \<open>Properties\<close>



text \<open>
  A producer of \<open>k\<close> elements and a consumer of \<open>m\<close>, started on a queue with the elements \<open>xs\<close>,
  can always go on until both return, whatever happened so far, exactly when the elements suffice
  for the consumer and those left over fit the queue.
\<close>

theorem bqueue_completes_iff:
  assumes "ring q xs" and "0 \<le> k" and "0 \<le> m"
  shows "(\<forall>sched. \<exists>more. bq_done (bq_run k m q (sched @ more))) \<longleftrightarrow>
    m \<le> int (length xs) + k \<and> int (length xs) + k \<le> m + int QUEUE_SIZE"
proof
  assume "\<forall>sched. \<exists>more. bq_done (bq_run k m q (sched @ more))"
  then obtain more where d: "bq_done (bq_run k m q more)" by (metis append_Nil)
  obtain xs' where "bq_inv k m (length xs) (bq_run k m q more) xs'"
    using bq_run_refines [OF bq_inv_start [OF assms]] unfolding bq_run_def by blast
  with d show "m \<le> int (length xs) + k \<and> int (length xs) + k \<le> m + int QUEUE_SIZE"
    by (auto simp: bq_inv_def bq_done_def producer_ok_def consumer_ok_def ring_def)
next
  assume room: "m \<le> int (length xs) + k \<and> int (length xs) + k \<le> m + int QUEUE_SIZE"
  show "\<forall>sched. \<exists>more. bq_done (bq_run k m q (sched @ more))"
  proof
    fix sched
    obtain xs' where "bq_inv k m (length xs) (run_sched (bq_pair k m) 2 sched (bq_start q)) xs'"
      using bq_run_refines [OF bq_inv_start [OF assms]] by blast
    from bq_completes [OF this] room show "\<exists>more. bq_done (bq_run k m q (sched @ more))"
      by (simp add: bq_run_def run_sched_append)
  qed
qed

lemma bqueue_completes_iff_witness:
  "\<exists>more. bq_done (bq_run 3 2 queue_init ([0, 0, 1] @ more))"
proof -
  have "\<forall>sched. \<exists>more. bq_done (bq_run 3 2 queue_init (sched @ more))"
    using bqueue_completes_iff [OF ring_init, of 3 2] by (simp add: QUEUE_SIZE_def)
  then show ?thesis by (rule spec)
qed

end
