(* ===== verification/Boost_Queues.thy ===== *)
theory Boost_Queues
  imports Interleave
begin

text \<open>
  The loops around the queues of the Boost library (\<open>benchmark/nonblocking/BoostMPMC/boost_mpmc.cpp\<close> and
  \<open>benchmark/nonblocking/BoostSPSC/boost_spsc.cpp\<close>). The queues are not part of the repository: \<open>push\<close> and \<open>pop\<close>
  are parameters, each call of which takes effect at once, as the library documents.
\<close>

section \<open>The queues of the library\<close>

text \<open>
  \<open>push q v\<close> tells whether the element has been pushed, \<open>pop q\<close> returns the element that has been popped.
  What the loops rely on: \<open>push\<close> fails exactly on a full queue, \<open>pop\<close> exactly on an empty one, and the queue is
  first in, first out. \<open>cap\<close> is the number of elements the queue can hold (1024 in \<open>boost_spsc.cpp\<close>; what
  the allocator gives to the nodes in \<open>boost_mpmc.cpp\<close>).
\<close>

definition fifo_ops ::
  "nat \<Rightarrow> ('q \<Rightarrow> int \<Rightarrow> 'q \<times> bool) \<Rightarrow> ('q \<Rightarrow> 'q \<times> int option) \<Rightarrow> ('q \<Rightarrow> int list) \<Rightarrow> bool" where
  "fifo_ops cap push pop contents \<longleftrightarrow>
     (\<forall>q v q' ok. push q v = (q', ok) \<longrightarrow>
        (ok \<longleftrightarrow> length (contents q) < cap) \<and> contents q' = (if ok then contents q @ [v] else contents q)) \<and>
     (\<forall>q q'. pop q = (q', None) \<longrightarrow> contents q = [] \<and> contents q' = []) \<and>
     (\<forall>q q' v. pop q = (q', Some v) \<longrightarrow> contents q = v # contents q')"

section \<open>The threads\<close>

datatype boost_pc = Push_for | Push_try | Pop_for | Pop_try | Pop_read | Returned

record boost_thread =
  b_pc :: boost_pc
  b_i :: int
  b_value :: int

text \<open>\<open>boost_mpmc.cpp\<close>\<close>

definition mpmc_producer ::
  "('q \<Rightarrow> int \<Rightarrow> 'q \<times> bool) \<Rightarrow> int \<Rightarrow> 'q \<Rightarrow> boost_thread \<Rightarrow> ('q \<times> boost_thread) option" where
  "mpmc_producer push nr_iter q l =
     (case b_pc l of
        Push_for \<Rightarrow> Some (q, l\<lparr>b_pc := (if b_i l < nr_iter then Push_try else Returned)\<rparr>)
      | Push_try \<Rightarrow>
          (case push q (b_i l) of
             (q', True) \<Rightarrow> Some (q', l\<lparr>b_i := b_i l + 1, b_pc := Push_for\<rparr>)
           | (q', False) \<Rightarrow> Some (q', l))
      | _ \<Rightarrow> None)"

definition mpmc_consumer ::
  "('q \<Rightarrow> 'q \<times> int option) \<Rightarrow> int \<Rightarrow> 'q \<Rightarrow> boost_thread \<Rightarrow> ('q \<times> boost_thread) option" where
  "mpmc_consumer pop nr_iter q l =
     (case b_pc l of
        Pop_for \<Rightarrow> Some (q, l\<lparr>b_pc := (if b_i l < nr_iter then Pop_try else Returned)\<rparr>)
      | Pop_try \<Rightarrow>
          (case pop q of
             (q', Some v) \<Rightarrow> Some (q', l\<lparr>b_value := v, b_i := b_i l + 1, b_pc := Pop_for\<rparr>)
           | (q', None) \<Rightarrow> Some (q', l))
      | _ \<Rightarrow> None)"

text \<open>\<open>boost_spsc.cpp\<close>: the consumer reads the value and returns when it is \<open>-1\<close>.\<close>

definition spsc_producer ::
  "('q \<Rightarrow> int \<Rightarrow> 'q \<times> bool) \<Rightarrow> int \<Rightarrow> 'q \<Rightarrow> boost_thread \<Rightarrow> ('q \<times> boost_thread) option" where
  "spsc_producer push iter q l =
     (case b_pc l of
        Push_for \<Rightarrow> Some (q, l\<lparr>b_pc := (if b_i l \<noteq> iter then Push_try else Returned)\<rparr>)
      | Push_try \<Rightarrow>
          (case push q (b_i l) of
             (q', True) \<Rightarrow> Some (q', l\<lparr>b_i := b_i l + 1, b_pc := Push_for\<rparr>)
           | (q', False) \<Rightarrow> Some (q', l))
      | _ \<Rightarrow> None)"

definition spsc_consumer ::
  "('q \<Rightarrow> 'q \<times> int option) \<Rightarrow> int \<Rightarrow> 'q \<Rightarrow> boost_thread \<Rightarrow> ('q \<times> boost_thread) option" where
  "spsc_consumer pop iter q l =
     (case b_pc l of
        Pop_for \<Rightarrow> Some (q, l\<lparr>b_pc := (if b_i l \<noteq> iter then Pop_try else Returned)\<rparr>)
      | Pop_try \<Rightarrow>
          (case pop q of
             (q', Some v) \<Rightarrow> Some (q', l\<lparr>b_value := v, b_pc := Pop_read\<rparr>)
           | (q', None) \<Rightarrow> Some (q', l))
      | Pop_read \<Rightarrow> Some (q, if b_value l = - 1 then l\<lparr>b_pc := Returned\<rparr> else l\<lparr>b_i := b_i l + 1, b_pc := Pop_for\<rparr>)
      | _ \<Rightarrow> None)"

text \<open>Threads \<open>0\<close> to \<open>n - 1\<close> produce, the others consume; in \<open>boost_spsc.cpp\<close> a queue has one of each.\<close>

definition mpmc_prog ::
  "('q \<Rightarrow> int \<Rightarrow> 'q \<times> bool) \<Rightarrow> ('q \<Rightarrow> 'q \<times> int option) \<Rightarrow> nat \<Rightarrow> (nat \<Rightarrow> int) \<Rightarrow> ('q, boost_thread) prog" where
  "mpmc_prog push pop n k i = (if i < n then mpmc_producer push (k i) else mpmc_consumer pop (k i))"

definition spsc_prog ::
  "('q \<Rightarrow> int \<Rightarrow> 'q \<times> bool) \<Rightarrow> ('q \<Rightarrow> 'q \<times> int option) \<Rightarrow> (nat \<Rightarrow> int) \<Rightarrow> ('q, boost_thread) prog" where
  "spsc_prog push pop k i = (if i = 0 then spsc_producer push (k i) else spsc_consumer pop (k i))"

definition boost_start :: "nat \<Rightarrow> nat \<Rightarrow> boost_thread" where
  "boost_start n i = \<lparr>b_pc = (if i < n then Push_for else Pop_for), b_i = 0, b_value = 0\<rparr>"

section \<open>Events\<close>

datatype boost_event = Pushed int | Popped int

definition boost_effect :: "boost_thread \<Rightarrow> boost_thread \<Rightarrow> boost_event option" where
  "boost_effect l l' =
     (if b_pc l = Push_try \<and> b_pc l' = Push_for then Some (Pushed (b_i l))
      else if b_pc l = Pop_try \<and> b_pc l' \<noteq> Pop_try then Some (Popped (b_value l'))
      else None)"

lemma boost_effect_same [simp]: "boost_effect l l = None"
  by (auto simp: boost_effect_def)

fun pushed_by :: "nat set \<Rightarrow> (nat \<times> boost_event) list \<Rightarrow> int list" where
  "pushed_by I [] = []"
| "pushed_by I ((i, Pushed v) # es) = (if i \<in> I then v # pushed_by I es else pushed_by I es)"
| "pushed_by I ((i, Popped v) # es) = pushed_by I es"

fun popped :: "(nat \<times> boost_event) list \<Rightarrow> int list" where
  "popped [] = []"
| "popped ((i, Pushed v) # es) = popped es"
| "popped ((i, Popped v) # es) = v # popped es"

lemma pushed_by_append [simp]: "pushed_by I (es @ fs) = pushed_by I es @ pushed_by I fs"
  by (induction I es rule: pushed_by.induct) auto

lemma popped_append [simp]: "popped (es @ fs) = popped es @ popped fs"
  by (induction es rule: popped.induct) auto

section \<open>The invariant\<close>

text \<open>Both programs; \<open>spsc\<close> tells which.\<close>

definition boost_prog ::
  "bool \<Rightarrow> ('q \<Rightarrow> int \<Rightarrow> 'q \<times> bool) \<Rightarrow> ('q \<Rightarrow> 'q \<times> int option) \<Rightarrow> nat \<Rightarrow> (nat \<Rightarrow> int) \<Rightarrow> ('q, boost_thread) prog" where
  "boost_prog spsc push pop n k = (if spsc then spsc_prog push pop k else mpmc_prog push pop n k)"

definition boost_thread_ok :: "bool \<Rightarrow> nat \<Rightarrow> int \<Rightarrow> nat \<Rightarrow> boost_thread \<Rightarrow> bool" where
  "boost_thread_ok spsc n k i l \<longleftrightarrow>
     b_pc l \<in> (if i < n then {Push_for, Push_try, Returned} else {Pop_for, Pop_try, Pop_read, Returned}) \<and>
     0 \<le> b_i l \<and> b_i l \<le> k \<and> (b_pc l \<in> {Push_try, Pop_try, Pop_read} \<longrightarrow> b_i l < k) \<and>
     (b_pc l = Returned \<longrightarrow> b_i l = k) \<and> (b_pc l = Pop_read \<longrightarrow> spsc \<and> 0 \<le> b_value l)"

definition boost_balance :: "nat \<Rightarrow> nat \<Rightarrow> boost_thread \<Rightarrow> int" where
  "boost_balance n i l = (if i < n then b_i l else - (b_i l + (if b_pc l = Pop_read then 1 else 0)))"

definition boost_inv ::
  "bool \<Rightarrow> nat \<Rightarrow> nat \<Rightarrow> nat \<Rightarrow> (nat \<Rightarrow> int) \<Rightarrow> nat \<Rightarrow> ('q \<Rightarrow> int list) \<Rightarrow> 'q \<Rightarrow> (nat \<Rightarrow> boost_thread) \<Rightarrow> bool" where
  "boost_inv spsc cap n N k l0 contents q ls \<longleftrightarrow>
     (\<forall>i<N. boost_thread_ok spsc n (k i) i (ls i)) \<and> (\<forall>v\<in>set (contents q). 0 \<le> v) \<and> length (contents q) \<le> cap \<and>
     (\<Sum>i<N. boost_balance n i (ls i)) = int (length (contents q)) - int l0"

text \<open>What a step does to the contents of the queue.\<close>

fun boost_applies :: "boost_event option \<Rightarrow> int list \<Rightarrow> int list \<Rightarrow> bool" where
  "boost_applies None xs ys = (ys = xs)"
| "boost_applies (Some (Pushed v)) xs ys = (ys = xs @ [v])"
| "boost_applies (Some (Popped v)) xs ys = (xs = v # ys)"

text \<open>A producer pushes the values in order.\<close>

fun boost_produces :: "bool \<Rightarrow> int \<Rightarrow> int \<Rightarrow> boost_event option \<Rightarrow> bool" where
  "boost_produces producer i i' None = (producer \<longrightarrow> i' = i)"
| "boost_produces producer i i' (Some (Pushed v)) = (producer \<and> v = i \<and> i' = i + 1 \<and> 0 \<le> i)"
| "boost_produces producer i i' (Some (Popped v)) = (\<not> producer)"

lemma fifo_opsD:
  assumes "fifo_ops cap push pop contents"
  shows "push q v = (q', ok) \<Longrightarrow> (ok \<longleftrightarrow> length (contents q) < cap) \<and> contents q' = (if ok then contents q @ [v] else contents q)"
    and "pop q = (q', None) \<Longrightarrow> contents q = [] \<and> contents q' = []"
    and "pop q = (q', Some v) \<Longrightarrow> contents q = v # contents q'"
  using assms unfolding fifo_ops_def by blast+

lemma boost_thread_step:
  assumes ops: "fifo_ops cap push pop contents" and spsc: "spsc \<Longrightarrow> n = 1"
    and ok: "boost_thread_ok spsc n (k i) i l" and pos: "\<forall>v\<in>set (contents q). 0 \<le> v"
    and len: "length (contents q) \<le> cap" and step: "boost_prog spsc push pop n k i q l = Some (q', l')"
  shows "boost_thread_ok spsc n (k i) i l' \<and> (\<forall>v\<in>set (contents q'). 0 \<le> v) \<and> length (contents q') \<le> cap \<and>
    boost_applies (boost_effect l l') (contents q) (contents q') \<and>
    boost_produces (i < n) (b_i l) (b_i l') (boost_effect l l') \<and>
    boost_balance n i l' + int (length (contents q)) = boost_balance n i l + int (length (contents q'))"
proof -
  note D = fifo_opsD [OF ops]
  note defs = boost_prog_def mpmc_prog_def spsc_prog_def boost_thread_ok_def boost_balance_def boost_effect_def
  show ?thesis
  proof (cases "b_pc l")
    case Push_for
    then show ?thesis using ok pos len step spsc
      by (auto simp: defs spsc_producer_def mpmc_producer_def spsc_consumer_def mpmc_consumer_def split: if_splits)
  next
    case Push_try
    obtain q1 b where push: "push q (b_i l) = (q1, b)" by (cases "push q (b_i l)") auto
    from Push_try ok have i: "i < n" by (auto simp: boost_thread_ok_def split: if_splits)
    with step spsc Push_try push have "q' = q1" "l' = (if b then l\<lparr>b_i := b_i l + 1, b_pc := Push_for\<rparr> else l)"
      by (auto simp: defs spsc_producer_def mpmc_producer_def split: if_splits bool.splits)
    with D(1) [OF push] Push_try ok pos len i show ?thesis by (auto simp: defs)
  next
    case Pop_for
    then show ?thesis using ok pos len step spsc
      by (auto simp: defs spsc_producer_def mpmc_producer_def spsc_consumer_def mpmc_consumer_def split: if_splits)
  next
    case Pop_try
    obtain q1 r where pop: "pop q = (q1, r)" by (cases "pop q") auto
    from Pop_try ok have i: "\<not> i < n" by (auto simp: boost_thread_ok_def split: if_splits)
    show ?thesis
    proof (cases r)
      case None
      with step spsc Pop_try pop i have "q' = q1" "l' = l"
        by (auto simp: defs spsc_consumer_def mpmc_consumer_def split: if_splits)
      with D(2) pop None Pop_try ok pos len show ?thesis by (auto simp: defs)
    next
      case (Some v)
      with step spsc Pop_try pop i have "q' = q1"
        "l' = (if spsc then l\<lparr>b_value := v, b_pc := Pop_read\<rparr> else l\<lparr>b_value := v, b_i := b_i l + 1, b_pc := Pop_for\<rparr>)"
        by (auto simp: defs spsc_consumer_def mpmc_consumer_def split: if_splits)
      with D(3) [of q q1 v] pop Some Pop_try ok pos len i show ?thesis by (auto simp: defs)
    qed
  next
    case Pop_read
    then show ?thesis using ok pos len step spsc
      by (auto simp: defs spsc_producer_def mpmc_producer_def spsc_consumer_def mpmc_consumer_def split: if_splits)
  next
    case Returned
    then show ?thesis using step
      by (auto simp: defs spsc_producer_def mpmc_producer_def spsc_consumer_def mpmc_consumer_def split: if_splits)
  qed
qed

lemma boost_run:
  assumes ops: "fifo_ops cap push pop contents" and spsc: "spsc \<Longrightarrow> n = 1"
    and inv: "boost_inv spsc cap n N k l0 contents q ls" and start: "\<forall>i. b_i (ls i) = 0"
  shows "boost_inv spsc cap n N k l0 contents (fst (run_sched (boost_prog spsc push pop n k) N sched (q, ls)))
      (snd (run_sched (boost_prog spsc push pop n k) N sched (q, ls))) \<and>
    contents q @ pushed_by UNIV (trace_of (boost_prog spsc push pop n k) N boost_effect sched (q, ls)) =
      popped (trace_of (boost_prog spsc push pop n k) N boost_effect sched (q, ls)) @
      contents (fst (run_sched (boost_prog spsc push pop n k) N sched (q, ls))) \<and>
    (\<forall>j<n. pushed_by {j} (trace_of (boost_prog spsc push pop n k) N boost_effect sched (q, ls)) =
      map int [0..<nat (b_i (snd (run_sched (boost_prog spsc push pop n k) N sched (q, ls)) j))])"
proof (induction sched rule: rev_induct)
  case Nil
  then show ?case using inv start by simp
next
  case (snoc i sched)
  let ?P = "boost_prog spsc push pop n k"
  let ?c = "run_sched ?P N sched (q, ls)" and ?t = "trace_of ?P N boost_effect sched (q, ls)"
  let ?c' = "sched_step ?P N i ?c"
  define e where "e = (if i < N then boost_effect (snd ?c i) (snd ?c' i) else None)"
  define es where "es = (case e of None \<Rightarrow> [] | Some e \<Rightarrow> [(i, e)])"
  have trace: "trace_of ?P N boost_effect (sched @ [i]) (q, ls) = ?t @ es"
    by (simp add: trace_of_append Let_def es_def e_def split: option.splits)
  have run: "run_sched ?P N (sched @ [i]) (q, ls) = ?c'" by (simp add: run_sched_append)
  from snoc.IH have inv: "boost_inv spsc cap n N k l0 contents (fst ?c) (snd ?c)"
    and fifo: "contents q @ pushed_by UNIV ?t = popped ?t @ contents (fst ?c)"
    and own: "\<And>j. j < n \<Longrightarrow> pushed_by {j} ?t = map int [0..<nat (b_i (snd ?c j))]" by blast+
  have "boost_inv spsc cap n N k l0 contents (fst ?c') (snd ?c') \<and> boost_applies e (contents (fst ?c)) (contents (fst ?c')) \<and>
    boost_produces (i < n) (b_i (snd ?c i)) (b_i (snd ?c' i)) e"
  proof (rule sched_step_cases [of ?P N i ?c])
    assume same: "?c' = ?c"
    then have "e = None" by (simp add: e_def)
    with inv same show ?thesis by simp
  next
    fix q' l'
    assume i: "i < N" and st: "?P i (fst ?c) (snd ?c i) = Some (q', l')" and c': "?c' = (q', (snd ?c)(i := l'))"
    from inv i have ok: "boost_thread_ok spsc n (k i) i (snd ?c i)" "\<forall>v\<in>set (contents (fst ?c)). 0 \<le> v"
      "length (contents (fst ?c)) \<le> cap" by (simp_all add: boost_inv_def)
    note one = boost_thread_step [OF ops spsc ok st]
    have "(\<Sum>j<N. boost_balance n j (((snd ?c)(i := l')) j)) = int (length (contents q')) - int l0"
      using sum_fun_upd_add [where g = "boost_balance n", OF i, of "snd ?c" l'] inv one
      by (simp add: boost_inv_def)
    with one inv i show ?thesis by (auto simp: c' e_def boost_inv_def)
  qed
  then have inv': "boost_inv spsc cap n N k l0 contents (fst ?c') (snd ?c')"
    and applies: "boost_applies e (contents (fst ?c)) (contents (fst ?c'))"
    and produces: "boost_produces (i < n) (b_i (snd ?c i)) (b_i (snd ?c' i)) e" by blast+
  have "contents q @ pushed_by UNIV (?t @ es) = popped (?t @ es) @ contents (fst ?c')"
    using fifo applies by (cases e; cases "the e") (auto simp: es_def)
  moreover have "pushed_by {j} (?t @ es) = map int [0..<nat (b_i (snd ?c' j))]" if "j < n" for j
  proof (cases "j = i")
    case True
    with own [OF that] produces that show ?thesis
      by (cases e; cases "the e") (auto simp: es_def nat_add_distrib)
  next
    case False
    then have "pushed_by {j} es = []" by (cases e; cases "the e") (auto simp: es_def)
    moreover have "snd ?c' j = snd ?c j" using False by (rule sched_step_other)
    ultimately show ?thesis using own [OF that] by simp
  qed
  ultimately show ?case unfolding trace run using inv' by blast
qed

section \<open>Completion\<close>

definition boost_done :: "nat \<Rightarrow> ('q, boost_thread) cfg \<Rightarrow> bool" where
  "boost_done N c \<longleftrightarrow> (\<forall>i<N. b_pc (snd c i) = Returned)"

definition boost_total :: "nat \<Rightarrow> (nat \<Rightarrow> int) \<Rightarrow> nat \<Rightarrow> int" where
  "boost_total n k i = (if i < n then k i else - k i)"

lemma boost_total_sum:
  assumes "n \<le> N"
  shows "(\<Sum>i<N. boost_total n k i) = (\<Sum>i<n. k i) - (\<Sum>i=n..<N. k i)"
proof -
  have "(\<Sum>i<N. boost_total n k i) = (\<Sum>i<n. boost_total n k i) + (\<Sum>i=n..<N. boost_total n k i)"
    using assms sum.atLeastLessThan_concat [of 0 n N "boost_total n k"] by (simp add: atLeast0LessThan)
  moreover have "(\<Sum>i=n..<N. boost_total n k i) = - (\<Sum>i=n..<N. k i)"
    unfolding sum_negf [symmetric] by (intro sum.cong) (auto simp: boost_total_def)
  ultimately show ?thesis by (simp add: boost_total_def)
qed

lemma boost_balance_total:
  assumes "boost_thread_ok spsc n (k i) i l"
  shows "b_pc l = Returned \<Longrightarrow> boost_balance n i l = boost_total n k i"
    and "i < n \<Longrightarrow> boost_balance n i l \<le> boost_total n k i"
    and "\<not> i < n \<Longrightarrow> boost_total n k i \<le> boost_balance n i l"
    and "b_pc l = Push_try \<Longrightarrow> boost_balance n i l < boost_total n k i"
    and "b_pc l = Pop_try \<Longrightarrow> boost_total n k i < boost_balance n i l"
  using assms by (auto simp: boost_thread_ok_def boost_balance_def boost_total_def split: if_splits)

fun boost_pc_rank :: "boost_pc \<Rightarrow> nat" where
  "boost_pc_rank Push_for = 2" | "boost_pc_rank Push_try = 1" | "boost_pc_rank Pop_for = 3" | "boost_pc_rank Pop_try = 2"
| "boost_pc_rank Pop_read = 1" | "boost_pc_rank Returned = 0"

definition boost_rank :: "(nat \<Rightarrow> int) \<Rightarrow> nat \<Rightarrow> boost_thread \<Rightarrow> nat" where
  "boost_rank k i l = 4 * nat (k i - b_i l) + boost_pc_rank (b_pc l)"

definition boost_measure :: "nat \<Rightarrow> (nat \<Rightarrow> int) \<Rightarrow> ('q, boost_thread) cfg \<Rightarrow> nat" where
  "boost_measure N k c = (\<Sum>i<N. boost_rank k i (snd c i))"

text \<open>A thread that neither pushes to a full queue nor pops from an empty one gets on.\<close>

lemma boost_advance:
  assumes ops: "fifo_ops cap push pop contents" and spsc: "spsc \<Longrightarrow> n = 1" and ok: "boost_thread_ok spsc n (k i) i l"
    and pc: "b_pc l \<noteq> Returned" "b_pc l = Push_try \<Longrightarrow> length (contents q) < cap" "b_pc l = Pop_try \<Longrightarrow> contents q \<noteq> []"
  shows "\<exists>q' l'. boost_prog spsc push pop n k i q l = Some (q', l') \<and> boost_rank k i l' < boost_rank k i l"
proof -
  note D = fifo_opsD [OF ops]
  note defs = boost_prog_def mpmc_prog_def spsc_prog_def boost_thread_ok_def boost_rank_def
  have less: "nat (k i - b_i l) = Suc (nat (k i - (b_i l + 1)))" if "b_i l < k i" using that by simp
  show ?thesis
  proof (cases "b_pc l")
    case Push_for
    then show ?thesis using ok spsc
      by (auto simp: defs spsc_producer_def mpmc_producer_def spsc_consumer_def mpmc_consumer_def split: if_splits)
  next
    case Push_try
    obtain q1 b where push: "push q (b_i l) = (q1, b)" by (cases "push q (b_i l)") auto
    with D(1) [OF push] pc(2) Push_try have "b" by simp
    then show ?thesis using ok spsc push Push_try less
      by (auto simp: defs spsc_producer_def mpmc_producer_def spsc_consumer_def mpmc_consumer_def split: if_splits)
  next
    case Pop_for
    then show ?thesis using ok spsc
      by (auto simp: defs spsc_producer_def mpmc_producer_def spsc_consumer_def mpmc_consumer_def split: if_splits)
  next
    case Pop_try
    obtain q1 r where pop: "pop q = (q1, r)" by (cases "pop q") auto
    with D(2) [of q q1] pc(3) Pop_try obtain v where "r = Some v" by (cases r) auto
    then show ?thesis using ok spsc pop Pop_try less
      by (auto simp: defs spsc_producer_def mpmc_producer_def spsc_consumer_def mpmc_consumer_def split: if_splits)
  next
    case Pop_read
    then show ?thesis using ok spsc less
      by (auto simp: defs spsc_producer_def mpmc_producer_def spsc_consumer_def mpmc_consumer_def split: if_splits)
  qed (use pc(1) in simp)
qed

text \<open>Some thread is not blocked.\<close>

lemma boost_unblocked:
  assumes inv: "boost_inv spsc cap n N k l0 contents q ls" and cap: "0 < cap"
    and room: "0 \<le> int l0 + (\<Sum>i<N. boost_total n k i)" "int l0 + (\<Sum>i<N. boost_total n k i) \<le> int cap"
    and j: "j < N" "b_pc (ls j) \<noteq> Returned"
  shows "\<exists>i<N. b_pc (ls i) \<noteq> Returned \<and> (b_pc (ls i) = Push_try \<longrightarrow> length (contents q) < cap) \<and>
    (b_pc (ls i) = Pop_try \<longrightarrow> contents q \<noteq> [])"
proof (rule ccontr)
  assume no: "\<not> ?thesis"
  have ok: "boost_thread_ok spsc n (k i) i (ls i)" if "i < N" for i using inv that by (simp add: boost_inv_def)
  have sum: "(\<Sum>i<N. boost_balance n i (ls i)) = int (length (contents q)) - int l0" using inv by (simp add: boost_inv_def)
  have stuck: "b_pc (ls i) = Returned \<or> b_pc (ls i) = Push_try \<and> cap \<le> length (contents q) \<or>
      b_pc (ls i) = Pop_try \<and> contents q = []" if "i < N" for i
    using no that by force
  show False
  proof (cases "contents q = []")
    case True
    have "(\<Sum>i<N. boost_total n k i) < (\<Sum>i<N. boost_balance n i (ls i))"
    proof (rule sum_strict_mono_ex1)
      show "\<forall>i\<in>{..<N}. boost_total n k i \<le> boost_balance n i (ls i)"
        using stuck True cap boost_balance_total(1,5) [where k = k, OF ok] by (force intro: less_imp_le)
      show "\<exists>i\<in>{..<N}. boost_total n k i < boost_balance n i (ls i)"
        using stuck [OF j(1)] j True cap boost_balance_total(5) [where k = k, OF ok [OF j(1)]] by (intro bexI [of _ j]) auto
    qed simp
    with sum room True show False by simp
  next
    case False
    have "(\<Sum>i<N. boost_balance n i (ls i)) < (\<Sum>i<N. boost_total n k i)"
    proof (rule sum_strict_mono_ex1)
      show "\<forall>i\<in>{..<N}. boost_balance n i (ls i) \<le> boost_total n k i"
        using stuck False boost_balance_total(1,4) [where k = k, OF ok] by (force intro: less_imp_le)
      show "\<exists>i\<in>{..<N}. boost_balance n i (ls i) < boost_total n k i"
        using stuck [OF j(1)] j False boost_balance_total(4) [where k = k, OF ok [OF j(1)]] by (intro bexI [of _ j]) auto
    qed simp
    with sum room stuck [OF j(1)] j False show False by simp
  qed
qed

abbreviation boost_runs ::
  "bool \<Rightarrow> ('q \<Rightarrow> int \<Rightarrow> 'q \<times> bool) \<Rightarrow> ('q \<Rightarrow> 'q \<times> int option) \<Rightarrow> nat \<Rightarrow> nat \<Rightarrow> (nat \<Rightarrow> int) \<Rightarrow> 'q \<Rightarrow> nat list \<Rightarrow>
    ('q, boost_thread) cfg" where
  "boost_runs spsc push pop n N k q sched \<equiv> run_sched (boost_prog spsc push pop n k) N sched (q, boost_start n)"

abbreviation boost_trace ::
  "bool \<Rightarrow> ('q \<Rightarrow> int \<Rightarrow> 'q \<times> bool) \<Rightarrow> ('q \<Rightarrow> 'q \<times> int option) \<Rightarrow> nat \<Rightarrow> nat \<Rightarrow> (nat \<Rightarrow> int) \<Rightarrow> 'q \<Rightarrow> nat list \<Rightarrow>
    (nat \<times> boost_event) list" where
  "boost_trace spsc push pop n N k q sched \<equiv> trace_of (boost_prog spsc push pop n k) N boost_effect sched (q, boost_start n)"

lemma boost_inv_start:
  assumes "\<forall>v\<in>set (contents q). 0 \<le> v" and "length (contents q) \<le> cap" and "\<forall>i. 0 \<le> k i"
  shows "boost_inv spsc cap n N k (length (contents q)) contents q (boost_start n)"
proof -
  have "(\<Sum>i<N. boost_balance n i (boost_start n i)) = 0"
    by (intro sum.neutral) (simp add: boost_balance_def boost_start_def)
  with assms show ?thesis by (simp add: boost_inv_def boost_thread_ok_def boost_start_def)
qed

lemma boost_progress:
  assumes ops: "fifo_ops cap push pop contents" and spsc: "spsc \<Longrightarrow> n = 1"
    and inv: "boost_inv spsc cap n N k l0 contents (fst c) (snd c)" and cap: "0 < cap"
    and room: "0 \<le> int l0 + (\<Sum>i<N. boost_total n k i)" "int l0 + (\<Sum>i<N. boost_total n k i) \<le> int cap"
    and "\<not> boost_done N c"
  shows "\<exists>is. boost_measure N k (run_sched (boost_prog spsc push pop n k) N is c) < boost_measure N k c"
proof -
  obtain j where "j < N" "b_pc (snd c j) \<noteq> Returned" using assms(7) by (auto simp: boost_done_def)
  from boost_unblocked [OF inv cap room this] obtain i where i: "i < N" "b_pc (snd c i) \<noteq> Returned"
    "b_pc (snd c i) = Push_try \<Longrightarrow> length (contents (fst c)) < cap" "b_pc (snd c i) = Pop_try \<Longrightarrow> contents (fst c) \<noteq> []" by blast
  have "boost_thread_ok spsc n (k i) i (snd c i)" using inv i(1) by (simp add: boost_inv_def)
  from boost_advance [where k = k, OF ops spsc this i(2-4)] obtain q' l' where
    step: "boost_prog spsc push pop n k i (fst c) (snd c i) = Some (q', l')" "boost_rank k i l' < boost_rank k i (snd c i)" by blast
  then have c': "run_sched (boost_prog spsc push pop n k) N [i] c = (q', (snd c)(i := l'))"
    using i(1) by (simp add: sched_step_def thread_step_def)
  have "boost_measure N k (q', (snd c)(i := l')) < boost_measure N k c"
    using sum_fun_upd_less [where g = "boost_rank k" and f = "snd c", OF i(1) step(2)] by (simp add: boost_measure_def)
  with c' show ?thesis by metis
qed

lemma boost_completes:
  assumes ops: "fifo_ops cap push pop contents" and spsc: "spsc \<Longrightarrow> n = 1" and k: "\<forall>i. 0 \<le> k i" and n: "n \<le> N"
    and q: "\<forall>v\<in>set (contents q). 0 \<le> v" "length (contents q) \<le> cap" and cap: "0 < cap"
    and room: "(\<Sum>i=n..<N. k i) \<le> int (length (contents q)) + (\<Sum>i<n. k i)"
      "int (length (contents q)) + (\<Sum>i<n. k i) \<le> (\<Sum>i=n..<N. k i) + int cap"
  shows "\<exists>more. boost_done N (boost_runs spsc push pop n N k q (sched @ more))"
proof -
  let ?c = "boost_runs spsc push pop n N k q sched"
  have start: "\<forall>i. b_i (boost_start n i) = 0" by (simp add: boost_start_def)
  have "\<exists>is. boost_done N (run_sched (boost_prog spsc push pop n k) N is ?c)"
  proof (rule completion_by_measure [where \<mu> = "boost_measure N k" and ?c0.0 = ?c])
    fix c assume "reach (boost_prog spsc push pop n k) N ?c c" and unfinished: "\<not> boost_done N c"
    from this(1) obtain more where c: "c = boost_runs spsc push pop n N k q (sched @ more)"
      using reach_imp_sched by (metis run_sched_append)
    have "boost_inv spsc cap n N k (length (contents q)) contents (fst c) (snd c)"
      unfolding c using boost_run [OF ops spsc boost_inv_start [where contents = contents and k = k, OF q k] start] by blast
    from boost_progress [OF ops spsc this cap _ _ unfinished] room
    show "\<exists>is. boost_measure N k (run_sched (boost_prog spsc push pop n k) N is c) < boost_measure N k c"
      by (simp add: boost_total_sum [OF n])
  qed (rule reach_init)
  then show ?thesis by (simp add: run_sched_append)
qed

section \<open>Properties\<close>


text \<open>A queue of the library, as its documentation describes it.\<close>

definition list_push :: "nat \<Rightarrow> int list \<Rightarrow> int \<Rightarrow> int list \<times> bool" where
  "list_push cap xs v = (if length xs < cap then (xs @ [v], True) else (xs, False))"

fun list_pop :: "int list \<Rightarrow> int list \<times> int option" where
  "list_pop [] = ([], None)"
| "list_pop (v # xs) = (xs, Some v)"

lemma list_ops: "fifo_ops cap (list_push cap) list_pop (\<lambda>xs. xs)"
proof -
  have "list_pop xs = (ys, None) \<Longrightarrow> xs = [] \<and> ys = []" "list_pop xs = (ys, Some v) \<Longrightarrow> xs = v # ys" for xs ys v
    by (cases xs; simp)+
  then show ?thesis by (auto simp: fifo_ops_def list_push_def split: if_splits)
qed


text \<open>
  The producers and consumers can always go on until all of them return, whatever happened so far,
  exactly when the elements suffice for the consumers and those left over fit the queue.
\<close>

theorem boost_completes_iff:
  assumes "fifo_ops cap push pop contents" and "spsc \<longrightarrow> n = 1" and "\<forall>i. 0 \<le> k i" and "n \<le> N" and "0 < cap"
    and "\<forall>v\<in>set (contents q). 0 \<le> v" and "length (contents q) \<le> cap"
  shows "(\<forall>sched. \<exists>more. boost_done N (boost_runs spsc push pop n N k q (sched @ more))) \<longleftrightarrow>
    (\<Sum>i=n..<N. k i) \<le> int (length (contents q)) + (\<Sum>i<n. k i) \<and>
    int (length (contents q)) + (\<Sum>i<n. k i) \<le> (\<Sum>i=n..<N. k i) + int cap"
proof
  assume "\<forall>sched. \<exists>more. boost_done N (boost_runs spsc push pop n N k q (sched @ more))"
  then obtain more where "boost_done N (boost_runs spsc push pop n N k q more)" by (metis append_Nil)
  moreover have start: "\<forall>i. b_i (boost_start n i) = 0" by (simp add: boost_start_def)
  moreover have n: "spsc \<Longrightarrow> n = 1" using assms(2) by blast
  note R = boost_run [where sched = more and N = N, OF assms(1) n
      boost_inv_start [where contents = contents and k = k, OF assms(6,7,3)] start]
  let ?c = "boost_runs spsc push pop n N k q more"
  have inv: "boost_inv spsc cap n N k (length (contents q)) contents (fst ?c) (snd ?c)" using R by blast
  ultimately have "(\<Sum>i<N. boost_balance n i (snd ?c i)) = (\<Sum>i<N. boost_total n k i)"
    by (intro sum.cong) (auto simp: boost_done_def boost_inv_def intro!: boost_balance_total(1))
  with inv show "(\<Sum>i=n..<N. k i) \<le> int (length (contents q)) + (\<Sum>i<n. k i) \<and>
      int (length (contents q)) + (\<Sum>i<n. k i) \<le> (\<Sum>i=n..<N. k i) + int cap"
    by (simp add: boost_inv_def boost_total_sum [OF assms(4)])
qed (use boost_completes [OF assms(1) _ assms(3,4,6,7,5)] assms(2) in blast)

theorem boost_completes_iff_witness:
  "\<forall>sched. \<exists>more. boost_done 4 (boost_runs False (list_push 128) list_pop 2 4 (\<lambda>_. 5) [] (sched @ more))"
  using boost_completes_iff [where spsc = False and n = 2 and k = "\<lambda>_. 5" and q = "[]" and N = 4 and cap = 128, OF list_ops]
  by simp

end
