(* ===== verification/Sync_Loop.thy ===== *)
theory Sync_Loop
  imports Interleave
begin

text \<open>
  The loop every lock benchmark runs (\<open>taslock_sync\<close>, \<open>tatas_sync\<close>, \<open>clhqueue_sync\<close>, ...):

    \<open>for (int iter = 0; iter != nr_iter; ++iter) { lock(); useful_in(ui); unlock(); useful_out(uo); }\<close>

  A lock supplies the instructions of \<open>lock()\<close> and \<open>unlock()\<close>; this theory supplies the loop
  around them, the events an observer sees, the abstract mutual-exclusion specification, and
  the interfaces (locales) a lock implementation has to meet. \<open>useful_in\<close> and \<open>useful_out\<close> are
  parameters of the source (delay functions); they do not touch the lock.
\<close>

section \<open>The loop\<close>

text \<open>What one instruction of \<open>lock()\<close> or \<open>unlock()\<close> leads to; \<open>Crash\<close> is undefined behaviour.\<close>

datatype 'p outcome = Goto 'p | Return | Crash

text \<open>
  \<open>'s\<close>: the shared variables, \<open>'v\<close>: the thread-local variables that survive a call,
  \<open>'p\<close>, \<open>'q\<close>: the instruction labels of \<open>lock()\<close> and of \<open>unlock()\<close>, with their local variables.
\<close>

record ('s, 'v, 'p, 'q) lock_code =
  lock_entry :: 'p
  lock_instr :: "nat \<Rightarrow> 's \<Rightarrow> 'v \<Rightarrow> 'p \<Rightarrow> 's \<times> 'v \<times> 'p outcome"
  unlock_entry :: 'q
  unlock_instr :: "nat \<Rightarrow> 's \<Rightarrow> 'v \<Rightarrow> 'q \<Rightarrow> 's \<times> 'v \<times> 'q outcome"

datatype ('p, 'q) sync_pc =
  ForTest | InLock 'p | UsefulIn | InUnlock 'q | UsefulOut | Finished | Crashed

record ('v, 'p, 'q) sync_thread =
  pc :: "('p, 'q) sync_pc"
  iter :: int
  tls :: 'v

fun after_lock :: "'p outcome \<Rightarrow> ('p, 'q) sync_pc" where
  "after_lock (Goto p) = InLock p"
| "after_lock Return = UsefulIn"
| "after_lock Crash = Crashed"

fun after_unlock :: "'q outcome \<Rightarrow> ('p, 'q) sync_pc" where
  "after_unlock (Goto p) = InUnlock p"
| "after_unlock Return = UsefulOut"
| "after_unlock Crash = Crashed"

definition sync_step ::
  "('s, 'v, 'p, 'q) lock_code \<Rightarrow> int \<Rightarrow> nat \<Rightarrow> 's \<Rightarrow> ('v, 'p, 'q) sync_thread
    \<Rightarrow> ('s \<times> ('v, 'p, 'q) sync_thread) option" where
  "sync_step C nr_iter tid s t =
     (case pc t of
        ForTest \<Rightarrow>
          Some (s, t\<lparr>pc := (if iter t \<noteq> nr_iter then InLock (lock_entry C) else Finished)\<rparr>)
      | InLock p \<Rightarrow>
          (case lock_instr C tid s (tls t) p of
             (s', v', r) \<Rightarrow> Some (s', t\<lparr>tls := v', pc := after_lock r\<rparr>))
      | UsefulIn \<Rightarrow> Some (s, t\<lparr>pc := InUnlock (unlock_entry C)\<rparr>)
      | InUnlock p \<Rightarrow>
          (case unlock_instr C tid s (tls t) p of
             (s', v', r) \<Rightarrow> Some (s', t\<lparr>tls := v', pc := after_unlock r\<rparr>))
      | UsefulOut \<Rightarrow> Some (s, t\<lparr>pc := ForTest, iter := iter t + 1\<rparr>)
      | Finished \<Rightarrow> None
      | Crashed \<Rightarrow> None)"

definition sync_prog ::
  "('s, 'v, 'p, 'q) lock_code \<Rightarrow> bench \<Rightarrow> ('s, ('v, 'p, 'q) sync_thread) prog" where
  "sync_prog C b = (\<lambda>tid. sync_step C (iters b tid) tid)"

definition sync_init :: "'s \<Rightarrow> (nat \<Rightarrow> 'v) \<Rightarrow> ('s, ('v, 'p, 'q) sync_thread) cfg" where
  "sync_init s v = (s, \<lambda>tid. \<lparr>pc = ForTest, iter = 0, tls = v tid\<rparr>)"

definition sync_reach ::
  "('s, 'v, 'p, 'q) lock_code \<Rightarrow> bench \<Rightarrow> 's \<Rightarrow> (nat \<Rightarrow> 'v) \<Rightarrow> ('s, ('v, 'p, 'q) sync_thread) cfg \<Rightarrow> bool" where
  "sync_reach C b s v = reach (sync_prog C b) (nr_threads b) (sync_init s v)"

definition sync_run ::
  "('s, 'v, 'p, 'q) lock_code \<Rightarrow> bench \<Rightarrow> 's \<Rightarrow> (nat \<Rightarrow> 'v) \<Rightarrow> nat list \<Rightarrow> ('s, ('v, 'p, 'q) sync_thread) cfg" where
  "sync_run C b s v sched = run_sched (sync_prog C b) (nr_threads b) sched (sync_init s v)"

text \<open>A thread is in its critical section while it executes \<open>useful_in\<close>.\<close>

definition in_cs :: "('v, 'p, 'q) sync_thread \<Rightarrow> bool" where
  "in_cs t \<longleftrightarrow> pc t = UsefulIn"

definition all_finished :: "nat \<Rightarrow> ('s, ('v, 'p, 'q) sync_thread) cfg \<Rightarrow> bool" where
  "all_finished n c \<longleftrightarrow> (\<forall>i<n. pc (snd c i) = Finished)"

lemma sync_step_simps [simp]:
  "pc t = ForTest \<Longrightarrow> sync_step C k i s t =
     Some (s, t\<lparr>pc := (if iter t \<noteq> k then InLock (lock_entry C) else Finished)\<rparr>)"
  "pc t = InLock p \<Longrightarrow> sync_step C k i s t =
     (case lock_instr C i s (tls t) p of
        (s', v', r) \<Rightarrow> Some (s', t\<lparr>tls := v', pc := after_lock r\<rparr>))"
  "pc t = UsefulIn \<Longrightarrow> sync_step C k i s t = Some (s, t\<lparr>pc := InUnlock (unlock_entry C)\<rparr>)"
  "pc t = InUnlock q \<Longrightarrow> sync_step C k i s t =
     (case unlock_instr C i s (tls t) q of
        (s', v', r) \<Rightarrow> Some (s', t\<lparr>tls := v', pc := after_unlock r\<rparr>))"
  "pc t = UsefulOut \<Longrightarrow> sync_step C k i s t = Some (s, t\<lparr>pc := ForTest, iter := iter t + 1\<rparr>)"
  "pc t = Finished \<Longrightarrow> sync_step C k i s t = None"
  "pc t = Crashed \<Longrightarrow> sync_step C k i s t = None"
  by (simp_all add: sync_step_def)

text \<open>The thread is between the return of \<open>lock()\<close> and the end of \<open>unlock()\<close>.\<close>

definition past_lock :: "('v, 'p, 'q) sync_thread \<Rightarrow> bool" where
  "past_lock t \<longleftrightarrow> (case pc t of UsefulIn \<Rightarrow> True | InUnlock _ \<Rightarrow> True | _ \<Rightarrow> False)"

lemma past_lock_pc [simp]:
  "pc t = ForTest \<Longrightarrow> \<not> past_lock t"
  "pc t = InLock p \<Longrightarrow> \<not> past_lock t"
  "pc t = UsefulIn \<Longrightarrow> past_lock t"
  "pc t = InUnlock q \<Longrightarrow> past_lock t"
  "pc t = UsefulOut \<Longrightarrow> \<not> past_lock t"
  "pc t = Finished \<Longrightarrow> \<not> past_lock t"
  "pc t = Crashed \<Longrightarrow> \<not> past_lock t"
  by (simp_all add: past_lock_def)

lemma in_cs_past_lock: "in_cs t \<Longrightarrow> past_lock t"
  by (simp add: in_cs_def)

lemma sync_prog_apply: "sync_prog C b i = sync_step C (iters b i) i"
  by (simp add: sync_prog_def)

lemma fst_sync_init [simp]: "fst (sync_init s v) = s"
  and pc_sync_init [simp]: "pc (snd (sync_init s v) i) = ForTest"
  and iter_sync_init [simp]: "iter (snd (sync_init s v) i) = 0"
  and tls_sync_init [simp]: "tls (snd (sync_init s v) i) = v i"
  by (simp_all add: sync_init_def)

text \<open>The seven kinds of steps, as a case rule.\<close>

lemma sync_step_cases [consumes 1, case_names test enter lock crit unlock out]:
  assumes "sync_step C k i s t = Some (s', t')"
  obtains
    "pc t = ForTest" "iter t = k" "s' = s" "t' = t\<lparr>pc := Finished\<rparr>"
  | "pc t = ForTest" "iter t \<noteq> k" "s' = s" "t' = t\<lparr>pc := InLock (lock_entry C)\<rparr>"
  | p v' r where "pc t = InLock p" "lock_instr C i s (tls t) p = (s', v', r)"
      "t' = t\<lparr>tls := v', pc := after_lock r\<rparr>"
  | "pc t = UsefulIn" "s' = s" "t' = t\<lparr>pc := InUnlock (unlock_entry C)\<rparr>"
  | q v' r where "pc t = InUnlock q" "unlock_instr C i s (tls t) q = (s', v', r)"
      "t' = t\<lparr>tls := v', pc := after_unlock r\<rparr>"
  | "pc t = UsefulOut" "s' = s" "t' = t\<lparr>pc := ForTest, iter := iter t + 1\<rparr>"
  using assms by (cases "pc t") (auto split: prod.splits if_splits)

section \<open>Invariants of a lock\<close>

text \<open>
  An invariant of the whole benchmark is proved from the start configuration and one obligation
  per kind of step.
\<close>

lemma sync_reach_invariant:
  assumes "sync_reach C b s0 v0 c" and "I (sync_init s0 v0)"
    and "\<And>s ls i s' t'. I (s, ls) \<Longrightarrow> i < nr_threads b \<Longrightarrow>
           sync_step C (iters b i) i s (ls i) = Some (s', t') \<Longrightarrow> I (s', ls(i := t'))"
  shows "I c"
  using assms(1) unfolding sync_reach_def
  by (rule reach_invariant) (use assms(2,3) in \<open>auto simp: sync_prog_apply\<close>)

lemma sync_reach_idle: "sync_reach C b s v c \<Longrightarrow> nr_threads b \<le> i \<Longrightarrow> pc (snd c i) = ForTest"
  unfolding sync_reach_def by (drule (1) reach_idle) simp

lemma sync_reach_run: "sync_reach C b s v (sync_run C b s v sched)"
  by (simp add: sync_reach_def sync_run_def reach_run_sched)

text \<open>The loop counter stays between zero and the number of iterations asked for.\<close>

definition iter_inv :: "bench \<Rightarrow> ('s, ('v, 'p, 'q) sync_thread) cfg \<Rightarrow> bool" where
  "iter_inv b c \<longleftrightarrow> (\<forall>i. 0 \<le> iter (snd c i) \<and> iter (snd c i) \<le> iters b i \<and>
     (pc (snd c i) \<in> {ForTest, Finished, Crashed} \<or> iter (snd c i) < iters b i) \<and>
     (pc (snd c i) = Finished \<longrightarrow> iter (snd c i) = iters b i))"

lemma iter_inv_step:
  assumes "iter_inv b (s, ls)"
    and step: "sync_step C (iters b i) i s (ls i) = Some (s', t')"
  shows "iter_inv b (s', ls(i := t'))"
proof -
  from assms(1) have i: "0 \<le> iter (ls i)" "iter (ls i) \<le> iters b i"
      "pc (ls i) \<in> {ForTest, Finished, Crashed} \<or> iter (ls i) < iters b i"
    by (auto simp: iter_inv_def)
  from step have "0 \<le> iter t' \<and> iter t' \<le> iters b i \<and>
     (pc t' \<in> {ForTest, Finished, Crashed} \<or> iter t' < iters b i) \<and>
     (pc t' = Finished \<longrightarrow> iter t' = iters b i)"
  proof (cases rule: sync_step_cases)
    case (lock p v' r)
    with i show ?thesis by (cases r) auto
  next
    case (unlock p v' r)
    with i show ?thesis by (cases r) auto
  qed (use i in auto)
  with assms(1) show ?thesis by (auto simp: iter_inv_def)
qed

lemma sync_reach_iter_inv:
  assumes "valid_bench b" and "sync_reach C b s v c"
  shows "iter_inv b c"
  using assms(2)
proof (rule sync_reach_invariant)
  show "iter_inv b (sync_init s v)"
    using assms(1) by (auto simp: iter_inv_def valid_bench_def)
qed (rule iter_inv_step)

section \<open>Events and the abstract mutual-exclusion specification\<close>

datatype cs_event = Enter | Exit

definition cs_label :: "('v, 'p, 'q) sync_thread \<Rightarrow> ('v, 'p, 'q) sync_thread \<Rightarrow> cs_event option" where
  "cs_label t t' =
     (if \<not> in_cs t \<and> in_cs t' then Some Enter
      else if in_cs t \<and> \<not> in_cs t' then Some Exit else None)"

text \<open>The critical-section events of a run from the start.\<close>

definition cs_trace ::
  "('s, 'v, 'p, 'q) lock_code \<Rightarrow> bench \<Rightarrow> 's \<Rightarrow> (nat \<Rightarrow> 'v) \<Rightarrow> nat list \<Rightarrow> (nat \<times> cs_event) list" where
  "cs_trace C b s v sched = trace_of (sync_prog C b) (nr_threads b) cs_label sched (sync_init s v)"

text \<open>
  The specification of a lock: an automaton whose state is the thread in the critical section.
  A thread enters only when nobody is inside, and only the one inside leaves; anything else is
  refused (\<open>None\<close>).
\<close>

fun lock_spec :: "nat option \<Rightarrow> (nat \<times> cs_event) list \<Rightarrow> nat option option" where
  "lock_spec h [] = Some h"
| "lock_spec None ((i, Enter) # es) = lock_spec (Some i) es"
| "lock_spec (Some j) ((i, Exit) # es) = (if i = j then lock_spec None es else None)"
| "lock_spec (Some j) ((i, Enter) # es) = None"
| "lock_spec None ((i, Exit) # es) = None"

lemma lock_spec_append:
  "lock_spec h (xs @ ys) = (case lock_spec h xs of None \<Rightarrow> None | Some h' \<Rightarrow> lock_spec h' ys)"
  by (induction h xs rule: lock_spec.induct) auto

text \<open>How often a thread entered its critical section.\<close>

definition entries :: "nat \<Rightarrow> (nat \<times> cs_event) list \<Rightarrow> nat" where
  "entries i es = count_list es (i, Enter)"

lemma entries_append: "entries i (xs @ ys) = entries i xs + entries i ys"
  by (simp add: entries_def)

lemma entries_event:
  "entries i (if A then (case l of None \<Rightarrow> [] | Some e \<Rightarrow> [(j, e)]) else []) =
     (if A \<and> j = i \<and> l = Some Enter then 1 else 0)"
proof (cases "A \<and> l \<noteq> None")
  case True
  then obtain e where "A" and "l = Some e" by auto
  then show ?thesis by (simp add: entries_def)
next
  case False
  then show ?thesis by (cases A; cases l) (simp_all add: entries_def)
qed

text \<open>Entries completed or begun, read off the thread's state.\<close>

definition begun :: "('v, 'p, 'q) sync_thread \<Rightarrow> int" where
  "begun t = iter t + (case pc t of UsefulIn \<Rightarrow> 1 | InUnlock _ \<Rightarrow> 1 | UsefulOut \<Rightarrow> 1 | _ \<Rightarrow> 0)"

lemma begun_init [simp]: "begun (snd (sync_init s v) i) = 0"
  by (simp add: begun_def)

lemma begun_step:
  assumes "sync_step C k i s t = Some (s', t')" and "pc t' \<noteq> Crashed"
  shows "begun t' = begun t + (if cs_label t t' = Some Enter then 1 else 0)"
  using assms(1)
proof (cases rule: sync_step_cases)
  case (lock p v' r)
  with assms(2) show ?thesis by (cases r) (auto simp: begun_def cs_label_def in_cs_def)
next
  case (unlock p v' r)
  with assms(2) show ?thesis by (cases r) (auto simp: begun_def cs_label_def in_cs_def)
qed (auto simp: begun_def cs_label_def in_cs_def)

text \<open>The thread in its critical section, if there is one, is the automaton's state.\<close>

definition holds :: "('l \<Rightarrow> ('v, 'p, 'q) sync_thread) \<Rightarrow> nat \<Rightarrow> ('s, 'l) cfg \<Rightarrow> nat option \<Rightarrow> bool" where
  "holds view n c h \<longleftrightarrow> (\<forall>i<n. in_cs (view (snd c i)) \<longleftrightarrow> h = Some i) \<and> (\<forall>j. h = Some j \<longrightarrow> j < n)"

section \<open>Programs that run the loop\<close>

text \<open>
  A program each of whose threads runs the loop, and perhaps other code around it: \<open>view\<close> is a thread's
  part that is in the loop. From mutual exclusion and the absence of crashes follows that every run is a
  run of the automaton, and that a thread that has left the loop entered \<open>nr_iter\<close> times.
\<close>

locale observed_loop =
  fixes valid :: "bench \<Rightarrow> bool"
    and P :: "bench \<Rightarrow> ('s, 'l) prog"
    and c0 :: "bench \<Rightarrow> ('s, 'l) cfg"
    and view :: "'l \<Rightarrow> ('v, 'p, 'q) sync_thread"
    and code :: "bench \<Rightarrow> ('s, 'v, 'p, 'q) lock_code"
  assumes valid_bench: "valid b \<Longrightarrow> valid_bench b"
    and at_start: "valid b \<Longrightarrow> pc (view (snd (c0 b) i)) = ForTest \<and> iter (view (snd (c0 b) i)) = 0"
    and view_step: "valid b \<Longrightarrow> P b i s l = Some (s', l') \<Longrightarrow> pc (view l') \<noteq> Crashed \<Longrightarrow>
      view l' = view l \<or> sync_step (code b) (iters b i) i s (view l) = Some (s', view l')"
    and mutual: "valid b \<Longrightarrow> reach (P b) (nr_threads b) (c0 b) c \<Longrightarrow> i < nr_threads b \<Longrightarrow> j < nr_threads b \<Longrightarrow>
      in_cs (view (snd c i)) \<Longrightarrow> in_cs (view (snd c j)) \<Longrightarrow> i = j"
    and crashless: "valid b \<Longrightarrow> reach (P b) (nr_threads b) (c0 b) c \<Longrightarrow> pc (view (snd c i)) \<noteq> Crashed"
begin

abbreviation "seen \<equiv> \<lambda>l l'. cs_label (view l) (view l')"

text \<open>
  The simulation: one scheduled step of the program is one step of the automaton when the
  step is an event, and no step of it otherwise.
\<close>

lemma holds_step:
  assumes valid: "valid b" and reach: "reach (P b) (nr_threads b) (c0 b) c" and "holds view (nr_threads b) c h"
    and c': "c' = sched_step (P b) (nr_threads b) i c"
  shows "\<exists>h'. holds view (nr_threads b) c' h' \<and>
    lock_spec h (if i < nr_threads b then
       (case seen (snd c i) (snd c' i) of None \<Rightarrow> [] | Some e \<Rightarrow> [(i, e)]) else []) = Some h'"
proof -
  have reach': "reach (P b) (nr_threads b) (c0 b) c'" using reach unfolding c' by (rule reach_sched_step)
  have other: "snd c' j = snd c j" if "j \<noteq> i" for j
    using that unfolding c' by (simp add: sched_step_other)
  show ?thesis
  proof (cases "i < nr_threads b")
    case False
    then have "c' = c" by (simp add: c' sched_step_def)
    with False \<open>holds view (nr_threads b) c h\<close> show ?thesis by auto
  next
    case i: True
    consider (same) "in_cs (view (snd c i)) = in_cs (view (snd c' i))"
      | (enter) "\<not> in_cs (view (snd c i))" "in_cs (view (snd c' i))"
      | (exit) "in_cs (view (snd c i))" "\<not> in_cs (view (snd c' i))"
      by blast
    then show ?thesis
    proof cases
      case same
      then have "in_cs (view (snd c' j)) = in_cs (view (snd c j))" for j
        using other by (cases "j = i") simp_all
      with \<open>holds view (nr_threads b) c h\<close> have "holds view (nr_threads b) c' h" by (simp add: holds_def)
      with same show ?thesis by (auto simp: cs_label_def)
    next
      case enter
      have none: "h = None"
      proof (rule ccontr)
        assume "h \<noteq> None"
        with \<open>holds view (nr_threads b) c h\<close> obtain j where j: "j < nr_threads b" "in_cs (view (snd c j))"
          by (auto simp: holds_def)
        with enter(1) have "j \<noteq> i" by auto
        with j other have "in_cs (view (snd c' j))" by simp
        with mutual [OF valid reach' i j(1) enter(2)] \<open>j \<noteq> i\<close> show False by simp
      qed
      have "in_cs (view (snd c' j)) \<longleftrightarrow> i = j" if "j < nr_threads b" for j
        using mutual [OF valid reach' i that enter(2)] enter(2) by blast
      then have "holds view (nr_threads b) c' (Some i)" using i by (simp add: holds_def)
      with none enter i show ?thesis by (auto simp: cs_label_def)
    next
      case exit
      with \<open>holds view (nr_threads b) c h\<close> i have "h = Some i" by (auto simp: holds_def)
      moreover have "\<not> in_cs (view (snd c' j))" if "j < nr_threads b" for j
        using mutual [OF valid reach i that exit(1)] exit(2) other by (cases "j = i") auto
      then have "holds view (nr_threads b) c' None" by (simp add: holds_def)
      ultimately show ?thesis using exit i by (auto simp: cs_label_def)
    qed
  qed
qed

text \<open>
  Every run of the implementation is a run of the specification, and the automaton ends in the
  state of the thread that is in its critical section.
\<close>

lemma serialised_from:
  assumes "valid b" and "reach (P b) (nr_threads b) (c0 b) c" and "holds view (nr_threads b) c h"
  shows "\<exists>h'. holds view (nr_threads b) (run_sched (P b) (nr_threads b) sched c) h' \<and>
    lock_spec h (trace_of (P b) (nr_threads b) seen sched c) = Some h'"
  using assms(2,3)
proof (induction sched arbitrary: c h)
  case Nil
  then show ?case by auto
next
  case (Cons i sched)
  let ?c' = "sched_step (P b) (nr_threads b) i c"
  from holds_step [OF assms(1) Cons.prems refl, of i]
  obtain h1 where h1: "holds view (nr_threads b) ?c' h1"
    and e: "lock_spec h (if i < nr_threads b then
       (case seen (snd c i) (snd ?c' i) of None \<Rightarrow> [] | Some e \<Rightarrow> [(i, e)]) else []) = Some h1"
    by blast
  from Cons.IH [OF reach_sched_step [OF Cons.prems(1)] h1] e show ?case
    by (auto simp: Let_def lock_spec_append)
qed

lemma run_serialised:
  assumes "valid b"
  shows "\<exists>h. lock_spec None (trace_of (P b) (nr_threads b) seen sched (c0 b)) = Some h \<and>
    holds view (nr_threads b) (run_sched (P b) (nr_threads b) sched (c0 b)) h"
proof -
  have "holds view (nr_threads b) (c0 b) None" by (simp add: holds_def in_cs_def at_start [OF assms])
  with serialised_from [OF assms reach_init this, of sched] show ?thesis by auto
qed

text \<open>The number of critical sections a thread began is the number of its \<open>Enter\<close> events.\<close>

lemma begun_trace_from:
  assumes "valid b" and "reach (P b) (nr_threads b) (c0 b) c" and "i < nr_threads b"
  shows "begun (view (snd (run_sched (P b) (nr_threads b) sched c) i)) =
    begun (view (snd c i)) + int (entries i (trace_of (P b) (nr_threads b) seen sched c))"
  using assms(2)
proof (induction sched arbitrary: c)
  case Nil
  then show ?case by (simp add: entries_def)
next
  case (Cons j sched)
  let ?c' = "sched_step (P b) (nr_threads b) j c"
  have r: "reach (P b) (nr_threads b) (c0 b) ?c'" using Cons.prems by (rule reach_sched_step)
  have one: "begun (view (snd ?c' i)) = begun (view (snd c i)) +
      (if j = i \<and> seen (snd c i) (snd ?c' i) = Some Enter then 1 else 0)"
  proof (cases "j = i")
    case False
    then show ?thesis by (simp add: sched_step_other)
  next
    case True
    show ?thesis
    proof (rule sched_step_cases [of "P b" "nr_threads b" j c])
      assume "?c' = c"
      then show ?thesis by (simp add: cs_label_def)
    next
      fix s' l' assume step: "P b j (fst c) (snd c j) = Some (s', l')" and c': "?c' = (s', (snd c)(j := l'))"
      have ok: "pc (view l') \<noteq> Crashed" using crashless [OF assms(1) r, of j] by (simp add: c')
      have now: "view (snd ?c' i) = view l'" using True unfolding c' by simp
      from view_step [OF assms(1) step ok] show ?thesis
      proof
        assume "view l' = view (snd c j)"
        then show ?thesis using True unfolding now by (simp add: cs_label_def)
      next
        assume "sync_step (code b) (iters b j) j (fst c) (view (snd c j)) = Some (s', view l')"
        from begun_step [OF this ok] True show ?thesis unfolding now by simp
      qed
    qed
  qed
  have e: "entries i (if j < nr_threads b then
       (case seen (snd c j) (snd ?c' j) of None \<Rightarrow> [] | Some e \<Rightarrow> [(j, e)]) else []) =
      (if j = i \<and> seen (snd c i) (snd ?c' i) = Some Enter then 1 else 0)"
    unfolding entries_event using assms(3) by (cases "j = i") simp_all
  have "entries i (trace_of (P b) (nr_threads b) seen (j # sched) c) =
      (if j = i \<and> seen (snd c i) (snd ?c' i) = Some Enter then 1 else 0) +
      entries i (trace_of (P b) (nr_threads b) seen sched ?c')"
    by (simp only: trace_of.simps Let_def entries_append e)
  then show ?case
    using Cons.IH [OF r] one by (cases "j = i \<and> seen (snd c i) (snd ?c' i) = Some Enter") simp_all
qed

text \<open>The loop counters.\<close>

lemma view_iter_inv:
  assumes "valid b" and "reach (P b) (nr_threads b) (c0 b) c"
  shows "iter_inv b (fst c, \<lambda>i. view (snd c i))"
  using assms(2)
proof (induction rule: reach.induct)
  case reach_init
  show ?case using valid_bench [OF assms(1)] by (simp add: iter_inv_def at_start [OF assms(1)] valid_bench_def)
next
  case (reach_step s ls i s' l')
  have ok: "pc (view l') \<noteq> Crashed" using crashless [OF assms(1) reach.reach_step [OF reach_step.hyps], of i] by simp
  have upd: "(\<lambda>j. view ((ls(i := l')) j)) = (\<lambda>j. view (ls j))(i := view l')" by auto
  from view_step [OF assms(1) reach_step.hyps(3) ok] show ?case
  proof
    assume "view l' = view (ls i)"
    then show ?thesis using reach_step.IH unfolding fst_conv snd_conv upd by (simp add: iter_inv_def)
  next
    assume "sync_step (code b) (iters b i) i s (view (ls i)) = Some (s', view l')"
    then show ?thesis using iter_inv_step [of b s "\<lambda>j. view (ls j)" "code b" i] reach_step.IH
      unfolding fst_conv snd_conv upd by simp
  qed
qed

text \<open>When all threads have left the loop, the critical sections were serialised and had their number.\<close>

lemma run_contract:
  assumes "valid b" and "\<forall>i<nr_threads b. pc (view (snd (run_sched (P b) (nr_threads b) sched (c0 b)) i)) = Finished"
  shows "lock_spec None (trace_of (P b) (nr_threads b) seen sched (c0 b)) = Some None \<and>
    (\<forall>i<nr_threads b. int (entries i (trace_of (P b) (nr_threads b) seen sched (c0 b))) = iters b i)"
proof -
  let ?c = "run_sched (P b) (nr_threads b) sched (c0 b)"
  from run_serialised [OF assms(1), of sched] obtain h where
    h: "lock_spec None (trace_of (P b) (nr_threads b) seen sched (c0 b)) = Some h" and holds: "holds view (nr_threads b) ?c h"
    by blast
  have "h = None" using holds assms(2) by (cases h) (auto simp: holds_def in_cs_def)
  moreover have "int (entries i (trace_of (P b) (nr_threads b) seen sched (c0 b))) = iters b i" if i: "i < nr_threads b" for i
  proof -
    have "begun (view (snd ?c i)) = iter (view (snd ?c i))" using assms(2) i by (simp add: begun_def)
    also have "\<dots> = iters b i"
      using view_iter_inv [OF assms(1) reach_run_sched, of sched] assms(2) i by (simp add: iter_inv_def)
    finally show ?thesis
      using begun_trace_from [OF assms(1) reach_init i, of sched] at_start [OF assms(1)] by (simp add: begun_def)
  qed
  ultimately show ?thesis using h by simp
qed

end

section \<open>The interface of a lock\<close>

text \<open>
  A family of lock programs indexed by the benchmark configuration. \<open>valid\<close> says for which
  configurations the implementation promises anything; \<open>code\<close>, \<open>mem0\<close> and \<open>tls0\<close> are the
  implementation and its initial state.
\<close>

locale sync_lock =
  fixes valid :: "bench \<Rightarrow> bool"
    and code :: "bench \<Rightarrow> ('s, 'v, 'p, 'q) lock_code"
    and mem0 :: "bench \<Rightarrow> 's"
    and tls0 :: "bench \<Rightarrow> nat \<Rightarrow> 'v"
  assumes valid_bench: "valid b \<Longrightarrow> valid_bench b"
    and mutex: "valid b \<Longrightarrow> sync_reach (code b) b (mem0 b) (tls0 b) c \<Longrightarrow>
      i < nr_threads b \<Longrightarrow> j < nr_threads b \<Longrightarrow> in_cs (snd c i) \<Longrightarrow> in_cs (snd c j) \<Longrightarrow> i = j"
    and no_crash: "valid b \<Longrightarrow> sync_reach (code b) b (mem0 b) (tls0 b) c \<Longrightarrow>
      pc (snd c i) \<noteq> Crashed"

sublocale sync_lock \<subseteq> observed: observed_loop valid "\<lambda>b. sync_prog (code b) b" "\<lambda>b. sync_init (mem0 b) (tls0 b)" "\<lambda>t. t" code
  using valid_bench mutex no_crash unfolding sync_reach_def
  by unfold_locales (auto simp: sync_prog_apply)

context sync_lock
begin

lemma finished_contract:
  assumes "valid b" and "all_finished (nr_threads b) (sync_run (code b) b (mem0 b) (tls0 b) sched)"
  shows "lock_spec None (cs_trace (code b) b (mem0 b) (tls0 b) sched) = Some None \<and>
    (\<forall>i<nr_threads b. int (entries i (cs_trace (code b) b (mem0 b) (tls0 b) sched)) = iters b i)"
  using observed.run_contract [OF assms(1), of sched] assms(2)
  unfolding cs_trace_def sync_run_def all_finished_def by blast

end

section \<open>Locks that can always make progress\<close>

text \<open>
  \<open>r\<close> and \<open>u\<close> rank the instructions of \<open>lock()\<close> and \<open>unlock()\<close>, below \<open>K\<close>, by how far they are
  from returning. The rank of a thread adds the rest of the loop, so that it falls along every path
  to \<open>Finished\<close>; a spinning instruction does not change it.
\<close>

definition thread_rank :: "nat \<Rightarrow> ('p \<Rightarrow> nat) \<Rightarrow> ('q \<Rightarrow> nat) \<Rightarrow> int \<Rightarrow> ('v, 'p, 'q) sync_thread \<Rightarrow> nat" where
  "thread_rank K r u k t = nat (k - iter t) * (2 * K + 4) +
     (case pc t of
        ForTest \<Rightarrow> 2 * K + 3
      | InLock p \<Rightarrow> K + 2 + r p
      | UsefulIn \<Rightarrow> K + 1
      | InUnlock p \<Rightarrow> 1 + u p
      | _ \<Rightarrow> 0)"

definition total_rank ::
  "nat \<Rightarrow> ('p \<Rightarrow> nat) \<Rightarrow> ('q \<Rightarrow> nat) \<Rightarrow> bench \<Rightarrow> ('s, ('v, 'p, 'q) sync_thread) cfg \<Rightarrow> nat" where
  "total_rank K r u b c = (\<Sum>i<nr_threads b. thread_rank K r u (iters b i) (snd c i))"

text \<open>The next instruction of the thread is not a spin: it lowers the thread's rank.\<close>

definition advances ::
  "('s, 'v, 'p, 'q) lock_code \<Rightarrow> nat \<Rightarrow> ('p \<Rightarrow> nat) \<Rightarrow> ('q \<Rightarrow> nat) \<Rightarrow> int \<Rightarrow> nat \<Rightarrow> 's \<Rightarrow> ('v, 'p, 'q) sync_thread \<Rightarrow> bool" where
  "advances C K r u k i s t \<longleftrightarrow>
     (\<exists>s' t'. sync_step C k i s t = Some (s', t') \<and> thread_rank K r u k t' < thread_rank K r u k t)"

lemma advances_loop:
  assumes "\<And>p. r p < K" and "\<And>q. u q < K" and "pc t \<in> {ForTest, UsefulIn, UsefulOut}"
    and "pc t = ForTest \<or> iter t < k"
  shows "advances C K r u k i s t"
proof -
  have b: "r (lock_entry C) < K" "u (unlock_entry C) < K" by (rule assms(1) assms(2))+
  from assms(3) consider "pc t = ForTest" | "pc t = UsefulIn" | "pc t = UsefulOut" by auto
  then show ?thesis
  proof cases
    case 3
    with assms(4) have "nat (k - iter t) = Suc (nat (k - (iter t + 1)))" by simp
    with 3 show ?thesis by (simp add: advances_def thread_rank_def)
  qed (use b in \<open>auto simp: advances_def thread_rank_def\<close>)
qed

lemma advances_in_loop:
  assumes "iter_inv b c" and "\<And>p. r p < K" and "\<And>q. u q < K"
    and "pc (snd c i) \<in> {ForTest, UsefulIn, UsefulOut}"
  shows "advances C K r u (iters b i) i s (snd c i)"
proof (rule advances_loop)
  show "pc (snd c i) = ForTest \<or> iter (snd c i) < iters b i"
    using assms(1,4) by (auto simp: iter_inv_def)
qed (use assms in auto)

lemma advances_lock:
  assumes "\<And>p. r p < K" and "pc t = InLock p" and "lock_instr C i s (tls t) p = (s', v', q)"
    and "q = Return \<or> (\<exists>p'. q = Goto p' \<and> r p' < r p)"
  shows "advances C K r u k i s t"
  using assms by (auto simp: advances_def thread_rank_def)

lemma advances_unlock:
  assumes "\<And>q. u q < K" and "pc t = InUnlock p" and "unlock_instr C i s (tls t) p = (s', v', q)"
    and "q = Return \<or> (\<exists>p'. q = Goto p' \<and> u p' < u p)"
  shows "advances C K r u k i s t"
  using assms by (auto simp: advances_def thread_rank_def)

lemma total_rank_advances:
  assumes "i < nr_threads b" and "advances C K r u (iters b i) i (fst c) (snd c i)"
  shows "total_rank K r u b (run_sched (sync_prog C b) (nr_threads b) [i] c) < total_rank K r u b c"
proof -
  from assms(2) obtain s' t'
    where step: "sync_step C (iters b i) i (fst c) (snd c i) = Some (s', t')"
    and less: "thread_rank K r u (iters b i) t' < thread_rank K r u (iters b i) (snd c i)"
    by (auto simp: advances_def)
  have "run_sched (sync_prog C b) (nr_threads b) [i] c = (s', (snd c)(i := t'))"
    using assms(1) step by (simp add: sched_step_def thread_step_def sync_prog_apply)
  then show ?thesis
    using sum_fun_upd_less [where f = "snd c" and i = i and x = t' and
        g = "\<lambda>j. thread_rank K r u (iters b j)", OF assms(1) less]
    by (simp add: total_rank_def)
qed

text \<open>Several instructions of one thread running alone may be needed to lower its rank.\<close>

lemma total_rank_solo:
  assumes "i < nr_threads b"
    and "solo (sync_step C (iters b i) i) m (fst c) (snd c i) = (s', t')"
    and less: "thread_rank K r u (iters b i) t' < thread_rank K r u (iters b i) (snd c i)"
  shows "total_rank K r u b (run_sched (sync_prog C b) (nr_threads b) (replicate m i) c)
    < total_rank K r u b c"
proof -
  have "run_sched (sync_prog C b) (nr_threads b) (replicate m i) (fst c, snd c)
      = (s', (snd c)(i := t'))"
    using assms by (intro run_sched_solo) (simp_all add: sync_prog_apply)
  then show ?thesis
    using sum_fun_upd_less [where f = "snd c" and i = i and x = t' and
        g = "\<lambda>j. thread_rank K r u (iters b j)", OF assms(1) less]
    by (simp add: total_rank_def)
qed

text \<open>
  The thread can get on alone: its next instruction lowers its rank, or some more of them do so while it
  stays in the loop.
\<close>

definition gets_on ::
  "('s, 'v, 'p, 'q) lock_code \<Rightarrow> nat \<Rightarrow> ('p \<Rightarrow> nat) \<Rightarrow> ('q \<Rightarrow> nat) \<Rightarrow> int \<Rightarrow> nat \<Rightarrow> 's \<Rightarrow> ('v, 'p, 'q) sync_thread \<Rightarrow> bool" where
  "gets_on C K r u k i s t \<longleftrightarrow> (\<exists>m s' t'. solo (sync_step C k i) m s t = (s', t') \<and>
     thread_rank K r u k t' < thread_rank K r u k t \<and> pc t \<noteq> Finished \<and> (m = 1 \<or> pc t' \<noteq> Finished))"

lemma advances_gets_on: "advances C K r u k i s t \<Longrightarrow> gets_on C K r u k i s t"
  unfolding advances_def gets_on_def by (elim exE, intro exI [of _ 1]) auto

lemma gets_on_alone:
  assumes "solo (sync_step C k i) m s t = (s', t')" and "thread_rank K r u k t' < thread_rank K r u k t"
    and "pc t \<noteq> Finished" and "pc t' \<noteq> Finished"
  shows "gets_on C K r u k i s t"
  using assms unfolding gets_on_def by blast

lemma total_rank_gets_on:
  assumes "i < nr_threads b" and "gets_on C K r u (iters b i) i (fst c) (snd c i)"
  shows "\<exists>is. total_rank K r u b (run_sched (sync_prog C b) (nr_threads b) is c) < total_rank K r u b c"
proof -
  from assms(2) obtain m s' t' where "solo (sync_step C (iters b i) i) m (fst c) (snd c i) = (s', t')"
    and "thread_rank K r u (iters b i) t' < thread_rank K r u (iters b i) (snd c i)"
    unfolding gets_on_def by blast
  from total_rank_solo [OF assms(1) this] show ?thesis by blast
qed

locale live_lock = sync_lock valid code mem0 tls0
  for valid :: "bench \<Rightarrow> bool"
    and code :: "bench \<Rightarrow> ('s, 'v, 'p, 'q) lock_code"
    and mem0 :: "bench \<Rightarrow> 's"
    and tls0 :: "bench \<Rightarrow> nat \<Rightarrow> 'v" +
  fixes bound :: "bench \<Rightarrow> nat"
    and lrank :: "bench \<Rightarrow> 'p \<Rightarrow> nat"
    and urank :: "bench \<Rightarrow> 'q \<Rightarrow> nat"
  assumes unstuck: "valid b \<Longrightarrow> sync_reach (code b) b (mem0 b) (tls0 b) c \<Longrightarrow>
      \<not> all_finished (nr_threads b) c \<Longrightarrow>
      \<exists>is. total_rank (bound b) (lrank b) (urank b) b
             (run_sched (sync_prog (code b) b) (nr_threads b) is c)
           < total_rank (bound b) (lrank b) (urank b) b c"
begin

text \<open>Whatever happened so far, some continuation lets every thread finish its iterations.\<close>

lemma completes:
  assumes "valid b"
  shows "\<exists>more. all_finished (nr_threads b) (sync_run (code b) b (mem0 b) (tls0 b) (sched @ more))"
proof -
  let ?P = "sync_prog (code b) b" and ?c0 = "sync_init (mem0 b) (tls0 b)"
  have "\<exists>more. all_finished (nr_threads b)
      (run_sched ?P (nr_threads b) more (run_sched ?P (nr_threads b) sched ?c0))"
  proof (rule completion_by_measure [where \<mu> = "total_rank (bound b) (lrank b) (urank b) b"])
    fix c assume "reach ?P (nr_threads b) ?c0 c" and "\<not> all_finished (nr_threads b) c"
    with unstuck [OF assms, of c]
    show "\<exists>is. total_rank (bound b) (lrank b) (urank b) b (run_sched ?P (nr_threads b) is c)
        < total_rank (bound b) (lrank b) (urank b) b c"
      by (simp add: sync_reach_def)
  qed (rule reach_run_sched)
  then show ?thesis by (simp add: sync_run_def run_sched_append)
qed

text \<open>
  The contract of a lock benchmark in one statement: any run can be completed, and in the
  completed run the critical sections were serialised and each thread had its \<open>nr_iter\<close> of them.
\<close>

lemma completes_serialised:
  assumes "valid b"
  shows "\<exists>more.
    all_finished (nr_threads b) (sync_run (code b) b (mem0 b) (tls0 b) (sched @ more)) \<and>
    lock_spec None (cs_trace (code b) b (mem0 b) (tls0 b) (sched @ more)) = Some None \<and>
    (\<forall>i<nr_threads b.
       int (entries i (cs_trace (code b) b (mem0 b) (tls0 b) (sched @ more))) = iters b i)"
  using completes [OF assms, of sched] finished_contract [OF assms] by blast

end

section \<open>First-come first-served locks\<close>

text \<open>
  A doorway is an instruction of \<open>lock()\<close> that fixes the thread's place in line and never waits.
  \<open>queue\<close> relates a configuration to the threads in line, in order.
\<close>

datatype fifo_event = Arrive | Served

definition at_door :: "('p \<Rightarrow> bool) \<Rightarrow> ('v, 'p, 'q) sync_thread \<Rightarrow> bool" where
  "at_door door t \<longleftrightarrow> (case pc t of InLock p \<Rightarrow> door p | _ \<Rightarrow> False)"

text \<open>A step out of the doorway is an arrival, a step into the critical section is served.\<close>

definition fifo_label ::
  "('p \<Rightarrow> bool) \<Rightarrow> ('v, 'p, 'q) sync_thread \<Rightarrow> ('v, 'p, 'q) sync_thread \<Rightarrow> fifo_event option" where
  "fifo_label door t t' =
     (if at_door door t \<and> \<not> at_door door t' then Some Arrive
      else if cs_label t t' = Some Enter then Some Served else None)"

definition fifo_trace ::
  "('p \<Rightarrow> bool) \<Rightarrow> ('s, 'v, 'p, 'q) lock_code \<Rightarrow> bench \<Rightarrow> 's \<Rightarrow> (nat \<Rightarrow> 'v) \<Rightarrow> nat list
    \<Rightarrow> (nat \<times> fifo_event) list" where
  "fifo_trace door C b s v sched =
     trace_of (sync_prog C b) (nr_threads b) (fifo_label door) sched (sync_init s v)"

definition order_of :: "fifo_event \<Rightarrow> (nat \<times> fifo_event) list \<Rightarrow> nat list" where
  "order_of e es = map fst (filter (\<lambda>x. snd x = e) es)"

lemma order_of_append [simp]: "order_of e (xs @ ys) = order_of e xs @ order_of e ys"
  and order_of_Nil [simp]: "order_of e [] = []"
  and order_of_single [simp]: "order_of e [(i, e')] = (if e' = e then [i] else [])"
  by (simp_all add: order_of_def)

lemma append_chain: "q @ a = s @ q1 \<Longrightarrow> q1 @ a' = s' @ q2 \<Longrightarrow> q @ a @ a' = (s @ s') @ q2"
  by (metis append_assoc)

text \<open>The line after an event: the same, an arrival at its end, or the first in it is served.\<close>

fun queue_moves :: "nat list \<Rightarrow> nat \<Rightarrow> fifo_event option \<Rightarrow> nat list \<Rightarrow> bool" where
  "queue_moves w i None w' \<longleftrightarrow> w' = w"
| "queue_moves w i (Some Arrive) w' \<longleftrightarrow> w' = w @ [i]"
| "queue_moves w i (Some Served) w' \<longleftrightarrow> w = i # w'"

lemma queue_moves_order:
  assumes "queue_moves w i ev w'"
  shows "w @ order_of Arrive (case ev of None \<Rightarrow> [] | Some e \<Rightarrow> [(i, e)]) =
    order_of Served (case ev of None \<Rightarrow> [] | Some e \<Rightarrow> [(i, e)]) @ w'"
  using assms by (induction w i ev w' rule: queue_moves.induct) auto

locale fifo_lock = sync_lock valid code mem0 tls0
  for valid :: "bench \<Rightarrow> bool"
    and code :: "bench \<Rightarrow> ('s, 'v, 'p, 'q) lock_code"
    and mem0 :: "bench \<Rightarrow> 's"
    and tls0 :: "bench \<Rightarrow> nat \<Rightarrow> 'v" +
  fixes door :: "'p \<Rightarrow> bool"
    and queue :: "bench \<Rightarrow> ('s, ('v, 'p, 'q) sync_thread) cfg \<Rightarrow> nat list \<Rightarrow> bool"
  assumes queue_init: "valid b \<Longrightarrow> queue b (sync_init (mem0 b) (tls0 b)) []"
    and queue_step: "valid b \<Longrightarrow> queue b (s, ls) q \<Longrightarrow> i < nr_threads b \<Longrightarrow>
      sync_step (code b) (iters b i) i s (ls i) = Some (s', t') \<Longrightarrow>
      \<exists>q'. queue b (s', ls(i := t')) q' \<and> queue_moves q i (fifo_label door (ls i) t') q'"
begin

lemma queue_sched_step:
  assumes "valid b" and "queue b c q"
    and c': "c' = sched_step (sync_prog (code b) b) (nr_threads b) i c"
    and ev: "ev = (if i < nr_threads b then
       (case fifo_label door (snd c i) (snd c' i) of None \<Rightarrow> [] | Some e \<Rightarrow> [(i, e)]) else [])"
  shows "\<exists>q'. queue b c' q' \<and> q @ order_of Arrive ev = order_of Served ev @ q'"
proof (rule sched_step_cases [of "sync_prog (code b) b" "nr_threads b" i c])
  assume "sched_step (sync_prog (code b) b) (nr_threads b) i c = c"
  with c' have "c' = c" by simp
  with ev have "ev = []" by (simp add: fifo_label_def cs_label_def)
  with \<open>c' = c\<close> assms(2) show ?thesis by simp
next
  fix s' t'
  assume i: "i < nr_threads b"
    and step: "sync_prog (code b) b i (fst c) (snd c i) = Some (s', t')"
    and eq: "sched_step (sync_prog (code b) b) (nr_threads b) i c = (s', (snd c)(i := t'))"
  have c'2: "c' = (s', (snd c)(i := t'))" using c' eq by simp
  have "queue b (fst c, snd c) q" using assms(2) by simp
  from queue_step [OF assms(1) this i] step obtain q'
    where "queue b c' q'" "queue_moves q i (fifo_label door (snd c i) t') q'"
    unfolding c'2 by (auto simp: sync_prog_apply)
  moreover have "ev = (case fifo_label door (snd c i) t' of None \<Rightarrow> [] | Some e \<Rightarrow> [(i, e)])"
    using ev i by (simp add: c'2)
  ultimately show ?thesis using queue_moves_order by blast
qed

lemma queue_from:
  assumes "valid b" and "queue b c q"
  shows "\<exists>q'. queue b (run_sched (sync_prog (code b) b) (nr_threads b) sched c) q' \<and>
    q @ order_of Arrive (trace_of (sync_prog (code b) b) (nr_threads b) (fifo_label door) sched c) =
    order_of Served (trace_of (sync_prog (code b) b) (nr_threads b) (fifo_label door) sched c) @ q'"
  using assms(2)
proof (induction sched arbitrary: c q)
  case Nil
  then show ?case by simp
next
  case (Cons i sched)
  let ?P = "sync_prog (code b) b"
  let ?c' = "sched_step ?P (nr_threads b) i c"
  let ?ev = "if i < nr_threads b then
       (case fifo_label door (snd c i) (snd ?c' i) of None \<Rightarrow> [] | Some e \<Rightarrow> [(i, e)]) else []"
  from queue_sched_step [OF assms(1) Cons.prems refl refl] obtain q1
    where q1: "queue b ?c' q1" and e1: "q @ order_of Arrive ?ev = order_of Served ?ev @ q1"
    by blast
  from Cons.IH [OF q1] obtain q2 where q2: "queue b (run_sched ?P (nr_threads b) sched ?c') q2"
    and e2: "q1 @ order_of Arrive (trace_of ?P (nr_threads b) (fifo_label door) sched ?c') =
      order_of Served (trace_of ?P (nr_threads b) (fifo_label door) sched ?c') @ q2"
    by blast
  have tr: "trace_of ?P (nr_threads b) (fifo_label door) (i # sched) c =
      ?ev @ trace_of ?P (nr_threads b) (fifo_label door) sched ?c'"
    by (simp only: trace_of.simps Let_def)
  have "q @ order_of Arrive (trace_of ?P (nr_threads b) (fifo_label door) (i # sched) c) =
      order_of Served (trace_of ?P (nr_threads b) (fifo_label door) (i # sched) c) @ q2"
    unfolding tr order_of_append by (rule append_chain [OF e1 e2])
  with q2 show ?case by auto
qed

text \<open>First come, first served: threads enter in the order in which they passed the doorway.\<close>

lemma first_come_first_served:
  assumes "valid b"
  shows "prefix (order_of Served (fifo_trace door (code b) b (mem0 b) (tls0 b) sched))
                (order_of Arrive (fifo_trace door (code b) b (mem0 b) (tls0 b) sched))"
  using queue_from [OF assms queue_init [OF assms], of sched]
  by (auto simp: fifo_trace_def prefix_def)

end

end
