(* ===== verification/Lock_Executions.thy ===== *)
theory Lock_Executions
  imports Executions Sync_Loop
begin

text \<open>
  The lock benchmarks as their drivers run them: one execution after the other, each on the memory the
  one before left and what the driver initialises again. In the drivers of the filter lock and of
  Peterson's lock a thread initialises for the next execution as soon as it has left the loop, before it
  waits at the barrier, so that it writes the variables of a lock that the others still use.
\<close>

section \<open>Executions without initialisation, or with one between two barriers\<close>

text \<open>
  The run with this schedule can be completed, its critical sections are serialised, and there are
  \<open>amount\<close> of them.
\<close>

definition completes_with ::
  "('s, 'v, 'p, 'q) lock_code \<Rightarrow> bench \<Rightarrow> 's \<times> (nat \<Rightarrow> 'v) \<Rightarrow> nat list \<Rightarrow> int \<Rightarrow> bool" where
  "completes_with C b m sched amount \<longleftrightarrow> (\<exists>more.
     all_finished (nr_threads b) (sync_run C b (fst m) (snd m) (sched @ more)) \<and>
     lock_spec None (cs_trace C b (fst m) (snd m) (sched @ more)) = Some None \<and>
     int (\<Sum>i<nr_threads b. entries i (cs_trace C b (fst m) (snd m) (sched @ more))) = amount)"

text \<open>What an execution leaves: the shared variables, and the thread-local ones.\<close>

definition sync_execution ::
  "('s, 'v, 'p, 'q) lock_code \<Rightarrow> bench \<Rightarrow> 's \<times> (nat \<Rightarrow> 'v) \<Rightarrow> nat list \<Rightarrow> ('s \<times> (nat \<Rightarrow> 'v)) option" where
  "sync_execution C b m sched =
     (let c = sync_run C b (fst m) (snd m) sched
      in if all_finished (nr_threads b) c then Some (fst c, \<lambda>i. tls (snd c i)) else None)"

text \<open>
  All executions of a benchmark, each with what is initialised before its threads start (\<open>snd x\<close>):
  whatever the threads have done, the execution can be completed, with \<open>amount\<close> critical sections.
\<close>

definition all_complete ::
  "(bench \<Rightarrow> ('s, 'v, 'p, 'q) lock_code) \<Rightarrow> (bench \<times> ('s \<times> (nat \<Rightarrow> 'v) \<Rightarrow> 's \<times> (nat \<Rightarrow> 'v))) list \<Rightarrow> int
    \<Rightarrow> 's \<times> (nat \<Rightarrow> 'v) \<Rightarrow> bool" where
  "all_complete C xs amount m \<longleftrightarrow>
     each_execution (\<lambda>x m. sync_execution (C (fst x)) (fst x) (snd x m))
       (\<lambda>x m. \<forall>sched. completes_with (C (fst x)) (fst x) (snd x m) sched amount) xs m"

text \<open>The same initialisation before every execution.\<close>

definition each_with :: "('m \<Rightarrow> 'm) \<Rightarrow> bench list \<Rightarrow> (bench \<times> ('m \<Rightarrow> 'm)) list" where
  "each_with prepare bs = map (\<lambda>b. (b, prepare)) bs"

lemma each_with_set: "x \<in> set (each_with prepare bs) \<longleftrightarrow> fst x \<in> set bs \<and> snd x = prepare"
  by (cases x) (auto simp: each_with_def)

text \<open>What a lock's own contract gives for the sum of the entries.\<close>

lemma completes_withI:
  assumes "\<exists>more. all_finished (nr_threads b) (sync_run C b (fst m) (snd m) (sched @ more)) \<and>
      lock_spec None (cs_trace C b (fst m) (snd m) (sched @ more)) = Some None \<and>
      (\<forall>i<nr_threads b. int (entries i (cs_trace C b (fst m) (snd m) (sched @ more))) = iters b i)"
    and "(\<Sum>i<nr_threads b. iters b i) = amount"
  shows "completes_with C b m sched amount"
  using assms by (auto simp: completes_with_def)

lemma sync_execution_reach:
  assumes "sync_execution C b m sched = Some m'"
  obtains c where "sync_reach C b (fst m) (snd m) c" and "all_finished (nr_threads b) c" and "fst c = fst m'"
  using assms that [OF sync_reach_run [of C b "fst m" "snd m" sched]]
  by (auto simp: sync_execution_def Let_def split: if_splits)

text \<open>A lock whose executions leave a memory from which the initialisation makes one that it can start with.\<close>

lemma all_completeI:
  assumes "left m"
    and "\<And>b p m sched. (b, p) \<in> set xs \<Longrightarrow> left m \<Longrightarrow> completes_with (C b) b (p m) sched amount"
    and "\<And>b p m c m'. (b, p) \<in> set xs \<Longrightarrow> left m \<Longrightarrow> sync_reach (C b) b (fst (p m)) (snd (p m)) c \<Longrightarrow>
      all_finished (nr_threads b) c \<Longrightarrow> fst m' = fst c \<Longrightarrow> left m'"
  shows "all_complete C xs amount m"
  unfolding all_complete_def
proof (rule each_execution_invariant [where I = left])
  fix x m sched m'
  assume "x \<in> set xs" "left m" "sync_execution (C (fst x)) (fst x) (snd x m) sched = Some m'"
  then show "left m'" using assms(3) [of "fst x" "snd x"] by (metis prod.collapse sync_execution_reach)
next
  fix x m
  assume "x \<in> set xs" "left m"
  then show "\<forall>sched. completes_with (C (fst x)) (fst x) (snd x m) sched amount"
    using assms(2) [of "fst x" "snd x"] by simp
qed (rule assms(1))

section \<open>Executions at whose end each thread initialises for the next one\<close>

text \<open>
  \<open>R tid k\<close>: the \<open>k\<close>-th store of the initialisation (\<open>None\<close>: outside an array); \<open>m\<close>: their number,
  0 in the last execution. The second component of a thread counts the stores it has made.
\<close>

definition resetting ::
  "('s, 'v, 'p, 'q) lock_code \<Rightarrow> (nat \<Rightarrow> nat \<Rightarrow> 's \<Rightarrow> 's option) \<Rightarrow> nat \<Rightarrow> bench
    \<Rightarrow> ('s, ('v, 'p, 'q) sync_thread \<times> nat) prog" where
  "resetting C R m b tid s l =
     (if pc (fst l) \<noteq> Finished
      then map_option (\<lambda>(s', t'). (s', (t', snd l))) (sync_step C (iters b tid) tid s (fst l))
      else if snd l < m
      then Some (case R tid (snd l) s of
             None \<Rightarrow> (s, ((fst l)\<lparr>pc := Crashed\<rparr>, snd l))
           | Some s' \<Rightarrow> (s', (fst l, snd l + 1)))
      else None)"

definition resetting_init :: "'s \<Rightarrow> 'v \<Rightarrow> ('s, ('v, 'p, 'q) sync_thread \<times> nat) cfg" where
  "resetting_init s v = (s, \<lambda>_. (\<lparr>pc = ForTest, iter = 0, tls = v\<rparr>, 0))"

definition resetting_run ::
  "('s, 'v, 'p, 'q) lock_code \<Rightarrow> (nat \<Rightarrow> nat \<Rightarrow> 's \<Rightarrow> 's option) \<Rightarrow> nat \<Rightarrow> bench \<Rightarrow> 's \<Rightarrow> 'v \<Rightarrow> nat list
    \<Rightarrow> ('s, ('v, 'p, 'q) sync_thread \<times> nat) cfg" where
  "resetting_run C R m b s v sched =
     run_sched (resetting C R m b) (nr_threads b) sched (resetting_init s v)"

definition resetting_trace ::
  "('s, 'v, 'p, 'q) lock_code \<Rightarrow> (nat \<Rightarrow> nat \<Rightarrow> 's \<Rightarrow> 's option) \<Rightarrow> nat \<Rightarrow> bench \<Rightarrow> 's \<Rightarrow> 'v \<Rightarrow> nat list
    \<Rightarrow> (nat \<times> cs_event) list" where
  "resetting_trace C R m b s v sched =
     trace_of (resetting C R m b) (nr_threads b) (\<lambda>l l'. cs_label (fst l) (fst l')) sched (resetting_init s v)"

definition all_reset :: "nat \<Rightarrow> nat \<Rightarrow> ('s, ('v, 'p, 'q) sync_thread \<times> nat) cfg \<Rightarrow> bool" where
  "all_reset m n c \<longleftrightarrow> (\<forall>i<n. pc (fst (snd c i)) = Finished \<and> m \<le> snd (snd c i))"

definition reset_completes_with ::
  "('s, 'v, 'p, 'q) lock_code \<Rightarrow> (nat \<Rightarrow> nat \<Rightarrow> 's \<Rightarrow> 's option) \<Rightarrow> nat \<Rightarrow> bench \<Rightarrow> 's \<Rightarrow> 'v \<Rightarrow> nat list \<Rightarrow> int \<Rightarrow> bool" where
  "reset_completes_with C R m b s v sched amount \<longleftrightarrow> (\<exists>more.
     all_reset m (nr_threads b) (resetting_run C R m b s v (sched @ more)) \<and>
     lock_spec None (resetting_trace C R m b s v (sched @ more)) = Some None \<and>
     int (\<Sum>i<nr_threads b. entries i (resetting_trace C R m b s v (sched @ more))) = amount)"

definition resetting_execution ::
  "('s, unit, 'p, 'q) lock_code \<Rightarrow> (nat \<Rightarrow> nat \<Rightarrow> 's \<Rightarrow> 's option) \<Rightarrow> nat \<Rightarrow> bench \<Rightarrow> 's \<Rightarrow> nat list \<Rightarrow> 's option" where
  "resetting_execution C R m b s sched =
     (let c = resetting_run C R m b s () sched in if all_reset m (nr_threads b) c then Some (fst c) else None)"

text \<open>Every execution but the last makes the \<open>m\<close> stores of the initialisation.\<close>

fun with_resets :: "nat \<Rightarrow> bench list \<Rightarrow> (nat \<times> bench) list" where
  "with_resets m [] = []"
| "with_resets m [b] = [(0, b)]"
| "with_resets m (b # bs) = (m, b) # with_resets m bs"

definition all_complete_resetting ::
  "(bench \<Rightarrow> ('s, unit, 'p, 'q) lock_code) \<Rightarrow> (nat \<Rightarrow> nat \<Rightarrow> 's \<Rightarrow> 's option) \<Rightarrow> nat \<Rightarrow> bench list \<Rightarrow> int \<Rightarrow> 's \<Rightarrow> bool" where
  "all_complete_resetting C R m bs amount s \<longleftrightarrow>
     each_execution (\<lambda>x s. resetting_execution (C (snd x)) R (fst x) (snd x) s)
       (\<lambda>x s. \<forall>sched. reset_completes_with (C (snd x)) R (fst x) (snd x) s () sched amount) (with_resets m bs) s"

lemma with_resets_set: "x \<in> set (with_resets m bs) \<Longrightarrow> fst x \<le> m \<and> snd x \<in> set bs"
  by (induction m bs rule: with_resets.induct) auto

text \<open>A thread in the loop takes the steps of the loop.\<close>

lemma solo_resetting:
  assumes "solo (sync_step C (iters b i) i) d s t = (s', t')" and "pc t \<noteq> Finished" and "d = 1 \<or> pc t' \<noteq> Finished"
  shows "solo (resetting C R m b i) d s (t, x) = (s', (t', x))"
proof (cases "pc t' = Finished")
  case True
  then have "d = 1" using assms(3) by simp
  then show ?thesis using assms(1,2) by (auto simp: resetting_def split: option.splits)
next
  case False
  then show ?thesis using assms(1)
  proof (induction d arbitrary: s t)
    case (Suc d)
    show ?case
    proof (cases "sync_step C (iters b i) i s t")
      case None
      with Suc.prems show ?thesis by (auto simp: resetting_def)
    next
      case (Some y)
      obtain s1 t1 where y: "y = (s1, t1)" by (cases y)
      have "pc t \<noteq> Finished" using Some by auto
      with Some y have "resetting C R m b i s (t, x) = Some (s1, (t1, x))" by (simp add: resetting_def)
      moreover have "solo (resetting C R m b i) d s1 (t1, x) = (s', (t', x))"
        using Suc Some y by simp
      ultimately show ?thesis by simp
    qed
  qed simp
qed

section \<open>Locks that bear the initialisation\<close>

text \<open>
  \<open>I b\<close>: an invariant of the loop that the stores of threads that have left it keep; it holds in the
  memories \<open>starts b\<close>, and leads back to one of them when all threads have left.
\<close>

locale resettable_lock =
  fixes valid :: "bench \<Rightarrow> bool"
    and code :: "bench \<Rightarrow> ('s, unit, 'p, 'q) lock_code"
    and reset :: "nat \<Rightarrow> nat \<Rightarrow> 's \<Rightarrow> 's option"
    and stores :: nat
    and starts :: "bench \<Rightarrow> 's \<Rightarrow> bool"
    and I :: "bench \<Rightarrow> 's \<Rightarrow> (nat \<Rightarrow> (unit, 'p, 'q) sync_thread) \<Rightarrow> bool"
    and K :: "bench \<Rightarrow> nat" and r :: "bench \<Rightarrow> 'p \<Rightarrow> nat" and u :: "bench \<Rightarrow> 'q \<Rightarrow> nat"
  assumes valid_bench: "valid b \<Longrightarrow> valid_bench b"
    and I_start: "valid b \<Longrightarrow> starts b s \<Longrightarrow> I b s (snd (sync_init s (\<lambda>_. v)))"
    and I_step: "valid b \<Longrightarrow> I b s ls \<Longrightarrow> i < nr_threads b \<Longrightarrow>
      sync_step (code b) (iters b i) i s (ls i) = Some (s', t') \<Longrightarrow> I b s' (ls(i := t'))"
    and I_reset: "valid b \<Longrightarrow> I b s ls \<Longrightarrow> i < nr_threads b \<Longrightarrow> pc (ls i) = Finished \<Longrightarrow> k < stores \<Longrightarrow>
      \<exists>s'. reset i k s = Some s' \<and> I b s' ls"
    and I_mutex: "valid b \<Longrightarrow> I b s ls \<Longrightarrow> i < nr_threads b \<Longrightarrow> j < nr_threads b \<Longrightarrow> in_cs (ls i) \<Longrightarrow>
      in_cs (ls j) \<Longrightarrow> i = j"
    and I_no_crash: "valid b \<Longrightarrow> I b s ls \<Longrightarrow> i < nr_threads b \<Longrightarrow> pc (ls i) \<noteq> Crashed"
    and I_progress: "valid b \<Longrightarrow> I b s ls \<Longrightarrow> iter_inv b (s, ls) \<Longrightarrow> (\<forall>i\<ge>nr_threads b. pc (ls i) = ForTest) \<Longrightarrow>
      \<not> all_finished (nr_threads b) (s, ls) \<Longrightarrow>
      \<exists>i<nr_threads b. gets_on (code b) (K b) (r b) (u b) (iters b i) i s (ls i)"
    and I_rest: "valid b \<Longrightarrow> I b s ls \<Longrightarrow> all_finished (nr_threads b) (s, ls) \<Longrightarrow> starts b s"
begin

abbreviation "rprog m b \<equiv> resetting (code b) reset m b"

lemma I_reach:
  assumes "valid b" and "starts b s" and "m \<le> stores" and "reach (rprog m b) (nr_threads b) (resetting_init s v) c"
  shows "I b (fst c) (\<lambda>i. fst (snd c i))"
  using assms(4)
proof (induction rule: reach.induct)
  case reach_init
  then show ?case using I_start [OF assms(1,2), of v] by (simp add: resetting_init_def sync_init_def)
next
  case (reach_step s ls i s' l')
  show ?case
  proof (cases "pc (fst (ls i)) = Finished")
    case False
    with reach_step.hyps(3) have step: "sync_step (code b) (iters b i) i s (fst (ls i)) = Some (s', fst l')"
      by (auto simp: resetting_def)
    have "(\<lambda>j. fst ((ls(i := l')) j)) = (\<lambda>j. fst (ls j))(i := fst l')" by auto
    then show ?thesis using I_step [where ls = "\<lambda>j. fst (ls j)", OF assms(1) _ reach_step.hyps(2) step] reach_step.IH by simp
  next
    case True
    then have k: "snd (ls i) < m" and eq: "(s', l') = (case reset i (snd (ls i)) s of
        None \<Rightarrow> (s, ((fst (ls i))\<lparr>pc := Crashed\<rparr>, snd (ls i))) | Some s' \<Rightarrow> (s', (fst (ls i), snd (ls i) + 1)))"
      using reach_step.hyps(3) by (auto simp: resetting_def split: if_splits)
    have "snd (ls i) < stores" using k assms(3) by simp
    with I_reset [OF assms(1) _ reach_step.hyps(2), of s "\<lambda>j. fst (ls j)" "snd (ls i)"] reach_step.IH True
    obtain s1 where "reset i (snd (ls i)) s = Some s1" "I b s1 (\<lambda>j. fst (ls j))" by auto
    moreover from this eq have "s' = s1" "fst l' = fst (ls i)" by simp_all
    moreover have "(\<lambda>j. fst ((ls(i := l')) j)) = (\<lambda>j. fst (ls j))" using calculation(4) by auto
    ultimately show ?thesis by simp
  qed
qed

lemma idle: "reach (rprog m b) (nr_threads b) (resetting_init s v) c \<Longrightarrow> nr_threads b \<le> i \<Longrightarrow> pc (fst (snd c i)) = ForTest"
  by (drule (1) reach_idle) (simp add: resetting_init_def)

end

sublocale resettable_lock \<subseteq> observed: observed_loop "\<lambda>b. valid b \<and> starts b s \<and> m \<le> stores"
  "\<lambda>b. resetting (code b) reset m b" "\<lambda>_. resetting_init s v" fst code for m s v
proof unfold_locales
  fix b
  assume "valid b \<and> starts b s \<and> m \<le> stores"
  then show "valid_bench b" using valid_bench by blast
next
  fix i
  show "pc (fst (snd (resetting_init s v) i)) = ForTest \<and> iter (fst (snd (resetting_init s v) i)) = 0"
    by (simp add: resetting_init_def)
next
  fix b i s l s' l'
  assume "resetting (code b) reset m b i s l = Some (s', l')" and "pc (fst l') \<noteq> Crashed"
  then show "fst l' = fst l \<or> sync_step (code b) (iters b i) i s (fst l) = Some (s', fst l')"
    by (auto simp: resetting_def split: if_splits option.splits)
next
  fix b c i j
  assume b: "valid b \<and> starts b s \<and> m \<le> stores"
    and "reach (rprog m b) (nr_threads b) (resetting_init s v) c" "i < nr_threads b" "j < nr_threads b"
    "in_cs (fst (snd c i))" "in_cs (fst (snd c j))"
  then show "i = j" using I_mutex [of b "fst c" "\<lambda>i. fst (snd c i)"] I_reach by blast
next
  fix b c i
  assume b: "valid b \<and> starts b s \<and> m \<le> stores"
    and c: "reach (rprog m b) (nr_threads b) (resetting_init s v) c"
  show "pc (fst (snd c i)) \<noteq> Crashed"
  proof (cases "i < nr_threads b")
    case True
    with b I_no_crash [of b "fst c" "\<lambda>i. fst (snd c i)"] I_reach [OF _ _ _ c] show ?thesis by blast
  next
    case False
    with idle [OF c] show ?thesis by simp
  qed
qed

context resettable_lock
begin

text \<open>What is left to do: the loop, and the stores after it.\<close>

definition todo :: "nat \<Rightarrow> bench \<Rightarrow> nat \<Rightarrow> (unit, 'p, 'q) sync_thread \<times> nat \<Rightarrow> nat" where
  "todo m b i l = thread_rank (K b) (r b) (u b) (iters b i) (fst l) + (m - snd l)"

definition all_todo :: "nat \<Rightarrow> bench \<Rightarrow> ('s, (unit, 'p, 'q) sync_thread \<times> nat) cfg \<Rightarrow> nat" where
  "all_todo m b c = (\<Sum>i<nr_threads b. todo m b i (snd c i))"

lemma all_todo_solo:
  assumes "i < nr_threads b" and "solo (rprog m b i) d (fst c) (snd c i) = (s', l')" and "todo m b i l' < todo m b i (snd c i)"
  shows "\<exists>is. all_todo m b (run_sched (rprog m b) (nr_threads b) is c) < all_todo m b c"
proof -
  have "run_sched (rprog m b) (nr_threads b) (replicate d i) (fst c, snd c) = (s', (snd c)(i := l'))"
    by (rule run_sched_solo [where P = "rprog m b" and m = d and ls = "snd c"]) (use assms(1,2) in auto)
  then have "run_sched (rprog m b) (nr_threads b) (replicate d i) c = (s', (snd c)(i := l'))" by simp
  moreover have "all_todo m b (s', (snd c)(i := l')) < all_todo m b c"
    using sum_fun_upd_less [where f = "snd c" and i = i and x = l' and g = "todo m b", OF assms(1,3)]
    by (simp add: all_todo_def)
  ultimately show ?thesis by metis
qed

lemma unstuck:
  assumes "valid b" and "starts b s" and "m \<le> stores"
    and c: "reach (rprog m b) (nr_threads b) (resetting_init s v) c" and "\<not> all_reset m (nr_threads b) c"
  shows "\<exists>is. all_todo m b (run_sched (rprog m b) (nr_threads b) is c) < all_todo m b c"
proof (cases "all_finished (nr_threads b) (fst c, \<lambda>i. fst (snd c i))")
  case False
  have "iter_inv b (fst c, \<lambda>i. fst (snd c i))"
    using assms(1-3) c by (intro observed.view_iter_inv) auto
  from I_progress [OF assms(1) I_reach [OF assms(1-4)] this _ False] idle [OF c]
  obtain i where i: "i < nr_threads b"
    and "gets_on (code b) (K b) (r b) (u b) (iters b i) i (fst c) (fst (snd c i))" by auto
  then obtain d s' t' where d: "solo (sync_step (code b) (iters b i) i) d (fst c) (fst (snd c i)) = (s', t')"
    and less: "thread_rank (K b) (r b) (u b) (iters b i) t' < thread_rank (K b) (r b) (u b) (iters b i) (fst (snd c i))"
    and fin: "pc (fst (snd c i)) \<noteq> Finished" "d = 1 \<or> pc t' \<noteq> Finished"
    unfolding gets_on_def by blast
  have "solo (rprog m b i) d (fst c) (snd c i) = (s', (t', snd (snd c i)))"
    using solo_resetting [OF d fin, of reset m "snd (snd c i)"] by simp
  from all_todo_solo [OF i this] less show ?thesis by (simp add: todo_def)
next
  case True
  with assms(5) obtain i where i: "i < nr_threads b" "pc (fst (snd c i)) = Finished" "snd (snd c i) < m"
    by (auto simp: all_reset_def all_finished_def)
  have "snd (snd c i) < stores" using i(3) assms(3) by simp
  from I_reset [OF assms(1) I_reach [OF assms(1-4)] i(1,2) this]
  obtain s' where "reset i (snd (snd c i)) (fst c) = Some s'" by blast
  with i have "solo (rprog m b i) 1 (fst c) (snd c i) = (s', (fst (snd c i), snd (snd c i) + 1))"
    by (simp add: resetting_def)
  from all_todo_solo [OF i(1) this] i(3) show ?thesis by (simp add: todo_def)
qed

text \<open>The contract of an execution, with the stores of the threads that have left the loop early.\<close>

lemma resetting_contract:
  assumes "valid b" and "starts b s" and "m \<le> stores" and "(\<Sum>i<nr_threads b. iters b i) = amount"
  shows "reset_completes_with (code b) reset m b s v sched amount"
proof -
  have "\<exists>is. all_reset m (nr_threads b) (run_sched (rprog m b) (nr_threads b) is (resetting_run (code b) reset m b s v sched))"
  proof (rule completion_by_measure [where \<mu> = "all_todo m b" and ?c0.0 = "resetting_init s v"])
    show "reach (rprog m b) (nr_threads b) (resetting_init s v) (resetting_run (code b) reset m b s v sched)"
      unfolding resetting_run_def by (rule reach_run_sched)
  qed (rule unstuck [OF assms(1-3)])
  then obtain more where fin: "all_reset m (nr_threads b) (resetting_run (code b) reset m b s v (sched @ more))"
    by (auto simp: resetting_run_def run_sched_append)
  with observed.run_contract [where b = b and s = s and m = m and v = v and sched = "sched @ more"] assms
  show ?thesis
    unfolding reset_completes_with_def resetting_trace_def
    by (intro exI [of _ more]) (auto simp: resetting_run_def all_reset_def)
qed

lemma resetting_leaves:
  assumes "valid b" and "starts b s" and "m \<le> stores" and "resetting_execution (code b) reset m b s sched = Some s'"
  shows "starts b s'"
proof -
  let ?c = "resetting_run (code b) reset m b s () sched"
  from assms(4) have fin: "all_reset m (nr_threads b) ?c" "s' = fst ?c"
    by (auto simp: resetting_execution_def Let_def split: if_splits)
  have "I b (fst ?c) (\<lambda>i. fst (snd ?c i))"
    by (rule I_reach [OF assms(1-3)]) (simp add: resetting_run_def reach_run_sched)
  with fin I_rest [OF assms(1) this] show ?thesis by (simp add: all_reset_def all_finished_def)
qed

text \<open>All executions of a benchmark.\<close>

lemma all_executions:
  assumes "\<And>b. b \<in> set bs \<Longrightarrow> valid b \<and> (\<Sum>i<nr_threads b. iters b i) = amount"
    and "\<And>b s. b \<in> set bs \<Longrightarrow> Q s \<Longrightarrow> starts b s" and "\<And>b s. b \<in> set bs \<Longrightarrow> starts b s \<Longrightarrow> Q s" and "Q s"
  shows "all_complete_resetting code reset stores bs amount s"
  unfolding all_complete_resetting_def
proof (rule each_execution_invariant [where I = Q])
  fix x s sched s'
  assume x: "x \<in> set (with_resets stores bs)" and "Q s"
    and "resetting_execution (code (snd x)) reset (fst x) (snd x) s sched = Some s'"
  with assms(1-3) with_resets_set [OF x] show "Q s'" using resetting_leaves by blast
next
  fix x s
  assume x: "x \<in> set (with_resets stores bs)" and "Q s"
  with assms(1,2) with_resets_set [OF x]
  show "\<forall>sched. reset_completes_with (code (snd x)) reset (fst x) (snd x) s () sched amount"
    using resetting_contract by blast
qed (rule assms(4))

end

end
