(* ===== verification/Flag_Lock.thy ===== *)
theory Flag_Lock
  imports Lock_Executions
begin

text \<open>
  Locks whose state alone says whether they are free: the test-and-set locks and the mutexes of
  the standard libraries. \<open>free s\<close>: nobody holds the lock; \<open>held_by i s\<close>: the state is one in which
  thread \<open>i\<close> may hold it. The laws speak of single instructions only; the locale derives from
  them the whole contract of a lock benchmark.
\<close>

locale flag_lock =
  fixes code :: "('s, 'v, 'p, 'q) lock_code"
    and mem0 :: 's
    and tls0 :: "nat \<Rightarrow> 'v"
    and free :: "'s \<Rightarrow> bool"
    and held_by :: "nat \<Rightarrow> 's \<Rightarrow> bool"
    and K :: nat
    and rank :: "'p \<Rightarrow> nat"
  assumes free_init: "free mem0"
    and rank_less: "rank p < K"
    and lock_free: "free s \<Longrightarrow> lock_instr code i s v p = (s', v', r) \<Longrightarrow>
      (r = Return \<and> held_by i s') \<or> (\<exists>p'. r = Goto p' \<and> rank p' < rank p \<and> free s')"
    and lock_held: "held_by j s \<Longrightarrow> i \<noteq> j \<Longrightarrow> lock_instr code i s v p = (s', v', r) \<Longrightarrow>
      (\<exists>p'. r = Goto p') \<and> held_by j s'"
    and unlock_held: "held_by i s \<Longrightarrow> unlock_instr code i s v q = (s', v', o') \<Longrightarrow>
      o' = Return \<and> free s'"
begin

fun owner_ok :: "nat \<Rightarrow> 's \<Rightarrow> nat option \<Rightarrow> bool" where
  "owner_ok n s None \<longleftrightarrow> free s"
| "owner_ok n s (Some i) \<longleftrightarrow> i < n \<and> held_by i s"

definition inv :: "nat \<Rightarrow> ('s, ('v, 'p, 'q) sync_thread) cfg \<Rightarrow> bool" where
  "inv n c \<longleftrightarrow>
     (\<exists>h. owned_by past_lock (snd c) h \<and> owner_ok n (fst c) h) \<and>
     (\<forall>i. pc (snd c i) \<noteq> Crashed)"

lemma invI:
  "owned_by past_lock ls h \<Longrightarrow> owner_ok n s h \<Longrightarrow>
   \<forall>i. pc (ls i) \<noteq> Crashed \<Longrightarrow> inv n (s, ls)"
  by (auto simp: inv_def)

lemma inv_init: "inv n (sync_init mem0 tls0)"
  by (auto simp: inv_def owned_by_def free_init intro!: exI [of _ None])

text \<open>An instruction of \<open>lock()\<close> either takes the free lock or leaves its holder alone.\<close>

lemma inv_lock:
  assumes own: "owned_by past_lock ls h"
    and h: "owner_ok n s h"
    and ok: "\<forall>j. pc (ls j) \<noteq> Crashed" and "i < n"
    and p: "pc (ls i) = InLock p" "lock_instr code i s (tls (ls i)) p = (s', v', r)"
  shows "inv n (s', ls(i := (ls i)\<lparr>tls := v', pc := after_lock r\<rparr>))"
proof (cases h)
  case None
  with h lock_free [OF _ p(2)] consider (ret) "r = Return" "held_by i s'"
    | (loop) p' where "r = Goto p'" "free s'"
    by auto
  then show ?thesis
  proof cases
    case ret
    with None own ok \<open>i < n\<close> show ?thesis
      by (intro invI [where h = "Some i"] owned_by_take) auto
  next
    case loop
    with None own ok p show ?thesis by (intro invI [where h = h] owned_by_keep) auto
  qed
next
  case (Some j)
  with owned_by_owner [OF own, of i] p(1) have "j \<noteq> i" by auto
  with Some h lock_held [OF _ _ p(2)] obtain p' where "r = Goto p'" "held_by j s'" by auto
  with Some own ok h p show ?thesis by (intro invI [where h = h] owned_by_keep) auto
qed

lemma inv_step:
  assumes "inv n (s, ls)" and "i < n" and step: "sync_step code k i s (ls i) = Some (s', t')"
  shows "inv n (s', ls(i := t'))"
proof -
  from assms(1) obtain h where own: "owned_by past_lock ls h"
    and h: "owner_ok n s h"
    and ok: "\<forall>j. pc (ls j) \<noteq> Crashed"
    by (auto simp: inv_def)
  from step show ?thesis
  proof (cases rule: sync_step_cases)
    case (lock p v' r)
    with inv_lock [OF own h ok assms(2)] show ?thesis by simp
  next
    case (unlock q v' r)
    with owned_by_owner [OF own, of i] have "h = Some i" by simp
    with h unlock unlock_held have "r = Return" "free s'" by auto
    with unlock own ok show ?thesis
      by (intro invI [where h = None] owned_by_drop [OF own]) auto
  qed (use own h ok in \<open>auto intro!: invI [where h = h] owned_by_keep split: if_splits\<close>)
qed

lemma inv_reach: "sync_reach code b mem0 tls0 c \<Longrightarrow> inv (nr_threads b) c"
  by (erule sync_reach_invariant) (simp_all add: inv_init inv_step)

text \<open>The holder can move; without one, any unfinished thread can, for its \<open>lock()\<close> finds the lock free.\<close>

lemma progress:
  assumes "valid_bench b" and reach: "sync_reach code b mem0 tls0 c"
    and "\<not> all_finished (nr_threads b) c"
  shows "\<exists>i<nr_threads b. advances code K rank (\<lambda>_. 0) (iters b i) i (fst c) (snd c i)"
proof -
  have it: "iter_inv b c" by (rule sync_reach_iter_inv [OF assms(1) reach])
  have K: "0 < K" using rank_less by (rule le_less_trans [rotated]) simp
  from inv_reach [OF reach] obtain h where own: "owned_by past_lock (snd c) h"
    and h: "owner_ok (nr_threads b) (fst c) h"
    and ok: "\<forall>i. pc (snd c i) \<noteq> Crashed"
    by (auto simp: inv_def)
  obtain i where i: "i < nr_threads b" "pc (snd c i) \<noteq> Finished" "h = None \<or> h = Some i"
  proof (cases h)
    case None
    then show ?thesis using assms(3) that by (auto simp: all_finished_def)
  next
    case (Some i)
    with own have "past_lock (snd c i)" by (simp add: owned_by_def)
    then have "pc (snd c i) \<noteq> Finished" by auto
    with Some h show ?thesis using that [of i] by simp
  qed
  have "advances code K rank (\<lambda>_. 0) (iters b i) i (fst c) (snd c i)"
  proof (cases "pc (snd c i)")
    case (InLock p)
    with owned_by_owner [OF own, of i] i have "h = None" by auto
    with h have "free (fst c)" by simp
    obtain s' v' r where l: "lock_instr code i (fst c) (tls (snd c i)) p = (s', v', r)"
      by (cases "lock_instr code i (fst c) (tls (snd c i)) p") auto
    from lock_free [OF \<open>free (fst c)\<close> l] show ?thesis
      by (intro advances_lock [OF rank_less InLock l]) auto
  next
    case (InUnlock q)
    with owned_by_owner [OF own, of i] have "h = Some i" by simp
    with h have "held_by i (fst c)" by simp
    obtain s' v' r where l: "unlock_instr code i (fst c) (tls (snd c i)) q = (s', v', r)"
      by (cases "unlock_instr code i (fst c) (tls (snd c i)) q") auto
    from unlock_held [OF \<open>held_by i (fst c)\<close> l] show ?thesis
      by (intro advances_unlock [OF K InUnlock l]) auto
  qed (use i ok it rank_less K in \<open>auto intro!: advances_in_loop\<close>)
  with i show ?thesis by blast
qed

text \<open>When all threads have returned, the lock is free.\<close>

lemma free_at_rest:
  assumes "sync_reach code b mem0 tls0 c" and "all_finished (nr_threads b) c"
  shows "free (fst c)"
proof -
  from inv_reach [OF assms(1)] obtain h where own: "owned_by past_lock (snd c) h" and h: "owner_ok (nr_threads b) (fst c) h"
    by (auto simp: inv_def)
  show ?thesis
  proof (cases h)
    case (Some i)
    with own h have "past_lock (snd c i)" "i < nr_threads b" by (simp_all add: owned_by_def)
    with assms(2) show ?thesis by (auto simp: all_finished_def)
  qed (use h in simp)
qed

end

text \<open>Every flag lock is a live lock: its contract follows from the laws of its instructions.\<close>

sublocale flag_lock \<subseteq> live_lock valid_bench "\<lambda>_. code" "\<lambda>_. mem0" "\<lambda>_. tls0"
  "\<lambda>_. K" "\<lambda>_. rank" "\<lambda>_ _. 0"
proof unfold_locales
  fix b c i j
  assume "sync_reach code b mem0 tls0 c" "in_cs (snd c i)" "in_cs (snd c j)"
  then show "i = j"
    using inv_reach [of b c] by (auto simp: inv_def dest: owned_by_unique in_cs_past_lock)
next
  fix b c i
  assume "sync_reach code b mem0 tls0 c"
  then show "pc (snd c i) \<noteq> Crashed"
    using inv_reach [of b c] by (auto simp: inv_def)
next
  fix b c
  assume "valid_bench b" "sync_reach code b mem0 tls0 c" "\<not> all_finished (nr_threads b) c"
  then show "\<exists>is. total_rank K rank (\<lambda>_. 0) b (run_sched (sync_prog code b) (nr_threads b) is c)
      < total_rank K rank (\<lambda>_. 0) b c"
    using progress total_rank_advances by blast
qed

text \<open>
  A lock that is free in one memory only: the executions of a benchmark, with nothing to initialise between
  them, complete one after the other.
\<close>

context flag_lock
begin

lemma all_executions:
  assumes "\<And>s. free s \<Longrightarrow> s = mem0" and "\<And>v. v = tls0"
    and "\<And>b. b \<in> set bs \<Longrightarrow> valid_bench b \<and> (\<Sum>i<nr_threads b. iters b i) = amount"
  shows "all_complete (\<lambda>_. code) (each_with (\<lambda>m. m) bs) amount (mem0, tls0)"
proof (rule all_completeI [where left = "\<lambda>m. m = (mem0, tls0)"])
  fix b and m :: "'s \<times> (nat \<Rightarrow> 'v)" and p :: "'s \<times> (nat \<Rightarrow> 'v) \<Rightarrow> 's \<times> (nat \<Rightarrow> 'v)" and sched
  assume "(b, p) \<in> set (each_with (\<lambda>m. m) bs)" "m = (mem0, tls0)"
  with assms(3) completes_serialised show "completes_with code b (p m) sched amount"
    by (intro completes_withI) (auto simp: each_with_set)
next
  fix b and m m' :: "'s \<times> (nat \<Rightarrow> 'v)" and p :: "'s \<times> (nat \<Rightarrow> 'v) \<Rightarrow> 's \<times> (nat \<Rightarrow> 'v)" and c
  assume "(b, p) \<in> set (each_with (\<lambda>m. m) bs)" and m: "m = (mem0, tls0)"
    and r: "sync_reach code b (fst (p m)) (snd (p m)) c" and "all_finished (nr_threads b) c" and m': "fst m' = fst c"
  with free_at_rest [of b c] have "fst m' = mem0" using assms(1) by (simp add: each_with_set)
  with assms(2) show "m' = (mem0, tls0)" by (metis prod.collapse)
qed simp

end

text \<open>Locks without thread-local variables.\<close>

lemma no_tls: "v = (\<lambda>_. ())" for v :: "nat \<Rightarrow> unit"
  by (rule ext) simp

end
