(* ===== verification/Mutex_Lock.thy ===== *)
theory Mutex_Lock
  imports Flag_Lock
begin

text \<open>
  The benchmarks over library mutexes: \<open>std::mutex\<close>
  (\<open>benchmark/blocking/C++11MutexLock/cpp11_mutex_lock.cpp\<close>) and \<open>pthread_mutex_t\<close>
  (\<open>benchmark/blocking/POSIXMutexLock/posix_mutex_lock.cpp\<close>). The mutex itself is the standard
  libraries': it records its owner, \<open>lock\<close> blocks while there is one, and unlocking a mutex the
  caller does not own, or one that was never initialised, is undefined.
\<close>

section \<open>Library mutexes\<close>

datatype mutex = Uninitialised | Unlocked | LockedBy nat

text \<open>A blocked caller stays in the call (\<open>Goto ()\<close>); relocking an owned mutex never returns.\<close>

fun mutex_lock :: "nat \<Rightarrow> mutex \<Rightarrow> mutex \<times> unit outcome" where
  "mutex_lock tid Unlocked = (LockedBy tid, Return)"
| "mutex_lock tid (LockedBy j) = (LockedBy j, Goto ())"
| "mutex_lock tid Uninitialised = (Uninitialised, Crash)"

fun mutex_unlock :: "nat \<Rightarrow> mutex \<Rightarrow> mutex \<times> unit outcome" where
  "mutex_unlock tid (LockedBy j) = (if j = tid then (Unlocked, Return) else (LockedBy j, Crash))"
| "mutex_unlock tid Unlocked = (Unlocked, Crash)"
| "mutex_unlock tid Uninitialised = (Uninitialised, Crash)"

section \<open>The \<open>std::mutex\<close> benchmark\<close>

definition cpp11_lock :: "nat \<Rightarrow> mutex \<Rightarrow> unit \<Rightarrow> unit \<Rightarrow> mutex \<times> unit \<times> unit outcome" where
  "cpp11_lock tid mutex_lock_var v _ =
     (case mutex_lock tid mutex_lock_var of (m, r) \<Rightarrow> (m, v, r))"

definition cpp11_unlock :: "nat \<Rightarrow> mutex \<Rightarrow> unit \<Rightarrow> unit \<Rightarrow> mutex \<times> unit \<times> unit outcome" where
  "cpp11_unlock tid mutex_lock_var v _ =
     (case mutex_unlock tid mutex_lock_var of (m, r) \<Rightarrow> (m, v, r))"

definition cpp11_mutex_sync :: "(mutex, unit, unit, unit) lock_code" where
  "cpp11_mutex_sync =
     \<lparr>lock_entry = (), lock_instr = cpp11_lock, unlock_entry = (), unlock_instr = cpp11_unlock\<rparr>"

text \<open>The global \<open>std::mutex\<close> is constructed unlocked; \<open>init_cpp11_mutex_lock\<close> does nothing.\<close>

definition cpp11_mem0 :: mutex where
  "cpp11_mem0 = Unlocked"

lemma mutex_lock_cases:
  "mutex_lock i m = (m', r) \<Longrightarrow> m = Unlocked \<Longrightarrow> r = Return \<and> m' = LockedBy i"
  "mutex_lock i m = (m', r) \<Longrightarrow> m = LockedBy j \<Longrightarrow> r = Goto () \<and> m' = m"
  by auto

interpretation cpp11: flag_lock cpp11_mutex_sync cpp11_mem0 "\<lambda>_. ()"
  "\<lambda>m. m = Unlocked" "\<lambda>i m. m = LockedBy i" 1 "\<lambda>_. 0"
  by unfold_locales
    (auto simp: cpp11_mutex_sync_def cpp11_mem0_def cpp11_lock_def cpp11_unlock_def)

lemma cpp11_executions:
  assumes "\<And>b. b \<in> set bs \<Longrightarrow> valid_bench b \<and> (\<Sum>i<nr_threads b. iters b i) = amount"
  shows "all_complete (\<lambda>_. cpp11_mutex_sync) (each_with (\<lambda>m. m) bs) amount (cpp11_mem0, \<lambda>_. ())"
  by (rule cpp11.all_executions [OF _ no_tls assms]) (simp_all add: cpp11_mem0_def)

section \<open>The \<open>pthread_mutex_t\<close> benchmark\<close>

text \<open>\<open>env_vars.lock\<close> is a pointer: null until \<open>init_posix\<close> has allocated the mutex.\<close>

record posix_env =
  posix_mutex :: "mutex option"

definition posix_lock :: "nat \<Rightarrow> posix_env \<Rightarrow> unit \<Rightarrow> unit \<Rightarrow> posix_env \<times> unit \<times> unit outcome" where
  "posix_lock tid env v _ =
     (case posix_mutex env of
        None \<Rightarrow> (env, v, Crash)
      | Some m \<Rightarrow> (case mutex_lock tid m of (m', r) \<Rightarrow> (env\<lparr>posix_mutex := Some m'\<rparr>, v, r)))"

definition posix_unlock :: "nat \<Rightarrow> posix_env \<Rightarrow> unit \<Rightarrow> unit \<Rightarrow> posix_env \<times> unit \<times> unit outcome" where
  "posix_unlock tid env v _ =
     (case posix_mutex env of
        None \<Rightarrow> (env, v, Crash)
      | Some m \<Rightarrow> (case mutex_unlock tid m of (m', r) \<Rightarrow> (env\<lparr>posix_mutex := Some m'\<rparr>, v, r)))"

definition posix_sync :: "(posix_env, unit, unit, unit) lock_code" where
  "posix_sync =
     \<lparr>lock_entry = (), lock_instr = posix_lock, unlock_entry = (), unlock_instr = posix_unlock\<rparr>"

text \<open>
  \<open>init_posix\<close>, given the return codes of \<open>posix_memalign\<close> and \<open>pthread_mutex_init\<close>: a failure
  ends the process with the exit status of the source (\<open>Inl\<close>). The second call is not reached
  after a failed first one.
\<close>

definition init_posix :: "int \<Rightarrow> int \<Rightarrow> posix_env \<Rightarrow> int + posix_env" where
  "init_posix memalign_rc mutex_init_rc env =
     (if 0 \<noteq> memalign_rc then Inl 0
      else let env' = env\<lparr>posix_mutex := Some Uninitialised\<rparr> in
        if 0 \<noteq> mutex_init_rc then Inl 0
        else Inr (env'\<lparr>posix_mutex := Some Unlocked\<rparr>))"

text \<open>\<open>delete_posix\<close>: destroying a locked mutex is undefined (\<open>None\<close>); the memory is not freed.\<close>

definition delete_posix :: "posix_env \<Rightarrow> posix_env option" where
  "delete_posix env =
     (case posix_mutex env of
        Some Unlocked \<Rightarrow> Some (env\<lparr>posix_mutex := Some Uninitialised\<rparr>)
      | _ \<Rightarrow> None)"

text \<open>The state \<open>main\<close> starts the threads in.\<close>

definition posix_mem0 :: posix_env where
  "posix_mem0 = (case init_posix 0 0 \<lparr>posix_mutex = None\<rparr> of Inr env \<Rightarrow> env)"

lemma posix_mem0_unlocked: "posix_mutex posix_mem0 = Some Unlocked"
  by (simp add: posix_mem0_def init_posix_def)

interpretation posix: flag_lock posix_sync posix_mem0 "\<lambda>_. ()"
  "\<lambda>e. posix_mutex e = Some Unlocked" "\<lambda>i e. posix_mutex e = Some (LockedBy i)" 1 "\<lambda>_. 0"
  by unfold_locales
    (auto simp: posix_sync_def posix_mem0_unlocked posix_lock_def posix_unlock_def)

lemma posix_executions:
  assumes "\<And>b. b \<in> set bs \<Longrightarrow> valid_bench b \<and> (\<Sum>i<nr_threads b. iters b i) = amount"
  shows "all_complete (\<lambda>_. posix_sync) (each_with (\<lambda>m. m) bs) amount (posix_mem0, \<lambda>_. ())"
  by (rule posix.all_executions [OF _ no_tls assms]) (simp_all add: posix_mem0_def init_posix_def)

section \<open>Properties\<close>

text \<open>
  The C++11 mutex benchmark: whatever instructions have run, in whatever order the scheduler chose,
  some continuation lets every thread finish; in the completed run the critical sections are
  serialised (no thread enters while another is inside) and each thread has executed
  \<open>useful_in\<close> exactly \<open>nr_iter\<close> times.
\<close>

theorem cpp11_contract:
  assumes "valid_bench b"
  shows "\<exists>more.
    all_finished (nr_threads b) (sync_run cpp11_mutex_sync b cpp11_mem0 (\<lambda>_. ()) (sched @ more)) \<and>
    lock_spec None (cs_trace cpp11_mutex_sync b cpp11_mem0 (\<lambda>_. ()) (sched @ more)) = Some None \<and>
    (\<forall>i<nr_threads b.
       int (entries i (cs_trace cpp11_mutex_sync b cpp11_mem0 (\<lambda>_. ()) (sched @ more))) = iters b i)"
  using assms by (rule cpp11.completes_serialised)

theorem cpp11_contract_witness:
  "\<exists>more.
    all_finished 2 (sync_run cpp11_mutex_sync two_threads cpp11_mem0 (\<lambda>_. ()) ([0, 1, 0, 1] @ more)) \<and>
    lock_spec None (cs_trace cpp11_mutex_sync two_threads cpp11_mem0 (\<lambda>_. ()) ([0, 1, 0, 1] @ more)) = Some None \<and>
    (\<forall>i<2. int (entries i (cs_trace cpp11_mutex_sync two_threads cpp11_mem0 (\<lambda>_. ()) ([0, 1, 0, 1] @ more))) = 1)"
  using cpp11_contract [of two_threads "[0, 1, 0, 1]"] by simp

text \<open>
  The POSIX mutex benchmark, started after a successful \<open>init_posix\<close>: whatever instructions have run, in whatever order the scheduler chose,
  some continuation lets every thread finish; in the completed run the critical sections are
  serialised (no thread enters while another is inside) and each thread has executed
  \<open>useful_in\<close> exactly \<open>nr_iter\<close> times.
\<close>

theorem posix_contract:
  assumes "valid_bench b"
  shows "\<exists>more.
    all_finished (nr_threads b) (sync_run posix_sync b posix_mem0 (\<lambda>_. ()) (sched @ more)) \<and>
    lock_spec None (cs_trace posix_sync b posix_mem0 (\<lambda>_. ()) (sched @ more)) = Some None \<and>
    (\<forall>i<nr_threads b.
       int (entries i (cs_trace posix_sync b posix_mem0 (\<lambda>_. ()) (sched @ more))) = iters b i)"
  using assms by (rule posix.completes_serialised)

theorem posix_contract_witness:
  "\<exists>more.
    all_finished 2 (sync_run posix_sync two_threads posix_mem0 (\<lambda>_. ()) ([0, 1, 0, 1] @ more)) \<and>
    lock_spec None (cs_trace posix_sync two_threads posix_mem0 (\<lambda>_. ()) ([0, 1, 0, 1] @ more)) = Some None \<and>
    (\<forall>i<2. int (entries i (cs_trace posix_sync two_threads posix_mem0 (\<lambda>_. ()) ([0, 1, 0, 1] @ more))) = 1)"
  using posix_contract [of two_threads "[0, 1, 0, 1]"] by simp

end
