(* ===== verification/Mutex_Stack.thy ===== *)
theory Mutex_Stack
  imports Mutex_Lock
begin

text \<open>
  The stack under a mutex (\<open>benchmark/blocking/C++11MutexStack/mutexstack.cpp\<close>): a linked list on the heap,
  \<open>push\<close> and \<open>pop\<close> with a \<open>std::mutex\<close> around them, and the loops of the producers and consumers. Every
  access to the shared memory is a step. The mutex is the one of \<open>Mutex_Lock\<close>.
\<close>

section \<open>Memory\<close>

record stack_node =
  stored :: int
  below :: "nat option"

text \<open>\<open>ts\<close>: its mutex, its head and the nodes that are allocated.\<close>

record threadsafe_stack =
  ts_m :: mutex
  ts_head :: "nat option"
  ts_nodes :: "nat \<Rightarrow> stack_node option"

text \<open>
  The addresses that \<open>new\<close> returns depend on its surroundings; \<open>None\<close> stands for \<open>std::bad_alloc\<close>. When
  there is memory, \<open>new\<close> returns an address that is not in use.
\<close>

type_synonym allocator = "(nat \<Rightarrow> stack_node option) \<Rightarrow> nat option"

definition supplies :: "allocator \<Rightarrow> bool" where
  "supplies A \<longleftrightarrow> (\<forall>ns. finite (dom ns) \<longrightarrow> (\<exists>a. A ns = Some a \<and> ns a = None))"

text \<open>The constructor of the stack pushes a node with the value \<open>0\<close>.\<close>

definition init_stack :: "allocator \<Rightarrow> threadsafe_stack option" where
  "init_stack A =
     (case A (\<lambda>_. None) of
        None \<Rightarrow> None
      | Some init_head \<Rightarrow> Some \<lparr>ts_m = Unlocked, ts_head = Some init_head, ts_nodes = [init_head \<mapsto> \<lparr>stored = 0, below = None\<rparr>]\<rparr>)"

section \<open>The threads\<close>

datatype ms_pc =
    Push_for | Push_lock | Push_new | Push_next | Push_head | Push_unlock
  | Pop_for | Pop_lock | Pop_test | Pop_unlock_empty | Pop_head | Pop_delete | Pop_unlock
  | Ms_finished | Ms_undefined | Ms_bad_alloc

text \<open>\<open>ms_node\<close> is \<open>new_node\<close> of \<open>push\<close> and \<open>old_head\<close> of \<open>pop\<close>.\<close>

record ms_thread =
  ms_pc :: ms_pc
  ms_i :: int
  ms_node :: "nat option"
  ms_steps :: nat

text \<open>An access to a node that is not allocated is undefined.\<close>

definition with_node ::
  "nat option \<Rightarrow> threadsafe_stack \<Rightarrow> ms_thread \<Rightarrow> (nat \<Rightarrow> stack_node \<Rightarrow> threadsafe_stack \<times> ms_thread) \<Rightarrow> threadsafe_stack \<times> ms_thread" where
  "with_node p s l f =
     (case p of
        None \<Rightarrow> (s, l\<lparr>ms_pc := Ms_undefined\<rparr>)
      | Some a \<Rightarrow> (case ts_nodes s a of None \<Rightarrow> (s, l\<lparr>ms_pc := Ms_undefined\<rparr>) | Some nd \<Rightarrow> f a nd))"

text \<open>\<open>m.lock()\<close> and \<open>m.unlock()\<close>; a blocked thread stays where it is.\<close>

definition at_mutex :: "mutex \<times> unit outcome \<Rightarrow> threadsafe_stack \<Rightarrow> ms_thread \<Rightarrow> ms_thread \<Rightarrow> threadsafe_stack \<times> ms_thread" where
  "at_mutex mr s l after =
     (case mr of
        (m', Return) \<Rightarrow> (s\<lparr>ts_m := m'\<rparr>, after)
      | (m', Goto _) \<Rightarrow> (s\<lparr>ts_m := m'\<rparr>, l)
      | (m', Crash) \<Rightarrow> (s\<lparr>ts_m := m'\<rparr>, l\<lparr>ms_pc := Ms_undefined\<rparr>))"

text \<open>\<open>sync_producer\<close> with \<open>push\<close>, whose \<open>lock_guard\<close> unlocks the mutex at the end.\<close>

definition ms_producer :: "allocator \<Rightarrow> int \<Rightarrow> nat \<Rightarrow> threadsafe_stack \<Rightarrow> ms_thread \<Rightarrow> (threadsafe_stack \<times> ms_thread) option" where
  "ms_producer A nr_iter tid s l =
     (case ms_pc l of
        Push_for \<Rightarrow> Some (s, l\<lparr>ms_pc := (if ms_i l < nr_iter then Push_lock else Ms_finished)\<rparr>)
      | Push_lock \<Rightarrow> Some (at_mutex (mutex_lock tid (ts_m s)) s l (l\<lparr>ms_pc := Push_new\<rparr>))
      | Push_new \<Rightarrow>
          (case A (ts_nodes s) of
             None \<Rightarrow> Some (s, l\<lparr>ms_pc := Ms_bad_alloc\<rparr>)
           | Some a \<Rightarrow> Some (s\<lparr>ts_nodes := (ts_nodes s)(a \<mapsto> \<lparr>stored = ms_i l, below = None\<rparr>)\<rparr>,
               l\<lparr>ms_node := Some a, ms_pc := Push_next\<rparr>))
      | Push_next \<Rightarrow>
          Some (with_node (ms_node l) s l (\<lambda>a nd.
            (s\<lparr>ts_nodes := (ts_nodes s)(a \<mapsto> nd\<lparr>below := ts_head s\<rparr>)\<rparr>, l\<lparr>ms_pc := Push_head\<rparr>)))
      | Push_head \<Rightarrow> Some (s\<lparr>ts_head := ms_node l\<rparr>, l\<lparr>ms_pc := Push_unlock\<rparr>)
      | Push_unlock \<Rightarrow> Some (at_mutex (mutex_unlock tid (ts_m s)) s l (l\<lparr>ms_i := ms_i l + 1, ms_pc := Push_for\<rparr>))
      | _ \<Rightarrow> None)"

text \<open>\<open>sync_consumer\<close> with \<open>pop\<close>, which tries again as long as the stack is empty.\<close>

definition ms_consumer :: "int \<Rightarrow> nat \<Rightarrow> threadsafe_stack \<Rightarrow> ms_thread \<Rightarrow> (threadsafe_stack \<times> ms_thread) option" where
  "ms_consumer nr_iter tid s l =
     (case ms_pc l of
        Pop_for \<Rightarrow> Some (s, l\<lparr>ms_pc := (if ms_i l < nr_iter then Pop_lock else Ms_finished)\<rparr>)
      | Pop_lock \<Rightarrow> Some (at_mutex (mutex_lock tid (ts_m s)) s l (l\<lparr>ms_pc := Pop_test\<rparr>))
      | Pop_test \<Rightarrow> Some (s, l\<lparr>ms_pc := (if ts_head s = None then Pop_unlock_empty else Pop_head)\<rparr>)
      | Pop_unlock_empty \<Rightarrow> Some (at_mutex (mutex_unlock tid (ts_m s)) s l (l\<lparr>ms_pc := Pop_lock\<rparr>))
      | Pop_head \<Rightarrow>
          Some (with_node (ts_head s) s l (\<lambda>a nd.
            (s\<lparr>ts_head := below nd\<rparr>, l\<lparr>ms_node := Some a, ms_pc := Pop_delete\<rparr>)))
      | Pop_delete \<Rightarrow>
          Some (with_node (ms_node l) s l (\<lambda>a nd. (s\<lparr>ts_nodes := (ts_nodes s)(a := None)\<rparr>, l\<lparr>ms_pc := Pop_unlock\<rparr>)))
      | Pop_unlock \<Rightarrow> Some (at_mutex (mutex_unlock tid (ts_m s)) s l (l\<lparr>ms_i := ms_i l + 1, ms_pc := Pop_for\<rparr>))
      | _ \<Rightarrow> None)"

text \<open>Threads \<open>0\<close> to \<open>n - 1\<close> are producers, the others consumers.\<close>

definition ms_prog :: "(nat \<Rightarrow> nat \<Rightarrow> allocator) \<Rightarrow> nat \<Rightarrow> (nat \<Rightarrow> int) \<Rightarrow> (threadsafe_stack, ms_thread) prog" where
  "ms_prog A n nr_iter i s l =
     map_option (\<lambda>(s', l'). (s', l'\<lparr>ms_steps := ms_steps l + 1\<rparr>))
       (if i < n then ms_producer (A i (ms_steps l)) (nr_iter i) i s l else ms_consumer (nr_iter i) i s l)"

definition ms_thread0 :: "nat \<Rightarrow> nat \<Rightarrow> ms_thread" where
  "ms_thread0 n i = \<lparr>ms_pc = (if i < n then Push_for else Pop_for), ms_i = 0, ms_node = None, ms_steps = 0\<rparr>"

text \<open>
  The destructor: \<open>for (auto n = head; n != nullptr; n = n->next) delete n;\<close>. \<open>None\<close>: undefined behaviour.
\<close>

partial_function (option) delete_from :: "nat option \<Rightarrow> (nat \<Rightarrow> stack_node option) \<Rightarrow> (nat \<Rightarrow> stack_node option) option option" where
  "delete_from p ns =
     (case p of
        None \<Rightarrow> Some (Some ns)
      | Some a \<Rightarrow>
          if ns a = None then Some None
          else (case (ns(a := None)) a of None \<Rightarrow> Some None | Some nd \<Rightarrow> delete_from (below nd) (ns(a := None))))"

definition delete_stack :: "threadsafe_stack \<Rightarrow> (nat \<Rightarrow> stack_node option) option option" where
  "delete_stack s = (if ts_head s = None then Some (Some (ts_nodes s)) else delete_from (ts_head s) (ts_nodes s))"

section \<open>The list on the heap\<close>

fun ms_chain :: "(nat \<Rightarrow> stack_node option) \<Rightarrow> nat option \<Rightarrow> (nat \<times> int) list \<Rightarrow> bool" where
  "ms_chain ns p [] = (p = None)"
| "ms_chain ns p ((a, v) # xs) =
     (p = Some a \<and> (case ns a of None \<Rightarrow> False | Some nd \<Rightarrow> stored nd = v \<and> ms_chain ns (below nd) xs))"

lemma ms_chain_other [simp]: "a \<notin> fst ` set xs \<Longrightarrow> ms_chain (ns(a := z)) p xs = ms_chain ns p xs"
  by (induction ns p xs rule: ms_chain.induct) (auto split: option.splits)

lemma ms_chain_allocated: "ms_chain ns p xs \<Longrightarrow> fst ` set xs \<subseteq> dom ns"
  by (induction ns p xs rule: ms_chain.induct) (auto split: option.splits)

lemma ms_chain_None: "ms_chain ns None xs \<longleftrightarrow> xs = []"
  by (cases xs) auto

section \<open>The specification\<close>

datatype ms_event = Ms_push int | Ms_pop

fun run_stack :: "(nat \<times> ms_event) list \<Rightarrow> int list \<Rightarrow> int list option" where
  "run_stack [] vs = Some vs"
| "run_stack ((i, Ms_push v) # es) vs = run_stack es (v # vs)"
| "run_stack ((i, Ms_pop) # es) [] = None"
| "run_stack ((i, Ms_pop) # es) (v # vs) = run_stack es vs"

text \<open>An operation takes effect when it writes the head.\<close>

definition ms_effect :: "ms_thread \<Rightarrow> ms_thread \<Rightarrow> ms_event option" where
  "ms_effect l l' =
     (if ms_pc l = Push_head \<and> ms_pc l' = Push_unlock then Some (Ms_push (ms_i l))
      else if ms_pc l = Pop_head \<and> ms_pc l' = Pop_delete then Some Ms_pop else None)"

section \<open>The invariant\<close>

definition inside :: "ms_thread \<Rightarrow> bool" where
  "inside l \<longleftrightarrow> ms_pc l \<in> {Push_new, Push_next, Push_head, Push_unlock,
     Pop_test, Pop_unlock_empty, Pop_head, Pop_delete, Pop_unlock}"

definition ms_owned :: "(nat \<Rightarrow> ms_thread) \<Rightarrow> mutex \<Rightarrow> bool" where
  "ms_owned ls mx \<longleftrightarrow>
     (case mx of Uninitialised \<Rightarrow> False | Unlocked \<Rightarrow> owned_by inside ls None | LockedBy h \<Rightarrow> owned_by inside ls (Some h))"

text \<open>
  The list is \<open>xs\<close>, addresses with values. Besides its nodes only one is allocated, for the thread that has
  the mutex: the one it is about to push or to delete.
\<close>

definition heap_is :: "threadsafe_stack \<Rightarrow> nat set \<Rightarrow> bool" where
  "heap_is s As \<longleftrightarrow> dom (ts_nodes s) = As"

definition node_ok :: "threadsafe_stack \<Rightarrow> (nat \<times> int) list \<Rightarrow> ms_thread \<Rightarrow> bool" where
  "node_ok s xs l \<longleftrightarrow>
     (if ms_pc l = Push_next \<or> ms_pc l = Push_head
      then \<exists>a nd. ms_node l = Some a \<and> ts_nodes s a = Some nd \<and> stored nd = ms_i l \<and> a \<notin> fst ` set xs \<and>
        heap_is s (insert a (fst ` set xs)) \<and> (ms_pc l = Push_head \<longrightarrow> below nd = ts_head s)
      else if ms_pc l = Pop_delete
      then \<exists>a. ms_node l = Some a \<and> a \<notin> fst ` set xs \<and> heap_is s (insert a (fst ` set xs))
      else heap_is s (fst ` set xs) \<and> (ms_pc l = Pop_head \<longrightarrow> ts_head s \<noteq> None))"

lemma node_ok_same:
  "ts_nodes s' = ts_nodes s \<Longrightarrow> ts_head s' = ts_head s \<Longrightarrow> node_ok s' xs l = node_ok s xs l"
  by (simp add: node_ok_def heap_is_def)

definition ms_thread_ok :: "nat \<Rightarrow> int \<Rightarrow> nat \<Rightarrow> ms_thread \<Rightarrow> bool" where
  "ms_thread_ok n k i l \<longleftrightarrow>
     ms_pc l \<in> (if i < n then {Push_for, Push_lock, Push_new, Push_next, Push_head, Push_unlock, Ms_finished}
       else {Pop_for, Pop_lock, Pop_test, Pop_unlock_empty, Pop_head, Pop_delete, Pop_unlock, Ms_finished}) \<and>
     0 \<le> ms_i l \<and> ms_i l \<le> max 0 k \<and> (ms_pc l \<notin> {Push_for, Pop_for, Ms_finished} \<longrightarrow> ms_i l < k) \<and>
     (ms_pc l = Ms_finished \<longrightarrow> k \<le> ms_i l)"

text \<open>What a thread has added to the stack, or taken.\<close>

definition ms_balance :: "nat \<Rightarrow> nat \<Rightarrow> ms_thread \<Rightarrow> int" where
  "ms_balance n i l =
     (if i < n then 1 else - 1) * (ms_i l + (if ms_pc l \<in> {Push_unlock, Pop_delete, Pop_unlock} then 1 else 0))"

definition ms_inv ::
  "nat \<Rightarrow> nat \<Rightarrow> (nat \<Rightarrow> int) \<Rightarrow> nat \<Rightarrow> threadsafe_stack \<Rightarrow> (nat \<Rightarrow> ms_thread) \<Rightarrow> (nat \<times> int) list \<Rightarrow> bool" where
  "ms_inv n N k l0 s ls xs \<longleftrightarrow>
     ms_chain (ts_nodes s) (ts_head s) xs \<and> distinct (map fst xs) \<and> ms_owned ls (ts_m s) \<and>
     (\<forall>i. inside (ls i) \<longrightarrow> i < N \<and> node_ok s xs (ls i)) \<and> (ts_m s = Unlocked \<longrightarrow> heap_is s (fst ` set xs)) \<and>
     (\<forall>i<N. ms_thread_ok n (k i) i (ls i)) \<and>
     (\<Sum>i<N. ms_balance n i (ls i)) = int (length xs) - int l0"

lemma ms_invD:
  assumes "ms_inv n N k l0 s ls xs"
  shows "ms_chain (ts_nodes s) (ts_head s) xs" and "distinct (map fst xs)" and "ms_owned ls (ts_m s)"
    and "inside (ls i) \<Longrightarrow> node_ok s xs (ls i)" and "ts_m s = Unlocked \<Longrightarrow> heap_is s (fst ` set xs)"
    and "i < N \<Longrightarrow> ms_thread_ok n (k i) i (ls i)"
    and "(\<Sum>i<N. ms_balance n i (ls i)) = int (length xs) - int l0" and "inside (ls i) \<Longrightarrow> i < N"
  using assms by (simp_all add: ms_inv_def)

lemma ms_owned_owner:
  assumes "ms_owned ls mx"
  shows "mx = LockedBy i \<longleftrightarrow> inside (ls i)" and "mx \<noteq> Uninitialised" and "inside (ls i) \<Longrightarrow> inside (ls j) \<Longrightarrow> i = j"
  using assms by (auto simp: ms_owned_def owned_by_def split: mutex.splits)

lemma ms_owned_steps:
  assumes "ms_owned ls mx"
  shows "inside l' = inside (ls i) \<Longrightarrow> ms_owned (ls(i := l')) mx"
    and "mx = Unlocked \<Longrightarrow> inside l' \<Longrightarrow> ms_owned (ls(i := l')) (LockedBy i)"
    and "inside (ls i) \<Longrightarrow> \<not> inside l' \<Longrightarrow> ms_owned (ls(i := l')) Unlocked"
  using assms by (auto simp: ms_owned_def owned_by_def split: mutex.splits)

text \<open>A step of thread \<open>i\<close>: it touches the list only while it has the mutex.\<close>

lemma ms_inv_update:
  assumes inv: "ms_inv n N k l0 s ls xs" and i: "i < N"
    and list: "ms_chain (ts_nodes s') (ts_head s') xs'" "distinct (map fst xs')"
    and only: "inside (ls i) \<or> xs' = xs \<and> ts_nodes s' = ts_nodes s \<and> ts_head s' = ts_head s"
    and own: "ms_owned (ls(i := l')) (ts_m s')"
    and node: "inside l' \<Longrightarrow> node_ok s' xs' l'" "ts_m s' = Unlocked \<Longrightarrow> heap_is s' (fst ` set xs')"
    and thread: "ms_thread_ok n (k i) i l'"
    and count: "ms_balance n i l' + int (length xs) = ms_balance n i (ls i) + int (length xs')"
  shows "ms_inv n N k l0 s' (ls(i := l')) xs'"
proof -
  note I = ms_invD [OF inv]
  have "j < N \<and> node_ok s' xs' ((ls(i := l')) j)" if "inside ((ls(i := l')) j)" for j
  proof (cases "j = i")
    case False
    then have j: "inside (ls j)" using that by simp
    with False ms_owned_owner(3) [OF I(3), of i j] have "\<not> inside (ls i)" by blast
    with only I(4) [OF j] False show ?thesis using node_ok_same [of s' s xs "ls j"] I(8) [OF j] by auto
  qed (use node(1) that i in simp)
  moreover have "(\<Sum>j<N. ms_balance n j ((ls(i := l')) j)) = int (length xs') - int l0"
    using sum_fun_upd_add [where g = "ms_balance n", OF i, of ls l'] I(7) count by linarith
  ultimately show ?thesis
    using list own node(2) thread I(6) unfolding ms_inv_def by simp
qed

text \<open>Steps outside the mutex, at the mutex, and inside it.\<close>

definition ms_events :: "nat \<Rightarrow> ms_thread \<Rightarrow> ms_thread \<Rightarrow> (nat \<times> ms_event) list" where
  "ms_events i l l' = (case ms_effect l l' of None \<Rightarrow> [] | Some e \<Rightarrow> [(i, e)])"

definition ms_follows ::
  "nat \<Rightarrow> nat \<Rightarrow> (nat \<Rightarrow> int) \<Rightarrow> nat \<Rightarrow> nat \<Rightarrow> (nat \<Rightarrow> ms_thread) \<Rightarrow> (nat \<times> int) list \<Rightarrow> threadsafe_stack \<times> ms_thread \<Rightarrow> bool" where
  "ms_follows n N k l0 i ls xs r \<longleftrightarrow>
     (\<exists>xs'. ms_inv n N k l0 (fst r) (ls(i := snd r)) xs' \<and>
        run_stack (ms_events i (ls i) (snd r)) (map snd xs) = Some (map snd xs'))"

lemma ms_outside:
  assumes inv: "ms_inv n N k l0 s ls xs" and i: "i < N" and out: "\<not> inside (ls i)" "\<not> inside l'"
    and thread: "ms_thread_ok n (k i) i l'" and count: "ms_balance n i l' = ms_balance n i (ls i)"
    and quiet: "ms_events i (ls i) l' = []"
  shows "ms_follows n N k l0 i ls xs (s, l')"
proof -
  note I = ms_invD [OF inv]
  have "ms_inv n N k l0 s (ls(i := l')) xs"
    by (rule ms_inv_update [OF inv i I(1,2)]) (use out thread count I(5) ms_owned_steps(1) [OF I(3)] in simp_all)
  then show ?thesis unfolding ms_follows_def using quiet by auto
qed

lemma ms_acquire:
  assumes inv: "ms_inv n N k l0 s ls xs" and i: "i < N" and out: "\<not> inside (ls i)" and pc: "ms_pc after = Push_new \<or> ms_pc after = Pop_test"
    and thread: "ms_thread_ok n (k i) i after" and count: "ms_balance n i after = ms_balance n i (ls i)"
    and stay: "ms_follows n N k l0 i ls xs (s, l)" and quiet: "ms_events i (ls i) after = []"
  shows "ms_follows n N k l0 i ls xs (at_mutex (mutex_lock i (ts_m s)) s l after)"
proof (cases "ts_m s")
  case Unlocked
  note I = ms_invD [OF inv]
  have into: "inside after" using pc by (auto simp: inside_def)
  have "ms_inv n N k l0 (s\<lparr>ts_m := LockedBy i\<rparr>) (ls(i := after)) xs"
    by (rule ms_inv_update [OF inv i])
      (use I(1,2) thread count I(5) [OF Unlocked] ms_owned_steps(2) [OF I(3) Unlocked into] pc in
        \<open>auto simp: node_ok_def heap_is_def\<close>)
  then show ?thesis unfolding ms_follows_def using quiet by (auto simp: at_mutex_def Unlocked)
next
  case (LockedBy j)
  then have "at_mutex (mutex_lock i (ts_m s)) s l after = (s, l)" by (cases s) (simp add: at_mutex_def)
  with stay show ?thesis by simp
next
  case Uninitialised
  with ms_owned_owner(2) [OF ms_invD(3) [OF inv]] show ?thesis by blast
qed

lemma ms_release:
  assumes inv: "ms_inv n N k l0 s ls xs" and i: "i < N"
    and pc: "ms_pc (ls i) = Push_unlock \<or> ms_pc (ls i) = Pop_unlock \<or> ms_pc (ls i) = Pop_unlock_empty"
    and thread: "ms_thread_ok n (k i) i after" "\<not> inside after" and count: "ms_balance n i after = ms_balance n i (ls i)"
    and quiet: "ms_events i (ls i) after = []"
  shows "ms_follows n N k l0 i ls xs (at_mutex (mutex_unlock i (ts_m s)) s l after)"
proof -
  note I = ms_invD [OF inv]
  have into: "inside (ls i)" using pc by (auto simp: inside_def)
  then have mx: "ts_m s = LockedBy i" using ms_owned_owner(1) [OF I(3)] by blast
  have heap: "heap_is s (fst ` set xs)" using I(4) [OF into] pc by (auto simp: node_ok_def)
  have "ms_inv n N k l0 (s\<lparr>ts_m := Unlocked\<rparr>) (ls(i := after)) xs"
    by (rule ms_inv_update [OF inv i])
      (use I(1,2) thread count into heap ms_owned_steps(3) [OF I(3) into thread(2)] in \<open>auto simp: heap_is_def\<close>)
  then show ?thesis unfolding ms_follows_def using quiet by (auto simp: at_mutex_def mx)
qed

lemma ms_inside:
  assumes inv: "ms_inv n N k l0 s ls xs" and i: "i < N" and into: "inside (ls i)" "inside l'" and mx: "ts_m s' = ts_m s"
    and list: "ms_chain (ts_nodes s') (ts_head s') xs'" "distinct (map fst xs')" and node: "node_ok s' xs' l'"
    and thread: "ms_thread_ok n (k i) i l'"
    and count: "ms_balance n i l' + int (length xs) = ms_balance n i (ls i) + int (length xs')"
    and effect: "run_stack (ms_events i (ls i) l') (map snd xs) = Some (map snd xs')"
  shows "ms_follows n N k l0 i ls xs (s', l')"
proof -
  note I = ms_invD [OF inv]
  have "ts_m s \<noteq> Unlocked" using ms_owned_owner(1) [OF I(3), of i] into(1) by simp
  then have "ms_inv n N k l0 s' (ls(i := l')) xs'"
    by (intro ms_inv_update [OF inv i list _ _ node _ thread count])
      (use into mx ms_owned_steps(1) [OF I(3)] in simp_all)
  with effect show ?thesis unfolding ms_follows_def by auto
qed

lemma ms_follows_steps:
  assumes "ms_follows n N k l0 i ls xs (s, l)" and i: "i < N"
  shows "ms_follows n N k l0 i ls xs (s, l\<lparr>ms_steps := m\<rparr>)"
proof -
  from assms(1) obtain xs' where inv: "ms_inv n N k l0 s (ls(i := l)) xs'"
    and run: "run_stack (ms_events i (ls i) l) (map snd xs) = Some (map snd xs')"
    by (auto simp: ms_follows_def)
  note I = ms_invD [OF inv]
  have same: "inside (l\<lparr>ms_steps := m\<rparr>) = inside l" "ms_events i (ls i) (l\<lparr>ms_steps := m\<rparr>) = ms_events i (ls i) l"
    "node_ok s xs' (l\<lparr>ms_steps := m\<rparr>) = node_ok s xs' l" "ms_thread_ok n (k i) i (l\<lparr>ms_steps := m\<rparr>) = ms_thread_ok n (k i) i l"
    "ms_balance n i (l\<lparr>ms_steps := m\<rparr>) = ms_balance n i l"
    by (simp_all add: inside_def ms_events_def ms_effect_def node_ok_def ms_thread_ok_def ms_balance_def)
  have "ms_inv n N k l0 s ((ls(i := l))(i := l\<lparr>ms_steps := m\<rparr>)) xs'"
    by (rule ms_inv_update [OF inv i I(1,2)])
      (use I(4) [of i] I(5) I(6) [OF i] ms_owned_steps(1) [OF I(3), of "l\<lparr>ms_steps := m\<rparr>" i] same in simp_all)
  with run same(2) show ?thesis by (auto simp: ms_follows_def)
qed

lemma ms_producer_step:
  assumes inv: "ms_inv n N k l0 s ls xs" and i: "i < N" "i < n" and A: "supplies A"
    and step: "ms_producer A (k i) i s (ls i) = Some r"
  shows "ms_follows n N k l0 i ls xs r"
proof -
  note I = ms_invD [OF inv]
  note T = I(6) [OF i(1), unfolded ms_thread_ok_def]
  note defs = ms_thread_ok_def ms_balance_def ms_events_def ms_effect_def
  let ?l = "ls i"
  show ?thesis
  proof (cases "ms_pc ?l")
    case Push_for
    let ?t = "?l\<lparr>ms_pc := (if ms_i ?l < k i then Push_lock else Ms_finished)\<rparr>"
    have "ms_follows n N k l0 i ls xs (s, ?t)"
      by (rule ms_outside [OF inv i(1)]) (use T i(2) in \<open>auto simp: inside_def defs Push_for\<close>)
    then show ?thesis using step Push_for by (simp add: ms_producer_def)
  next
    case Push_lock
    have stay: "ms_follows n N k l0 i ls xs (s, ?l)"
      by (rule ms_outside [OF inv i(1)]) (use T i(2) in \<open>auto simp: inside_def defs Push_lock\<close>)
    have "ms_follows n N k l0 i ls xs (at_mutex (mutex_lock i (ts_m s)) s ?l (?l\<lparr>ms_pc := Push_new\<rparr>))"
      by (rule ms_acquire [OF inv i(1) _ _ _ _ stay]) (use T i(2) in \<open>auto simp: inside_def defs Push_lock\<close>)
    then show ?thesis using step Push_lock by (simp add: ms_producer_def)
  next
    case Push_new
    have into: "inside ?l" by (simp add: inside_def Push_new)
    have heap: "heap_is s (fst ` set xs)" using I(4) [OF into] by (simp add: node_ok_def Push_new)
    then have "finite (dom (ts_nodes s))" by (simp add: heap_is_def)
    with A obtain a where a: "A (ts_nodes s) = Some a" "ts_nodes s a = None" by (auto simp: supplies_def)
    then have new: "a \<notin> fst ` set xs" using ms_chain_allocated [OF I(1)] by auto
    let ?s = "s\<lparr>ts_nodes := (ts_nodes s)(a \<mapsto> \<lparr>stored = ms_i ?l, below = None\<rparr>)\<rparr>"
    have "ms_follows n N k l0 i ls xs (?s, ?l\<lparr>ms_node := Some a, ms_pc := Push_next\<rparr>)"
      by (rule ms_inside [OF inv i(1) into])
        (use T i(2) I(1,2) heap new in \<open>auto simp: inside_def defs Push_new node_ok_def heap_is_def\<close>)
    then show ?thesis using step Push_new a by (simp add: ms_producer_def)
  next
    case Push_next
    have into: "inside ?l" by (simp add: inside_def Push_next)
    obtain a nd where a: "ms_node ?l = Some a" "ts_nodes s a = Some nd" "stored nd = ms_i ?l" "a \<notin> fst ` set xs"
      "heap_is s (insert a (fst ` set xs))" using I(4) [OF into] by (auto simp: node_ok_def Push_next)
    let ?s = "s\<lparr>ts_nodes := (ts_nodes s)(a \<mapsto> nd\<lparr>below := ts_head s\<rparr>)\<rparr>"
    have "ms_follows n N k l0 i ls xs (?s, ?l\<lparr>ms_pc := Push_head\<rparr>)"
      by (rule ms_inside [OF inv i(1) into])
        (use T i(2) I(1,2) a in \<open>auto simp: inside_def defs Push_next node_ok_def heap_is_def\<close>)
    then show ?thesis using step Push_next a by (simp add: ms_producer_def with_node_def)
  next
    case Push_head
    have into: "inside ?l" by (simp add: inside_def Push_head)
    obtain a nd where a: "ms_node ?l = Some a" "ts_nodes s a = Some nd" "stored nd = ms_i ?l" "a \<notin> fst ` set xs"
      "heap_is s (insert a (fst ` set xs))" "below nd = ts_head s" using I(4) [OF into] by (auto simp: node_ok_def Push_head)
    have "ms_follows n N k l0 i ls xs (s\<lparr>ts_head := Some a\<rparr>, ?l\<lparr>ms_pc := Push_unlock\<rparr>)"
      by (rule ms_inside [OF inv i(1) into, where xs' = "(a, ms_i ?l) # xs"])
        (use T i(2) I(1,2) a in \<open>auto simp: inside_def defs Push_head node_ok_def heap_is_def\<close>)
    then show ?thesis using step Push_head a by (simp add: ms_producer_def)
  next
    case Push_unlock
    have "ms_follows n N k l0 i ls xs (at_mutex (mutex_unlock i (ts_m s)) s ?l (?l\<lparr>ms_i := ms_i ?l + 1, ms_pc := Push_for\<rparr>))"
      by (rule ms_release [OF inv i(1)]) (use T i(2) in \<open>auto simp: inside_def defs Push_unlock\<close>)
    then show ?thesis using step Push_unlock by (simp add: ms_producer_def)
  qed (use T i(2) step in \<open>auto simp: ms_producer_def\<close>)
qed

lemma ms_consumer_step:
  assumes inv: "ms_inv n N k l0 s ls xs" and i: "i < N" "\<not> i < n" and step: "ms_consumer (k i) i s (ls i) = Some r"
  shows "ms_follows n N k l0 i ls xs r"
proof -
  note I = ms_invD [OF inv]
  note T = I(6) [OF i(1), unfolded ms_thread_ok_def]
  note defs = ms_thread_ok_def ms_balance_def ms_events_def ms_effect_def
  let ?l = "ls i"
  show ?thesis
  proof (cases "ms_pc ?l")
    case Pop_for
    let ?t = "?l\<lparr>ms_pc := (if ms_i ?l < k i then Pop_lock else Ms_finished)\<rparr>"
    have "ms_follows n N k l0 i ls xs (s, ?t)"
      by (rule ms_outside [OF inv i(1)]) (use T i(2) in \<open>auto simp: inside_def defs Pop_for\<close>)
    then show ?thesis using step Pop_for by (simp add: ms_consumer_def)
  next
    case Pop_lock
    have stay: "ms_follows n N k l0 i ls xs (s, ?l)"
      by (rule ms_outside [OF inv i(1)]) (use T i(2) in \<open>auto simp: inside_def defs Pop_lock\<close>)
    have "ms_follows n N k l0 i ls xs (at_mutex (mutex_lock i (ts_m s)) s ?l (?l\<lparr>ms_pc := Pop_test\<rparr>))"
      by (rule ms_acquire [OF inv i(1) _ _ _ _ stay]) (use T i(2) in \<open>auto simp: inside_def defs Pop_lock\<close>)
    then show ?thesis using step Pop_lock by (simp add: ms_consumer_def)
  next
    case Pop_test
    have into: "inside ?l" by (simp add: inside_def Pop_test)
    have heap: "heap_is s (fst ` set xs)" using I(4) [OF into] by (simp add: node_ok_def Pop_test)
    have "ms_follows n N k l0 i ls xs (s, ?l\<lparr>ms_pc := (if ts_head s = None then Pop_unlock_empty else Pop_head)\<rparr>)"
      by (rule ms_inside [OF inv i(1) into])
        (use T i(2) I(1,2) heap in \<open>auto simp: inside_def defs Pop_test node_ok_def\<close>)
    then show ?thesis using step Pop_test by (simp add: ms_consumer_def)
  next
    case Pop_unlock_empty
    have "ms_follows n N k l0 i ls xs (at_mutex (mutex_unlock i (ts_m s)) s ?l (?l\<lparr>ms_pc := Pop_lock\<rparr>))"
      by (rule ms_release [OF inv i(1)]) (use T i(2) in \<open>auto simp: inside_def defs Pop_unlock_empty\<close>)
    then show ?thesis using step Pop_unlock_empty by (simp add: ms_consumer_def)
  next
    case Pop_head
    have into: "inside ?l" by (simp add: inside_def Pop_head)
    have heap: "heap_is s (fst ` set xs)" and "ts_head s \<noteq> None" using I(4) [OF into] by (auto simp: node_ok_def Pop_head)
    with I(1) obtain a v ys where xs: "xs = (a, v) # ys" and head: "ts_head s = Some a" by (cases xs) auto
    with I(1) obtain nd where nd: "ts_nodes s a = Some nd" "ms_chain (ts_nodes s) (below nd) ys"
      by (auto split: option.splits)
    have "ms_follows n N k l0 i ls xs (s\<lparr>ts_head := below nd\<rparr>, ?l\<lparr>ms_node := Some a, ms_pc := Pop_delete\<rparr>)"
      by (rule ms_inside [OF inv i(1) into, where xs' = ys])
        (use T i(2) I(2) heap nd xs in \<open>auto simp: inside_def defs Pop_head node_ok_def heap_is_def image_iff\<close>)
    then show ?thesis using step Pop_head head nd by (simp add: ms_consumer_def with_node_def)
  next
    case Pop_delete
    have into: "inside ?l" by (simp add: inside_def Pop_delete)
    obtain a where a: "ms_node ?l = Some a" "a \<notin> fst ` set xs" and heap: "heap_is s (insert a (fst ` set xs))"
      using I(4) [OF into] by (auto simp: node_ok_def Pop_delete)
    then obtain nd where nd: "ts_nodes s a = Some nd" unfolding heap_is_def by blast
    have "ms_follows n N k l0 i ls xs (s\<lparr>ts_nodes := (ts_nodes s)(a := None)\<rparr>, ?l\<lparr>ms_pc := Pop_unlock\<rparr>)"
      by (rule ms_inside [OF inv i(1) into])
        (use T i(2) I(1,2) a heap in \<open>auto simp: inside_def defs Pop_delete node_ok_def heap_is_def\<close>)
    then show ?thesis using step Pop_delete a nd by (simp add: ms_consumer_def with_node_def)
  next
    case Pop_unlock
    have "ms_follows n N k l0 i ls xs (at_mutex (mutex_unlock i (ts_m s)) s ?l (?l\<lparr>ms_i := ms_i ?l + 1, ms_pc := Pop_for\<rparr>))"
      by (rule ms_release [OF inv i(1)]) (use T i(2) in \<open>auto simp: inside_def defs Pop_unlock\<close>)
    then show ?thesis using step Pop_unlock by (simp add: ms_consumer_def)
  qed (use T i(2) step in \<open>auto simp: ms_consumer_def\<close>)
qed

lemma ms_step:
  assumes inv: "ms_inv n N k l0 s ls xs" and i: "i < N" and A: "\<forall>i m. supplies (A i m)"
    and step: "ms_prog A n k i s (ls i) = Some (s', l')"
  shows "ms_follows n N k l0 i ls xs (s', l')"
proof -
  from step obtain l1 where "(if i < n then ms_producer (A i (ms_steps (ls i))) (k i) i s (ls i)
      else ms_consumer (k i) i s (ls i)) = Some (s', l1)" and l': "l' = l1\<lparr>ms_steps := ms_steps (ls i) + 1\<rparr>"
    by (auto simp: ms_prog_def)
  then have "ms_follows n N k l0 i ls xs (s', l1)"
    using ms_producer_step [OF inv i _ spec [OF spec [OF A]]] ms_consumer_step [OF inv i] by (auto split: if_splits)
  then show ?thesis unfolding l' by (rule ms_follows_steps [OF _ i])
qed

lemma run_stack_append: "run_stack (es @ fs) vs = Option.bind (run_stack es vs) (run_stack fs)"
  by (induction es vs rule: run_stack.induct) auto

lemma ms_run:
  assumes "ms_inv n N k l0 (fst c) (snd c) xs" and A: "\<forall>i m. supplies (A i m)"
  shows "\<exists>xs'. ms_inv n N k l0 (fst (run_sched (ms_prog A n k) N sched c)) (snd (run_sched (ms_prog A n k) N sched c)) xs' \<and>
    run_stack (trace_of (ms_prog A n k) N ms_effect sched c) (map snd xs) = Some (map snd xs')"
  using assms(1)
proof (induction sched arbitrary: c xs)
  case (Cons i sched)
  let ?P = "ms_prog A n k"
  let ?c = "sched_step ?P N i c"
  have "\<exists>ys. ms_inv n N k l0 (fst ?c) (snd ?c) ys \<and>
    run_stack (if i < N then ms_events i (snd c i) (snd ?c i) else []) (map snd xs) = Some (map snd ys)"
  proof (rule sched_step_cases [of ?P N i c])
    assume same: "?c = c"
    moreover have "ms_events i (snd c i) (snd c i) = []" by (simp add: ms_events_def ms_effect_def)
    ultimately show ?thesis using Cons.prems by auto
  next
    fix s' l'
    assume "i < N" "?P i (fst c) (snd c i) = Some (s', l')" "?c = (s', (snd c)(i := l'))"
    with ms_step [OF Cons.prems _ A] show ?thesis by (auto simp: ms_follows_def)
  qed
  then obtain ys where ys: "ms_inv n N k l0 (fst ?c) (snd ?c) ys"
    "run_stack (if i < N then ms_events i (snd c i) (snd ?c i) else []) (map snd xs) = Some (map snd ys)" by blast
  have "trace_of ?P N ms_effect (i # sched) c =
      (if i < N then ms_events i (snd c i) (snd ?c i) else []) @ trace_of ?P N ms_effect sched ?c"
    by (simp add: Let_def ms_events_def)
  with ys(2) Cons.IH [OF ys(1)] show ?case by (simp add: run_stack_append)
qed auto

section \<open>The start\<close>

definition stack_is :: "threadsafe_stack \<Rightarrow> (nat \<times> int) list \<Rightarrow> bool" where
  "stack_is s xs \<longleftrightarrow> ts_m s = Unlocked \<and> ms_chain (ts_nodes s) (ts_head s) xs \<and> distinct (map fst xs) \<and> heap_is s (fst ` set xs)"

lemma ms_inv_start:
  assumes "stack_is s xs"
  shows "ms_inv n N k (length xs) s (ms_thread0 n) xs"
proof -
  have "(\<Sum>i<N. ms_balance n i (ms_thread0 n i)) = 0"
    by (intro sum.neutral) (simp add: ms_balance_def ms_thread0_def)
  with assms show ?thesis
    by (auto simp: ms_inv_def stack_is_def ms_owned_def owned_by_def inside_def ms_thread0_def ms_thread_ok_def)
qed

lemma init_stack_is:
  assumes "init_stack A = Some s"
  shows "\<exists>a. stack_is s [(a, 0)]"
  using assms by (auto simp: init_stack_def stack_is_def heap_is_def split: option.splits)

abbreviation ms_runs ::
  "(nat \<Rightarrow> nat \<Rightarrow> allocator) \<Rightarrow> nat \<Rightarrow> nat \<Rightarrow> (nat \<Rightarrow> int) \<Rightarrow> threadsafe_stack \<Rightarrow> nat list \<Rightarrow> (threadsafe_stack, ms_thread) cfg" where
  "ms_runs A n N k s sched \<equiv> run_sched (ms_prog A n k) N sched (s, ms_thread0 n)"

definition ms_done :: "nat \<Rightarrow> (threadsafe_stack, ms_thread) cfg \<Rightarrow> bool" where
  "ms_done N c \<longleftrightarrow> (\<forall>i<N. ms_pc (snd c i) = Ms_finished)"

section \<open>Completion\<close>

text \<open>What the thread adds to the stack in the end.\<close>

definition ms_total :: "nat \<Rightarrow> (nat \<Rightarrow> int) \<Rightarrow> nat \<Rightarrow> int" where
  "ms_total n k i = (if i < n then 1 else - 1) * max 0 (k i)"

lemma ms_total_sum:
  assumes "n \<le> N"
  shows "(\<Sum>i<N. ms_total n k i) = int (\<Sum>i<n. nat (k i)) - int (\<Sum>i=n..<N. nat (k i))"
proof -
  have "(\<Sum>i<N. ms_total n k i) = (\<Sum>i<n. ms_total n k i) + (\<Sum>i=n..<N. ms_total n k i)"
    using assms sum.atLeastLessThan_concat [of 0 n N "ms_total n k"] by (simp add: atLeast0LessThan)
  moreover have "(\<Sum>i<n. ms_total n k i) = int (\<Sum>i<n. nat (k i))" by (auto simp: ms_total_def max_def intro!: sum.cong)
  moreover have "(\<Sum>i=n..<N. ms_total n k i) = - int (\<Sum>i=n..<N. nat (k i))"
    unfolding of_nat_sum sum_negf [symmetric] by (intro sum.cong) (auto simp: ms_total_def)
  ultimately show ?thesis by simp
qed

lemma ms_balance_total:
  assumes "ms_thread_ok n (k i) i l"
  shows "ms_pc l = Ms_finished \<Longrightarrow> ms_balance n i l = ms_total n k i"
    and "\<not> i < n \<Longrightarrow> ms_total n k i \<le> ms_balance n i l"
    and "\<not> i < n \<Longrightarrow> ms_pc l = Pop_lock \<Longrightarrow> ms_total n k i < ms_balance n i l"
  using assms by (auto simp: ms_thread_ok_def ms_balance_def ms_total_def max_def split: if_splits)

lemma ms_done_length:
  assumes "ms_inv n N k l0 (fst c) (snd c) xs" and "ms_done N c"
  shows "int (length xs) = int l0 + (\<Sum>i<N. ms_total n k i)"
proof -
  have "(\<Sum>i<N. ms_balance n i (snd c i)) = (\<Sum>i<N. ms_total n k i)"
    using assms by (intro sum.cong) (auto simp: ms_done_def ms_invD(6) ms_balance_total(1))
  with ms_invD(7) [OF assms(1)] show ?thesis by simp
qed

text \<open>A consumer that waits when all producers have finished finds an element.\<close>

lemma ms_not_empty:
  assumes inv: "ms_inv n N k l0 s ls xs" and room: "0 \<le> int l0 + (\<Sum>i<N. ms_total n k i)"
    and producers: "\<And>i. i < n \<Longrightarrow> i < N \<Longrightarrow> ms_pc (ls i) = Ms_finished"
    and j: "j < N" "\<not> j < n" "ms_pc (ls j) = Pop_lock"
  shows "ts_head s \<noteq> None"
proof -
  note I = ms_invD [OF inv]
  have "(\<Sum>i<N. ms_total n k i) < (\<Sum>i<N. ms_balance n i (ls i))"
  proof (rule sum_strict_mono_ex1)
    show "\<forall>i\<in>{..<N}. ms_total n k i \<le> ms_balance n i (ls i)"
    proof
      fix i assume "i \<in> {..<N}"
      then show "ms_total n k i \<le> ms_balance n i (ls i)"
        using ms_balance_total(1,2) [where k = k and i = i, OF I(6)] producers by (cases "i < n") auto
    qed
    show "\<exists>i\<in>{..<N}. ms_total n k i < ms_balance n i (ls i)"
      using ms_balance_total(3) [where k = k, OF I(6) [OF j(1)] j(2,3)] j(1) by blast
  qed simp
  with I(7) room have "xs \<noteq> []" by auto
  with I(1) show ?thesis using ms_chain_None [of "ts_nodes s" xs] by (cases "ts_head s") auto
qed

fun ms_pc_rank :: "ms_pc \<Rightarrow> nat" where
  "ms_pc_rank Push_for = 7" | "ms_pc_rank Push_lock = 6" | "ms_pc_rank Push_new = 5" | "ms_pc_rank Push_next = 4"
| "ms_pc_rank Push_head = 3" | "ms_pc_rank Push_unlock = 2" | "ms_pc_rank Pop_for = 7" | "ms_pc_rank Pop_lock = 6"
| "ms_pc_rank Pop_test = 6" | "ms_pc_rank Pop_unlock_empty = 6" | "ms_pc_rank Pop_head = 5" | "ms_pc_rank Pop_delete = 4"
| "ms_pc_rank Pop_unlock = 3" | "ms_pc_rank _ = 0"

definition ms_rank :: "(nat \<Rightarrow> int) \<Rightarrow> nat \<Rightarrow> ms_thread \<Rightarrow> nat" where
  "ms_rank k i l = 8 * nat (k i - ms_i l) + ms_pc_rank (ms_pc l)"

definition ms_measure :: "nat \<Rightarrow> (nat \<Rightarrow> int) \<Rightarrow> (threadsafe_stack, ms_thread) cfg \<Rightarrow> nat" where
  "ms_measure N k c = (\<Sum>i<N. ms_rank k i (snd c i))"

text \<open>The steps that bring a thread nearer to its end, and those on which it may go round.\<close>

definition advances :: "threadsafe_stack \<Rightarrow> ms_thread \<Rightarrow> bool" where
  "advances s l \<longleftrightarrow> ms_pc l \<notin> {Ms_finished, Pop_lock, Pop_unlock_empty} \<and>
     (ms_pc l = Push_lock \<longrightarrow> ts_m s = Unlocked) \<and> (ms_pc l = Pop_test \<longrightarrow> ts_head s \<noteq> None)"

lemma ms_advance:
  assumes inv: "ms_inv n N k l0 s ls xs" and i: "i < N" and A: "\<forall>i m. supplies (A i m)" and adv: "advances s (ls i)"
  shows "\<exists>s' l'. ms_prog A n k i s (ls i) = Some (s', l') \<and> ms_rank k i l' < ms_rank k i (ls i)"
proof -
  note I = ms_invD [OF inv]
  note T = I(6) [OF i, unfolded ms_thread_ok_def]
  let ?l = "ls i"
  have mx: "inside ?l \<Longrightarrow> ts_m s = LockedBy i" using ms_owned_owner(1) [OF I(3)] by blast
  have less: "nat (k i - ms_i ?l) = Suc (nat (k i - (ms_i ?l + 1)))" if "ms_i ?l < k i" using that by simp
  have node: "\<exists>a nd. ms_node ?l = Some a \<and> ts_nodes s a = Some nd" if "ms_pc ?l = Push_next \<or> ms_pc ?l = Pop_delete"
  proof -
    have "node_ok s xs ?l" using that by (intro I(4)) (auto simp: inside_def)
    with that obtain a where "ms_node ?l = Some a" "a \<in> dom (ts_nodes s)"
      unfolding node_ok_def heap_is_def by (auto split: if_splits)
    then show ?thesis by blast
  qed
  have head: "\<exists>a nd. ts_head s = Some a \<and> ts_nodes s a = Some nd" if "ms_pc ?l = Pop_head"
    using that I(4) [of i] I(1) by (cases xs) (auto simp: inside_def node_ok_def split: option.splits)
  have new: "\<exists>a. A i (ms_steps ?l) (ts_nodes s) = Some a" if "ms_pc ?l = Push_new"
  proof -
    have "dom (ts_nodes s) = fst ` set xs" using that I(4) [of i] by (auto simp: inside_def node_ok_def heap_is_def)
    then have "finite (dom (ts_nodes s))" by simp
    with A show ?thesis unfolding supplies_def by blast
  qed
  show ?thesis
  proof (cases "i < n")
    case True
    with T adv mx less node new show ?thesis
      by (cases "ms_pc ?l") (auto simp: ms_prog_def ms_producer_def advances_def ms_rank_def inside_def at_mutex_def with_node_def)
  next
    case False
    with T adv mx less node head show ?thesis
      by (cases "ms_pc ?l") (auto simp: ms_prog_def ms_consumer_def advances_def ms_rank_def inside_def at_mutex_def with_node_def)
  qed
qed

lemma ms_measure_step:
  assumes "i < N" and "ms_prog A n k i (fst c) (snd c i) = Some (s', l')"
  shows "ms_rank k i l' < ms_rank k i (snd c i) \<Longrightarrow> ms_measure N k (sched_step (ms_prog A n k) N i c) < ms_measure N k c"
    and "ms_rank k i l' = ms_rank k i (snd c i) \<Longrightarrow> ms_measure N k (sched_step (ms_prog A n k) N i c) = ms_measure N k c"
proof -
  have c': "sched_step (ms_prog A n k) N i c = (s', (snd c)(i := l'))"
    using assms by (simp add: sched_step_def thread_step_def)
  have "ms_measure N k (s', (snd c)(i := l')) + ms_rank k i (snd c i) = ms_measure N k c + ms_rank k i l'"
    using sum_fun_upd_add [where g = "ms_rank k", OF assms(1), of "snd c" l'] by (simp add: ms_measure_def)
  then show "ms_rank k i l' < ms_rank k i (snd c i) \<Longrightarrow> ms_measure N k (sched_step (ms_prog A n k) N i c) < ms_measure N k c"
    "ms_rank k i l' = ms_rank k i (snd c i) \<Longrightarrow> ms_measure N k (sched_step (ms_prog A n k) N i c) = ms_measure N k c"
    unfolding c' by linarith+
qed

lemma ms_advance_run:
  assumes "ms_inv n N k l0 (fst c) (snd c) xs" and "i < N" and "\<forall>i m. supplies (A i m)" and "advances (fst c) (snd c i)"
  shows "\<exists>is. ms_measure N k (run_sched (ms_prog A n k) N is c) < ms_measure N k c"
proof -
  obtain s' l' where "ms_prog A n k i (fst c) (snd c i) = Some (s', l')" "ms_rank k i l' < ms_rank k i (snd c i)"
    using ms_advance [OF assms] by blast
  from ms_measure_step(1) [OF assms(2) this]
  have "ms_measure N k (run_sched (ms_prog A n k) N [i] c) < ms_measure N k c" by simp
  then show ?thesis by blast
qed

text \<open>When the mutex is free, some thread advances, or a consumer takes the mutex and then advances.\<close>

lemma ms_progress_free:
  assumes inv: "ms_inv n N k l0 (fst c) (snd c) xs" and A: "\<forall>i m. supplies (A i m)"
    and room: "0 \<le> int l0 + (\<Sum>i<N. ms_total n k i)"
    and free: "ts_m (fst c) = Unlocked" and j: "j < N" "ms_pc (snd c j) \<noteq> Ms_finished"
  shows "\<exists>is. ms_measure N k (run_sched (ms_prog A n k) N is c) < ms_measure N k c"
proof (cases "\<exists>i<N. advances (fst c) (snd c i)")
  case True
  with ms_advance_run [OF inv _ A] show ?thesis by blast
next
  case False
  note I = ms_invD [OF inv]
  have out: "\<not> inside (snd c i)" for i using ms_owned_owner(1) [OF I(3), of i] free by simp
  have stuck: "ms_pc (snd c i) \<in> {Ms_finished, Pop_lock} \<and> (i < n \<longrightarrow> ms_pc (snd c i) = Ms_finished)" if "i < N" for i
    using False that I(6) [OF that] out [of i] free
    by (cases "ms_pc (snd c i)") (auto simp: advances_def ms_thread_ok_def inside_def split: if_splits)
  then have pc: "ms_pc (snd c j) = Pop_lock" "\<not> j < n" using j by auto
  have head: "ts_head (fst c) \<noteq> None" using ms_not_empty [OF inv room _ j(1) pc(2,1)] stuck by blast
  let ?c = "sched_step (ms_prog A n k) N j c"
  have step: "ms_prog A n k j (fst c) (snd c j) = Some ((fst c)\<lparr>ts_m := LockedBy j\<rparr>,
      (snd c j)\<lparr>ms_pc := Pop_test, ms_steps := ms_steps (snd c j) + 1\<rparr>)"
    using pc free by (simp add: ms_prog_def ms_consumer_def at_mutex_def)
  then have same: "ms_measure N k ?c = ms_measure N k c"
    using pc by (intro ms_measure_step(2) [OF j(1) step]) (simp add: ms_rank_def)
  have "advances (fst ?c) (snd ?c j)"
    using j(1) step head by (simp add: sched_step_def thread_step_def advances_def)
  moreover obtain ys where "ms_inv n N k l0 (fst ?c) (snd ?c) ys"
    using ms_run [OF inv A, of "[j]"] by auto
  ultimately obtain zs where "ms_measure N k (run_sched (ms_prog A n k) N zs ?c) < ms_measure N k ?c"
    using ms_advance_run [OF _ j(1) A] by blast
  then have "ms_measure N k (run_sched (ms_prog A n k) N (j # zs) c) < ms_measure N k c" using same by simp
  then show ?thesis by blast
qed

text \<open>A step that goes round, and then the rest.\<close>

lemma ms_progress_after:
  assumes "ms_prog A n k i (fst c) (snd c i) = Some (s', l')" and "i < N" and "ms_rank k i l' = ms_rank k i (snd c i)"
    and "\<exists>is. ms_measure N k (run_sched (ms_prog A n k) N is (s', (snd c)(i := l'))) < ms_measure N k (s', (snd c)(i := l'))"
  shows "\<exists>is. ms_measure N k (run_sched (ms_prog A n k) N is c) < ms_measure N k c"
proof -
  have c': "sched_step (ms_prog A n k) N i c = (s', (snd c)(i := l'))"
    using assms(1,2) by (simp add: sched_step_def thread_step_def)
  obtain zs where "ms_measure N k (run_sched (ms_prog A n k) N zs (s', (snd c)(i := l'))) < ms_measure N k (s', (snd c)(i := l'))"
    using assms(4) by blast
  then have "ms_measure N k (run_sched (ms_prog A n k) N (i # zs) c) < ms_measure N k c"
    using ms_measure_step(2) [OF assms(2,1,3)] by (simp add: c')
  then show ?thesis by blast
qed

lemma ms_progress_unlock_empty:
  assumes inv: "ms_inv n N k l0 (fst c) (snd c) xs" and A: "\<forall>i m. supplies (A i m)"
    and room: "0 \<le> int l0 + (\<Sum>i<N. ms_total n k i)" and h: "h < N" "ms_pc (snd c h) = Pop_unlock_empty"
  shows "\<exists>is. ms_measure N k (run_sched (ms_prog A n k) N is c) < ms_measure N k c"
proof -
  note I = ms_invD [OF inv]
  have "ts_m (fst c) = LockedBy h" using ms_owned_owner(1) [OF I(3)] h(2) by (simp add: inside_def)
  moreover have "\<not> h < n" using I(6) [OF h(1)] h(2) by (auto simp: ms_thread_ok_def)
  ultimately have step: "ms_prog A n k h (fst c) (snd c h) = Some ((fst c)\<lparr>ts_m := Unlocked\<rparr>,
      (snd c h)\<lparr>ms_pc := Pop_lock, ms_steps := ms_steps (snd c h) + 1\<rparr>)"
    using h(2) by (simp add: ms_prog_def ms_consumer_def at_mutex_def)
  obtain ys where "ms_inv n N k l0 (fst (sched_step (ms_prog A n k) N h c)) (snd (sched_step (ms_prog A n k) N h c)) ys"
    using ms_run [OF inv A, of "[h]"] by auto
  then have "ms_inv n N k l0 (fst ((fst c)\<lparr>ts_m := Unlocked\<rparr>, (snd c)(h := (snd c h)\<lparr>ms_pc := Pop_lock, ms_steps := ms_steps (snd c h) + 1\<rparr>)))
      (snd ((fst c)\<lparr>ts_m := Unlocked\<rparr>, (snd c)(h := (snd c h)\<lparr>ms_pc := Pop_lock, ms_steps := ms_steps (snd c h) + 1\<rparr>))) ys"
    using step h(1) by (simp add: sched_step_def thread_step_def)
  from ms_progress_free [OF this A room, where j = h] h(1)
  show ?thesis by (intro ms_progress_after [OF step h(1)]) (simp_all add: ms_rank_def h(2))
qed

lemma ms_progress:
  assumes inv: "ms_inv n N k l0 (fst c) (snd c) xs" and A: "\<forall>i m. supplies (A i m)"
    and room: "0 \<le> int l0 + (\<Sum>i<N. ms_total n k i)" and unfinished: "\<not> ms_done N c"
  shows "\<exists>is. ms_measure N k (run_sched (ms_prog A n k) N is c) < ms_measure N k c"
proof -
  note I = ms_invD [OF inv]
  obtain j where j: "j < N" "ms_pc (snd c j) \<noteq> Ms_finished" using unfinished by (auto simp: ms_done_def)
  show ?thesis
  proof (cases "\<exists>h<N. inside (snd c h)")
    case False
    show ?thesis
    proof (cases "ts_m (fst c)")
      case Unlocked
      show ?thesis by (rule ms_progress_free [OF inv A room Unlocked j])
    next
      case (LockedBy h)
      then have "inside (snd c h)" using ms_owned_owner(1) [OF I(3)] by blast
      with False I(8) show ?thesis by blast
    next
      case Uninitialised
      with ms_owned_owner(2) [OF I(3)] show ?thesis by blast
    qed
  next
    case True
    then obtain h where h: "h < N" "inside (snd c h)" by blast
    show ?thesis
    proof (cases "advances (fst c) (snd c h)")
      case True
      then show ?thesis by (rule ms_advance_run [OF inv h(1) A])
    next
      case False
      then have "ms_pc (snd c h) = Pop_unlock_empty \<or> ms_pc (snd c h) = Pop_test \<and> ts_head (fst c) = None"
        using h(2) by (auto simp: advances_def inside_def)
      then show ?thesis
      proof
        assume "ms_pc (snd c h) = Pop_unlock_empty"
        then show ?thesis by (rule ms_progress_unlock_empty [OF inv A room h(1)])
      next
        assume t: "ms_pc (snd c h) = Pop_test \<and> ts_head (fst c) = None"
        then have "\<not> h < n" using I(6) [OF h(1)] by (auto simp: ms_thread_ok_def)
        then have step: "ms_prog A n k h (fst c) (snd c h) = Some (fst c,
            (snd c h)\<lparr>ms_pc := Pop_unlock_empty, ms_steps := ms_steps (snd c h) + 1\<rparr>)"
          using t by (simp add: ms_prog_def ms_consumer_def)
        let ?c = "(fst c, (snd c)(h := (snd c h)\<lparr>ms_pc := Pop_unlock_empty, ms_steps := ms_steps (snd c h) + 1\<rparr>))"
        obtain ys where "ms_inv n N k l0 (fst ?c) (snd ?c) ys"
          using ms_run [OF inv A, of "[h]"] step h(1) by (auto simp: sched_step_def thread_step_def)
        from ms_progress_unlock_empty [OF this A room h(1)]
        show ?thesis by (intro ms_progress_after [OF step h(1)]) (simp_all add: ms_rank_def t)
      qed
    qed
  qed
qed

text \<open>An allocator: the first free address.\<close>

partial_function (option) find_free :: "nat \<Rightarrow> allocator" where
  "find_free a ns = (if ns a = None then Some a else find_free (Suc a) ns)"

lemma find_free_finds: "finite (dom ns) \<Longrightarrow> \<exists>b. find_free a ns = Some b \<and> ns b = None"
proof (induction "card {b \<in> dom ns. a \<le> b}" arbitrary: a rule: less_induct)
  case less
  show ?case
  proof (cases "ns a = None")
    case True
    then show ?thesis by (subst find_free.simps) simp
  next
    case False
    then have "a \<in> {b \<in> dom ns. a \<le> b}" "a \<notin> {b \<in> dom ns. Suc a \<le> b}" by auto
    then have "{b \<in> dom ns. Suc a \<le> b} \<subset> {b \<in> dom ns. a \<le> b}" by fastforce
    then have "card {b \<in> dom ns. Suc a \<le> b} < card {b \<in> dom ns. a \<le> b}"
      using less.prems by (intro psubset_card_mono) auto
    from less.hyps [OF this less.prems] False show ?thesis by (subst find_free.simps) simp
  qed
qed

lemma find_free_supplies: "\<forall>i m. supplies (find_free 0)"
  using find_free_finds by (simp add: supplies_def)

definition first_stack :: threadsafe_stack where
  "first_stack = \<lparr>ts_m = Unlocked, ts_head = Some 0, ts_nodes = [0 \<mapsto> \<lparr>stored = 0, below = None\<rparr>]\<rparr>"

lemma first_stack_init: "init_stack (find_free 0) = Some first_stack"
  unfolding init_stack_def by (subst find_free.simps) (simp add: first_stack_def)

lemma first_stack_is: "stack_is first_stack [(0, 0)]"
  by (simp add: stack_is_def heap_is_def first_stack_def)

lemma ms_room:
  "n \<le> N \<Longrightarrow> (\<Sum>i=n..<N. nat (k i)) \<le> l0 + (\<Sum>i<n. nat (k i)) \<longleftrightarrow> 0 \<le> int l0 + (\<Sum>i<N. ms_total n k i)"
  unfolding ms_total_sum by linarith

lemma ms_runs_inv:
  assumes "\<forall>i m. supplies (A i m)" and "stack_is s xs"
  shows "\<exists>ys. ms_inv n N k (length xs) (fst (ms_runs A n N k s sched)) (snd (ms_runs A n N k s sched)) ys"
  using ms_run [where c = "(s, ms_thread0 n)", OF _ assms(1)] ms_inv_start [OF assms(2)] by fastforce

lemma ms_completes:
  assumes A: "\<forall>i m. supplies (A i m)" and s: "stack_is s xs" and "n \<le> N"
    and "(\<Sum>i=n..<N. nat (k i)) \<le> length xs + (\<Sum>i<n. nat (k i))"
  shows "\<exists>more. ms_done N (ms_runs A n N k s (sched @ more))"
proof -
  have room: "0 \<le> int (length xs) + (\<Sum>i<N. ms_total n k i)" using assms(4) ms_room [OF assms(3)] by blast
  let ?c = "ms_runs A n N k s sched"
  have "\<exists>is. ms_done N (run_sched (ms_prog A n k) N is ?c)"
  proof (rule completion_by_measure [where \<mu> = "ms_measure N k" and ?c0.0 = ?c])
    fix c assume "reach (ms_prog A n k) N ?c c" and unfinished: "\<not> ms_done N c"
    from this(1) obtain more where c: "c = ms_runs A n N k s (sched @ more)"
      using reach_imp_sched by (metis run_sched_append)
    from ms_runs_inv [OF A s] obtain ys where "ms_inv n N k (length xs) (fst c) (snd c) ys" unfolding c by blast
    from ms_progress [OF this A room unfinished]
    show "\<exists>is. ms_measure N k (run_sched (ms_prog A n k) N is c) < ms_measure N k c" .
  qed (rule reach_init)
  then show ?thesis by (simp add: run_sched_append)
qed

section \<open>Properties\<close>

text \<open>
  C9: the stack under a mutex is a stack: started on a stack with the values of \<open>xs\<close>, with any numbers of
  producers and consumers and under every interleaving, the pushes and pops are, in the order in which
  they write the head, a run of a LIFO stack, whose contents the list on the heap always has; no
  access is undefined; and whenever the mutex is free exactly the nodes of the list are allocated.
\<close>

theorem mutex_stack_lifo:
  assumes "\<forall>i m. supplies (A i m)" and "stack_is s xs"
  shows "\<exists>ys. run_stack (trace_of (ms_prog A n k) N ms_effect sched (s, ms_thread0 n)) (map snd xs) = Some (map snd ys) \<and>
    ms_chain (ts_nodes (fst (ms_runs A n N k s sched))) (ts_head (fst (ms_runs A n N k s sched))) ys \<and>
    (ts_m (fst (ms_runs A n N k s sched)) = Unlocked \<longrightarrow> stack_is (fst (ms_runs A n N k s sched)) ys) \<and>
    (\<forall>i<N. ms_pc (snd (ms_runs A n N k s sched) i) \<notin> {Ms_undefined, Ms_bad_alloc})"
proof -
  have "ms_inv n N k (length xs) (fst (s, ms_thread0 n)) (snd (s, ms_thread0 n)) xs"
    using ms_inv_start [OF assms(2)] by simp
  from ms_run [OF this assms(1)] obtain ys where
    ys: "ms_inv n N k (length xs) (fst (ms_runs A n N k s sched)) (snd (ms_runs A n N k s sched)) ys"
    "run_stack (trace_of (ms_prog A n k) N ms_effect sched (s, ms_thread0 n)) (map snd xs) = Some (map snd ys)" by blast
  note I = ms_invD [OF ys(1)]
  have "ms_pc (snd (ms_runs A n N k s sched) i) \<notin> {Ms_undefined, Ms_bad_alloc}" if "i < N" for i
    using I(6) [OF that] by (auto simp: ms_thread_ok_def split: if_splits)
  with ys(2) I(1,2,5) show ?thesis unfolding stack_is_def by blast
qed

theorem mutex_stack_lifo_witness:
  "\<forall>sched. \<exists>ys. run_stack (trace_of (ms_prog (\<lambda>_ _. find_free 0) 2 (\<lambda>_. 3)) 4 ms_effect sched
      (first_stack, ms_thread0 2)) [0] = Some ys"
proof
  fix sched
  from mutex_stack_lifo [where A = "\<lambda>_ _. find_free 0" and n = 2 and N = 4 and k = "\<lambda>_. 3" and sched = sched,
    OF find_free_supplies first_stack_is]
  show "\<exists>ys. run_stack (trace_of (ms_prog (\<lambda>_ _. find_free 0) 2 (\<lambda>_. 3)) 4 ms_effect sched
      (first_stack, ms_thread0 2)) [0] = Some ys" by auto
qed

text \<open>
  The threads on a stack under a mutex can always go on until all of them return, whatever happened so
  far, exactly when the elements on the stack and those that are pushed suffice for the pops: no thread
  keeps the mutex for ever.
\<close>

theorem mutex_stack_completes_iff:
  assumes "\<forall>i m. supplies (A i m)" and "stack_is s xs" and "n \<le> N"
  shows "(\<forall>sched. \<exists>more. ms_done N (ms_runs A n N k s (sched @ more))) \<longleftrightarrow>
    (\<Sum>i=n..<N. nat (k i)) \<le> length xs + (\<Sum>i<n. nat (k i))"
proof
  assume "\<forall>sched. \<exists>more. ms_done N (ms_runs A n N k s (sched @ more))"
  then obtain more where "ms_done N (ms_runs A n N k s more)" by (metis append_Nil)
  moreover obtain ys where "ms_inv n N k (length xs) (fst (ms_runs A n N k s more)) (snd (ms_runs A n N k s more)) ys"
    using ms_runs_inv [OF assms(1,2)] by blast
  ultimately have "int (length ys) = int (length xs) + (\<Sum>i<N. ms_total n k i)" by (intro ms_done_length) simp_all
  then show "(\<Sum>i=n..<N. nat (k i)) \<le> length xs + (\<Sum>i<n. nat (k i))" unfolding ms_room [OF assms(3)] by linarith
qed (use ms_completes [OF assms] in blast)

theorem mutex_stack_completes_iff_witness:
  "\<forall>sched. \<exists>more. ms_done 4 (ms_runs (\<lambda>_ _. find_free 0) 2 4 (\<lambda>_. 3) first_stack (sched @ more))"
  using mutex_stack_completes_iff [where A = "\<lambda>_ _. find_free 0" and n = 2 and N = 4 and k = "\<lambda>_. 3",
    OF find_free_supplies first_stack_is] by simp

text \<open>
  When all threads have returned and as many elements have been popped as pushed, which is what the
  driver asks for, the stack still holds an element, because its constructor pushes one, and the destructor
  reads the node it has just deleted.
\<close>

theorem mutex_stack_exit:
  assumes "\<forall>i m. supplies (A i m)" and "init_stack A0 = Some s" and "n \<le> N"
    and "(\<Sum>i=n..<N. nat (k i)) = (\<Sum>i<n. nat (k i))" and "ms_done N (ms_runs A n N k s sched)"
  shows "delete_stack (fst (ms_runs A n N k s sched)) = Some None"
proof -
  obtain a where s: "stack_is s [(a, 0)]" using init_stack_is [OF assms(2)] by blast
  have start: "ms_inv n N k 1 (fst (s, ms_thread0 n)) (snd (s, ms_thread0 n)) [(a, 0)]"
    using ms_inv_start [OF s] by simp
  from ms_run [OF start assms(1)] obtain ys where
    ys: "ms_inv n N k 1 (fst (ms_runs A n N k s sched)) (snd (ms_runs A n N k s sched)) ys" by blast
  have "int (length ys) = 1"
    using ms_done_length [OF ys] assms(4,5) by (simp add: ms_total_sum [OF assms(3)])
  then have "ys \<noteq> []" by auto
  with ms_invD(1) [OF ys] obtain b where "ts_head (fst (ms_runs A n N k s sched)) = Some b" by (cases ys) auto
  then show ?thesis by (simp add: delete_stack_def delete_from.simps)
qed

theorem mutex_stack_exit_witness:
  "\<exists>sched. ms_done 4 (ms_runs (\<lambda>_ _. find_free 0) 2 4 (\<lambda>_. 3) first_stack sched) \<and>
    delete_stack (fst (ms_runs (\<lambda>_ _. find_free 0) 2 4 (\<lambda>_. 3) first_stack sched)) = Some None"
proof -
  obtain more where "ms_done 4 (ms_runs (\<lambda>_ _. find_free 0) 2 4 (\<lambda>_. 3) first_stack ([] @ more))"
    using ms_completes [where A = "\<lambda>_ _. find_free 0" and n = 2 and N = 4 and k = "\<lambda>_. 3" and sched = "[]",
      OF find_free_supplies first_stack_is] by auto
  moreover from mutex_stack_exit [where A = "\<lambda>_ _. find_free 0" and n = 2 and N = 4 and k = "\<lambda>_. 3" and sched = more,
    OF find_free_supplies first_stack_init] this
  have "delete_stack (fst (ms_runs (\<lambda>_ _. find_free 0) 2 4 (\<lambda>_. 3) first_stack more)) = Some None" by simp
  ultimately show ?thesis by auto
qed

end
