(* ===== verification/Pair_Executions.thy ===== *)
theory Pair_Executions
  imports Executions Pair_Drivers BQueue Boost_Queues Mutex_Stack
begin

text \<open>
  The producer/consumer benchmarks as their drivers run them: the executions of all runs, one after
  the other, on the queues or the stack of the benchmark, which keep the elements that an execution
  leaves behind. Between two executions all threads meet at the barrier (\<open>pair_driver_contract\<close>).
\<close>

section \<open>The executions of a driver\<close>

text \<open>\<open>(exec, run)\<close>, in the order of the two loops of \<open>f_prod\<close> and \<open>f_cons\<close>.\<close>

definition rounds :: "pair_bench \<Rightarrow> (int \<times> int) list" where
  "rounds p = concat (map (\<lambda>run. map (\<lambda>exec. (exec, run)) [0..q_exec p - 1]) [0..pair_bench_runs p - 1])"

text \<open>The iterations of thread \<open>i\<close>; a thread that does not take part in a run has none.\<close>

definition share :: "pair_bench \<Rightarrow> nat \<Rightarrow> int \<times> int \<Rightarrow> int" where
  "share p i x = work pair_iter_of (fst x) (snd x) (pair_bench_actions p i)"

text \<open>One execution of a pair on its BQueue, with the shares of the producer and of the consumer.\<close>

definition bq_execution :: "int \<times> int \<Rightarrow> queue_t \<Rightarrow> nat list \<Rightarrow> queue_t option" where
  "bq_execution x q sched =
     (let c = bq_run (fst x) (snd x) q sched in if bq_done c then Some (fst c) else None)"

definition pair_shares :: "pair_bench \<Rightarrow> nat \<Rightarrow> (int \<times> int) list" where
  "pair_shares p j = map (\<lambda>x. (share p j x, share p (q_pairs p + j) x)) (rounds p)"

text \<open>One execution of \<open>n\<close> producers and \<open>N - n\<close> consumers around a queue of the Boost library.\<close>

definition boost_execution ::
  "bool \<Rightarrow> ('q \<Rightarrow> int \<Rightarrow> 'q \<times> bool) \<Rightarrow> ('q \<Rightarrow> 'q \<times> int option) \<Rightarrow> nat \<Rightarrow> nat \<Rightarrow>
    (nat \<Rightarrow> int) \<Rightarrow> 'q \<Rightarrow> nat list \<Rightarrow> 'q option" where
  "boost_execution spsc push pop n N k q sched =
     (let c = boost_runs spsc push pop n N k q sched in if boost_done N c then Some (fst c) else None)"

text \<open>The queue of a pair of the SPSC driver, and the queue all threads of the MPMC driver share.\<close>

definition spsc_shares :: "pair_bench \<Rightarrow> nat \<Rightarrow> (nat \<Rightarrow> int) list" where
  "spsc_shares p j = map (\<lambda>x i. share p (if i = 0 then j else q_pairs p + j) x) (rounds p)"

definition all_shares :: "pair_bench \<Rightarrow> (nat \<Rightarrow> int) list" where
  "all_shares p = map (\<lambda>x i. share p i x) (rounds p)"

text \<open>One execution on the stack under a mutex; what \<open>new\<close> returns may differ from one to the next.\<close>

definition ms_execution ::
  "nat \<Rightarrow> nat \<Rightarrow> (nat \<Rightarrow> nat \<Rightarrow> allocator) \<times> (nat \<Rightarrow> int) \<Rightarrow> threadsafe_stack \<Rightarrow> nat list \<Rightarrow> threadsafe_stack option" where
  "ms_execution n N x s sched =
     (let c = ms_runs (fst x) n N (snd x) s sched in if ms_done N c then Some (fst c) else None)"

section \<open>What an execution leaves\<close>

lemma never_stuck_bq: "never_stuck bq_execution x q \<longleftrightarrow>
    (\<forall>sched. \<exists>more. bq_done (bq_run (fst x) (snd x) q (sched @ more)))"
  by (simp add: never_stuck_def bq_execution_def Let_def)

interpretation bq_series: accumulating bq_execution "\<lambda>x. 0 \<le> snd x \<and> snd x \<le> fst x"
  "\<lambda>l q. \<exists>xs. ring q xs \<and> length xs = l" "\<lambda>x. nat (fst x - snd x)" "\<lambda>l. l \<le> QUEUE_SIZE"
proof unfold_locales
  fix x :: "int \<times> int" and l s
  assume "0 \<le> snd x \<and> snd x \<le> fst x" and "\<exists>xs. ring s xs \<and> length xs = l"
  then obtain xs where xs: "ring s xs" "length xs = l" "0 \<le> fst x" "0 \<le> snd x" "snd x \<le> fst x" by auto
  show "never_stuck bq_execution x s \<longleftrightarrow> l + nat (fst x - snd x) \<le> QUEUE_SIZE"
    unfolding never_stuck_bq bqueue_completes_iff [OF xs(1,3,4)] using xs(2,5) by auto
next
  fix x :: "int \<times> int" and l s sched s'
  assume x: "0 \<le> snd x \<and> snd x \<le> fst x" and "\<exists>xs. ring s xs \<and> length xs = l"
    and "bq_execution x s sched = Some s'"
  then obtain xs where xs: "ring s xs" "length xs = l"
    and fin: "bq_done (bq_run (fst x) (snd x) s sched)" "s' = fst (bq_run (fst x) (snd x) s sched)"
    by (auto simp: bq_execution_def Let_def split: if_splits)
  from x xs(1) have "bq_inv (fst x) (snd x) (length xs) (bq_start s) xs" by (simp add: bq_inv_start)
  from bq_run_refines [OF this] obtain xs' where
    "bq_inv (fst x) (snd x) (length xs) (bq_run (fst x) (snd x) s sched) xs'"
    unfolding bq_run_def by blast
  with fin have "ring s' xs'" "int (length xs') = int (length xs) + (fst x - snd x)"
    by (simp_all add: bq_inv_def bq_done_def producer_ok_def consumer_ok_def)
  with x xs(2) show "\<exists>xs. ring s' xs \<and> length xs = l + nat (fst x - snd x)"
    by (intro exI [of _ xs']) linarith
qed simp

lemma never_stuck_boost: "never_stuck (boost_execution spsc push pop n N) k q \<longleftrightarrow>
    (\<forall>sched. \<exists>more. boost_done N (boost_runs spsc push pop n N k q (sched @ more)))"
  by (simp add: never_stuck_def boost_execution_def Let_def)

text \<open>The queue fits the code, and the consumers ask for no more than the producers supply.\<close>

definition boost_regular ::
  "bool \<Rightarrow> ('q \<Rightarrow> int \<Rightarrow> 'q \<times> bool) \<Rightarrow> ('q \<Rightarrow> 'q \<times> int option) \<Rightarrow> ('q \<Rightarrow> int list) \<Rightarrow> nat \<Rightarrow> nat \<Rightarrow> nat
    \<Rightarrow> (nat \<Rightarrow> int) \<Rightarrow> bool" where
  "boost_regular spsc push pop contents cap n N k \<longleftrightarrow>
     fifo_ops cap push pop contents \<and> (spsc \<longrightarrow> n = 1) \<and> n \<le> N \<and> 0 < cap \<and> (\<forall>i. 0 \<le> k i) \<and>
     (\<Sum>i=n..<N. k i) \<le> (\<Sum>i<n. k i)"

interpretation boost_series: accumulating "boost_execution spsc push pop n N"
  "boost_regular spsc push pop contents cap n N"
  "\<lambda>l q. (\<forall>v\<in>set (contents q). 0 \<le> v) \<and> length (contents q) = l \<and> l \<le> cap"
  "\<lambda>k. nat ((\<Sum>i<n. k i) - (\<Sum>i=n..<N. k i))" "\<lambda>l. l \<le> cap"
  for spsc push pop n N contents cap
proof unfold_locales
  fix k l q
  assume "boost_regular spsc push pop contents cap n N k"
    and "(\<forall>v\<in>set (contents q). 0 \<le> v) \<and> length (contents q) = l \<and> l \<le> cap"
  then show "never_stuck (boost_execution spsc push pop n N) k q \<longleftrightarrow> l + nat ((\<Sum>i<n. k i) - (\<Sum>i=n..<N. k i)) \<le> cap"
    unfolding never_stuck_boost boost_regular_def
    by (subst boost_completes_iff [where contents = contents and cap = cap]) auto
next
  fix k l q sched q'
  assume k: "boost_regular spsc push pop contents cap n N k"
    and q: "(\<forall>v\<in>set (contents q). 0 \<le> v) \<and> length (contents q) = l \<and> l \<le> cap"
    and "boost_execution spsc push pop n N k q sched = Some q'"
  then have fin: "boost_done N (boost_runs spsc push pop n N k q sched)" "q' = fst (boost_runs spsc push pop n N k q sched)"
    by (auto simp: boost_execution_def Let_def split: if_splits)
  have start: "\<forall>i. b_i (boost_start n i) = 0" by (simp add: boost_start_def)
  let ?c = "boost_runs spsc push pop n N k q sched"
  have r: "fifo_ops cap push pop contents" "spsc \<Longrightarrow> n = 1" "\<forall>i. 0 \<le> k i"
    and "\<forall>v\<in>set (contents q). 0 \<le> v" "length (contents q) \<le> cap"
    using k q by (simp_all add: boost_regular_def)
  note boost_run [where sched = sched and N = N, OF r(1,2) boost_inv_start [where contents = contents and k = k, OF this(4,5) r(3)] start]
  then have inv: "boost_inv spsc cap n N k l contents (fst ?c) (snd ?c)" using q by simp
  then have "(\<Sum>i<N. boost_balance n i (snd ?c i)) = (\<Sum>i<N. boost_total n k i)"
    using fin(1) by (intro sum.cong) (auto simp: boost_done_def boost_inv_def intro!: boost_balance_total(1))
  with inv k fin(2) show "(\<forall>v\<in>set (contents q'). 0 \<le> v) \<and>
      length (contents q') = l + nat ((\<Sum>i<n. k i) - (\<Sum>i=n..<N. k i)) \<and> l + nat ((\<Sum>i<n. k i) - (\<Sum>i=n..<N. k i)) \<le> cap"
    by (auto simp: boost_inv_def boost_regular_def boost_total_sum)
qed simp

lemma never_stuck_ms: "never_stuck (ms_execution n N) x s \<longleftrightarrow>
    (\<forall>sched. \<exists>more. ms_done N (ms_runs (fst x) n N (snd x) s (sched @ more)))"
  by (simp add: never_stuck_def ms_execution_def Let_def)

lemma ms_done_unlocked:
  assumes "ms_inv n N k l0 s ls xs" and "ms_done N (s, ls)"
  shows "stack_is s xs"
proof -
  note I = ms_invD [OF assms(1)]
  have "\<not> inside (ls i)" for i
  proof
    assume ins: "inside (ls i)"
    then have "ms_pc (ls i) = Ms_finished" using I(8) assms(2) by (simp add: ms_done_def)
    with ins show False by (simp add: inside_def)
  qed
  then have "ts_m s = Unlocked"
    using ms_owned_owner(1) [OF I(3)] ms_owned_owner(2) [OF I(3)] mutex.exhaust by metis
  with I(1,2,5) show ?thesis by (simp add: stack_is_def)
qed

definition ms_regular :: "nat \<Rightarrow> nat \<Rightarrow> (nat \<Rightarrow> nat \<Rightarrow> allocator) \<times> (nat \<Rightarrow> int) \<Rightarrow> bool" where
  "ms_regular n N x \<longleftrightarrow> (\<forall>i m. supplies (fst x i m)) \<and> n \<le> N \<and>
     (\<Sum>i=n..<N. nat (snd x i)) \<le> (\<Sum>i<n. nat (snd x i))"

interpretation ms_series: accumulating "ms_execution n N" "ms_regular n N"
  "\<lambda>l s. \<exists>xs. stack_is s xs \<and> length xs = l"
  "\<lambda>x. (\<Sum>i<n. nat (snd x i)) - (\<Sum>i=n..<N. nat (snd x i))" "\<lambda>_. True" for n N
proof unfold_locales
  fix x l s
  assume x: "ms_regular n N x" and "\<exists>xs. stack_is s xs \<and> length xs = l"
  then obtain xs where xs: "stack_is s xs" by blast
  have A: "\<forall>i m. supplies (fst x i m)" and "n \<le> N" using x by (simp_all add: ms_regular_def)
  have "(\<Sum>i=n..<N. nat (snd x i)) \<le> length xs + (\<Sum>i<n. nat (snd x i))"
    using x unfolding ms_regular_def by linarith
  then have "never_stuck (ms_execution n N) x s"
    unfolding never_stuck_ms mutex_stack_completes_iff [OF A xs \<open>n \<le> N\<close>] .
  then show "never_stuck (ms_execution n N) x s \<longleftrightarrow> True" by simp
next
  fix x l s sched s'
  assume x: "ms_regular n N x" and "\<exists>xs. stack_is s xs \<and> length xs = l"
    and "ms_execution n N x s sched = Some s'"
  then obtain xs where xs: "stack_is s xs" "length xs = l"
    and fin: "ms_done N (ms_runs (fst x) n N (snd x) s sched)" "s' = fst (ms_runs (fst x) n N (snd x) s sched)"
    by (auto simp: ms_execution_def Let_def split: if_splits)
  from ms_runs_inv [OF _ xs(1), of "fst x"] x obtain ys where
    ys: "ms_inv n N (snd x) (length xs) s' (snd (ms_runs (fst x) n N (snd x) s sched)) ys"
    unfolding fin(2) ms_regular_def by blast
  have "stack_is s' ys" using ms_done_unlocked [OF ys] fin by simp
  moreover have "int (length ys) = int l + (int (\<Sum>i<n. nat (snd x i)) - int (\<Sum>i=n..<N. nat (snd x i)))"
    using ms_done_length [of n N "snd x" "length xs" "ms_runs (fst x) n N (snd x) s sched" ys] ys fin xs(2) x
      ms_total_sum [of n N "snd x"] by (simp only: ms_regular_def prod.collapse)
  then have "length ys = l + ((\<Sum>i<n. nat (snd x i)) - (\<Sum>i=n..<N. nat (snd x i)))"
    using x unfolding ms_regular_def by linarith
  ultimately show "\<exists>ys. stack_is s' ys \<and> length ys = l + ((\<Sum>i<n. nat (snd x i)) - (\<Sum>i=n..<N. nat (snd x i)))" by blast
qed simp

section \<open>The elements the executions of a driver leave\<close>

lemma rounds_bounds:
  assumes "x \<in> set (rounds p)"
  shows "0 \<le> fst x" and "fst x < q_exec p" and "0 \<le> snd x" and "snd x < pair_bench_runs p"
  using assms by (auto simp: rounds_def)

lemma sum_rounds:
  assumes "valid_pair_bench p"
  shows "sum_list (map (\<lambda>x. f (snd x)) (rounds p)) = nat (q_exec p) * (\<Sum>r<nat (pair_bench_runs p). f (int r))"
proof -
  have "sum_list (map (\<lambda>x. f (snd x)) (rounds p)) = (\<Sum>r\<leftarrow>[0..pair_bench_runs p - 1]. nat (q_exec p) * f r)"
    by (simp add: rounds_def sum_list_concat_map comp_def sum_list_triv)
  also have "\<dots> = nat (q_exec p) * (\<Sum>r\<in>{0..pair_bench_runs p - 1}. f r)"
    by (simp add: sum_list_upto sum_distrib_left)
  also have "(\<Sum>r\<in>{0..pair_bench_runs p - 1}. f r) = (\<Sum>r<nat (pair_bench_runs p). f (int r))"
    by (rule sum.reindex_bij_witness [where i = int and j = nat]) auto
  finally show ?thesis .
qed

text \<open>The share of a producer or consumer is not negative, and a consumer's no greater than its producer's.\<close>

lemma share_bounds:
  assumes p: "valid_pair_bench p" and x: "x \<in> set (rounds p)" and j: "j < q_pairs p"
  shows "0 \<le> share p j x" and "0 \<le> share p (q_pairs p + j) x" and "share p (q_pairs p + j) x \<le> share p j x"
    and "share p j x - share p (q_pairs p + j) x =
      (if splits_evenly p \<or> q_scaling p \<and> snd x < int j then 0
       else if int j < q_iter p mod pairs_in_run p (snd x) then 1 else 0)"
proof -
  note b = rounds_bounds [OF x]
  note w = pair_share [OF p b j]
  obtain m where m: "pairs_in_run p (snd x) = int m" "0 < m" using pairs_in_run [OF p b(3,4)] by metis
  have it: "0 \<le> q_iter p" using p by (simp add: valid_pair_bench_def)
  then have d: "0 \<le> q_iter p div int m" by (simp add: pos_imp_zdiv_nonneg_iff m(2))
  from m it have s: "split_iters (q_iter p) (pairs_in_run p (snd x)) (int j) =
      q_iter p div int m + (if int j < q_iter p mod int m then 1 else 0)"
    by (simp add: split_iters_nonneg)
  show "0 \<le> share p j x" "0 \<le> share p (q_pairs p + j) x" "share p (q_pairs p + j) x \<le> share p j x"
    "share p j x - share p (q_pairs p + j) x =
      (if splits_evenly p \<or> q_scaling p \<and> snd x < int j then 0
       else if int j < q_iter p mod pairs_in_run p (snd x) then 1 else 0)"
    unfolding share_def w s using d m(1) by auto
qed

text \<open>A queue of a pair: at most one element more after each execution, and only without scaling runs.\<close>

lemma pair_gain:
  assumes p: "valid_pair_bench p" and d: "q_driver p \<in> {BQueue, Boost_SPSC}" and j: "j < q_pairs p"
  shows "sum_list (map (\<lambda>x. nat (share p j x - share p (q_pairs p + j) x)) (rounds p)) =
    (if \<not> q_scaling p \<and> int j < q_iter p mod int (q_pairs p) then nat (q_exec p) else 0)"
proof -
  define left where "left r = (if splits_evenly p \<or> q_scaling p \<and> r < int j then 0
      else if int j < q_iter p mod pairs_in_run p r then 1 else 0 :: int)" for r
  have "sum_list (map (\<lambda>x. nat (share p j x - share p (q_pairs p + j) x)) (rounds p)) =
      sum_list (map (\<lambda>x. nat (left (snd x))) (rounds p))"
    by (intro arg_cong [where f = sum_list] map_cong refl) (simp only: share_bounds(4) [OF p _ j] left_def)
  also have "\<dots> = nat (q_exec p) * (\<Sum>r<nat (pair_bench_runs p). nat (left (int r)))"
    by (rule sum_rounds [OF p, where f = "\<lambda>r. nat (left r)"])
  also have "\<dots> = (if \<not> q_scaling p \<and> int j < q_iter p mod int (q_pairs p) then nat (q_exec p) else 0)"
    using d by (auto simp: left_def splits_evenly_def pair_bench_runs_def pairs_in_run_def)
  finally show ?thesis .
qed

text \<open>Over all pairs: nothing is left exactly if the queues divide the iterations, or with scaling runs.\<close>

lemma pairs_have_room:
  assumes p: "valid_pair_bench p"
  shows "(\<forall>j<q_pairs p. (if \<not> q_scaling p \<and> int j < q_iter p mod int (q_pairs p) then nat (q_exec p) else 0) \<le> cap) \<longleftrightarrow>
    q_scaling p \<or> q_iter p mod int (q_pairs p) = 0 \<or> q_exec p \<le> int cap"
proof -
  let ?m = "q_iter p mod int (q_pairs p)"
  have pos: "0 \<le> ?m" "0 < q_pairs p" using p by (simp_all add: valid_pair_bench_def)
  have "(\<exists>j<q_pairs p. int j < ?m) \<longleftrightarrow> ?m \<noteq> 0"
  proof
    assume "\<exists>j<q_pairs p. int j < ?m"
    then show "?m \<noteq> 0" by linarith
  next
    assume "?m \<noteq> 0"
    with pos show "\<exists>j<q_pairs p. int j < ?m" by (intro exI [of _ 0]) linarith
  qed
  moreover have "nat (q_exec p) \<le> cap \<longleftrightarrow> q_exec p \<le> int cap" using p by (simp add: valid_pair_bench_def nat_le_iff)
  ultimately show ?thesis by auto
qed

text \<open>The shares of a pair, and of all threads, suit the loops around the queues of the library.\<close>

lemma share_nonneg:
  assumes "valid_pair_bench p" and "x \<in> set (rounds p)"
  shows "0 \<le> share p i x"
  using assms rounds_bounds [OF assms(2)]
  by (simp add: share_def pair_bench_work valid_pair_bench_def split_iters_ge_0)

lemma spsc_regular:
  assumes "valid_pair_bench p" and "fifo_ops cap push pop contents" and "0 < cap" and "j < q_pairs p"
  shows "list_all (boost_regular True push pop contents cap 1 2) (spsc_shares p j)"
  using assms share_nonneg [OF assms(1)] share_bounds(3) [OF assms(1) _ assms(4)]
  by (auto simp: list_all_iff spsc_shares_def boost_regular_def numeral_2_eq_2)

lemma sum_second_half: "(\<Sum>i=n..<2 * n. f i) = (\<Sum>k<n. f (n + k))" for f :: "nat \<Rightarrow> 'a :: comm_monoid_add"
  by (rule sum.reindex_bij_witness [where i = "\<lambda>k. n + k" and j = "\<lambda>i. i - n"]) auto

lemma all_shares_sums:
  assumes "valid_pair_bench p" and "x \<in> set (rounds p)"
  shows "(\<Sum>i<q_pairs p. share p i x) = q_iter p"
    and "(\<Sum>i=q_pairs p..<2 * q_pairs p. share p i x) =
      q_iter p - (if splits_evenly p then 0 else q_iter p mod pairs_in_run p (snd x))"
  using pair_work_sums [OF assms(1) rounds_bounds [OF assms(2)]] by (simp_all add: share_def sum_second_half)

lemma remainder_nonneg:
  assumes "valid_pair_bench p" and "x \<in> set (rounds p)"
  shows "0 \<le> q_iter p mod pairs_in_run p (snd x)"
proof -
  obtain m where "pairs_in_run p (snd x) = int m" "0 < m"
    using pairs_in_run [OF assms(1) rounds_bounds(3,4) [OF assms(2)]] by metis
  then show ?thesis by simp
qed

lemma mpmc_regular:
  assumes "valid_pair_bench p" and "fifo_ops cap push pop contents" and "0 < cap"
  shows "list_all (boost_regular False push pop contents cap (q_pairs p) (2 * q_pairs p)) (all_shares p)"
  using assms share_nonneg [OF assms(1)] all_shares_sums [OF assms(1)] remainder_nonneg [OF assms(1)]
  by (auto simp: list_all_iff all_shares_def boost_regular_def)

lemma mpmc_gain:
  assumes "valid_pair_bench p" and "q_driver p = Boost_MPMC"
  shows "sum_list (map (\<lambda>k. nat ((\<Sum>i<q_pairs p. k i) - (\<Sum>i=q_pairs p..<2 * q_pairs p. k i))) (all_shares p)) =
    nat (q_exec p) * (\<Sum>r<nat (pair_bench_runs p). nat (q_iter p mod pairs_in_run p (int r)))"
proof -
  have "sum_list (map (\<lambda>k. nat ((\<Sum>i<q_pairs p. k i) - (\<Sum>i=q_pairs p..<2 * q_pairs p. k i))) (all_shares p)) =
      sum_list (map (\<lambda>x. nat (q_iter p mod pairs_in_run p (snd x))) (rounds p))"
    unfolding all_shares_def map_map comp_def using assms(2)
    by (intro arg_cong [where f = sum_list] map_cong refl) (simp add: all_shares_sums [OF assms(1)] splits_evenly_def)
  then show ?thesis using sum_rounds [OF assms(1), where f = "\<lambda>r. nat (q_iter p mod pairs_in_run p r)"] by simp
qed

section \<open>Properties\<close>




text \<open>The queue of \<open>boost_spsc.cpp\<close> holds 1024 elements; 2000 executions of an uneven split do not fit.\<close>

definition uneven_spsc :: pair_bench where
  "uneven_spsc = \<lparr>q_driver = Boost_SPSC, q_pairs = 3, q_iter = 10, q_exec = 2000, q_scaling = False\<rparr>"


text \<open>The executions of the stack benchmark; \<open>A\<close> says what \<open>new\<close> returns in each.\<close>

definition ms_shares :: "pair_bench \<Rightarrow> (int \<times> int \<Rightarrow> nat \<Rightarrow> nat \<Rightarrow> allocator) \<Rightarrow>
    ((nat \<Rightarrow> nat \<Rightarrow> allocator) \<times> (nat \<Rightarrow> int)) list" where
  "ms_shares p A = map (\<lambda>x. (A x, \<lambda>i. share p i x)) (rounds p)"

lemma ms_shares_regular:
  assumes p: "valid_pair_bench p" and d: "q_driver p = Mutex_stack" and A: "\<forall>x i m. supplies (A x i m)"
  shows "list_all (ms_regular (q_pairs p) (2 * q_pairs p)) (ms_shares p A)"
    and "x \<in> set (ms_shares p A) \<Longrightarrow>
      (\<Sum>i<q_pairs p. nat (snd x i)) - (\<Sum>i=q_pairs p..<2 * q_pairs p. nat (snd x i)) = 0"
proof -
  have eq: "(\<Sum>i=q_pairs p..<2 * q_pairs p. nat (share p i x)) = (\<Sum>i<q_pairs p. nat (share p i x))"
    if "x \<in> set (rounds p)" for x
  proof -
    have "int (\<Sum>i=q_pairs p..<2 * q_pairs p. nat (share p i x)) = int (\<Sum>i<q_pairs p. nat (share p i x))"
      using all_shares_sums [OF p that] share_nonneg [OF p that] d by (simp add: splits_evenly_def)
    then show ?thesis by (simp only: of_nat_eq_iff)
  qed
  show "list_all (ms_regular (q_pairs p) (2 * q_pairs p)) (ms_shares p A)"
    using A by (auto simp: list_all_iff ms_shares_def ms_regular_def eq)
  show "x \<in> set (ms_shares p A) \<Longrightarrow>
      (\<Sum>i<q_pairs p. nat (snd x i)) - (\<Sum>i=q_pairs p..<2 * q_pairs p. nat (snd x i)) = 0"
    by (auto simp: ms_shares_def eq)
qed

lemma delete_stack_undefined:
  assumes "stack_is s xs" and "xs \<noteq> []"
  shows "delete_stack s = Some None"
  using assms by (cases xs) (auto simp: stack_is_def delete_stack_def delete_from.simps)

text \<open>
  C10: the benchmark of the stack under a mutex as its driver runs it: from the stack that the constructor
  leaves, every execution of every run can be completed whatever its threads have done so far, on the
  stack that the executions before it left and whatever addresses \<open>new\<close> returns; and when the program
  ends after all of them, the destructor of the stack reads a node it has just deleted.
\<close>

theorem mutexstack_driver_runs:
  assumes p: "valid_pair_bench p" "q_driver p = Mutex_stack"
    and A: "\<forall>x i m. supplies (A x i m)" and s: "init_stack A0 = Some s"
  shows "each_execution (ms_execution (q_pairs p) (2 * q_pairs p))
      (never_stuck (ms_execution (q_pairs p) (2 * q_pairs p))) (ms_shares p A) s \<and>
    (\<forall>scheds s'. executions (ms_execution (q_pairs p) (2 * q_pairs p)) (ms_shares p A) scheds s = Some s' \<longrightarrow>
      delete_stack s' = Some None)"
proof -
  note R = ms_shares_regular [OF p A]
  obtain a where "stack_is s [(a, 0)]" using init_stack_is [OF s] by blast
  then have one: "\<exists>xs. stack_is s xs \<and> length xs = 1" by (intro exI [of _ "[(a, 0)]"]) simp
  have "map (\<lambda>x. (\<Sum>i<q_pairs p. nat (snd x i)) - (\<Sum>i=q_pairs p..<2 * q_pairs p. nat (snd x i))) (ms_shares p A) =
      map (\<lambda>_. 0) (ms_shares p A)"
    by (intro map_cong refl R(2))
  then have none: "sum_list (map (\<lambda>x. (\<Sum>i<q_pairs p. nat (snd x i)) - (\<Sum>i=q_pairs p..<2 * q_pairs p. nat (snd x i)))
      (ms_shares p A)) = 0" by (simp add: sum_list_triv)
  have "delete_stack s' = Some None"
    if "executions (ms_execution (q_pairs p) (2 * q_pairs p)) (ms_shares p A) scheds s = Some s'" for scheds s'
  proof -
    from ms_series.executions_leave [OF R(1) one that] none obtain xs where "stack_is s' xs" "length xs = 1" by auto
    then show ?thesis by (intro delete_stack_undefined [of s' xs]) auto
  qed
  with ms_series.completes_iff [OF R(1) one] show ?thesis by simp
qed

definition example_stack_bench :: pair_bench where
  "example_stack_bench = \<lparr>q_driver = Mutex_stack, q_pairs = 3, q_iter = 10, q_exec = 2, q_scaling = True\<rparr>"

theorem mutexstack_driver_runs_witness:
  "each_execution (ms_execution 3 6) (never_stuck (ms_execution 3 6))
     (ms_shares example_stack_bench (\<lambda>_ _ _. find_free 0)) first_stack"
proof -
  have "valid_pair_bench example_stack_bench" "q_driver example_stack_bench = Mutex_stack"
    by (simp_all add: example_stack_bench_def valid_pair_bench_def MAX_ALLOC_NR_THREADS_def)
  from mutexstack_driver_runs [where A = "\<lambda>_ _ _. find_free 0", OF this _ first_stack_init] find_free_supplies
  show ?thesis by (simp add: example_stack_bench_def)
qed

end
