(* ===== verification/Stats.thy ===== *)
theory Stats
  imports Prelude "HOL-Library.Signed_Division"
begin

text \<open>
  The sampling component (\<open>common/stats/stats.cpp\<close>): the flattened three-dimensional sample array
  with its 32- and 64-bit index arithmetic, and the statistics computed from it; and the sample
  collector (\<open>common/stats/smpl_collector.cpp\<close>) that picks the samples of a range of threads.
\<close>

section \<open>The sample store\<close>

text \<open>The conversion of a 32-bit operand to the 64-bit type of the expression around it.\<close>

abbreviation uint64_of :: "32 word \<Rightarrow> 64 word" where
  "uint64_of \<equiv> ucast"

text \<open>\<open>sample\<close>: a null pointer, allocated memory, or memory that was freed.\<close>

datatype sample_memory = Null | Allocated_samples "int list" | Freed

record stats_env =
  st_threads :: "32 word"
  st_executions :: "32 word"
  st_runs :: "32 word"
  sample :: sample_memory

text \<open>
  How a call can end: it returns, the process exits, an assertion fails, or the behaviour is
  undefined.
\<close>

datatype 'a call_result = Returns 'a | Exits int | Assertion_fails | Undefined_behaviour

text \<open>
  \<open>initStats\<close>. The product of the three counts is a 32-bit one; only then it becomes a 64-bit size
  in bytes. \<open>alloc_ok\<close>: \<open>aligned_alloc\<close> returned memory.
\<close>

definition initStats :: "bool \<Rightarrow> 32 word \<Rightarrow> 32 word \<Rightarrow> 32 word \<Rightarrow> stats_env \<Rightarrow> stats_env call_result" where
  "initStats alloc_ok nr_thrds nr_exec nr_runs env =
     (let env' = env\<lparr>st_threads := nr_thrds, st_executions := nr_exec, st_runs := nr_runs\<rparr>;
          size_in_bytes = uint64_of (nr_thrds * st_executions env' * nr_runs) * 8
      in if \<not> alloc_ok then Exits 1
         else Returns (env'\<lparr>sample := Allocated_samples (replicate (unat size_in_bytes div 8) 0)\<rparr>))"

definition sample_index :: "stats_env \<Rightarrow> 32 word \<Rightarrow> 32 word \<Rightarrow> 32 word \<Rightarrow> 64 word" where
  "sample_index env tid nr_exec nr_run =
     (let samples_per_run = uint64_of (st_threads env * st_executions env)
      in samples_per_run * uint64_of nr_run
         + uint64_of (st_threads env * nr_exec)
         + uint64_of tid)"

definition enterSample :: "int \<Rightarrow> 32 word \<Rightarrow> 32 word \<Rightarrow> 32 word \<Rightarrow> stats_env \<Rightarrow> stats_env call_result" where
  "enterSample s tid nr_exec nr_run env =
     (case sample env of
        Null \<Rightarrow> Assertion_fails
      | m \<Rightarrow>
          if \<not> nr_exec < st_executions env then Assertion_fails
          else if \<not> nr_run < st_runs env then Assertion_fails
          else (case m of
             Allocated_samples xs \<Rightarrow>
               (case array_store xs (unat (sample_index env tid nr_exec nr_run)) s of
                  None \<Rightarrow> Undefined_behaviour
                | Some ys \<Rightarrow> Returns (env\<lparr>sample := Allocated_samples ys\<rparr>))
           | _ \<Rightarrow> Undefined_behaviour))"

text \<open>\<open>deleteSamples\<close> frees the memory and keeps the pointer.\<close>

definition deleteSamples :: "stats_env \<Rightarrow> stats_env call_result" where
  "deleteSamples env =
     (case sample env of
        Null \<Rightarrow> Returns env
      | Allocated_samples _ \<Rightarrow> Returns (env\<lparr>sample := Freed\<rparr>)
      | Freed \<Rightarrow> Undefined_behaviour)"

text \<open>The counts are such that no product of the source wraps.\<close>

definition no_wrap :: "32 word \<Rightarrow> 32 word \<Rightarrow> 32 word \<Rightarrow> bool" where
  "no_wrap n e r \<longleftrightarrow> unat n * unat e * unat r < 2 ^ 32"

definition slot :: "nat \<Rightarrow> nat \<Rightarrow> nat \<Rightarrow> nat \<Rightarrow> nat \<Rightarrow> nat" where
  "slot n e tid exec run = (run * e + exec) * n + tid"

lemma slot_less:
  assumes "tid < n" "exec < e" "run < r"
  shows "slot n e tid exec run < n * e * r"
proof -
  have "run * e + exec < r * e"
  proof -
    have "run * e + exec < Suc run * e" using assms(2) by simp
    also have "\<dots> \<le> r * e" using assms(3) by (intro mult_le_mono1) simp
    finally show ?thesis .
  qed
  then have "Suc (run * e + exec) * n \<le> r * e * n" by (intro mult_le_mono1) simp
  with assms(1) show ?thesis by (simp add: slot_def algebra_simps)
qed

lemma sample_slot_inj:
  assumes "slot n e tid exec run = slot n e tid' exec' run'"
    and "tid < n" "tid' < n" "exec < e" "exec' < e"
  shows "tid = tid' \<and> exec = exec' \<and> run = run'"
proof -
  have dm: "slot n e t x r mod n = t" "slot n e t x r div n = r * e + x" if "t < n" for t x r
    using that by (simp_all add: slot_def)
  have "tid = tid'" using dm(1) assms(1-3) by metis
  moreover have q: "run * e + exec = run' * e + exec'" using dm(2) assms(1-3) by metis
  moreover have de: "(r * e + x) mod e = x" "(r * e + x) div e = r" if "x < e" for x r
    using that by simp_all
  have "exec = exec'" using de(1) q assms(4,5) by metis
  moreover have "run = run'" using de(2) q assms(4,5) by metis
  ultimately show ?thesis by blast
qed

lemma unat_mult_small:
  fixes x y :: "'a::len word"
  shows "unat x * unat y < 2 ^ LENGTH('a) \<Longrightarrow> unat (x * y) = unat x * unat y"
  by (simp add: unat_word_ariths)

lemma unat_up: "unat (uint64_of x) = unat x"
  using unsigned_less [of x, where 'a = nat] by (simp add: unsigned_ucast_eq take_bit_nat_eq_self_iff)

lemma no_wrap_products:
  assumes "no_wrap n e r" and "0 < r"
  shows "unat (n * e) = unat n * unat e" and "unat (n * e * r) = unat n * unat e * unat r"
proof -
  have r: "1 \<le> unat r" using assms(2) by (simp add: word_less_nat_alt Suc_le_eq)
  then have "unat n * unat e * 1 \<le> unat n * unat e * unat r" by (intro mult_le_mono2)
  then have "unat n * unat e < 2 ^ 32"
    unfolding mult_1_right by (rule le_less_trans) (use assms(1) in \<open>simp add: no_wrap_def\<close>)
  then show ne: "unat (n * e) = unat n * unat e" by (intro unat_mult_small) simp
  show "unat (n * e * r) = unat n * unat e * unat r"
    using assms(1) unat_mult_small [of "n * e" r] ne by (simp add: no_wrap_def)
qed

lemma sample_index_slot:
  assumes "no_wrap (st_threads env) (st_executions env) (st_runs env)"
    and "tid < st_threads env" "exec < st_executions env" "run < st_runs env"
  shows "unat (sample_index env tid exec run) =
    slot (unat (st_threads env)) (unat (st_executions env)) (unat tid) (unat exec) (unat run)"
proof -
  let ?n = "st_threads env" and ?e = "st_executions env" and ?r = "st_runs env"
  have lt: "unat tid < unat ?n" "unat exec < unat ?e" "unat run < unat ?r"
    using assms(2-4) by (simp_all add: word_less_nat_alt)
  then have "0 < ?r" by (simp add: word_less_nat_alt)
  note prod = no_wrap_products [OF assms(1) this]
  have total: "slot (unat ?n) (unat ?e) (unat tid) (unat exec) (unat run) < 2 ^ 32"
    using slot_less [OF lt] assms(1) by (simp add: no_wrap_def)
  have eq: "slot (unat ?n) (unat ?e) (unat tid) (unat exec) (unat run) =
      unat ?n * unat ?e * unat run + unat ?n * unat exec + unat tid"
    by (simp add: slot_def algebra_simps)
  have exec: "unat (?n * exec) = unat ?n * unat exec"
  proof (rule unat_mult_small)
    have "unat ?n * unat exec \<le> unat ?n * unat ?e * unat run + unat ?n * unat exec + unat tid" by simp
    with total eq show "unat ?n * unat exec < 2 ^ LENGTH(32)" by simp
  qed
  have run: "unat (uint64_of (?n * ?e) * uint64_of run) = unat ?n * unat ?e * unat run"
  proof -
    have "unat (uint64_of (?n * ?e)) * unat (uint64_of run) < 2 ^ 64"
      using total eq unfolding unat_up prod by simp
    then show ?thesis using unat_mult_small [of "uint64_of (?n * ?e)" "uint64_of run"]
      by (simp add: unat_up prod)
  qed
  show ?thesis
    using total unfolding sample_index_def Let_def eq
    by (simp add: unat_word_ariths(1) run exec unat_up)
qed

text \<open>After \<open>initStats\<close> without wrap-around there is a slot for every sample.\<close>

lemma initStats_size:
  assumes "no_wrap n e r" and "0 < r"
  shows "initStats True n e r env = Returns (env\<lparr>st_threads := n, st_executions := e, st_runs := r,
    sample := Allocated_samples (replicate (unat n * unat e * unat r) 0)\<rparr>)"
proof -
  note prod = no_wrap_products [OF assms]
  have "unat (uint64_of (n * e * r)) * unat (8 :: 64 word) < 2 ^ 64"
    unfolding unat_up using unsigned_less [of "n * e * r", where 'a = nat] by simp
  then have "unat (uint64_of (n * e * r) * 8) = unat n * unat e * unat r * 8"
    using unat_mult_small [of "uint64_of (n * e * r)" "8 :: 64 word"] by (simp add: unat_up prod)
  then show ?thesis by (simp add: initStats_def Let_def)
qed

definition store_ok :: "stats_env \<Rightarrow> int list \<Rightarrow> bool" where
  "store_ok env xs \<longleftrightarrow> sample env = Allocated_samples xs \<and>
     no_wrap (st_threads env) (st_executions env) (st_runs env) \<and>
     length xs = unat (st_threads env) * unat (st_executions env) * unat (st_runs env)"

lemma enterSample_ok:
  assumes "store_ok env xs"
    and "tid < st_threads env" "exec < st_executions env" "run < st_runs env"
  shows "enterSample v tid exec run env =
    Returns (env\<lparr>sample := Allocated_samples
      (xs[slot (unat (st_threads env)) (unat (st_executions env)) (unat tid) (unat exec) (unat run) := v])\<rparr>)"
proof -
  have "unat tid < unat (st_threads env)" "unat exec < unat (st_executions env)" "unat run < unat (st_runs env)"
    using assms(2-4) by (simp_all add: word_less_nat_alt)
  from slot_less [OF this] assms sample_index_slot show ?thesis
    by (simp add: enterSample_def store_ok_def array_simps)
qed


text \<open>Reading a sample back, with the 32-bit offsets of \<open>dumpRawData\<close> and \<open>aggregateStatistics\<close>.\<close>

definition exec_offset :: "stats_env \<Rightarrow> 32 word \<Rightarrow> 32 word \<Rightarrow> 32 word" where
  "exec_offset env exec run =
     (let run_offset = st_executions env * st_threads env * run
      in run_offset + exec * st_threads env)"

definition raw_sample :: "stats_env \<Rightarrow> 32 word \<Rightarrow> 32 word \<Rightarrow> 32 word \<Rightarrow> int option" where
  "raw_sample env tid exec run =
     (case sample env of
        Allocated_samples xs \<Rightarrow> array_load xs (unat (exec_offset env exec run + tid))
      | _ \<Rightarrow> None)"

lemma exec_offset_slot:
  assumes "no_wrap (st_threads env) (st_executions env) (st_runs env)"
    and "exec < st_executions env" "run < st_runs env" "0 < st_threads env"
  shows "unat (exec_offset env exec run) =
    slot (unat (st_threads env)) (unat (st_executions env)) 0 (unat exec) (unat run)"
proof -
  let ?n = "st_threads env" and ?e = "st_executions env"
  have lt: "0 < unat ?n" "unat exec < unat ?e" "unat run < unat (st_runs env)"
    using assms(2-4) by (simp_all add: word_less_nat_alt)
  have total: "slot (unat ?n) (unat ?e) 0 (unat exec) (unat run) < 2 ^ 32"
    using slot_less [OF lt] assms(1) by (simp add: no_wrap_def)
  have "exec_offset env exec run =
      of_nat (slot (unat ?n) (unat ?e) 0 (unat exec) (unat run))"
    by (simp add: exec_offset_def slot_def Let_def algebra_simps)
  with total show ?thesis by (simp add: unat_of_nat)
qed

lemma raw_index_slot:
  assumes "no_wrap (st_threads env) (st_executions env) (st_runs env)"
    and "tid < st_threads env" "exec < st_executions env" "run < st_runs env"
  shows "unat (exec_offset env exec run + tid) =
    slot (unat (st_threads env)) (unat (st_executions env)) (unat tid) (unat exec) (unat run)"
proof -
  let ?n = "st_threads env" and ?e = "st_executions env"
  have lt: "unat tid < unat ?n" "unat exec < unat ?e" "unat run < unat (st_runs env)"
    using assms(2-4) by (simp_all add: word_less_nat_alt)
  have pos: "0 < ?n" using lt(1) by (simp add: word_less_nat_alt)
  have total: "slot (unat ?n) (unat ?e) (unat tid) (unat exec) (unat run) < 2 ^ 32"
    using slot_less [OF lt] assms(1) by (simp add: no_wrap_def)
  then show ?thesis
    using exec_offset_slot [OF assms(1,3,4) pos] by (simp add: unat_word_ariths slot_def)
qed

text \<open>
  C25: after \<open>initStats\<close> of counts whose product fits 32 bits, and after any further entries,
  \<open>enterSample\<close> of an existing thread, execution and run returns: the sample is read back at that
  position, every other sample is unchanged, and the store stays well formed.
\<close>

theorem enterSample_roundtrip:
  assumes "store_ok env xs"
    and "tid < st_threads env" "exec < st_executions env" "run < st_runs env"
  shows "\<exists>env' ys. enterSample v tid exec run env = Returns env' \<and> store_ok env' ys \<and>
    raw_sample env' tid exec run = Some v \<and>
    (\<forall>t x r. t < st_threads env \<and> x < st_executions env \<and> r < st_runs env \<and>
       (t, x, r) \<noteq> (tid, exec, run) \<longrightarrow> raw_sample env' t x r = raw_sample env t x r)"
proof -
  let ?n = "unat (st_threads env)" and ?e = "unat (st_executions env)" and ?r = "unat (st_runs env)"
  let ?i = "slot ?n ?e (unat tid) (unat exec) (unat run)"
  let ?env' = "env\<lparr>sample := Allocated_samples (xs[?i := v])\<rparr>"
  have nw: "no_wrap (st_threads env) (st_executions env) (st_runs env)"
    and s: "sample env = Allocated_samples xs" and len: "length xs = ?n * ?e * ?r"
    using assms(1) by (simp_all add: store_ok_def)
  have raw: "raw_sample env t x r = Some (xs ! slot ?n ?e (unat t) (unat x) (unat r))"
    "raw_sample ?env' t x r = Some (xs[?i := v] ! slot ?n ?e (unat t) (unat x) (unat r))"
    if "t < st_threads env" "x < st_executions env" "r < st_runs env" for t x r
  proof -
    have "slot ?n ?e (unat t) (unat x) (unat r) < ?n * ?e * ?r"
      using that by (intro slot_less) (simp_all add: word_less_nat_alt)
    then show "raw_sample env t x r = Some (xs ! slot ?n ?e (unat t) (unat x) (unat r))"
      "raw_sample ?env' t x r = Some (xs[?i := v] ! slot ?n ?e (unat t) (unat x) (unat r))"
      using raw_index_slot [OF nw that]
      by (simp_all add: raw_sample_def s len array_simps exec_offset_def)
  qed
  have i: "?i < length xs"
    unfolding len using assms(2-4) by (intro slot_less) (simp_all add: word_less_nat_alt)
  have other: "slot ?n ?e (unat t) (unat x) (unat r) \<noteq> ?i"
    if "t < st_threads env" "x < st_executions env" "(t, x, r) \<noteq> (tid, exec, run)" for t x r
    using sample_slot_inj [of ?n ?e "unat t" "unat x" "unat r" "unat tid" "unat exec" "unat run"] that assms(2,3)
    by (auto simp: word_less_nat_alt dest: word_unat_eq_iff [THEN iffD2])
  have "store_ok ?env' (xs[?i := v])" using assms(1) by (simp add: store_ok_def)
  moreover have "raw_sample ?env' tid exec run = Some v"
    using raw(2) [OF assms(2-4)] i by simp
  moreover have "raw_sample ?env' t x r = raw_sample env t x r"
    if "t < st_threads env" "x < st_executions env" "r < st_runs env" "(t, x, r) \<noteq> (tid, exec, run)" for t x r
  proof -
    have "xs[?i := v] ! slot ?n ?e (unat t) (unat x) (unat r) = xs ! slot ?n ?e (unat t) (unat x) (unat r)"
      using other [OF that(1,2,4)] by (intro nth_list_update_neq) simp
    with raw [OF that(1-3)] show ?thesis by simp
  qed
  ultimately show ?thesis using enterSample_ok [OF assms] by blast
qed

definition stats0 :: stats_env where
  "stats0 = \<lparr>st_threads = 0, st_executions = 0, st_runs = 0, sample = Null\<rparr>"

lemma enterSample_roundtrip_witness:
  "\<exists>env. initStats True 2 3 2 stats0 = Returns env \<and>
     (\<exists>env'. enterSample 7 1 2 1 env = Returns env' \<and> raw_sample env' 1 2 1 = Some 7)"
proof -
  let ?env = "stats0\<lparr>st_threads := 2, st_executions := 3, st_runs := 2,
    sample := Allocated_samples (replicate 12 0)\<rparr>"
  have "initStats True 2 3 2 stats0 = Returns ?env"
    using initStats_size [of 2 3 2 stats0] by (simp add: no_wrap_def)
  moreover have "store_ok ?env (replicate 12 0)" by (simp add: store_ok_def no_wrap_def)
  from enterSample_roundtrip [OF this, of 1 2 1 7]
  have "\<exists>env'. enterSample 7 1 2 1 ?env = Returns env' \<and> raw_sample env' 1 2 1 = Some 7" by auto
  ultimately show ?thesis by blast
qed

text \<open>
  The size of the sample store is a 32-bit product. For any three counts whose product is a
  multiple of $2^{32}$ - 4096 threads, 4096 runs and 256 executions, say - \<open>initStats\<close> allocates
  nothing, and every entry that passes the assertions is undefined behaviour.
\<close>

theorem initStats_overflow:
  assumes "n * e * r = 0" and "exec < e" "run < r"
  shows "\<exists>env'. initStats True n e r env = Returns env' \<and>
    enterSample v tid exec run env' = Undefined_behaviour"
  using assms by (simp add: initStats_def enterSample_def Let_def array_store_def)

lemma initStats_overflow_witness:
  "\<exists>env'. initStats True 4096 256 4096 stats0 = Returns env' \<and>
    enterSample 7 0 0 0 env' = Undefined_behaviour"
  by (rule initStats_overflow) simp_all

end
