(* ===== verification/Collector.thy ===== *)
theory Collector
  imports Stats
begin

text \<open>
  The sample collector (\<open>common/stats/smpl_collector.cpp\<close>): it picks the samples of the threads
  \<open>[start_index, stop_index[\<close> from the row of samples of one execution. Run \<open>r\<close> of a scaling
  benchmark has only the first \<open>r + 1\<close> of them.
\<close>

section \<open>Sequencing of calls\<close>

fun and_then :: "'a call_result \<Rightarrow> ('a \<Rightarrow> 'b call_result) \<Rightarrow> 'b call_result" where
  "and_then (Returns a) f = f a"
| "and_then (Exits c) f = Exits c"
| "and_then Assertion_fails f = Assertion_fails"
| "and_then Undefined_behaviour f = Undefined_behaviour"

text \<open>A counting loop: the body for each index in turn.\<close>

fun for_each :: "('x \<Rightarrow> 's \<Rightarrow> 's call_result) \<Rightarrow> 'x list \<Rightarrow> 's \<Rightarrow> 's call_result" where
  "for_each body [] s = Returns s"
| "for_each body (x # xs) s = and_then (body x s) (for_each body xs)"

lemma for_each_append:
  "for_each body (xs @ ys) s = and_then (for_each body xs s) (for_each body ys)"
proof (induction xs arbitrary: s)
  case (Cons x xs)
  then show ?case by (cases "body x s") simp_all
qed simp

text \<open>The indices of \<open>for (uint32_t i = 0; i < n; i++)\<close>.\<close>

definition below :: "32 word \<Rightarrow> 32 word list" where
  "below n = map of_nat [0..<unat n]"

lemma for_each_below:
  assumes "I 0 s"
    and "\<And>i s. i < n \<Longrightarrow> I (unat i) s \<Longrightarrow> \<exists>s'. body i s = Returns s' \<and> I (Suc (unat i)) s'"
  shows "\<exists>s'. for_each body (below n) s = Returns s' \<and> I (unat n) s'"
proof -
  have "\<exists>s'. for_each body (map of_nat [0..<k]) s = Returns s' \<and> I k s'" if "k \<le> unat n" for k
    using that
  proof (induction k)
    case 0
    with assms(1) show ?case by simp
  next
    case (Suc k)
    then obtain s' where s': "for_each body (map of_nat [0..<k]) s = Returns s'" "I k s'" by auto
    have "k < 2 ^ 32" using Suc.prems unsigned_less [of n, where 'a = nat] by simp
    then have k: "unat (of_nat k :: 32 word) = k" by (simp add: unat_of_nat)
    with Suc.prems have "of_nat k < n" by (simp add: word_less_nat_alt)
    with assms(2) [of "of_nat k" s'] s'(2) k
    obtain s'' where "body (of_nat k) s' = Returns s''" "I (Suc k) s''" by auto
    with s'(1) show ?case by (simp add: for_each_append)
  qed
  then show ?thesis by (simp add: below_def)
qed

section \<open>The collector\<close>

text \<open>The message goes to the standard error stream, which is not part of the state.\<close>

definition error_exit :: "string \<Rightarrow> 'a call_result" where
  "error_exit msg = Exits 1"

declare error_exit_def [simp]

text \<open>\<open>c_sample\<close>: the buffer of the collector, \<open>None\<close> where nothing has been written yet.\<close>

record range_smpl_collector =
  population_size :: "32 word"
  start_index :: "32 word"
  stop_index :: "32 word"
  nr_samples :: "32 word"
  is_scaling :: bool
  c_sample :: "int option list"

definition new_range_smpl_collector ::
  "bool \<Rightarrow> 32 word \<Rightarrow> 32 word \<Rightarrow> 32 word \<Rightarrow> bool \<Rightarrow> range_smpl_collector call_result" where
  "new_range_smpl_collector alloc_ok pop start stop scaling =
     (let nr = stop - start;
          size_in_bytes = uint64_of nr * 8
      in if \<not> alloc_ok then error_exit ''Error: alloc. of sampling memory failed''
         else Returns \<lparr>population_size = pop, start_index = start, stop_index = stop,
           nr_samples = nr, is_scaling = scaling,
           c_sample = replicate (unat size_in_bytes div 8) None\<rparr>)"

text \<open>The destructor: no element of the buffer can be accessed any more.\<close>

definition delete_range_smpl_collector :: "range_smpl_collector \<Rightarrow> range_smpl_collector" where
  "delete_range_smpl_collector c = c\<lparr>c_sample := []\<rparr>"

text \<open>
  \<open>get_samples\<close>: \<open>row\<close> is the memory from the pointer \<open>row\<close> on. The buffer is returned by
  reference, so the result holds the updated collector and its buffer.
\<close>

definition copy_sample :: "int list \<Rightarrow> 32 word \<Rightarrow> range_smpl_collector \<Rightarrow> range_smpl_collector call_result" where
  "copy_sample row smpl_idx c =
     (case array_load row (unat (start_index c + smpl_idx)) of
        None \<Rightarrow> Undefined_behaviour
      | Some v \<Rightarrow>
          (case array_store (c_sample c) (unat smpl_idx) (Some v) of
             None \<Rightarrow> Undefined_behaviour
           | Some buf \<Rightarrow> Returns (c\<lparr>c_sample := buf\<rparr>)))"

definition get_samples ::
  "32 word \<Rightarrow> int list \<Rightarrow> range_smpl_collector \<Rightarrow> (range_smpl_collector \<times> int option list) call_result" where
  "get_samples run row c =
     (if \<not> run < nr_samples c then Assertion_fails
      else let s_upper = (if is_scaling c then run + 1 else stop_index c - start_index c)
           in and_then (for_each (copy_sample row) (below s_upper) c)
                (\<lambda>c'. Returns (c', c_sample c')))"

definition get_nr_samples :: "32 word \<Rightarrow> range_smpl_collector \<Rightarrow> 32 word call_result" where
  "get_nr_samples run c =
     (if is_scaling c then
        if \<not> run < nr_samples c then Assertion_fails
        else Returns (run + 1)
      else Returns (nr_samples c))"

definition includes_sample :: "32 word \<Rightarrow> 32 word \<Rightarrow> range_smpl_collector \<Rightarrow> bool call_result" where
  "includes_sample run sample_nr c =
     (if population_size c \<le> sample_nr then error_exit ''Error: sample_nr out of range''
      else if sample_nr < start_index c \<or> stop_index c \<le> sample_nr then Returns False
      else if is_scaling c then Returns (sample_nr \<le> start_index c + run)
      else Returns True)"

section \<open>What the collector picks\<close>

text \<open>A collector over a range inside its population.\<close>

definition collector_ok :: "range_smpl_collector \<Rightarrow> bool" where
  "collector_ok c \<longleftrightarrow> start_index c \<le> stop_index c \<and> stop_index c \<le> population_size c \<and>
     nr_samples c = stop_index c - start_index c \<and> length (c_sample c) = unat (nr_samples c)"

lemma new_collector_ok:
  assumes "start \<le> stop" "stop \<le> pop"
  shows "\<exists>c. new_range_smpl_collector True pop start stop scaling = Returns c \<and> collector_ok c \<and>
    population_size c = pop \<and> start_index c = start \<and> stop_index c = stop \<and>
    nr_samples c = stop - start \<and> is_scaling c = scaling"
proof -
  have "unat (uint64_of (stop - start)) * unat (8 :: 64 word) < 2 ^ 64"
    unfolding unat_up using unsigned_less [of "stop - start", where 'a = nat] by simp
  then have "unat (uint64_of (stop - start) * 8) = unat (stop - start) * 8"
    using unat_mult_small [of "uint64_of (stop - start)" "8 :: 64 word"] by (simp add: unat_up)
  with assms show ?thesis by (simp add: new_range_smpl_collector_def collector_ok_def Let_def)
qed

text \<open>The number of threads of a run in the range.\<close>

definition picked :: "range_smpl_collector \<Rightarrow> nat \<Rightarrow> nat" where
  "picked c run = (if is_scaling c then Suc run else unat (stop_index c) - unat (start_index c))"

lemma collector_counts:
  assumes "collector_ok c" "run < nr_samples c"
  shows "unat (nr_samples c) = unat (stop_index c) - unat (start_index c)"
    and "picked c (unat run) \<le> unat (nr_samples c)"
    and "unat (if is_scaling c then run + 1 else stop_index c - start_index c) = picked c (unat run)"
    and "0 < picked c (unat run)"
proof -
  show n: "unat (nr_samples c) = unat (stop_index c) - unat (start_index c)"
    using assms(1) by (simp add: collector_ok_def unat_sub)
  have lt: "unat run < unat (nr_samples c)" using assms(2) by (simp add: word_less_nat_alt)
  then show le: "picked c (unat run) \<le> unat (nr_samples c)" "0 < picked c (unat run)"
    using n by (auto simp: picked_def)
  have "Suc (unat run) < 2 ^ 32"
    using lt unsigned_less [of "nr_samples c", where 'a = nat] by simp
  then have "unat (run + 1) = Suc (unat run)" by (simp add: unat_word_ariths)
  moreover have "stop_index c - start_index c = nr_samples c" using assms(1) by (simp add: collector_ok_def)
  ultimately show "unat (if is_scaling c then run + 1 else stop_index c - start_index c) = picked c (unat run)"
    using n by (simp add: picked_def)
qed

lemma get_nr_samples_ok:
  assumes "collector_ok c" "run < nr_samples c"
  shows "\<exists>k. get_nr_samples run c = Returns k \<and> unat k = picked c (unat run)"
  using collector_counts [OF assms] assms
  by (auto simp: get_nr_samples_def collector_ok_def picked_def)

lemma get_samples_ok:
  assumes ok: "collector_ok c" and run: "run < nr_samples c" and row: "unat (stop_index c) \<le> length row"
  shows "\<exists>c'. get_samples run row c = Returns (c', c_sample c') \<and> collector_ok c' \<and>
    c' = c\<lparr>c_sample := c_sample c'\<rparr> \<and>
    take (picked c (unat run)) (c_sample c') =
      map Some (take (picked c (unat run)) (drop (unat (start_index c)) row))"
proof -
  let ?up = "if is_scaling c then run + 1 else stop_index c - start_index c"
  let ?a = "unat (start_index c)"
  note cnt = collector_counts [OF ok run]
  define I where "I = (\<lambda>k s. length (c_sample s) = unat (nr_samples c) \<and>
    s = c\<lparr>c_sample := c_sample s\<rparr> \<and> take k (c_sample s) = map Some (take k (drop ?a row)))"
  have le: "start_index c \<le> stop_index c" using ok by (simp add: collector_ok_def)
  have "\<exists>s'. for_each (copy_sample row) (below ?up) c = Returns s' \<and> I (unat ?up) s'"
  proof (rule for_each_below [where I = I])
    show "I 0 c" using ok by (simp add: I_def collector_ok_def)
  next
    fix i s assume i: "i < ?up" and Is: "I (unat i) s"
    have ilt: "unat i < picked c (unat run)" using i cnt(3) by (simp only: word_less_nat_alt)
    have len: "length (c_sample s) = unat (nr_samples c)" and s: "start_index s = start_index c"
      using Is by (auto simp: I_def dest: arg_cong [where f = start_index])
    have idx: "?a + unat i < length row" using ilt cnt(1,2) row le by (simp add: word_le_nat_alt)
    have small: "?a + unat i < 2 ^ 32"
      using ilt cnt(1,2) le unsigned_less [of "stop_index c", where 'a = nat]
      by (simp add: word_le_nat_alt)
    then have ui: "unat (start_index c + i) = ?a + unat i" by (simp add: unat_word_ariths)
    have step: "copy_sample row i s = Returns (s\<lparr>c_sample := (c_sample s)[unat i := Some (row ! (?a + unat i))]\<rparr>)"
      using idx ilt cnt(2) len by (simp add: copy_sample_def s ui array_simps)
    have "I (Suc (unat i)) (s\<lparr>c_sample := (c_sample s)[unat i := Some (row ! (?a + unat i))]\<rparr>)"
    proof -
      have "s = c\<lparr>c_sample := c_sample s\<rparr>" using Is by (simp add: I_def)
      then have "s\<lparr>c_sample := b\<rparr> = c\<lparr>c_sample := b\<rparr>" for b by (metis (full_types) range_smpl_collector.update_convs(6) range_smpl_collector.surjective)
      moreover have "take (Suc (unat i)) ((c_sample s)[unat i := Some (row ! (?a + unat i))]) =
          map Some (take (Suc (unat i)) (drop ?a row))"
        using Is ilt cnt(2) len idx
        by (simp add: I_def take_Suc_conv_app_nth)
      ultimately show ?thesis using len by (simp add: I_def)
    qed
    with step show "\<exists>s'. copy_sample row i s = Returns s' \<and> I (Suc (unat i)) s'" by blast
  qed
  then obtain c' where c': "for_each (copy_sample row) (below ?up) c = Returns c'" "I (picked c (unat run)) c'"
    unfolding cnt(3) by blast
  have "c' = c\<lparr>c_sample := c_sample c'\<rparr>" "length (c_sample c') = unat (nr_samples c)"
    using c'(2) by (simp_all add: I_def)
  then have "collector_ok c'"
    using ok by (simp add: collector_ok_def) (metis range_smpl_collector.select_convs range_smpl_collector.update_convs(6) range_smpl_collector.surjective)
  with c' run show ?thesis by (auto simp: get_samples_def I_def)
qed


lemma includes_sample_iff:
  assumes "collector_ok c" "run < nr_samples c" "t < unat (population_size c)"
  shows "includes_sample run (of_nat t) c = Returns True \<longleftrightarrow>
    unat (start_index c) \<le> t \<and> t < unat (start_index c) + picked c (unat run)"
proof -
  note cnt = collector_counts [OF assms(1,2)]
  have ut: "unat (of_nat t :: 32 word) = t"
    using assms(3) unsigned_less [of "population_size c", where 'a = nat] by (simp add: unat_of_nat)
  have ord: "unat (start_index c) \<le> unat (stop_index c)" "unat (stop_index c) \<le> unat (population_size c)"
    using assms(1) by (simp_all add: collector_ok_def word_le_nat_alt)
  have lt: "unat run < unat (nr_samples c)" using assms(2) by (simp add: word_less_nat_alt)
  then have "unat (start_index c) + unat run < 2 ^ 32"
    using cnt(1) ord unsigned_less [of "stop_index c", where 'a = nat] by simp
  then have sr: "unat (start_index c + run) = unat (start_index c) + unat run"
    by (simp add: unat_word_ariths)
  show ?thesis
    using assms(3) ut sr ord lt cnt(1)
    by (auto simp: includes_sample_def word_le_nat_alt word_less_nat_alt picked_def)
qed

lemma filter_range:
  assumes "a + k \<le> (n :: nat)"
  shows "filter (\<lambda>t. a \<le> t \<and> t < a + k) [0..<n] = [a..<a + k]"
proof -
  have n: "[0..<n] = [0..<a] @ [a..<a + k] @ [a + k..<n]"
    using assms upt_add_eq_append [of 0 a "n - a"] upt_add_eq_append [of a "a + k" "n - (a + k)"]
    by simp
  show ?thesis unfolding n by (simp add: filter_empty_conv filter_id_conv)
qed

lemma take_drop_map_nth:
  assumes "a + k \<le> length row"
  shows "take k (drop a row) = map ((!) row) [a..<a + k]"
  using assms by (intro nth_equalityI) auto

text \<open>
  C26: for every run of a collector whose range lies in its population, \<open>get_samples\<close> never leaves
  the row or its own buffer, and the first \<open>get_nr_samples\<close> entries of the buffer it returns are
  the samples of exactly the threads for which \<open>includes\<close> answers true, in the order of the threads.
\<close>

theorem collector_consistent:
  assumes "collector_ok c" "run < nr_samples c" "length row = unat (population_size c)"
  shows "\<exists>c' buf k. get_samples run row c = Returns (c', buf) \<and> collector_ok c' \<and>
    get_nr_samples run c = Returns k \<and> get_nr_samples run c' = Returns k \<and> 0 < k \<and>
    take (unat k) buf =
      map (\<lambda>t. Some (row ! t))
        (filter (\<lambda>t. includes_sample run (of_nat t) c = Returns True) [0..<unat (population_size c)])"
proof -
  let ?a = "unat (start_index c)"
  note cnt = collector_counts [OF assms(1,2)]
  have ord: "?a \<le> unat (stop_index c)" "unat (stop_index c) \<le> unat (population_size c)"
    using assms(1) by (simp_all add: collector_ok_def word_le_nat_alt)
  then have fit: "?a + picked c (unat run) \<le> unat (population_size c)" using cnt(1,2) by linarith
  obtain c' where c': "get_samples run row c = Returns (c', c_sample c')" "collector_ok c'"
    "c' = c\<lparr>c_sample := c_sample c'\<rparr>"
    "take (picked c (unat run)) (c_sample c') = map Some (take (picked c (unat run)) (drop ?a row))"
    using get_samples_ok [OF assms(1,2), of row] ord assms(3) by auto
  obtain k where k: "get_nr_samples run c = Returns k" "unat k = picked c (unat run)"
    using get_nr_samples_ok [OF assms(1,2)] by blast
  have k': "get_nr_samples run c' = Returns k"
    using k(1) assms(2) by (subst c'(3)) (simp add: get_nr_samples_def split: if_splits)
  have "0 < k" using k(2) cnt(4) by (simp add: word_less_nat_alt)
  moreover have "filter (\<lambda>t. includes_sample run (of_nat t) c = Returns True) [0..<unat (population_size c)] =
      filter (\<lambda>t. ?a \<le> t \<and> t < ?a + picked c (unat run)) [0..<unat (population_size c)]"
    using includes_sample_iff [OF assms(1,2)] by (intro filter_cong) auto
  then have "take (unat k) (c_sample c') =
      map (\<lambda>t. Some (row ! t))
        (filter (\<lambda>t. includes_sample run (of_nat t) c = Returns True) [0..<unat (population_size c)])"
    using fit assms(3) by (simp add: k(2) c'(4) filter_range take_drop_map_nth)
  ultimately show ?thesis using c'(1,2) k(1) k' by blast
qed

lemma collector_consistent_witness:
  "\<exists>c c' buf. new_range_smpl_collector True 4 1 4 True = Returns c \<and>
     get_samples 1 [10, 11, 12, 13] c = Returns (c', buf) \<and> take 2 buf = [Some 11, Some 12]"
proof -
  obtain c where c: "new_range_smpl_collector True 4 1 4 True = Returns c" "collector_ok c"
    "population_size c = 4" "start_index c = 1" "stop_index c = 4" "nr_samples c = 3" "is_scaling c"
    using new_collector_ok [of 1 4 4 True] by auto
  have "1 < nr_samples c" "length [10, 11, 12, 13 :: int] = unat (population_size c)"
    by (simp_all add: c)
  from collector_consistent [OF c(2) this]
  obtain c' buf k where r: "get_samples 1 [10, 11, 12, 13] c = Returns (c', buf)"
    "get_nr_samples 1 c = Returns k"
    "take (unat k) buf = map (\<lambda>t. Some ([10, 11, 12, 13] ! t))
      (filter (\<lambda>t. includes_sample 1 (of_nat t) c = Returns True) [0..<unat (population_size c)])"
    by blast
  have "k = 2" using r(2) by (simp add: get_nr_samples_def c)
  moreover have "[0..<4] = [0, 1, 2, 3 :: nat]" by (simp add: upt_rec)
  ultimately have "take 2 buf = [Some 11, Some 12]"
    using r(3) by (simp add: includes_sample_def c word_le_nat_alt word_less_nat_alt unat_word_ariths del: One_nat_def)
  with c(1) r(1) show ?thesis by blast
qed

end
