(* ===== verification/Hazard_Pointers.thy ===== *)
theory Hazard_Pointers
  imports Collector
begin

text \<open>
  Hazard pointers and deferred reclamation (\<open>common/hazard_pointers/hazard_pointers.hpp\<close>): the slots in
  which threads announce the nodes they use, the list of retired nodes, and the pass that deletes
  those that nobody announces. The operations are modelled one at a time on a heap of
  \<open>data_to_reclaim\<close> cells; the memory orders they are called with are values, because some orders are
  not allowed for a load.
\<close>

section \<open>Slots and orders\<close>

definition max_hazard_pointers :: nat where
  "max_hazard_pointers = MAX_NR_THREADS"

definition start_cid :: nat where
  "start_cid = max_hazard_pointers div 2"

datatype memory_order = Relaxed | Consume | Acquire | Release | Acq_rel | Seq_cst

definition Select_order :: "memory_order \<Rightarrow> memory_order \<Rightarrow> memory_order" where
  "Select_order Order expected = (if Order \<noteq> Seq_cst then expected else Seq_cst)"

text \<open>Pointers are numbers, \<open>None\<close> is the null pointer. A cell of the list of retired nodes.\<close>

record data_to_reclaim =
  data :: nat
  next_cell :: "nat option"

text \<open>\<open>deleted\<close>: the nodes given to their deleters so far, in order.\<close>

record reclaim_state =
  hazard_pointers :: "nat option list"
  cells :: "nat \<Rightarrow> data_to_reclaim option"
  node_to_reclaim :: "nat option"
  reclaim_cnt :: "32 word"
  deleted :: "nat list"

text \<open>An atomic load with a release order is undefined.\<close>

definition load_hazard :: "memory_order \<Rightarrow> reclaim_state \<Rightarrow> nat \<Rightarrow> nat option call_result" where
  "load_hazard Order st i =
     (if Order = Release \<or> Order = Acq_rel then Undefined_behaviour
      else case array_load (hazard_pointers st) i of
        None \<Rightarrow> Undefined_behaviour
      | Some p \<Rightarrow> Returns p)"

fun scan_hazards :: "nat \<Rightarrow> memory_order \<Rightarrow> reclaim_state \<Rightarrow> nat list \<Rightarrow> bool call_result" where
  "scan_hazards p Order st [] = Returns False"
| "scan_hazards p Order st (i # is) = and_then (load_hazard Order st i)
     (\<lambda>v. if v = Some p then Returns True else scan_hazards p Order st is)"

definition outstanding_hazard_pointers_for :: "nat \<Rightarrow> memory_order \<Rightarrow> reclaim_state \<Rightarrow> bool call_result" where
  "outstanding_hazard_pointers_for p Order st = scan_hazards p Order st [start_cid..<max_hazard_pointers]"

section \<open>The list of retired nodes\<close>

text \<open>
  The loop around \<open>compare_exchange_weak\<close>, which writes the current head to \<open>node->next\<close> when it fails.
  \<open>spurious\<close> tells of each attempt whether it fails without a reason; there are finitely many.
\<close>

function (sequential) add_to_reclaim_list :: "bool list \<Rightarrow> nat \<Rightarrow> reclaim_state \<Rightarrow> reclaim_state call_result" where
  "add_to_reclaim_list spurious node st =
     (case cells st node of
        None \<Rightarrow> Undefined_behaviour
      | Some c \<Rightarrow>
          if node_to_reclaim st = next_cell c \<and> \<not> (spurious \<noteq> [] \<and> hd spurious)
          then Returns (st\<lparr>node_to_reclaim := Some node\<rparr>)
          else add_to_reclaim_list (tl spurious) node
            (st\<lparr>cells := (cells st)(node \<mapsto> c\<lparr>next_cell := node_to_reclaim st\<rparr>)\<rparr>))"
  by pat_completeness auto

termination
  by (relation "measure (\<lambda>(spurious, node, st). 2 * length spurious +
      (if map_option next_cell (cells st node) = Some (node_to_reclaim st) then 0 else 1))")
    (auto split: if_splits simp: neq_Nil_conv)

declare add_to_reclaim_list.simps [simp del]

text \<open>\<open>cell\<close>: the address \<open>new\<close> returns.\<close>

definition Retire :: "nat \<Rightarrow> bool list \<Rightarrow> nat \<Rightarrow> reclaim_state \<Rightarrow> reclaim_state call_result" where
  "Retire cell spurious p st =
     and_then (add_to_reclaim_list spurious cell
        (st\<lparr>cells := (cells st)(cell \<mapsto> \<lparr>data = p, next_cell = None\<rparr>)\<rparr>))
       (\<lambda>st. Returns (st\<lparr>reclaim_cnt := fst (atomic_fetch_add (reclaim_cnt st) 1)\<rparr>))"

text \<open>\<open>delete current\<close> runs the deleter on the node; \<open>spurious\<close> is asked for each cell that is put back.\<close>

partial_function (option) delete_loop ::
  "(nat \<Rightarrow> bool list) \<Rightarrow> memory_order \<Rightarrow> nat option \<Rightarrow> reclaim_state \<Rightarrow> reclaim_state call_result option" where
  "delete_loop spurious Order current st =
     (case current of
        None \<Rightarrow> Some (Returns st)
      | Some a \<Rightarrow>
          (case cells st a of
             None \<Rightarrow> Some Undefined_behaviour
           | Some c \<Rightarrow>
               (case outstanding_hazard_pointers_for (data c) Order st of
                  Returns held \<Rightarrow>
                    if \<not> held then
                      delete_loop spurious (Select_order Order Relaxed) (next_cell c)
                        (st\<lparr>cells := (cells st)(a := None), deleted := deleted st @ [data c],
                            reclaim_cnt := reclaim_cnt st - 1\<rparr>)
                    else
                      (case add_to_reclaim_list (spurious a) a st of
                         Returns st' \<Rightarrow> delete_loop spurious (Select_order Order Acq_rel) (next_cell c) st'
                       | r \<Rightarrow> Some r)
                | _ \<Rightarrow> Some Undefined_behaviour)))"

definition delete_nodes_with_no_hazards ::
  "(nat \<Rightarrow> bool list) \<Rightarrow> memory_order \<Rightarrow> reclaim_state \<Rightarrow> reclaim_state call_result option" where
  "delete_nodes_with_no_hazards spurious Order st =
     (let (head', current) = atomic_exchange (node_to_reclaim st) None
      in delete_loop spurious Order current (st\<lparr>node_to_reclaim := head'\<rparr>))"

section \<open>Which nodes are deleted\<close>

text \<open>The slots the pass looks at, and the announcements it finds there.\<close>

definition in_use :: "reclaim_state \<Rightarrow> nat \<Rightarrow> bool" where
  "in_use st p \<longleftrightarrow> Some p \<in> set (drop start_cid (hazard_pointers st))"

definition slots_ok :: "reclaim_state \<Rightarrow> bool" where
  "slots_ok st \<longleftrightarrow> length (hazard_pointers st) = max_hazard_pointers"

lemma scan_hazards_ok:
  assumes "Order \<noteq> Release" "Order \<noteq> Acq_rel" and "\<forall>i\<in>set is. i < length (hazard_pointers st)"
  shows "scan_hazards p Order st is = Returns (\<exists>i\<in>set is. hazard_pointers st ! i = Some p)"
  using assms(3) by (induction "is") (use assms(1,2) in \<open>auto simp: load_hazard_def array_simps\<close>)

lemma outstanding_ok:
  assumes "slots_ok st" and "Order \<noteq> Release" "Order \<noteq> Acq_rel"
  shows "outstanding_hazard_pointers_for p Order st = Returns (in_use st p)"
proof -
  have "(\<exists>i\<in>{start_cid..<max_hazard_pointers}. hazard_pointers st ! i = Some p) \<longleftrightarrow> in_use st p"
  proof
    assume "\<exists>i\<in>{start_cid..<max_hazard_pointers}. hazard_pointers st ! i = Some p"
    then obtain i where "start_cid \<le> i" "i < max_hazard_pointers" "hazard_pointers st ! i = Some p" by auto
    then have "drop start_cid (hazard_pointers st) ! (i - start_cid) = Some p"
      and "i - start_cid < length (drop start_cid (hazard_pointers st))"
      using assms(1) by (simp_all add: slots_ok_def)
    then show "in_use st p" unfolding in_use_def by (metis nth_mem)
  next
    assume "in_use st p"
    then obtain k where "k < length (drop start_cid (hazard_pointers st))"
      "drop start_cid (hazard_pointers st) ! k = Some p"
      unfolding in_use_def by (metis in_set_conv_nth)
    then show "\<exists>i\<in>{start_cid..<max_hazard_pointers}. hazard_pointers st ! i = Some p"
      using assms(1) by (intro bexI [of _ "start_cid + k"]) (simp_all add: slots_ok_def)
  qed
  then show ?thesis
    using assms by (simp add: outstanding_hazard_pointers_for_def scan_hazards_ok slots_ok_def)
qed

lemma outstanding_bad_order:
  "outstanding_hazard_pointers_for p Acq_rel st = Undefined_behaviour"
proof -
  have "[start_cid..<max_hazard_pointers] = start_cid # [Suc start_cid..<max_hazard_pointers]"
    by (rule upt_conv_Cons) (simp add: start_cid_def max_hazard_pointers_def MAX_NR_THREADS_def)
  then show ?thesis by (simp add: outstanding_hazard_pointers_for_def load_hazard_def)
qed

text \<open>A list of cells in memory.\<close>

fun chain :: "(nat \<Rightarrow> data_to_reclaim option) \<Rightarrow> nat option \<Rightarrow> nat list \<Rightarrow> bool" where
  "chain cs p [] \<longleftrightarrow> p = None"
| "chain cs p (a # as) \<longleftrightarrow> p = Some a \<and> (case cs a of None \<Rightarrow> False | Some c \<Rightarrow> chain cs (next_cell c) as)"

text \<open>The node a cell holds.\<close>

definition cell_node :: "(nat \<Rightarrow> data_to_reclaim option) \<Rightarrow> nat \<Rightarrow> nat" where
  "cell_node cs a = (case cs a of None \<Rightarrow> 0 | Some c \<Rightarrow> data c)"

lemma chain_upd: "a \<notin> set as \<Longrightarrow> chain (cs(a := x)) p as = chain cs p as"
  by (induction "as" arbitrary: p) (auto split: option.splits)

lemma cell_node_upd: "b \<noteq> a \<Longrightarrow> cell_node (cs(a := x)) b = cell_node cs b"
  by (simp add: cell_node_def)

text \<open>Linking a cell succeeds, whatever attempts fail before, and makes it the head.\<close>

lemma add_to_reclaim_list_ok:
  assumes "cells st a = Some c"
  shows "add_to_reclaim_list spurious a st =
    Returns (st\<lparr>cells := (cells st)(a \<mapsto> c\<lparr>next_cell := node_to_reclaim st\<rparr>), node_to_reclaim := Some a\<rparr>)"
  using assms
proof (induction spurious a st arbitrary: c rule: add_to_reclaim_list.induct)
  case (1 spurious a st)
  note IH = "1.IH" and c = "1.prems"
  show ?case
  proof (cases "node_to_reclaim st = next_cell c \<and> \<not> (spurious \<noteq> [] \<and> hd spurious)")
    case True
    with c have "(cells st)(a \<mapsto> c\<lparr>next_cell := node_to_reclaim st\<rparr>) = cells st" by auto
    with True c show ?thesis by (subst add_to_reclaim_list.simps) simp
  next
    case False
    define c' where "c' = c\<lparr>next_cell := node_to_reclaim st\<rparr>"
    define st' where "st' = st\<lparr>cells := (cells st)(a \<mapsto> c')\<rparr>"
    have "add_to_reclaim_list spurious a st = add_to_reclaim_list (tl spurious) a st'"
      using False c by (subst add_to_reclaim_list.simps) (auto simp: st'_def c'_def)
    also have "\<dots> = Returns (st'\<lparr>cells := (cells st')(a \<mapsto> c'\<lparr>next_cell := node_to_reclaim st'\<rparr>),
        node_to_reclaim := Some a\<rparr>)"
      using IH [OF c False, of c'] by (simp add: st'_def c'_def fun_upd_def cong: if_cong)
    also have "st'\<lparr>cells := (cells st')(a \<mapsto> c'\<lparr>next_cell := node_to_reclaim st'\<rparr>), node_to_reclaim := Some a\<rparr> =
        st\<lparr>cells := (cells st)(a \<mapsto> c'), node_to_reclaim := Some a\<rparr>"
      by (simp add: st'_def c'_def fun_upd_def cong: if_cong)
    finally show ?thesis unfolding c'_def .
  qed
qed

text \<open>The state of the list: its cells, and the counter, which counts them.\<close>

definition retired :: "reclaim_state \<Rightarrow> nat list \<Rightarrow> bool" where
  "retired st as \<longleftrightarrow> slots_ok st \<and> distinct as \<and> chain (cells st) (node_to_reclaim st) as \<and>
     reclaim_cnt st = of_nat (length as)"

lemma same_nodes:
  assumes "\<forall>b\<in>set as. f b = g b"
  shows "map f as = map g as" and "filter (\<lambda>b. P (f b)) as = filter (\<lambda>b. P (g b)) as"
  using assms by (auto intro!: filter_cong)

lemma delete_loop_seq_cst:
  assumes "slots_ok st" and "distinct (as @ bs)" and "chain (cells st) p as"
    and "chain (cells st) (node_to_reclaim st) bs"
  shows "\<exists>st'. delete_loop spurious Seq_cst p st = Some (Returns st') \<and>
    hazard_pointers st' = hazard_pointers st \<and>
    chain (cells st') (node_to_reclaim st')
      (rev (filter (\<lambda>a. in_use st (cell_node (cells st) a)) as) @ bs) \<and>
    deleted st' = deleted st @ filter (\<lambda>q. \<not> in_use st q) (map (cell_node (cells st)) as) \<and>
    reclaim_cnt st' = reclaim_cnt st -
      of_nat (length (filter (\<lambda>a. \<not> in_use st (cell_node (cells st) a)) as)) \<and>
    (\<forall>a. a \<notin> set as \<longrightarrow> cells st' a = cells st a) \<and>
    (\<forall>a\<in>set as. in_use st (cell_node (cells st) a) \<longrightarrow> cell_node (cells st') a = cell_node (cells st) a)"
  using assms
proof (induction "as" arbitrary: p st bs)
  case Nil
  then show ?case by (subst delete_loop.simps) simp
next
  case (Cons a as)
  from Cons.prems(3) obtain c where p: "p = Some a" and c: "cells st a = Some c"
    and rest: "chain (cells st) (next_cell c) as" by (auto split: option.splits)
  have a: "a \<notin> set as" "a \<notin> set bs" using Cons.prems(2) by auto
  have select: "Select_order Seq_cst x = Seq_cst" for x by (simp add: Select_order_def)
  have nd: "cell_node (cells st) a = data c" by (simp add: cell_node_def c)
  note out = outstanding_ok [OF Cons.prems(1), of Seq_cst]
  show ?case
  proof (cases "in_use st (data c)")
    case False
    define st1 where "st1 = st\<lparr>cells := (cells st)(a := None), deleted := deleted st @ [data c],
        reclaim_cnt := reclaim_cnt st - 1\<rparr>"
    have st1: "cells st1 = (cells st)(a := None)" "node_to_reclaim st1 = node_to_reclaim st"
      "deleted st1 = deleted st @ [data c]" "reclaim_cnt st1 = reclaim_cnt st - 1"
      "hazard_pointers st1 = hazard_pointers st" "in_use st1 = in_use st" "slots_ok st1"
      using Cons.prems(1) by (simp_all add: st1_def in_use_def slots_ok_def fun_eq_iff)
    have step: "delete_loop spurious Seq_cst p st = delete_loop spurious Seq_cst (next_cell c) st1"
      using False by (subst delete_loop.simps) (simp add: p c out select st1_def)
    have pre: "distinct (as @ bs)" "chain (cells st1) (next_cell c) as"
      "chain (cells st1) (node_to_reclaim st1) bs"
      using Cons.prems rest a by (simp_all add: st1 chain_upd)
    obtain st' where st': "delete_loop spurious Seq_cst (next_cell c) st1 = Some (Returns st')"
      and "after": "hazard_pointers st' = hazard_pointers st1"
      "chain (cells st') (node_to_reclaim st')
         (rev (filter (\<lambda>b. in_use st (cell_node (cells st1) b)) as) @ bs)"
      "deleted st' = deleted st1 @ filter (\<lambda>q. \<not> in_use st q) (map (cell_node (cells st1)) as)"
      "reclaim_cnt st' = reclaim_cnt st1 -
         of_nat (length (filter (\<lambda>b. \<not> in_use st (cell_node (cells st1) b)) as))"
      "\<forall>b. b \<notin> set as \<longrightarrow> cells st' b = cells st1 b"
      "\<forall>b\<in>set as. in_use st (cell_node (cells st1) b) \<longrightarrow> cell_node (cells st') b = cell_node (cells st1) b"
      using Cons.IH [OF st1(7) pre] unfolding st1(6) by blast
    have nodes: "\<forall>b\<in>set as. cell_node (cells st1) b = cell_node (cells st) b"
      using a by (auto simp: st1 cell_node_def)
    note same = same_nodes(1) [OF nodes] same_nodes(2) [OF nodes, where P = "in_use st"]
      same_nodes(2) [OF nodes, where P = "\<lambda>q. \<not> in_use st q"]
    note "after" = "after" [unfolded same]
    show ?thesis
      using st' "after" False nodes a by (intro exI [of _ st']) (auto simp: step st1(1-5) nd)
  next
    case True
    define c' where "c' = c\<lparr>next_cell := node_to_reclaim st\<rparr>"
    define st1 where "st1 = st\<lparr>cells := (cells st)(a \<mapsto> c'), node_to_reclaim := Some a\<rparr>"
    have st1: "cells st1 = (cells st)(a := Some c')" "node_to_reclaim st1 = Some a"
      "deleted st1 = deleted st" "reclaim_cnt st1 = reclaim_cnt st"
      "hazard_pointers st1 = hazard_pointers st" "in_use st1 = in_use st" "slots_ok st1"
      using Cons.prems(1) by (simp_all add: st1_def in_use_def slots_ok_def fun_eq_iff)
    have step: "delete_loop spurious Seq_cst p st = delete_loop spurious Seq_cst (next_cell c) st1"
      using True by (subst delete_loop.simps)
        (simp add: p c out select add_to_reclaim_list_ok [OF c] st1_def c'_def)
    have pre: "distinct (as @ (a # bs))" "chain (cells st1) (next_cell c) as"
      "chain (cells st1) (node_to_reclaim st1) (a # bs)"
      using Cons.prems rest a by (auto simp: st1 chain_upd c'_def)
    obtain st' where st': "delete_loop spurious Seq_cst (next_cell c) st1 = Some (Returns st')"
      and "after": "hazard_pointers st' = hazard_pointers st1"
      "chain (cells st') (node_to_reclaim st')
         (rev (filter (\<lambda>b. in_use st (cell_node (cells st1) b)) as) @ a # bs)"
      "deleted st' = deleted st1 @ filter (\<lambda>q. \<not> in_use st q) (map (cell_node (cells st1)) as)"
      "reclaim_cnt st' = reclaim_cnt st1 -
         of_nat (length (filter (\<lambda>b. \<not> in_use st (cell_node (cells st1) b)) as))"
      "\<forall>b. b \<notin> set as \<longrightarrow> cells st' b = cells st1 b"
      "\<forall>b\<in>set as. in_use st (cell_node (cells st1) b) \<longrightarrow> cell_node (cells st') b = cell_node (cells st1) b"
      using Cons.IH [OF st1(7) pre] unfolding st1(6) by blast
    have nodes: "\<forall>b\<in>set as. cell_node (cells st1) b = cell_node (cells st) b"
      using a by (auto simp: st1 cell_node_def)
    note same = same_nodes(1) [OF nodes] same_nodes(2) [OF nodes, where P = "in_use st"]
      same_nodes(2) [OF nodes, where P = "\<lambda>q. \<not> in_use st q"]
    note "after" = "after" [unfolded same]
    have "cell_node (cells st') a = data c"
      using "after"(5) a by (simp add: cell_node_def st1 c'_def)
    then show ?thesis
      using st' "after" True nodes a by (intro exI [of _ st']) (auto simp: step st1(1-5) nd)
  qed
qed

text \<open>Retiring a node in a fresh cell, and a pass over the list, from one consistent state to the next.\<close>

lemma Retire_retired:
  assumes "retired st as" and "cells st a = None" and "a \<notin> set as"
  shows "\<exists>st'. Retire a spurious p st = Returns st' \<and> retired st' (a # as) \<and> cell_node (cells st') a = p \<and>
    hazard_pointers st' = hazard_pointers st \<and> deleted st' = deleted st \<and>
    (\<forall>b. b \<noteq> a \<longrightarrow> cells st' b = cells st b)"
proof -
  define st1 where "st1 = st\<lparr>cells := (cells st)(a \<mapsto> \<lparr>data = p, next_cell = None\<rparr>)\<rparr>"
  have c: "cells st1 a = Some \<lparr>data = p, next_cell = None\<rparr>" by (simp add: st1_def)
  show ?thesis
    using assms by (auto simp: Retire_def add_to_reclaim_list_ok [OF c, unfolded st1_def] retired_def
        slots_ok_def chain_upd cell_node_def atomic_fetch_add_def)
qed

lemma delete_nodes_retired:
  assumes "retired st as"
  shows "\<exists>st'. delete_nodes_with_no_hazards spurious Seq_cst st = Some (Returns st') \<and>
    retired st' (rev (filter (\<lambda>a. in_use st (cell_node (cells st) a)) as)) \<and>
    deleted st' = deleted st @ filter (\<lambda>p. \<not> in_use st p) (map (cell_node (cells st)) as) \<and>
    hazard_pointers st' = hazard_pointers st \<and>
    (\<forall>a\<in>set as. in_use st (cell_node (cells st) a) \<longrightarrow> cell_node (cells st') a = cell_node (cells st) a)"
proof -
  define st1 where "st1 = st\<lparr>node_to_reclaim := None\<rparr>"
  have st1: "cells st1 = cells st" "in_use st1 = in_use st" "deleted st1 = deleted st"
    "hazard_pointers st1 = hazard_pointers st" "reclaim_cnt st1 = reclaim_cnt st"
    by (simp_all add: st1_def in_use_def fun_eq_iff)
  have "slots_ok st1" "distinct (as @ [])" "chain (cells st1) (node_to_reclaim st) as"
    "chain (cells st1) (node_to_reclaim st1) []"
    using assms by (simp_all add: retired_def slots_ok_def st1_def)
  from delete_loop_seq_cst [OF this, of spurious] obtain st' where
    r: "delete_loop spurious Seq_cst (node_to_reclaim st) st1 = Some (Returns st')"
    and st': "hazard_pointers st' = hazard_pointers st"
      "chain (cells st') (node_to_reclaim st') (rev (filter (\<lambda>a. in_use st (cell_node (cells st) a)) as))"
      "deleted st' = deleted st @ filter (\<lambda>p. \<not> in_use st p) (map (cell_node (cells st)) as)"
      "reclaim_cnt st' = reclaim_cnt st - of_nat (length (filter (\<lambda>a. \<not> in_use st (cell_node (cells st) a)) as))"
      "\<forall>a\<in>set as. in_use st (cell_node (cells st) a) \<longrightarrow> cell_node (cells st') a = cell_node (cells st) a"
    by (auto simp: st1)
  have "of_nat (length as) - of_nat (length (filter (\<lambda>a. \<not> in_use st (cell_node (cells st) a)) as)) =
      (of_nat (length (filter (\<lambda>a. in_use st (cell_node (cells st) a)) as)) :: 32 word)"
    using sum_length_filter_compl [of "\<lambda>a. in_use st (cell_node (cells st) a)" "as"]
    by (metis add_diff_cancel_right' of_nat_add)
  with st' assms have "retired st' (rev (filter (\<lambda>a. in_use st (cell_node (cells st) a)) as))"
    by (simp add: retired_def slots_ok_def)
  with r st' show ?thesis
    by (auto simp: delete_nodes_with_no_hazards_def atomic_exchange_def st1_def)
qed

text \<open>
  C7: the reclamation invariant: the list of retired nodes is a well-formed list of distinct cells
  whose number is \<open>reclaim_cnt\<close>. \<open>Retire\<close> keeps it, adding one node, whatever attempts of its loop
  fail; and \<open>delete_nodes_with_no_hazards\<close> keeps it: it ends, passes exactly the nodes that no slot
  from \<open>start_cid\<close> on announces to their deleters, each once and in list order, and puts the others
  back.
\<close>

theorem reclaim_invariant:
  assumes "retired st as"
  shows "(cells st a = None \<and> a \<notin> set as \<longrightarrow> (\<exists>st'. Retire a spurious p st = Returns st' \<and>
      retired st' (a # as) \<and> cell_node (cells st') a = p \<and> deleted st' = deleted st)) \<and>
    (\<exists>st'. delete_nodes_with_no_hazards retries Seq_cst st = Some (Returns st') \<and>
      retired st' (rev (filter (\<lambda>a. in_use st (cell_node (cells st) a)) as)) \<and>
      deleted st' = deleted st @ filter (\<lambda>p. \<not> in_use st p) (map (cell_node (cells st)) as))"
  using Retire_retired [OF assms, of a spurious p] delete_nodes_retired [OF assms, of retries] by blast

text \<open>Two retired nodes, 7 and 9; thread 20 announces 7 and thread 3 announces 9.\<close>

definition reclaim_example :: reclaim_state where
  "reclaim_example = \<lparr>hazard_pointers = (replicate 28 None)[20 := Some 7, 3 := Some 9],
     cells = [11 \<mapsto> \<lparr>data = 7, next_cell = Some 12\<rparr>, 12 \<mapsto> \<lparr>data = 9, next_cell = None\<rparr>],
     node_to_reclaim = Some 11, reclaim_cnt = 2, deleted = []\<rparr>"

lemma slots_eval: "start_cid = 14" "max_hazard_pointers = 28"
  by (simp_all add: start_cid_def max_hazard_pointers_def MAX_NR_THREADS_def)

lemma reclaim_example_ok:
  "retired reclaim_example [11, 12]" "in_use reclaim_example 7" "\<not> in_use reclaim_example 9"
  "cell_node (cells reclaim_example) 11 = 7" "cell_node (cells reclaim_example) 12 = 9"
  "deleted reclaim_example = []" "hazard_pointers reclaim_example ! 3 = Some 9"
  by (auto simp: reclaim_example_def retired_def slots_ok_def slots_eval in_use_def cell_node_def
      drop_update_swap set_update_memI dest!: set_update_subset_insert [THEN subsetD])

lemma reclaim_invariant_witness:
  "\<exists>st'. delete_nodes_with_no_hazards (\<lambda>_. [True, True]) Seq_cst reclaim_example = Some (Returns st') \<and>
    retired st' [11] \<and> deleted st' = [9]"
  using reclaim_invariant [OF reclaim_example_ok(1), where retries = "\<lambda>_. [True, True]"]
  by (auto simp: reclaim_example_ok)

section \<open>Which announcements count\<close>

text \<open>
  A hazard pointer protects nothing unless it is in the upper half of the slots: a node that is
  announced by threads below \<open>start_cid\<close> = 14 only is deleted by the next pass all the same, although
  \<open>pop\<close> of the lock-free stack announces in the slot of its thread number, and the numbers of the
  consumers start at the number of pairs.
\<close>

theorem lower_slots_ignored:
  assumes "retired st as" and "a \<in> set as" and "tid < start_cid"
    and "hazard_pointers st ! tid = Some (cell_node (cells st) a)"
    and "\<And>i. start_cid \<le> i \<Longrightarrow> i < max_hazard_pointers \<Longrightarrow>
      hazard_pointers st ! i \<noteq> Some (cell_node (cells st) a)"
  shows "\<exists>st'. delete_nodes_with_no_hazards retries Seq_cst st = Some (Returns st') \<and>
    cell_node (cells st) a \<in> set (deleted st') \<and> hazard_pointers st' ! tid = Some (cell_node (cells st) a)"
proof -
  have "\<not> in_use st (cell_node (cells st) a)"
  proof
    assume "in_use st (cell_node (cells st) a)"
    then obtain k where "k < length (drop start_cid (hazard_pointers st))"
      "drop start_cid (hazard_pointers st) ! k = Some (cell_node (cells st) a)"
      unfolding in_use_def by (metis in_set_conv_nth)
    with assms(1) assms(5) [of "start_cid + k"] show False by (auto simp: retired_def slots_ok_def)
  qed
  with delete_nodes_retired [OF assms(1), of retries] assms(2,4) show ?thesis by fastforce
qed

lemma lower_slots_ignored_witness:
  "\<exists>st'. delete_nodes_with_no_hazards (\<lambda>_. []) Seq_cst reclaim_example = Some (Returns st') \<and>
    9 \<in> set (deleted st') \<and> hazard_pointers st' ! 3 = Some 9"
proof -
  have "hazard_pointers reclaim_example ! i \<noteq> Some 9" if "start_cid \<le> i" "i < max_hazard_pointers" for i
    using that by (auto simp: reclaim_example_def slots_eval nth_list_update)
  with lower_slots_ignored [OF reclaim_example_ok(1), of 12 3 "\<lambda>_. []"] show ?thesis
    by (simp add: reclaim_example_ok slots_eval)
qed

lemma delete_loop_acquire:
  assumes "slots_ok st" and "distinct (as @ a # bs)" and "bs \<noteq> []" and "chain (cells st) p (as @ a # bs)"
    and "\<forall>b\<in>set as. \<not> in_use st (cell_node (cells st) b)" and "in_use st (cell_node (cells st) a)"
    and "Order \<in> {Acquire, Relaxed}"
  shows "delete_loop spurious Order p st = Some Undefined_behaviour"
  using assms
proof (induction "as" arbitrary: p st Order)
  case Nil
  then obtain c b bs' where p: "p = Some a" and c: "cells st a = Some c" and bs: "bs = b # bs'"
    and rest: "chain (cells st) (next_cell c) bs" by (cases bs) (auto split: option.splits)
  then obtain d where b: "next_cell c = Some b" and d: "cells st b = Some d" by (auto split: option.splits)
  have ab: "b \<noteq> a" using Nil.prems(2) bs by auto
  have Order: "Order \<noteq> Release" "Order \<noteq> Acq_rel" "Order \<noteq> Seq_cst" using Nil.prems(7) by auto
  have held: "outstanding_hazard_pointers_for (data c) Order st = Returns True"
    using Nil.prems(6) by (simp add: outstanding_ok [OF Nil.prems(1) Order(1,2)] cell_node_def c)
  define st1 where "st1 = st\<lparr>cells := (cells st)(a \<mapsto> c\<lparr>next_cell := node_to_reclaim st\<rparr>), node_to_reclaim := Some a\<rparr>"
  have "delete_loop spurious Order p st = delete_loop spurious Acq_rel (Some b) st1"
    by (subst delete_loop.simps)
      (simp add: p c held Select_order_def Order b add_to_reclaim_list_ok [OF c] st1_def)
  also have "\<dots> = Some Undefined_behaviour"
    using ab by (subst delete_loop.simps) (simp add: st1_def d outstanding_bad_order)
  finally show ?case .
next
  case (Cons x as)
  then obtain c where p: "p = Some x" and c: "cells st x = Some c"
    and rest: "chain (cells st) (next_cell c) (as @ a # bs)" by (auto split: option.splits)
  have x: "x \<notin> set (as @ a # bs)" using Cons.prems(2) by auto
  have Order: "Order \<noteq> Release" "Order \<noteq> Acq_rel" "Order \<noteq> Seq_cst" using Cons.prems(7) by auto
  have free: "outstanding_hazard_pointers_for (data c) Order st = Returns False"
    using Cons.prems(5) by (simp add: outstanding_ok [OF Cons.prems(1) Order(1,2)] cell_node_def c)
  define st1 where "st1 = st\<lparr>cells := (cells st)(x := None), deleted := deleted st @ [data c],
      reclaim_cnt := reclaim_cnt st - 1\<rparr>"
  have st1: "cells st1 = (cells st)(x := None)" "slots_ok st1" "in_use st1 = in_use st"
    using Cons.prems(1) by (simp_all add: st1_def slots_ok_def in_use_def fun_eq_iff)
  have "delete_loop spurious Order p st = delete_loop spurious Relaxed (next_cell c) st1"
    by (subst delete_loop.simps) (simp add: p c free Select_order_def Order st1_def)
  also have "\<dots> = Some Undefined_behaviour"
  proof (rule Cons.IH)
    show "chain (cells st1) (next_cell c) (as @ a # bs)" using rest by (simp only: st1 chain_upd [OF x])
    show "\<forall>b\<in>set as. \<not> in_use st1 (cell_node (cells st1) b)" "in_use st1 (cell_node (cells st1) a)"
      using Cons.prems(5,6) x unfolding st1 by (metis Un_iff list.set_intros cell_node_upd set_append)+
  qed (use Cons.prems st1 in simp_all)
  finally show ?case .
qed

text \<open>
  C35: with the acquire order, as the acquire/release variant of the stack calls it, a pass over a list
  in which an announced node is followed by another one is undefined: putting the node back changes
  the order to acquire-release, which the next load of a hazard pointer may not have.
\<close>

theorem acquire_pass_undefined:
  assumes "retired st (as @ a # bs)" and "bs \<noteq> []" and "in_use st (cell_node (cells st) a)"
    and "filter (in_use st) (map (cell_node (cells st)) as) = []"
  shows "delete_nodes_with_no_hazards retries Acquire st = Some Undefined_behaviour"
proof -
  let ?st = "st\<lparr>node_to_reclaim := None\<rparr>"
  have "in_use ?st = in_use st" by (simp add: in_use_def fun_eq_iff)
  moreover have "\<forall>b\<in>set as. \<not> in_use st (cell_node (cells st) b)"
    using assms(4) by (simp add: filter_empty_conv)
  ultimately show ?thesis
    using assms(1-3) delete_loop_acquire [of ?st "as" a bs "node_to_reclaim st" Acquire retries]
    by (simp add: delete_nodes_with_no_hazards_def atomic_exchange_def retired_def slots_ok_def)
qed

lemma acquire_pass_undefined_witness:
  "delete_nodes_with_no_hazards (\<lambda>_. []) Acquire reclaim_example = Some Undefined_behaviour"
  using acquire_pass_undefined [of reclaim_example "[]" 11 "[12]"] by (simp add: reclaim_example_ok)

end
