(* ===== verification/COstack.thy ===== *)
theory COstack
  imports Interleave Hazard_Pointers
begin

text \<open>
  The lock-free stack with hazard pointers (\<open>benchmark/nonblocking/COstack/COstack_sc.cpp\<close>) under every
  interleaving of its producers and consumers: the operations of \<open>Hazard_Pointers\<close>, which \<open>pop\<close> calls,
  are taken apart into their accesses to shared variables here.
\<close>

section \<open>Memory and threads\<close>

record node =
  node_data :: "int option"
  node_next :: "nat option"

text \<open>\<open>nodes\<close>: the nodes that are allocated.\<close>

record stack_mem = reclaim_state +
  head :: "nat option"
  nodes :: "nat \<Rightarrow> node option"

text \<open>
  The surroundings: the memory allocator, which returns an address that is not in use or throws
  (\<open>None\<close>), possibly one that was freed before; and the weak exchanges that fail without a reason.
\<close>

record surroundings =
  new_node_at :: "stack_mem \<Rightarrow> nat option"
  new_cell_at :: "stack_mem \<Rightarrow> nat option"
  weak_fails :: "stack_mem \<Rightarrow> bool"

definition allocates :: "surroundings \<Rightarrow> bool" where
  "allocates A \<longleftrightarrow> (\<forall>s a. new_node_at A s = Some a \<longrightarrow> nodes s a = None) \<and>
     (\<forall>s a. new_cell_at A s = Some a \<longrightarrow> cells s a = None)"

text \<open>An allocator that never hands out an address twice: addresses are numbered by thread and step.\<close>

definition address :: "nat \<Rightarrow> nat \<Rightarrow> nat" where
  "address i k = max_hazard_pointers * k + i"

definition by_step :: "nat \<Rightarrow> nat \<Rightarrow> surroundings" where
  "by_step i k = \<lparr>new_node_at = (\<lambda>s. if nodes s (address i k) = None then Some (address i k) else None),
     new_cell_at = (\<lambda>s. if cells s (address i k) = None then Some (address i k) else None),
     weak_fails = (\<lambda>s. False)\<rparr>"

lemma by_step_allocates: "allocates (by_step i k)"
  by (auto simp: allocates_def by_step_def split: if_splits)

datatype co_pc =
    Push_new | Push_load | Push_cas
  | Pop_load | Pop_store | Pop_reload | Pop_next | Pop_cas | Pop_clear | Pop_swap
  | Retire_new | Retire_cas | Retire_count | Pop_test
  | Del_exchange | Del_loop | Del_scan | Del_free | Del_count | Del_back
  | Finished | Bad_alloc | Bad_access

text \<open>
  The variables of a thread: \<open>round\<close> counts the iterations of its loop; \<open>cell\<close> is \<open>node\<close> of
  \<open>add_to_reclaim_list\<close> and \<open>current\<close> of \<open>delete_nodes_with_no_hazards\<close>, \<open>rest\<close> its \<open>next\<close>, and \<open>slot\<close> the
  index of \<open>outstanding_hazard_pointers_for\<close>. The steps are counted, so that the surroundings may answer
  the same question differently each time.
\<close>

record co_thread =
  pc :: co_pc
  round :: int
  new_node :: nat
  old_head :: "nat option"
  temp :: "nat option"
  next_node :: "nat option"
  res :: "int option"
  cell :: "nat option"
  rest :: "nat option"
  slot :: nat
  steps :: nat

section \<open>Pushing\<close>

definition sync_push :: "surroundings \<Rightarrow> int \<Rightarrow> stack_mem \<Rightarrow> co_thread \<Rightarrow> (stack_mem \<times> co_thread) option" where
  "sync_push A iter s l =
     (case pc l of
        Push_new \<Rightarrow>
          if round l < iter then
            (case new_node_at A s of
               None \<Rightarrow> Some (s, l\<lparr>pc := Bad_alloc\<rparr>)
             | Some a \<Rightarrow> Some (s\<lparr>nodes := (nodes s)(a \<mapsto> \<lparr>node_data = Some (round l), node_next = None\<rparr>)\<rparr>,
                 l\<lparr>new_node := a, pc := Push_load\<rparr>))
          else Some (s, l\<lparr>pc := Finished\<rparr>)
      | Push_load \<Rightarrow>
          (case nodes s (new_node l) of
             None \<Rightarrow> Some (s, l\<lparr>pc := Bad_access\<rparr>)
           | Some nd \<Rightarrow> Some (s\<lparr>nodes := (nodes s)(new_node l \<mapsto> nd\<lparr>node_next := head s\<rparr>)\<rparr>, l\<lparr>pc := Push_cas\<rparr>))
      | Push_cas \<Rightarrow>
          (case nodes s (new_node l) of
             None \<Rightarrow> Some (s, l\<lparr>pc := Bad_access\<rparr>)
           | Some nd \<Rightarrow>
               if head s = node_next nd \<and> \<not> weak_fails A s
               then Some (s\<lparr>head := Some (new_node l)\<rparr>, l\<lparr>round := round l + 1, pc := Push_new\<rparr>)
               else Some (s\<lparr>nodes := (nodes s)(new_node l \<mapsto> nd\<lparr>node_next := head s\<rparr>)\<rparr>, l))
      | _ \<Rightarrow> None)"

section \<open>Popping\<close>

text \<open>After a call of \<open>pop\<close>: the next round of the loop with a counter, or of the loop after it.\<close>

definition pop_returns :: "int \<Rightarrow> co_thread \<Rightarrow> co_thread" where
  "pop_returns iter l =
     (if round l < iter then l\<lparr>round := round l + 1, pc := Pop_load\<rparr>
      else if res l \<noteq> None then l\<lparr>pc := Pop_load\<rparr>
      else l\<lparr>pc := Finished\<rparr>)"

text \<open>The exchange in \<open>add_to_reclaim_list\<close>, for the cell of the thread.\<close>

definition link_cell :: "surroundings \<Rightarrow> co_thread \<Rightarrow> stack_mem \<Rightarrow> co_thread \<Rightarrow> stack_mem \<times> co_thread" where
  "link_cell A after s l =
     (case cell l of
        None \<Rightarrow> (s, l\<lparr>pc := Bad_access\<rparr>)
      | Some c \<Rightarrow>
          (case cells s c of
             None \<Rightarrow> (s, l\<lparr>pc := Bad_access\<rparr>)
           | Some d \<Rightarrow>
               if node_to_reclaim s = next_cell d \<and> \<not> weak_fails A s
               then (s\<lparr>node_to_reclaim := Some c\<rparr>, after)
               else (s\<lparr>cells := (cells s)(c \<mapsto> d\<lparr>next_cell := node_to_reclaim s\<rparr>)\<rparr>, l)))"

definition sync_pop :: "surroundings \<Rightarrow> int \<Rightarrow> nat \<Rightarrow> stack_mem \<Rightarrow> co_thread \<Rightarrow> (stack_mem \<times> co_thread) option" where
  "sync_pop A iter tid s l =
     (case pc l of
        Pop_load \<Rightarrow> Some (s, l\<lparr>old_head := head s, res := None, pc := Pop_store\<rparr>)
      | Pop_store \<Rightarrow>
          (case array_store (hazard_pointers s) tid (old_head l) of
             None \<Rightarrow> Some (s, l\<lparr>pc := Bad_access\<rparr>)
           | Some hp \<Rightarrow> Some (s\<lparr>hazard_pointers := hp\<rparr>, l\<lparr>temp := old_head l, pc := Pop_reload\<rparr>))
      | Pop_reload \<Rightarrow>
          Some (s, l\<lparr>old_head := head s,
            pc := (if head s \<noteq> temp l then Pop_store else if head s = None then Pop_clear else Pop_next)\<rparr>)
      | Pop_next \<Rightarrow>
          (case old_head l of
             None \<Rightarrow> Some (s, l\<lparr>pc := Bad_access\<rparr>)
           | Some a \<Rightarrow>
               (case nodes s a of
                  None \<Rightarrow> Some (s, l\<lparr>pc := Bad_access\<rparr>)
                | Some nd \<Rightarrow> Some (s, l\<lparr>next_node := node_next nd, pc := Pop_cas\<rparr>)))
      | Pop_cas \<Rightarrow>
          if head s = old_head l then Some (s\<lparr>head := next_node l\<rparr>, l\<lparr>pc := Pop_clear\<rparr>)
          else Some (s, l\<lparr>old_head := head s, pc := Pop_store\<rparr>)
      | Pop_clear \<Rightarrow>
          (case array_store (hazard_pointers s) tid None of
             None \<Rightarrow> Some (s, l\<lparr>pc := Bad_access\<rparr>)
           | Some hp \<Rightarrow> Some (s\<lparr>hazard_pointers := hp\<rparr>,
               if old_head l = None then pop_returns iter l else l\<lparr>pc := Pop_swap\<rparr>))
      | Pop_swap \<Rightarrow>
          (case old_head l of
             None \<Rightarrow> Some (s, l\<lparr>pc := Bad_access\<rparr>)
           | Some a \<Rightarrow>
               (case nodes s a of
                  None \<Rightarrow> Some (s, l\<lparr>pc := Bad_access\<rparr>)
                | Some nd \<Rightarrow> Some (s\<lparr>nodes := (nodes s)(a \<mapsto> nd\<lparr>node_data := res l\<rparr>)\<rparr>,
                    l\<lparr>res := node_data nd, pc := Retire_new\<rparr>)))
      | Retire_new \<Rightarrow>
          (case (old_head l, new_cell_at A s) of
             (Some a, Some c) \<Rightarrow> Some (s\<lparr>cells := (cells s)(c \<mapsto> \<lparr>data = a, next_cell = None\<rparr>)\<rparr>,
               l\<lparr>cell := Some c, pc := Retire_cas\<rparr>)
           | _ \<Rightarrow> Some (s, l\<lparr>pc := Bad_alloc\<rparr>))
      | Retire_cas \<Rightarrow> Some (link_cell A (l\<lparr>pc := Retire_count\<rparr>) s l)
      | Retire_count \<Rightarrow> Some (s\<lparr>reclaim_cnt := reclaim_cnt s + 1\<rparr>, l\<lparr>pc := Pop_test\<rparr>)
      | Pop_test \<Rightarrow>
          Some (s, if 100 \<le> sint (reclaim_cnt s) then l\<lparr>pc := Del_exchange\<rparr> else pop_returns iter l)
      | Del_exchange \<Rightarrow> Some (s\<lparr>node_to_reclaim := None\<rparr>, l\<lparr>cell := node_to_reclaim s, pc := Del_loop\<rparr>)
      | Del_loop \<Rightarrow>
          (case cell l of
             None \<Rightarrow> Some (s, pop_returns iter l)
           | Some c \<Rightarrow>
               (case cells s c of
                  None \<Rightarrow> Some (s, l\<lparr>pc := Bad_access\<rparr>)
                | Some d \<Rightarrow> Some (s, l\<lparr>rest := next_cell d, slot := start_cid, pc := Del_scan\<rparr>)))
      | Del_scan \<Rightarrow>
          if \<not> slot l < max_hazard_pointers then Some (s, l\<lparr>pc := Del_free\<rparr>)
          else
            (case Option.bind (cell l) (cells s) of
               None \<Rightarrow> Some (s, l\<lparr>pc := Bad_access\<rparr>)
             | Some d \<Rightarrow>
                 (case array_load (hazard_pointers s) (slot l) of
                    None \<Rightarrow> Some (s, l\<lparr>pc := Bad_access\<rparr>)
                  | Some p \<Rightarrow>
                      Some (s, if p = Some (data d) then l\<lparr>pc := Del_back\<rparr> else l\<lparr>slot := slot l + 1\<rparr>)))
      | Del_free \<Rightarrow>
          (case cell l of
             None \<Rightarrow> Some (s, l\<lparr>pc := Bad_access\<rparr>)
           | Some c \<Rightarrow>
               (case cells s c of
                  None \<Rightarrow> Some (s, l\<lparr>pc := Bad_access\<rparr>)
                | Some d \<Rightarrow>
                    if nodes s (data d) = None then Some (s, l\<lparr>pc := Bad_access\<rparr>)
                    else Some (s\<lparr>cells := (cells s)(c := None), nodes := (nodes s)(data d := None),
                        deleted := deleted s @ [data d]\<rparr>, l\<lparr>pc := Del_count\<rparr>)))
      | Del_count \<Rightarrow> Some (s\<lparr>reclaim_cnt := reclaim_cnt s - 1\<rparr>, l\<lparr>cell := rest l, pc := Del_loop\<rparr>)
      | Del_back \<Rightarrow> Some (link_cell A (l\<lparr>cell := rest l, pc := Del_loop\<rparr>) s l)
      | _ \<Rightarrow> None)"

text \<open>
  The driver gives the threads \<open>0\<close> to \<open>n - 1\<close> to producers and \<open>n\<close> to \<open>2 * n - 1\<close> to consumers; its
  \<open>tid\<close> argument is the number of the slot in which a consumer announces.
\<close>

definition co_prog :: "(nat \<Rightarrow> nat \<Rightarrow> surroundings) \<Rightarrow> nat \<Rightarrow> (nat \<Rightarrow> int) \<Rightarrow> (stack_mem, co_thread) prog" where
  "co_prog A n iter i s l =
     map_option (\<lambda>(s', l'). (s', l'\<lparr>steps := steps l + 1\<rparr>))
       (if i < n then sync_push (A i (steps l)) (iter i) s l else sync_pop (A i (steps l)) (iter i) i s l)"

definition co_mem0 :: stack_mem where
  "co_mem0 = \<lparr>hazard_pointers = replicate max_hazard_pointers None, cells = (\<lambda>_. None), node_to_reclaim = None,
     reclaim_cnt = 0, deleted = [], head = None, nodes = (\<lambda>_. None)\<rparr>"

definition co_thread0 :: "nat \<Rightarrow> nat \<Rightarrow> co_thread" where
  "co_thread0 n i = \<lparr>pc = (if i < n then Push_new else Pop_load), round = 0, new_node = 0, old_head = None,
     temp = None, next_node = None, res = None, cell = None, rest = None, slot = 0, steps = 0\<rparr>"

definition co_start :: "nat \<Rightarrow> (stack_mem, co_thread) cfg" where
  "co_start n = (co_mem0, co_thread0 n)"

end
