(* ===== verification/COstack_Invariant.thy ===== *)
theory COstack_Invariant
  imports COstack
begin

text \<open>
  The invariant of the lock-free stack: which thread, or which list, every node and every cell belongs
  to, and that no pass has gone past the announcement of a node in use. It holds in every reachable
  configuration when the threads that take part announce in the slots the passes look at, so no
  thread ever uses or deletes a node that is not allocated.
\<close>

section \<open>Who may use a node\<close>

text \<open>
  The owner of a node or a cell is a ghost: a node is in the stack, held by a thread, in the list of
  retired nodes, lost with a thread that ran out of memory, or not allocated. Nodes that are not a producer's own may be reached by consumers.
\<close>

datatype owner = Nobody | In_stack | Retired | Lost | Of nat

definition reachable :: "nat \<Rightarrow> (nat \<Rightarrow> owner) \<Rightarrow> nat \<Rightarrow> bool" where
  "reachable n own a \<longleftrightarrow> own a \<noteq> Nobody \<and> (\<forall>j<n. own a \<noteq> Of j)"

fun schain :: "(nat \<Rightarrow> node option) \<Rightarrow> nat option \<Rightarrow> nat list \<Rightarrow> bool" where
  "schain ns p [] \<longleftrightarrow> p = None"
| "schain ns p (a # as) \<longleftrightarrow> p = Some a \<and> (case ns a of None \<Rightarrow> False | Some nd \<Rightarrow> schain ns (node_next nd) as)"

text \<open>The cells and the nodes a thread holds.\<close>

definition thread_cells :: "stack_mem \<Rightarrow> co_thread \<Rightarrow> nat list \<Rightarrow> bool" where
  "thread_cells s l cs \<longleftrightarrow>
     (if pc l = Retire_cas then \<exists>c. cell l = Some c \<and> cs = [c]
      else if pc l = Del_loop then chain (cells s) (cell l) cs
      else if pc l \<in> {Del_scan, Del_free, Del_back} then
        \<exists>c cs'. cell l = Some c \<and> cs = c # cs' \<and> chain (cells s) (rest l) cs'
      else if pc l = Del_count then chain (cells s) (rest l) cs
      else cs = [])"

definition thread_nodes :: "stack_mem \<Rightarrow> co_thread \<Rightarrow> nat list \<Rightarrow> nat list" where
  "thread_nodes s l cs =
     (if pc l \<in> {Push_load, Push_cas} then [new_node l]
      else if pc l \<in> {Pop_clear, Pop_swap, Retire_new} then (case old_head l of None \<Rightarrow> [] | Some a \<Rightarrow> [a])
      else map (cell_node (cells s)) cs)"

definition thread_ok :: "stack_mem \<Rightarrow> (nat \<Rightarrow> owner) \<Rightarrow> (nat \<Rightarrow> owner) \<Rightarrow> nat \<Rightarrow> co_thread \<Rightarrow> bool" where
  "thread_ok s own cown i l \<longleftrightarrow> (\<exists>cs. thread_cells s l cs \<and> distinct cs \<and>
     (\<forall>c. cown c = Of i \<longleftrightarrow> c \<in> set cs) \<and> distinct (thread_nodes s l cs) \<and>
     (\<forall>a. own a = Of i \<longleftrightarrow> a \<in> set (thread_nodes s l cs)))"

definition place_ok :: "nat \<Rightarrow> nat \<Rightarrow> co_thread \<Rightarrow> bool" where
  "place_ok n i l \<longleftrightarrow>
     (if i < n then pc l \<in> {Push_new, Push_load, Push_cas, Finished, Bad_alloc}
      else pc l \<notin> {Push_new, Push_load, Push_cas, Bad_access}) \<and>
     (pc l \<in> {Pop_swap, Retire_new, Pop_next, Pop_cas} \<longrightarrow> old_head l \<noteq> None)"

text \<open>
  Where a consumer has checked that the node it announced is still the head, the announcement is in
  its slot, the node is allocated, and no pass that could delete it has gone past the slot.
\<close>

definition guarded :: "co_thread \<Rightarrow> bool" where
  "guarded l \<longleftrightarrow> pc l \<in> {Pop_next, Pop_cas}"

definition guard_ok :: "nat \<Rightarrow> stack_mem \<Rightarrow> (nat \<Rightarrow> owner) \<Rightarrow> nat \<Rightarrow> co_thread \<Rightarrow> bool" where
  "guard_ok n s own i l \<longleftrightarrow>
     (pc l = Pop_reload \<longrightarrow> i < max_hazard_pointers \<and> hazard_pointers s ! i = temp l) \<and>
     (guarded l \<longrightarrow> i < max_hazard_pointers \<and> hazard_pointers s ! i = old_head l \<and>
       (\<forall>a. old_head l = Some a \<longrightarrow> reachable n own a \<and>
         (pc l = Pop_cas \<longrightarrow> (\<exists>nd. nodes s a = Some nd \<and> node_next nd = next_node l))))"

definition passed :: "stack_mem \<Rightarrow> co_thread \<Rightarrow> nat \<Rightarrow> nat \<Rightarrow> bool" where
  "passed s l i a \<longleftrightarrow> (pc l = Del_free \<or> pc l = Del_scan \<and> i < slot l) \<and>
     (\<exists>c. cell l = Some c \<and> cell_node (cells s) c = a)"

definition mem_ok :: "stack_mem \<Rightarrow> (nat \<Rightarrow> owner) \<Rightarrow> (nat \<Rightarrow> owner) \<Rightarrow> nat list \<Rightarrow> nat list \<Rightarrow> bool" where
  "mem_ok s own cown xs rs \<longleftrightarrow>
     length (hazard_pointers s) = max_hazard_pointers \<and>
     schain (nodes s) (head s) xs \<and> distinct xs \<and> (\<forall>a. own a = In_stack \<longleftrightarrow> a \<in> set xs) \<and>
     chain (cells s) (node_to_reclaim s) rs \<and> distinct rs \<and> (\<forall>c. cown c = Retired \<longleftrightarrow> c \<in> set rs) \<and>
     distinct (map (cell_node (cells s)) rs) \<and>
     (\<forall>a. own a = Retired \<longleftrightarrow> a \<in> set (map (cell_node (cells s)) rs)) \<and>
     (\<forall>a. own a = Nobody \<longleftrightarrow> nodes s a = None) \<and> (\<forall>c. cown c = Nobody \<longleftrightarrow> cells s c = None) \<and>
     (\<forall>c. cown c \<noteq> In_stack)"

definition co_ok :: "nat \<Rightarrow> (stack_mem, co_thread) cfg \<Rightarrow> (nat \<Rightarrow> owner) \<Rightarrow> (nat \<Rightarrow> owner) \<Rightarrow> nat list \<Rightarrow> nat list \<Rightarrow> bool" where
  "co_ok n c own cown xs rs \<longleftrightarrow> mem_ok (fst c) own cown xs rs \<and>
     (\<forall>i. thread_ok (fst c) own cown i (snd c i) \<and> place_ok n i (snd c i) \<and> guard_ok n (fst c) own i (snd c i)) \<and>
     (\<forall>i j a. guarded (snd c i) \<longrightarrow> old_head (snd c i) = Some a \<longrightarrow> \<not> passed (fst c) (snd c j) i a)"

definition co_inv :: "nat \<Rightarrow> (stack_mem, co_thread) cfg \<Rightarrow> bool" where
  "co_inv n c \<longleftrightarrow> (\<exists>own cown xs rs. co_ok n c own cown xs rs)"

section \<open>Chains\<close>

lemma chain_cong: "(\<And>c. c \<in> set cs \<Longrightarrow> m' c = m c) \<Longrightarrow> chain m' p cs = chain m p cs"
  by (induction cs arbitrary: p) (auto split: option.splits)

lemma schain_cong: "(\<And>a. a \<in> set xs \<Longrightarrow> m' a = m a) \<Longrightarrow> schain m' p xs = schain m p xs"
  by (induction xs arbitrary: p) (auto split: option.splits)

lemma schain_upd: "a \<notin> set xs \<Longrightarrow> schain (ns(a := x)) p xs = schain ns p xs"
  by (rule schain_cong) auto

lemma cell_node_cong: "m' c = m c \<Longrightarrow> cell_node m' c = cell_node m c"
  by (simp add: cell_node_def)

lemma thread_cells_cong:
  assumes "\<And>c. c \<in> set cs \<Longrightarrow> cells s' c = cells s c"
  shows "thread_cells s' l cs = thread_cells s l cs"
proof -
  have "chain (cells s') p cs = chain (cells s) p cs" for p using assms by (rule chain_cong)
  moreover have "cs = c # cs' \<Longrightarrow> chain (cells s') p cs' = chain (cells s) p cs'" for c cs' p
    using assms by (intro chain_cong) simp
  ultimately show ?thesis by (auto simp: thread_cells_def)
qed

lemma thread_nodes_cong:
  assumes "\<And>c. c \<in> set cs \<Longrightarrow> cells s' c = cells s c"
  shows "thread_nodes s' l cs = thread_nodes s l cs"
  using assms by (auto simp: thread_nodes_def cell_node_def)

text \<open>A thread is not affected by what happens to cells and nodes that are not its own.\<close>

lemma thread_ok_cong:
  assumes "thread_ok s own cown i l" and "\<And>c. cown c = Of i \<Longrightarrow> cells s' c = cells s c"
    and "\<And>a. (own' a = Of i) = (own a = Of i)" and "\<And>c. (cown' c = Of i) = (cown c = Of i)"
  shows "thread_ok s' own' cown' i l"
proof -
  obtain cs where cs: "thread_cells s l cs" "distinct cs" "\<forall>c. cown c = Of i \<longleftrightarrow> c \<in> set cs"
    "distinct (thread_nodes s l cs)" "\<forall>a. own a = Of i \<longleftrightarrow> a \<in> set (thread_nodes s l cs)"
    using assms(1) by (auto simp: thread_ok_def)
  then have "\<And>c. c \<in> set cs \<Longrightarrow> cells s' c = cells s c" using assms(2) by auto
  note same = thread_cells_cong [OF this] thread_nodes_cong [OF this]
  show ?thesis unfolding thread_ok_def using cs assms(3,4) same by (intro exI [of _ cs]) simp
qed

lemma guard_ok_cong:
  assumes "guard_ok n s own i l"
    and "i < max_hazard_pointers \<Longrightarrow> hazard_pointers s' ! i = hazard_pointers s ! i"
    and "\<And>a. guarded l \<Longrightarrow> old_head l = Some a \<Longrightarrow> reachable n own a \<Longrightarrow> reachable n own' a \<and> map_option node_next (nodes s' a) = map_option node_next (nodes s a)"
  shows "guard_ok n s' own' i l"
proof (cases "guarded l")
  case False
  with assms(1,2) show ?thesis by (simp add: guard_ok_def)
next
  case True
  then have pc: "pc l \<noteq> Pop_reload" by (auto simp: guarded_def)
  have i: "i < max_hazard_pointers" and hp: "hazard_pointers s ! i = old_head l"
    and a: "\<And>a. old_head l = Some a \<Longrightarrow> reachable n own a \<and>
      (pc l = Pop_cas \<longrightarrow> (\<exists>nd. nodes s a = Some nd \<and> node_next nd = next_node l))"
    using assms(1) True by (simp_all add: guard_ok_def)
  have "hazard_pointers s' ! i = old_head l" using assms(2) [OF i] hp by (rule trans)
  moreover have "reachable n own' a \<and> (pc l = Pop_cas \<longrightarrow> (\<exists>nd. nodes s' a = Some nd \<and> node_next nd = next_node l))"
    if "old_head l = Some a" for a
    using a [OF that] assms(3) [OF True that] by (auto simp: map_option_case split: option.splits)
  ultimately show ?thesis using pc i unfolding guard_ok_def by blast
qed

lemma passed_cong:
  assumes "thread_ok s own cown j l" and "\<And>c. cown c = Of j \<Longrightarrow> cells s' c = cells s c"
  shows "passed s' l i a = passed s l i a"
proof -
  obtain cs where cs: "thread_cells s l cs" "\<forall>c. cown c = Of j \<longleftrightarrow> c \<in> set cs"
    using assms(1) by (auto simp: thread_ok_def)
  have same: "cell_node (cells s') c = cell_node (cells s) c"
    if "pc l = Del_free \<or> pc l = Del_scan" "cell l = Some c" for c
  proof (rule cell_node_cong, rule assms(2))
    have "pc l \<noteq> Retire_cas" "pc l \<noteq> Del_loop" "pc l \<in> {Del_scan, Del_free, Del_back}" using that(1) by auto
    then have "c \<in> set cs" using cs(1) that(2) unfolding thread_cells_def by force
    then show "cown c = Of j" using cs(2) by blast
  qed
  show ?thesis unfolding passed_def using same by metis
qed

text \<open>One step of thread \<open>i\<close>: what has to be shown about it.\<close>

lemma co_ok_step:
  assumes ok: "co_ok n (s, ls) own cown xs rs" and mem: "mem_ok s' own' cown' xs' rs'"
    and mine: "thread_ok s' own' cown' i l'" "place_ok n i l'" "guard_ok n s' own' i l'"
    and hp: "\<And>j. j \<noteq> i \<Longrightarrow> hazard_pointers s' ! j = hazard_pointers s ! j"
    and cells: "\<And>j c. j \<noteq> i \<Longrightarrow> cown c = Of j \<Longrightarrow> cells s' c = cells s c"
    and owners: "\<And>j a. j \<noteq> i \<Longrightarrow> (own' a = Of j) = (own a = Of j)"
      "\<And>j c. j \<noteq> i \<Longrightarrow> (cown' c = Of j) = (cown c = Of j)"
    and nodes: "\<And>j a. j \<noteq> i \<Longrightarrow> guarded (ls j) \<Longrightarrow> old_head (ls j) = Some a \<Longrightarrow> reachable n own a \<Longrightarrow>
      reachable n own' a \<and> map_option node_next (nodes s' a) = map_option node_next (nodes s a)"
    and passing: "\<And>j a. j \<noteq> i \<Longrightarrow> guarded (ls j) \<Longrightarrow> old_head (ls j) = Some a \<Longrightarrow> \<not> passed s' l' j a"
    and guarding: "\<And>j a. j \<noteq> i \<Longrightarrow> guarded l' \<Longrightarrow> old_head l' = Some a \<Longrightarrow> \<not> passed s (ls j) i a"
  shows "co_ok n (s', ls(i := l')) own' cown' xs' rs'"
proof -
  have threads: "thread_ok s own cown j (ls j)" "place_ok n j (ls j)" "guard_ok n s own j (ls j)" for j
    using ok by (simp_all add: co_ok_def)
  have "thread_ok s' own' cown' j ((ls(i := l')) j) \<and> place_ok n j ((ls(i := l')) j) \<and>
      guard_ok n s' own' j ((ls(i := l')) j)" for j
  proof (cases "j = i")
    case True
    with mine show ?thesis by simp
  next
    case False
    then have "thread_ok s' own' cown' j (ls j)"
      using cells owners by (intro thread_ok_cong [OF threads(1)]) auto
    moreover have "guard_ok n s' own' j (ls j)"
      using False hp nodes by (intro guard_ok_cong [OF threads(3)]) auto
    ultimately show ?thesis using False threads(2) by simp
  qed
  moreover have "\<not> passed s' ((ls(i := l')) k) j a"
    if g: "guarded ((ls(i := l')) j)" "old_head ((ls(i := l')) j) = Some a" for j k a
  proof (cases "k = i")
    case True
    show ?thesis
    proof (cases "j = i")
      case True
      with g \<open>k = i\<close> show ?thesis by (auto simp: guarded_def passed_def)
    next
      case False
      with g \<open>k = i\<close> passing show ?thesis by simp
    qed
  next
    case False
    then have same: "passed s' (ls k) j a = passed s (ls k) j a" using cells by (intro passed_cong [OF threads(1)])
    show ?thesis
    proof (cases "j = i")
      case True
      with g False guarding same show ?thesis by simp
    next
      case j: False
      with g have "\<not> passed s (ls k) j a" using ok by (auto simp: co_ok_def)
      with False same show ?thesis by simp
    qed
  qed
  ultimately show ?thesis using mem by (simp add: co_ok_def)
qed

section \<open>What a thread holds at its places\<close>

definition owns_nothing :: "(nat \<Rightarrow> owner) \<Rightarrow> (nat \<Rightarrow> owner) \<Rightarrow> nat \<Rightarrow> bool" where
  "owns_nothing own cown i \<longleftrightarrow> (\<forall>a. own a \<noteq> Of i) \<and> (\<forall>c. cown c \<noteq> Of i)"

definition quiet :: "co_pc \<Rightarrow> bool" where
  "quiet p \<longleftrightarrow> p \<in> {Push_new, Pop_load, Pop_store, Pop_reload, Pop_next, Pop_cas, Retire_count, Pop_test,
     Del_exchange, Finished, Bad_alloc, Bad_access}"

lemma thread_ok_quiet:
  assumes "quiet (pc l)"
  shows "thread_ok s own cown i l = owns_nothing own cown i"
  using assms unfolding quiet_def insert_iff
  by (elim disjE) (simp_all add: thread_ok_def thread_cells_def thread_nodes_def owns_nothing_def conj_commute)

lemma thread_ok_pushing:
  assumes "pc l = Push_load \<or> pc l = Push_cas"
  shows "thread_ok s own cown i l = ((\<forall>a. own a = Of i \<longleftrightarrow> a = new_node l) \<and> (\<forall>c. cown c \<noteq> Of i))"
  using assms by (elim disjE) (auto simp: thread_ok_def thread_cells_def thread_nodes_def)

lemma thread_ok_popped:
  assumes "pc l = Pop_clear \<or> pc l = Pop_swap \<or> pc l = Retire_new"
  shows "thread_ok s own cown i l = ((\<forall>a. own a = Of i \<longleftrightarrow> old_head l = Some a) \<and> (\<forall>c. cown c \<noteq> Of i))"
  using assms by (elim disjE; cases "old_head l")
    (auto simp: thread_ok_def thread_cells_def thread_nodes_def)

lemma thread_ok_retiring:
  assumes "pc l = Retire_cas"
  shows "thread_ok s own cown i l = (\<exists>c. cell l = Some c \<and>
    (\<forall>a. own a = Of i \<longleftrightarrow> a = cell_node (cells s) c) \<and> (\<forall>d. cown d = Of i \<longleftrightarrow> d = c))"
  using assms by (auto simp: thread_ok_def thread_cells_def thread_nodes_def)

text \<open>The cells a pass has still to look at, from \<open>p\<close> on.\<close>

definition holds_chain :: "stack_mem \<Rightarrow> (nat \<Rightarrow> owner) \<Rightarrow> (nat \<Rightarrow> owner) \<Rightarrow> nat \<Rightarrow> nat option \<Rightarrow> nat list \<Rightarrow> bool" where
  "holds_chain s own cown i p cs \<longleftrightarrow> chain (cells s) p cs \<and> distinct cs \<and>
     (\<forall>c. cown c = Of i \<longleftrightarrow> c \<in> set cs) \<and> distinct (map (cell_node (cells s)) cs) \<and>
     (\<forall>a. own a = Of i \<longleftrightarrow> a \<in> set (map (cell_node (cells s)) cs))"

lemma thread_ok_chain:
  "pc l = Del_loop \<Longrightarrow> thread_ok s own cown i l = (\<exists>cs. holds_chain s own cown i (cell l) cs)"
  "pc l = Del_count \<Longrightarrow> thread_ok s own cown i l = (\<exists>cs. holds_chain s own cown i (rest l) cs)"
  by (auto simp: thread_ok_def thread_cells_def thread_nodes_def holds_chain_def)

definition holds_current :: "stack_mem \<Rightarrow> (nat \<Rightarrow> owner) \<Rightarrow> (nat \<Rightarrow> owner) \<Rightarrow> nat \<Rightarrow> nat \<Rightarrow> nat option \<Rightarrow> nat list \<Rightarrow> bool" where
  "holds_current s own cown i c p cs \<longleftrightarrow> chain (cells s) p cs \<and> distinct (c # cs) \<and>
     (\<forall>d. cown d = Of i \<longleftrightarrow> d \<in> set (c # cs)) \<and> distinct (map (cell_node (cells s)) (c # cs)) \<and>
     (\<forall>a. own a = Of i \<longleftrightarrow> a \<in> set (map (cell_node (cells s)) (c # cs)))"

lemma thread_ok_current:
  assumes "pc l \<in> {Del_scan, Del_free, Del_back}"
  shows "thread_ok s own cown i l = (\<exists>c cs. cell l = Some c \<and> holds_current s own cown i c (rest l) cs)"
proof -
  have p: "pc l \<noteq> Retire_cas" "pc l \<noteq> Del_loop" "pc l \<notin> {Push_load, Push_cas}"
    "pc l \<notin> {Pop_clear, Pop_swap, Retire_new}" using assms by auto
  show ?thesis
    unfolding thread_ok_def thread_cells_def thread_nodes_def holds_current_def if_not_P [OF p(1)] if_not_P [OF p(2)]
      if_not_P [OF p(3)] if_not_P [OF p(4)] if_P [OF assms] by blast
qed

lemmas thread_ok_places = thread_ok_pushing thread_ok_popped thread_ok_retiring thread_ok_chain thread_ok_current

lemma co_okD:
  assumes "co_ok n (s, ls) own cown xs rs"
  shows "mem_ok s own cown xs rs" "thread_ok s own cown i (ls i)" "place_ok n i (ls i)" "guard_ok n s own i (ls i)"
    "guarded (ls i) \<Longrightarrow> old_head (ls i) = Some a \<Longrightarrow> \<not> passed s (ls j) i a"
  using assms by (simp_all add: co_ok_def)

lemma mem_okD:
  assumes "mem_ok s own cown xs rs"
  shows "length (hazard_pointers s) = max_hazard_pointers" "schain (nodes s) (head s) xs" "distinct xs"
    "own a = In_stack \<longleftrightarrow> a \<in> set xs" "chain (cells s) (node_to_reclaim s) rs" "distinct rs"
    "cown c = Retired \<longleftrightarrow> c \<in> set rs" "distinct (map (cell_node (cells s)) rs)"
    "own a = Retired \<longleftrightarrow> a \<in> set (map (cell_node (cells s)) rs)"
    "own a = Nobody \<longleftrightarrow> nodes s a = None" "cown c = Nobody \<longleftrightarrow> cells s c = None" "cown c \<noteq> In_stack"
  using assms by (simp_all add: mem_ok_def)

section \<open>Steps that move nothing\<close>

definition same_store :: "stack_mem \<Rightarrow> stack_mem \<Rightarrow> bool" where
  "same_store s s' \<longleftrightarrow> head s' = head s \<and> nodes s' = nodes s \<and> cells s' = cells s \<and>
     node_to_reclaim s' = node_to_reclaim s \<and> length (hazard_pointers s') = length (hazard_pointers s)"

lemma same_store_mem_ok: "same_store s s' \<Longrightarrow> mem_ok s own cown xs rs \<Longrightarrow> mem_ok s' own cown xs rs"
  by (simp add: mem_ok_def same_store_def)

lemma same_store_thread_ok: "same_store s s' \<Longrightarrow> thread_ok s' own cown i l = thread_ok s own cown i l"
  by (simp add: thread_ok_def thread_cells_def thread_nodes_def same_store_def)

lemma co_ok_local:
  assumes ok: "co_ok n (s, ls) own cown xs rs" and same: "same_store s s'"
    and hp: "\<And>j. j \<noteq> i \<Longrightarrow> hazard_pointers s' ! j = hazard_pointers s ! j"
    and mine: "thread_ok s own cown i l'" "place_ok n i l'" "guard_ok n s' own i l'"
    and passing: "\<And>j a. j \<noteq> i \<Longrightarrow> guarded (ls j) \<Longrightarrow> old_head (ls j) = Some a \<Longrightarrow> \<not> passed s' l' j a"
    and guarding: "\<And>j a. j \<noteq> i \<Longrightarrow> guarded l' \<Longrightarrow> old_head l' = Some a \<Longrightarrow> \<not> passed s (ls j) i a"
  shows "co_ok n (s', ls(i := l')) own cown xs rs"
  using same
  by (intro co_ok_step [OF ok same_store_mem_ok [OF same co_okD(1) [OF ok]] _ mine(2,3) hp _ _ _ _ passing guarding])
    (simp_all add: same_store_thread_ok mine(1) same_store_def)

lemma not_passed [simp]: "pc l \<noteq> Del_scan \<Longrightarrow> pc l \<noteq> Del_free \<Longrightarrow> \<not> passed s l i a"
  by (simp add: passed_def)

text \<open>Moving between places where nothing is held, none of them guarded.\<close>

lemma co_ok_quiet:
  assumes ok: "co_ok n (s, ls) own cown xs rs" and same: "same_store s s'"
    and hp: "\<And>j. j \<noteq> i \<Longrightarrow> hazard_pointers s' ! j = hazard_pointers s ! j"
    and free: "owns_nothing own cown i" and quiet: "quiet (pc l')" and place: "place_ok n i l'"
    and guard: "\<not> guarded l'" "pc l' = Pop_reload \<longrightarrow> i < max_hazard_pointers \<and> hazard_pointers s' ! i = temp l'"
  shows "co_ok n (s', ls(i := l')) own cown xs rs"
proof (rule co_ok_local [OF ok same hp])
  show "thread_ok s own cown i l'" using free quiet by (simp add: thread_ok_quiet)
  show "guard_ok n s' own i l'" using guard by (simp add: guard_ok_def)
  show "\<not> passed s' l' j a" for j a using quiet by (auto simp: quiet_def passed_def)
qed (use place guard in simp_all)

lemma quiet_owns_nothing:
  assumes "co_ok n (s, ls) own cown xs rs" and "quiet (pc (ls i))"
  shows "owns_nothing own cown i"
  using co_okD(2) [OF assms(1), of i] assms(2) by (simp add: thread_ok_quiet)

section \<open>Pushing keeps the invariant\<close>

lemma place_producer: "place_ok n i l \<Longrightarrow> i < n \<Longrightarrow> \<not> guarded l \<and> (\<forall>s j a. \<not> passed s l j a)"
  by (auto simp: place_ok_def guarded_def passed_def)

lemma push_new_ok:
  assumes ok: "co_ok n (s, ls) own cown xs rs" and pc: "pc (ls i) = Push_new" and new: "nodes s a = None"
    and i: "i < n"
  shows "co_ok n (s\<lparr>nodes := (nodes s)(a \<mapsto> nd)\<rparr>, ls(i := (ls i)\<lparr>new_node := a, pc := Push_load\<rparr>))
    (own(a := Of i)) cown xs rs"
proof -
  note M = mem_okD [OF co_okD(1) [OF ok]]
  have free: "owns_nothing own cown i" using quiet_owns_nothing [OF ok] pc by (simp add: quiet_def)
  have "own a = Nobody" using M(10) [of a] new by simp
  with M(4,9) [of a] have a: "own a = Nobody" "a \<notin> set xs" "a \<notin> set (map (cell_node (cells s)) rs)" by simp_all
  show ?thesis
  proof (rule co_ok_step [OF ok])
    have "schain ((nodes s)(a \<mapsto> nd)) (head s) xs" using M(2) a(2) by (simp add: schain_upd)
    then show "mem_ok (s\<lparr>nodes := (nodes s)(a \<mapsto> nd)\<rparr>) (own(a := Of i)) cown xs rs"
      using co_okD(1) [OF ok] a by (auto simp: mem_ok_def)
    show "thread_ok (s\<lparr>nodes := (nodes s)(a \<mapsto> nd)\<rparr>) (own(a := Of i)) cown i ((ls i)\<lparr>new_node := a, pc := Push_load\<rparr>)"
      using free by (auto simp: thread_ok_pushing owns_nothing_def)
    show "place_ok n i ((ls i)\<lparr>new_node := a, pc := Push_load\<rparr>)" using i by (simp add: place_ok_def)
    show "reachable n (own(a := Of i)) b \<and> map_option node_next (nodes (s\<lparr>nodes := (nodes s)(a \<mapsto> nd)\<rparr>) b) = map_option node_next (nodes s b)"
      if "reachable n own b" for b
      using that a(1) by (auto simp: reachable_def)
  qed (use a free in \<open>auto simp: guard_ok_def guarded_def\<close>)
qed

lemma push_write_ok:
  assumes ok: "co_ok n (s, ls) own cown xs rs" and pc: "pc (ls i) = Push_load \<or> pc (ls i) = Push_cas"
    and nd: "nodes s (new_node (ls i)) \<noteq> None" and i: "i < n"
  shows "co_ok n (s\<lparr>nodes := (nodes s)(new_node (ls i) \<mapsto> nd')\<rparr>, ls(i := (ls i)\<lparr>pc := Push_cas\<rparr>)) own cown xs rs"
proof -
  note M = mem_okD [OF co_okD(1) [OF ok]]
  let ?a = "new_node (ls i)"
  have mine: "own ?a = Of i" "\<And>b. own b = Of i \<longleftrightarrow> b = ?a" "\<And>c. cown c \<noteq> Of i"
    using co_okD(2) [OF ok, of i] by (auto simp: thread_ok_pushing [OF pc])
  have "?a \<notin> set xs" using M(4) [of ?a] mine(1) by simp
  then have chain: "schain ((nodes s)(?a \<mapsto> nd')) (head s) xs"
    using M(2) by (simp add: schain_upd)
  show ?thesis
  proof (rule co_ok_step [OF ok])
    show "mem_ok (s\<lparr>nodes := (nodes s)(?a \<mapsto> nd')\<rparr>) own cown xs rs"
      using co_okD(1) [OF ok] nd chain by (auto simp: mem_ok_def)
    show "thread_ok (s\<lparr>nodes := (nodes s)(?a \<mapsto> nd')\<rparr>) own cown i ((ls i)\<lparr>pc := Push_cas\<rparr>)"
      using mine by (auto simp: thread_ok_pushing)
    show "place_ok n i ((ls i)\<lparr>pc := Push_cas\<rparr>)" using i by (simp add: place_ok_def)
    show "reachable n own b \<and> map_option node_next (nodes (s\<lparr>nodes := (nodes s)(?a \<mapsto> nd')\<rparr>) b) = map_option node_next (nodes s b)"
      if "reachable n own b" for b
      using that mine(1) i by (auto simp: reachable_def)
  qed (auto simp: guard_ok_def guarded_def)
qed

lemma push_link_ok:
  assumes ok: "co_ok n (s, ls) own cown xs rs" and pc: "pc (ls i) = Push_cas"
    and nd: "nodes s (new_node (ls i)) = Some nd" "node_next nd = head s" and i: "i < n"
  shows "co_ok n (s\<lparr>head := Some (new_node (ls i))\<rparr>, ls(i := (ls i)\<lparr>round := r, pc := Push_new\<rparr>))
    (own(new_node (ls i) := In_stack)) cown (new_node (ls i) # xs) rs"
proof -
  note M = mem_okD [OF co_okD(1) [OF ok]]
  let ?a = "new_node (ls i)"
  have mine: "own ?a = Of i" "\<And>b. own b = Of i \<longleftrightarrow> b = ?a" "\<And>c. cown c \<noteq> Of i"
    using co_okD(2) [OF ok, of i] pc by (auto simp: thread_ok_pushing)
  have a: "?a \<notin> set xs" "?a \<notin> set (map (cell_node (cells s)) rs)" using M(4,9) [of ?a] mine(1) by simp_all
  show ?thesis
  proof (rule co_ok_step [OF ok])
    show "mem_ok (s\<lparr>head := Some ?a\<rparr>) (own(?a := In_stack)) cown (?a # xs) rs"
      using co_okD(1) [OF ok] nd a mine(1) by (auto simp: mem_ok_def)
    show "thread_ok (s\<lparr>head := Some ?a\<rparr>) (own(?a := In_stack)) cown i ((ls i)\<lparr>round := r, pc := Push_new\<rparr>)"
      using mine by (simp add: thread_ok_quiet quiet_def owns_nothing_def)
    show "place_ok n i ((ls i)\<lparr>round := r, pc := Push_new\<rparr>)" using i by (simp add: place_ok_def)
  qed (use mine(1) in \<open>auto simp: guard_ok_def guarded_def reachable_def\<close>)
qed

lemma co_invI: "co_ok n c own cown xs rs \<Longrightarrow> co_inv n c"
  unfolding co_inv_def by blast

text \<open>All steps of a producer.\<close>

lemma push_ok:
  assumes ok: "co_ok n (s, ls) own cown xs rs" and A: "allocates A" and i: "i < n"
    and step: "sync_push A iter s (ls i) = Some (s', l')"
  shows "co_inv n (s', ls(i := l'))"
proof -
  let ?a = "new_node (ls i)"
  have upd: "(ls i)\<lparr>pc := pc (ls i)\<rparr> = ls i" by simp
  consider "pc (ls i) = Push_new" | "pc (ls i) = Push_load" | "pc (ls i) = Push_cas"
    | "pc (ls i) \<notin> {Push_new, Push_load, Push_cas}" by auto
  then show ?thesis
  proof cases
    case 1
    have free: "owns_nothing own cown i" using quiet_owns_nothing [OF ok] 1 by (simp add: quiet_def)
    show ?thesis
    proof (cases "new_node_at A s")
      case (Some a)
      show ?thesis
      proof (cases "round (ls i) < iter")
        case True
        have "nodes s a = None" using A Some by (simp add: allocates_def)
        from co_invI [OF push_new_ok [OF ok 1 this i]] step 1 True Some show ?thesis by (auto simp: sync_push_def)
      next
        case False
        with step 1 have "s' = s" "l' = (ls i)\<lparr>pc := Finished\<rparr>" by (simp_all add: sync_push_def)
        then show ?thesis using co_ok_quiet [OF ok _ _ free, of s l'] i
          by (auto simp: co_inv_def same_store_def quiet_def place_ok_def guarded_def)
      qed
    next
      case None
      with step 1 obtain p where p: "s' = s" "l' = (ls i)\<lparr>pc := p\<rparr>" "p \<in> {Finished, Bad_alloc}"
        by (auto simp: sync_push_def split: if_splits)
      then show ?thesis using co_ok_quiet [OF ok _ _ free, of s l'] i
        by (auto simp: co_inv_def same_store_def quiet_def place_ok_def guarded_def)
    qed
  next
    case 2
    then have "own ?a = Of i" using co_okD(2) [OF ok, of i] by (auto simp: thread_ok_pushing)
    then have "nodes s ?a \<noteq> None" using mem_okD(10) [OF co_okD(1) [OF ok], of ?a] by auto
    with co_invI [OF push_write_ok [OF ok _ this i]] 2 step show ?thesis by (auto simp: sync_push_def)
  next
    case 3
    then have "own ?a = Of i" using co_okD(2) [OF ok, of i] by (auto simp: thread_ok_pushing)
    then have nd: "nodes s ?a \<noteq> None" using mem_okD(10) [OF co_okD(1) [OF ok], of ?a] by auto
    have same: "(ls i)\<lparr>pc := Push_cas\<rparr> = ls i" using 3 by simp
    show ?thesis
      using co_invI [OF push_write_ok [OF ok _ nd i]] co_invI [OF push_link_ok [OF ok 3 _ _ i]] 3 nd step
      by (auto simp: sync_push_def same split: if_splits)
  next
    case 4
    with step show ?thesis by (auto simp: sync_push_def split: co_pc.splits)
  qed
qed

section \<open>Popping keeps the invariant\<close>

text \<open>A pass only deletes nodes of its own thread.\<close>

lemma passed_owner:
  assumes "thread_ok s own cown j l" and "passed s l i a"
  shows "own a = Of j"
proof -
  have "pc l \<in> {Del_scan, Del_free, Del_back}" using assms(2) by (auto simp: passed_def)
  with assms(1) obtain c cs where "cell l = Some c" "holds_current s own cown j c (rest l) cs"
    by (auto simp: thread_ok_current)
  with assms(2) show ?thesis by (auto simp: passed_def holds_current_def)
qed

lemma place_popping: "n \<le> i \<Longrightarrow> place_ok n i l \<longleftrightarrow>
    pc l \<notin> {Push_new, Push_load, Push_cas, Bad_access} \<and>
    (pc l \<in> {Pop_swap, Retire_new, Pop_next, Pop_cas} \<longrightarrow> old_head l \<noteq> None)"
  by (simp add: place_ok_def)

lemma pop_returns_quiet:
  "n \<le> i \<Longrightarrow> quiet (pc (pop_returns iter l)) \<and> place_ok n i (pop_returns iter l) \<and>
    pc (pop_returns iter l) \<in> {Pop_load, Finished}"
  by (simp add: pop_returns_def quiet_def place_popping)

lemma same_store_refl [simp]: "same_store s s"
  by (simp add: same_store_def)

text \<open>Reading the head again: the node is guarded from here on.\<close>

lemma pop_reload_ok:
  assumes ok: "co_ok n (s, ls) own cown xs rs" and pc: "pc (ls i) = Pop_reload" and i: "n \<le> i"
    and head: "head s = Some a" "temp (ls i) = Some a"
  shows "co_ok n (s, ls(i := (ls i)\<lparr>old_head := Some a, pc := Pop_next\<rparr>)) own cown xs rs"
proof (rule co_ok_local [OF ok])
  note M = mem_okD [OF co_okD(1) [OF ok]]
  have free: "owns_nothing own cown i" using quiet_owns_nothing [OF ok] pc by (simp add: quiet_def)
  have "a \<in> set xs" using M(2) head(1) by (cases xs) auto
  then have a: "own a = In_stack" using M(4) [of a] by simp
  show "thread_ok s own cown i ((ls i)\<lparr>old_head := Some a, pc := Pop_next\<rparr>)"
    using free by (simp add: thread_ok_quiet quiet_def)
  show "guard_ok n s own i ((ls i)\<lparr>old_head := Some a, pc := Pop_next\<rparr>)"
    using co_okD(4) [OF ok, of i] pc head(2) a by (simp add: guard_ok_def reachable_def)
  show "\<not> passed s (ls j) i b" if "old_head ((ls i)\<lparr>old_head := Some a, pc := Pop_next\<rparr>) = Some b" for j b
    using passed_owner [OF co_okD(2) [OF ok], of j] that a by force
qed (use i in \<open>simp_all add: place_popping\<close>)

lemma guarded_node:
  assumes ok: "co_ok n (s, ls) own cown xs rs" and pc: "guarded (ls i)"
  obtains a nd where "old_head (ls i) = Some a" "nodes s a = Some nd" "reachable n own a"
    "pc (ls i) = Pop_cas \<Longrightarrow> node_next nd = next_node (ls i)" "owns_nothing own cown i"
proof -
  have p: "quiet (pc (ls i))" "pc (ls i) \<in> {Pop_swap, Retire_new, Pop_next, Pop_cas}"
    using pc by (auto simp: guarded_def quiet_def)
  obtain a where a: "old_head (ls i) = Some a" using co_okD(3) [OF ok, of i] p(2) unfolding place_ok_def by blast
  have g: "reachable n own a" "pc (ls i) = Pop_cas \<Longrightarrow> \<exists>nd. nodes s a = Some nd \<and> node_next nd = next_node (ls i)"
    using co_okD(4) [OF ok, of i] pc a by (simp_all add: guard_ok_def)
  have "nodes s a \<noteq> None" using g(1) mem_okD(10) [OF co_okD(1) [OF ok], of a] by (auto simp: reachable_def)
  then obtain nd where "nodes s a = Some nd" by blast
  with that a g quiet_owns_nothing [OF ok p(1)] show ?thesis by auto
qed

lemma pop_next_ok:
  assumes ok: "co_ok n (s, ls) own cown xs rs" and pc: "pc (ls i) = Pop_next" and i: "n \<le> i"
    and nd: "old_head (ls i) = Some a" "nodes s a = Some nd"
  shows "co_ok n (s, ls(i := (ls i)\<lparr>next_node := node_next nd, pc := Pop_cas\<rparr>)) own cown xs rs"
proof (rule co_ok_local [OF ok])
  have g: "guarded (ls i)" using pc by (simp add: guarded_def)
  have free: "owns_nothing own cown i" using quiet_owns_nothing [OF ok] pc by (simp add: quiet_def)
  show "thread_ok s own cown i ((ls i)\<lparr>next_node := node_next nd, pc := Pop_cas\<rparr>)"
    using free by (simp add: thread_ok_quiet quiet_def)
  show "guard_ok n s own i ((ls i)\<lparr>next_node := node_next nd, pc := Pop_cas\<rparr>)"
    using co_okD(4) [OF ok, of i] pc nd by (simp add: guard_ok_def guarded_def)
  show "\<not> passed s (ls j) i b" if "old_head ((ls i)\<lparr>next_node := node_next nd, pc := Pop_cas\<rparr>) = Some b" for j b
    using co_okD(5) [OF ok g] that by simp
qed (use i nd in \<open>simp_all add: place_popping\<close>)

text \<open>The exchange of the head takes the node out of the stack.\<close>

lemma pop_cas_ok:
  assumes ok: "co_ok n (s, ls) own cown xs rs" and pc: "pc (ls i) = Pop_cas" and i: "n \<le> i"
    and head: "head s = old_head (ls i)"
  shows "\<exists>a xs'. xs = a # xs' \<and> old_head (ls i) = Some a \<and>
    co_ok n (s\<lparr>head := next_node (ls i)\<rparr>, ls(i := (ls i)\<lparr>pc := Pop_clear\<rparr>)) (own(a := Of i)) cown xs' rs"
proof -
  note M = mem_okD [OF co_okD(1) [OF ok]]
  obtain a nd where a: "old_head (ls i) = Some a" "nodes s a = Some nd" "node_next nd = next_node (ls i)"
    and free: "owns_nothing own cown i"
  proof -
    have "guarded (ls i)" using pc by (simp add: guarded_def)
    then show thesis by (rule guarded_node [OF ok]) (use that pc in blast)
  qed
  obtain xs' where xs: "xs = a # xs'" and rest: "schain (nodes s) (next_node (ls i)) xs'"
    using M(2) head a by (cases xs) (auto)
  have own: "own a = In_stack" "a \<notin> set xs'" using M(3) M(4) [of a] xs by simp_all
  then have not_retired: "a \<notin> set (map (cell_node (cells s)) rs)" using M(9) [of a] by simp
  have "co_ok n (s\<lparr>head := next_node (ls i)\<rparr>, ls(i := (ls i)\<lparr>pc := Pop_clear\<rparr>)) (own(a := Of i)) cown xs' rs"
  proof (rule co_ok_step [OF ok])
    show "mem_ok (s\<lparr>head := next_node (ls i)\<rparr>) (own(a := Of i)) cown xs' rs"
      using co_okD(1) [OF ok] rest own not_retired a(2) unfolding xs by (auto simp: mem_ok_def)
    show "thread_ok (s\<lparr>head := next_node (ls i)\<rparr>) (own(a := Of i)) cown i ((ls i)\<lparr>pc := Pop_clear\<rparr>)"
      using free a(1) by (auto simp: thread_ok_popped owns_nothing_def)
    show "place_ok n i ((ls i)\<lparr>pc := Pop_clear\<rparr>)" using i by (simp add: place_popping)
    show "reachable n (own(a := Of i)) b \<and> map_option node_next (nodes (s\<lparr>head := next_node (ls i)\<rparr>) b) = map_option node_next (nodes s b)" if "reachable n own b" for b
      using that i by (auto simp: reachable_def)
  qed (use own in \<open>auto simp: guard_ok_def guarded_def\<close>)
  with xs a(1) show ?thesis by blast
qed

text \<open>Withdrawing the announcement.\<close>

lemma pop_clear_ok:
  assumes ok: "co_ok n (s, ls) own cown xs rs" and pc: "pc (ls i) = Pop_clear" and i: "n \<le> i"
  shows "co_ok n (s\<lparr>hazard_pointers := (hazard_pointers s)[i := None]\<rparr>,
    ls(i := (if old_head (ls i) = None then pop_returns iter (ls i) else (ls i)\<lparr>pc := Pop_swap\<rparr>))) own cown xs rs"
proof -
  let ?s' = "s\<lparr>hazard_pointers := (hazard_pointers s)[i := None]\<rparr>"
  have mine: "\<forall>a. own a = Of i \<longleftrightarrow> old_head (ls i) = Some a" "\<forall>c. cown c \<noteq> Of i"
    using co_okD(2) [OF ok, of i] pc by (simp_all add: thread_ok_popped)
  have same: "same_store s ?s'" by (simp add: same_store_def)
  show ?thesis
  proof (cases "old_head (ls i)")
    case None
    with mine have "owns_nothing own cown i" by (simp add: owns_nothing_def)
    from co_ok_quiet [OF ok same _ this, of "pop_returns iter (ls i)"] pop_returns_quiet [OF i, of iter "ls i"] None
    show ?thesis by (auto simp: guarded_def)
  next
    case (Some a)
    have "co_ok n (?s', ls(i := (ls i)\<lparr>pc := Pop_swap\<rparr>)) own cown xs rs"
    proof (rule co_ok_local [OF ok same])
      show "thread_ok s own cown i ((ls i)\<lparr>pc := Pop_swap\<rparr>)" using mine by (simp add: thread_ok_popped)
    qed (use i Some in \<open>simp_all add: place_popping guard_ok_def guarded_def\<close>)
    with Some show ?thesis by simp
  qed
qed

section \<open>Retiring keeps the invariant\<close>

lemma pop_swap_ok:
  assumes ok: "co_ok n (s, ls) own cown xs rs" and pc: "pc (ls i) = Pop_swap" and i: "n \<le> i"
    and a: "old_head (ls i) = Some a" "nodes s a = Some nd"
  shows "co_ok n (s\<lparr>nodes := (nodes s)(a \<mapsto> nd\<lparr>node_data := d\<rparr>)\<rparr>,
    ls(i := (ls i)\<lparr>res := r, pc := Retire_new\<rparr>)) own cown xs rs"
proof -
  note M = mem_okD [OF co_okD(1) [OF ok]]
  let ?s' = "s\<lparr>nodes := (nodes s)(a \<mapsto> nd\<lparr>node_data := d\<rparr>)\<rparr>"
  have mine: "own b = Of i \<longleftrightarrow> b = a" "cown c \<noteq> Of i" for b c
    using co_okD(2) [OF ok, of i] pc a by (auto simp: thread_ok_popped)
  have "own a = Of i" using mine(1) by simp
  then have "a \<notin> set xs" using M(4) [of a] by simp
  then have chain: "schain ((nodes s)(a \<mapsto> nd\<lparr>node_data := d\<rparr>)) (head s) xs" using M(2) by (simp add: schain_upd)
  show ?thesis
  proof (rule co_ok_step [OF ok])
    show "mem_ok ?s' own cown xs rs" using co_okD(1) [OF ok] chain a(2) by (auto simp: mem_ok_def)
    show "thread_ok ?s' own cown i ((ls i)\<lparr>res := r, pc := Retire_new\<rparr>)"
      using mine a(1) by (auto simp: thread_ok_popped)
    show "place_ok n i ((ls i)\<lparr>res := r, pc := Retire_new\<rparr>)" using a(1) i by (simp add: place_popping)
  qed (use a(2) in \<open>auto simp: guard_ok_def guarded_def\<close>)
qed

text \<open>Out of memory: the node is lost.\<close>

lemma retire_fails_ok:
  assumes ok: "co_ok n (s, ls) own cown xs rs" and pc: "pc (ls i) = Retire_new" and i: "n \<le> i"
  shows "\<exists>own'. co_ok n (s, ls(i := (ls i)\<lparr>pc := Bad_alloc\<rparr>)) own' cown xs rs"
proof -
  obtain a where a: "old_head (ls i) = Some a"
    using co_okD(3) [OF ok, of i] pc i by (auto simp: place_popping)
  have mine: "own b = Of i \<longleftrightarrow> b = a" "cown c \<noteq> Of i" for b c
    using co_okD(2) [OF ok, of i] pc a by (auto simp: thread_ok_popped)
  have own: "own a = Of i" using mine by simp
  have "co_ok n (s, ls(i := (ls i)\<lparr>pc := Bad_alloc\<rparr>)) (own(a := Lost)) cown xs rs"
  proof (rule co_ok_step [OF ok])
    have "a \<notin> set xs" "a \<notin> set (map (cell_node (cells s)) rs)" "nodes s a \<noteq> None"
      using mem_okD(4,9,10) [OF co_okD(1) [OF ok], of a] own by auto
    then show "mem_ok s (own(a := Lost)) cown xs rs" using co_okD(1) [OF ok] by (auto simp: mem_ok_def)
    show "thread_ok s (own(a := Lost)) cown i ((ls i)\<lparr>pc := Bad_alloc\<rparr>)"
      using mine by (simp add: thread_ok_quiet quiet_def owns_nothing_def)
  qed (use own i in \<open>auto simp: guard_ok_def guarded_def place_popping reachable_def\<close>)
  then show ?thesis by blast
qed

lemma retire_new_ok:
  assumes ok: "co_ok n (s, ls) own cown xs rs" and pc: "pc (ls i) = Retire_new" and i: "n \<le> i"
    and a: "old_head (ls i) = Some a" and c: "cells s c = None"
  shows "co_ok n (s\<lparr>cells := (cells s)(c \<mapsto> \<lparr>data = a, next_cell = None\<rparr>)\<rparr>,
    ls(i := (ls i)\<lparr>cell := Some c, pc := Retire_cas\<rparr>)) own (cown(c := Of i)) xs rs"
proof -
  let ?s' = "s\<lparr>cells := (cells s)(c \<mapsto> \<lparr>data = a, next_cell = None\<rparr>)\<rparr>"
  note M = mem_okD [OF co_okD(1) [OF ok]]
  have mine: "own b = Of i \<longleftrightarrow> b = a" "cown d \<noteq> Of i" for b d
    using co_okD(2) [OF ok, of i] pc a by (auto simp: thread_ok_popped)
  have "cown c = Nobody" using M(11) [of c] c by simp
  then have new: "cown c = Nobody" "c \<notin> set rs" using M(7) [of c] by simp_all
  have nodes: "cell_node (cells ?s') d = cell_node (cells s) d" if "d \<in> set rs" for d
    using that new(2) by (auto simp: cell_node_def)
  then have nodes: "map (cell_node (cells ?s')) rs = map (cell_node (cells s)) rs" by simp
  show ?thesis
  proof (rule co_ok_step [OF ok])
    have "chain (cells ?s') (node_to_reclaim s) rs" using M(5) new(2) by (simp add: chain_upd)
    then show "mem_ok ?s' own (cown(c := Of i)) xs rs"
      using co_okD(1) [OF ok] new unfolding mem_ok_def nodes by simp
    show "thread_ok ?s' own (cown(c := Of i)) i ((ls i)\<lparr>cell := Some c, pc := Retire_cas\<rparr>)"
      using mine by (simp add: thread_ok_retiring cell_node_def)
  qed (use new i in \<open>auto simp: guard_ok_def guarded_def place_popping\<close>)
qed

text \<open>Linking the cell the thread holds: the retired node, or the one of the pass that is still in use.\<close>

lemma link_ok:
  assumes ok: "co_ok n (s, ls) own cown xs rs" and i: "n \<le> i"
    and c: "cell (ls i) = Some c" "cells s c = Some d" "next_cell d = node_to_reclaim s"
    and mine: "cown c = Of i" "own (data d) = Of i"
    and after: "thread_ok (s\<lparr>node_to_reclaim := Some c\<rparr>) (own(data d := Retired)) (cown(c := Retired)) i l'"
    and l': "place_ok n i l'" "pc l' = Retire_count \<or> pc l' = Del_loop"
  shows "co_ok n (s\<lparr>node_to_reclaim := Some c\<rparr>, ls(i := l')) (own(data d := Retired)) (cown(c := Retired)) xs (c # rs)"
proof -
  note M = mem_okD [OF co_okD(1) [OF ok]]
  have fresh: "c \<notin> set rs" "data d \<notin> set xs" "data d \<notin> set (map (cell_node (cells s)) rs)"
    using M(7) [of c] M(4,9) [of "data d"] mine by simp_all
  have node: "cell_node (cells s) c = data d" by (simp add: cell_node_def c)
  have alive: "nodes s (data d) \<noteq> None" using M(10) [of "data d"] mine(2) by simp
  show ?thesis
  proof (rule co_ok_step [OF ok _ after l'(1)])
    show "mem_ok (s\<lparr>node_to_reclaim := Some c\<rparr>) (own(data d := Retired)) (cown(c := Retired)) xs (c # rs)"
      using co_okD(1) [OF ok] fresh node c alive by (auto simp: mem_ok_def)
    show "reachable n (own(data d := Retired)) b \<and> map_option node_next (nodes (s\<lparr>node_to_reclaim := Some c\<rparr>) b) = map_option node_next (nodes s b)"
      if "reachable n own b" for b using that by (auto simp: reachable_def)
  qed (use mine l'(2) in \<open>auto simp: guard_ok_def guarded_def\<close>)
qed

text \<open>Writing the link of the cell after an attempt that failed.\<close>

lemma relink_ok:
  assumes ok: "co_ok n (s, ls) own cown xs rs" and i: "n \<le> i"
    and c: "cell (ls i) = Some c" "cells s c = Some d" and pc: "pc (ls i) = Retire_cas \<or> pc (ls i) = Del_back"
  shows "co_ok n (s\<lparr>cells := (cells s)(c \<mapsto> d\<lparr>next_cell := p\<rparr>)\<rparr>, ls) own cown xs rs"
proof -
  let ?s' = "s\<lparr>cells := (cells s)(c \<mapsto> d\<lparr>next_cell := p\<rparr>)\<rparr>"
  note M = mem_okD [OF co_okD(1) [OF ok]]
  have node: "cell_node (cells ?s') b = cell_node (cells s) b" for b by (auto simp: cell_node_def c)
  have mine: "cown c = Of i"
    using co_okD(2) [OF ok, of i] pc c(1) by (auto simp: thread_ok_retiring thread_ok_current holds_current_def)
  then have "c \<notin> set rs" using M(7) [of c] by simp
  then have chain: "chain (cells ?s') (node_to_reclaim s) rs" using M(5) by (simp add: chain_upd)
  have nodes: "cell_node (cells ?s') = cell_node (cells s)" using node by blast
  have "co_ok n (?s', ls(i := ls i)) own cown xs rs"
  proof (rule co_ok_step [OF ok])
    show "mem_ok ?s' own cown xs rs"
      using co_okD(1) [OF ok] chain c(2) unfolding mem_ok_def nodes by auto
    show "thread_ok ?s' own cown i (ls i)"
    proof (cases "pc (ls i) = Retire_cas")
      case True
      show ?thesis
        using co_okD(2) [OF ok, of i] unfolding thread_ok_retiring [OF True] nodes .
    next
      case False
      with pc have p: "pc (ls i) \<in> {Del_scan, Del_free, Del_back}" by simp
      then obtain cs where "holds_current s own cown i c (rest (ls i)) cs"
        using co_okD(2) [OF ok, of i] c(1) by (auto simp: thread_ok_current)
      then have "holds_current ?s' own cown i c (rest (ls i)) cs"
        unfolding holds_current_def nodes by (simp add: chain_upd)
      with c(1) show ?thesis by (auto simp: thread_ok_current [OF p])
    qed
  qed (use pc mine co_okD [OF ok] in \<open>auto simp: guard_ok_def guarded_def\<close>)
  then show ?thesis by simp
qed


section \<open>The pass keeps the invariant\<close>

text \<open>The threads that take part have slots which the passes look at.\<close>

definition slots_scanned :: "nat \<Rightarrow> bool" where
  "slots_scanned n \<longleftrightarrow> start_cid \<le> n \<and> 2 * n \<le> max_hazard_pointers"

lemma slots_scanned_iff: "slots_scanned n \<longleftrightarrow> n = 14"
  by (auto simp: slots_scanned_def start_cid_def max_hazard_pointers_def MAX_NR_THREADS_def)

lemma fourteen_scanned: "slots_scanned 14"
  by (simp add: slots_scanned_iff)

lemma guarded_consumer: "place_ok n j l \<Longrightarrow> guarded l \<Longrightarrow> n \<le> j"
  using place_producer [of n j l] by (cases "j < n") auto

text \<open>The thread takes the whole list.\<close>

lemma del_exchange_ok:
  assumes ok: "co_ok n (s, ls) own cown xs rs" and pc: "pc (ls i) = Del_exchange" and i: "n \<le> i"
  shows "co_ok n (s\<lparr>node_to_reclaim := None\<rparr>, ls(i := (ls i)\<lparr>cell := node_to_reclaim s, pc := Del_loop\<rparr>))
    (\<lambda>a. if own a = Retired then Of i else own a) (\<lambda>c. if cown c = Retired then Of i else cown c) xs []"
proof -
  let ?s' = "s\<lparr>node_to_reclaim := None\<rparr>"
  let ?own = "\<lambda>a. if own a = Retired then Of i else own a" and ?cown = "\<lambda>c. if cown c = Retired then Of i else cown c"
  note M = mem_okD [OF co_okD(1) [OF ok]]
  have free: "own a \<noteq> Of i" "cown c \<noteq> Of i" for a c
    using quiet_owns_nothing [OF ok] pc by (simp_all add: quiet_def owns_nothing_def)
  show ?thesis
  proof (rule co_ok_step [OF ok])
    have "(?own a = In_stack) = (a \<in> set xs)" "(?own a = Nobody) = (nodes s a = None)" for a
      using M(4,10) [of a] by (cases "own a = Retired"; simp)+
    moreover have "(?cown c = Nobody) = (cells s c = None)" "?cown c \<noteq> In_stack" for c
      using M(11,12) [of c] by (cases "cown c = Retired"; simp)+
    ultimately show "mem_ok ?s' ?own ?cown xs []" using M(1-3) unfolding mem_ok_def by simp
    have "holds_chain ?s' ?own ?cown i (node_to_reclaim s) rs"
      using M(5-9) free by (simp add: holds_chain_def)
    then show "thread_ok ?s' ?own ?cown i ((ls i)\<lparr>cell := node_to_reclaim s, pc := Del_loop\<rparr>)"
      by (auto simp: thread_ok_chain)
  qed (use i in \<open>auto simp: guard_ok_def guarded_def place_popping reachable_def\<close>)
qed

lemma del_end_ok:
  assumes ok: "co_ok n (s, ls) own cown xs rs" and pc: "pc (ls i) = Del_loop" "cell (ls i) = None" and i: "n \<le> i"
  shows "co_ok n (s, ls(i := pop_returns iter (ls i))) own cown xs rs"
proof -
  obtain cs where "holds_chain s own cown i None cs" using co_okD(2) [OF ok, of i] pc by (auto simp: thread_ok_chain)
  then have "owns_nothing own cown i" by (cases cs) (simp_all add: holds_chain_def owns_nothing_def)
  from co_ok_quiet [OF ok same_store_refl refl this] pop_returns_quiet [OF i, of iter "ls i"]
  show ?thesis by (auto simp: guarded_def)
qed

lemma del_next_ok:
  assumes ok: "co_ok n (s, ls) own cown xs rs" and pc: "pc (ls i) = Del_loop" "cell (ls i) = Some c" and i: "n \<le> i"
    and n: "slots_scanned n"
  shows "\<exists>d. cells s c = Some d \<and>
    co_ok n (s, ls(i := (ls i)\<lparr>rest := next_cell d, slot := start_cid, pc := Del_scan\<rparr>)) own cown xs rs"
proof -
  obtain cs where "holds_chain s own cown i (Some c) cs" using co_okD(2) [OF ok, of i] pc by (auto simp: thread_ok_chain)
  then obtain d cs' where d: "cells s c = Some d" "holds_current s own cown i c (next_cell d) cs'"
    by (cases cs) (auto simp: holds_chain_def holds_current_def split: option.splits)
  let ?l = "(ls i)\<lparr>rest := next_cell d, slot := start_cid, pc := Del_scan\<rparr>"
  have "co_ok n (s, ls(i := ?l)) own cown xs rs"
  proof (rule co_ok_local [OF ok])
    show "thread_ok s own cown i ?l" using d(2) pc(2) by (auto simp: thread_ok_current)
    show "\<not> passed s ?l j a" if "guarded (ls j)" for j a
      using guarded_consumer [OF co_okD(3) [OF ok] that] n by (simp add: passed_def slots_scanned_def)
  qed (use i in \<open>simp_all add: place_popping guard_ok_def guarded_def\<close>)
  with d(1) show ?thesis by blast
qed

text \<open>Looking at a slot.\<close>

lemma del_scan_ok:
  assumes ok: "co_ok n (s, ls) own cown xs rs" and pc: "pc (ls i) = Del_scan" and i: "n \<le> i"
    and l: "l' = (ls i)\<lparr>pc := Del_back\<rparr> \<or>
      l' = (ls i)\<lparr>pc := Del_free\<rparr> \<and> max_hazard_pointers \<le> slot (ls i) \<or>
      l' = (ls i)\<lparr>slot := slot (ls i) + 1\<rparr> \<and>
        (\<forall>c. cell (ls i) = Some c \<longrightarrow> hazard_pointers s ! slot (ls i) \<noteq> Some (cell_node (cells s) c))"
  shows "co_ok n (s, ls(i := l')) own cown xs rs"
proof (rule co_ok_local [OF ok])
  have "thread_ok s own cown i (ls i)" using co_okD(2) [OF ok] .
  then obtain c cs where "cell (ls i) = Some c" "holds_current s own cown i c (rest (ls i)) cs"
    using pc by (auto simp: thread_ok_current)
  then show "thread_ok s own cown i l'" using l pc by (auto simp: thread_ok_current)
  show "place_ok n i l'" "guard_ok n s own i l'" using l pc i by (auto simp: place_popping guard_ok_def guarded_def)
  show "\<not> passed s l' j a" if j: "j \<noteq> i" "guarded (ls j)" "old_head (ls j) = Some a" for j a
  proof
    assume p: "passed s l' j a"
    have before: "\<not> passed s (ls i) j a" using co_okD(5) [OF ok j(2,3)] .
    have slot: "j < max_hazard_pointers" "hazard_pointers s ! j = Some a"
      using co_okD(4) [OF ok, of j] j(2,3) by (simp_all add: guard_ok_def)
    from l show False
    proof (elim disjE conjE)
      assume "l' = (ls i)\<lparr>pc := Del_back\<rparr>"
      with p show False by simp
    next
      assume "l' = (ls i)\<lparr>pc := Del_free\<rparr>" "max_hazard_pointers \<le> slot (ls i)"
      with p slot before pc show False by (simp add: passed_def)
    next
      assume "l' = (ls i)\<lparr>slot := slot (ls i) + 1\<rparr>"
        and other: "\<forall>c. cell (ls i) = Some c \<longrightarrow> hazard_pointers s ! slot (ls i) \<noteq> Some (cell_node (cells s) c)"
      with p pc have *: "j < slot (ls i) + 1" "\<exists>c. cell (ls i) = Some c \<and> cell_node (cells s) c = a"
        by (simp_all add: passed_def)
      with before pc have "j = slot (ls i)" by (simp add: passed_def)
      with * other slot show False by auto
    qed
  qed
  show "\<not> passed s (ls j) i a" if "guarded l'" for j a using that l pc by (auto simp: guarded_def)
qed simp_all

text \<open>Deleting the node: nobody can be using it.\<close>

lemma del_free_ok:
  assumes ok: "co_ok n (s, ls) own cown xs rs" and pc: "pc (ls i) = Del_free" and i: "n \<le> i"
  shows "\<exists>c d. cell (ls i) = Some c \<and> cells s c = Some d \<and> nodes s (data d) \<noteq> None \<and>
    co_ok n (s\<lparr>cells := (cells s)(c := None), nodes := (nodes s)(data d := None), deleted := ds\<rparr>,
      ls(i := (ls i)\<lparr>pc := Del_count\<rparr>)) (own(data d := Nobody)) (cown(c := Nobody)) xs rs"
proof -
  note M = mem_okD [OF co_okD(1) [OF ok]]
  obtain c cs where c: "cell (ls i) = Some c" and holds: "holds_current s own cown i c (rest (ls i)) cs"
    using co_okD(2) [OF ok, of i] pc by (auto simp: thread_ok_current)
  then have mine: "cown c = Of i" "own (cell_node (cells s) c) = Of i" by (simp_all add: holds_current_def)
  then obtain d where d: "cells s c = Some d" using M(11) [of c] by (cases "cells s c") auto
  then have node: "cell_node (cells s) c = data d" by (simp add: cell_node_def)
  note holds = holds [unfolded holds_current_def list.map list.set node]
  have alive: "nodes s (data d) \<noteq> None" using M(10) [of "data d"] mine(2) node by simp
  have fresh: "c \<notin> set rs" "data d \<notin> set xs" "data d \<notin> set (map (cell_node (cells s)) rs)"
    using M(7) [of c] M(4,9) [of "data d"] mine node by simp_all
  have current: "c \<notin> set cs" using holds by simp
  let ?s' = "s\<lparr>cells := (cells s)(c := None), nodes := (nodes s)(data d := None), deleted := ds\<rparr>"
  have same: "map (cell_node (cells ?s')) ds' = map (cell_node (cells s)) ds'" if "c \<notin> set ds'" for ds'
    using that by (intro map_cong refl) (simp, metis cell_node_upd)
  have "co_ok n (?s', ls(i := (ls i)\<lparr>pc := Del_count\<rparr>)) (own(data d := Nobody)) (cown(c := Nobody)) xs rs"
  proof (rule co_ok_step [OF ok])
    have "schain (nodes ?s') (head s) xs" "chain (cells ?s') (node_to_reclaim s) rs"
      using M(2,5) fresh by (simp_all add: schain_upd chain_upd)
    then show "mem_ok ?s' (own(data d := Nobody)) (cown(c := Nobody)) xs rs"
      using co_okD(1) [OF ok] fresh unfolding mem_ok_def same [OF fresh(1)] by auto
    have "holds_chain ?s' (own(data d := Nobody)) (cown(c := Nobody)) i (rest (ls i)) cs"
      unfolding holds_chain_def same [OF current] using holds current by (auto simp: chain_upd)
    then show "thread_ok ?s' (own(data d := Nobody)) (cown(c := Nobody)) i ((ls i)\<lparr>pc := Del_count\<rparr>)"
      by (auto simp: thread_ok_chain)
    show "reachable n (own(data d := Nobody)) b \<and> map_option node_next (nodes ?s' b) = map_option node_next (nodes s b)"
      if j: "guarded (ls j)" "old_head (ls j) = Some b" and b: "reachable n own b" for j b
    proof -
      have "\<not> passed s (ls i) j b" using co_okD(5) [OF ok j] .
      then have "b \<noteq> data d" using pc c node by (simp add: passed_def)
      with b show ?thesis by (simp add: reachable_def)
    qed
  qed (use i mine node in \<open>auto simp: guard_ok_def guarded_def place_popping\<close>)
  with c d alive show ?thesis by blast
qed

lemma del_count_ok:
  assumes ok: "co_ok n (s, ls) own cown xs rs" and pc: "pc (ls i) = Del_count" and i: "n \<le> i"
  shows "co_ok n (s\<lparr>reclaim_cnt := k\<rparr>, ls(i := (ls i)\<lparr>cell := rest (ls i), pc := Del_loop\<rparr>)) own cown xs rs"
proof (rule co_ok_local [OF ok])
  show "thread_ok s own cown i ((ls i)\<lparr>cell := rest (ls i), pc := Del_loop\<rparr>)"
    using co_okD(2) [OF ok, of i] pc by (simp add: thread_ok_chain)
qed (use i in \<open>simp_all add: same_store_def place_popping guard_ok_def guarded_def\<close>)


section \<open>Nobody uses a node that is gone\<close>

lemma quiet_move:
  assumes ok: "co_ok n (s, ls) own cown xs rs" and q: "quiet (pc (ls i))" and same: "same_store s s'"
    and hp: "\<And>j. j \<noteq> i \<Longrightarrow> hazard_pointers s' ! j = hazard_pointers s ! j"
    and l': "quiet (pc l')" "pc l' \<notin> {Push_new, Bad_access, Pop_next, Pop_cas}" and i: "n \<le> i"
    and guard: "pc l' = Pop_reload \<longrightarrow> i < max_hazard_pointers \<and> hazard_pointers s' ! i = temp l'"
  shows "co_inv n (s', ls(i := l'))"
proof (rule co_invI, rule co_ok_quiet [OF ok same hp quiet_owns_nothing [OF ok q] l'(1)])
  show "place_ok n i l'" using l' i by (auto simp: place_popping quiet_def)
  show "\<not> guarded l'" using l'(2) by (auto simp: guarded_def)
qed (use guard in simp_all)

lemma pop_front_ok:
  assumes ok: "co_ok n (s, ls) own cown xs rs" and i: "n \<le> i" "i < max_hazard_pointers"
    and pc: "pc (ls i) \<in> {Pop_load, Pop_store, Pop_reload, Pop_next, Pop_cas, Pop_clear}"
    and step: "sync_pop A iter i s (ls i) = Some (s', l')"
  shows "co_inv n (s', ls(i := l'))"
proof -
  have slots: "length (hazard_pointers s) = max_hazard_pointers" using mem_okD(1) [OF co_okD(1) [OF ok]] .
  note move = quiet_move [OF ok _ _ _ _ _ i(1)]
  consider "pc (ls i) = Pop_load" | "pc (ls i) = Pop_store" | "pc (ls i) = Pop_reload" | "pc (ls i) = Pop_next"
    | "pc (ls i) = Pop_cas" | "pc (ls i) = Pop_clear" using pc by blast
  then show ?thesis
  proof cases
    case 1
    with step move [of s l'] show ?thesis by (auto simp: sync_pop_def quiet_def)
  next
    case 2
    with step i slots move [of s' l'] show ?thesis
      by (auto simp: sync_pop_def quiet_def array_simps same_store_def)
  next
    case 3
    consider "head s \<noteq> temp (ls i)" | "head s = None" "temp (ls i) = None" | a where "head s = Some a" "temp (ls i) = Some a"
      by (metis not_None_eq)
    then show ?thesis
    proof cases
      case 1
      with \<open>pc (ls i) = Pop_reload\<close> step move [of s l'] show ?thesis by (auto simp: sync_pop_def quiet_def)
    next
      case 2
      have free: "owns_nothing own cown i" using quiet_owns_nothing [OF ok] 3 by (simp add: quiet_def)
      have l': "s' = s" "l' = (ls i)\<lparr>old_head := None, pc := Pop_clear\<rparr>" using step 3 2 by (simp_all add: sync_pop_def)
      have "co_ok n (s, ls(i := l')) own cown xs rs"
      proof (rule co_ok_local [OF ok same_store_refl refl])
        show "thread_ok s own cown i l'" using free l' by (simp add: thread_ok_popped owns_nothing_def)
      qed (use l' i in \<open>simp_all add: place_popping guard_ok_def guarded_def\<close>)
      with l' show ?thesis by (auto intro: co_invI)
    next
      case (3 a)
      have "s' = s" "l' = (ls i)\<lparr>old_head := Some a, pc := Pop_next\<rparr>"
        using step \<open>pc (ls i) = Pop_reload\<close> 3 by (simp_all add: sync_pop_def)
      with co_invI [OF pop_reload_ok [OF ok \<open>pc (ls i) = Pop_reload\<close> i(1) 3]] show ?thesis by simp
    qed
  next
    case 4
    obtain a nd where a: "old_head (ls i) = Some a" "nodes s a = Some nd"
      by (rule guarded_node [OF ok, of i]) (use 4 in \<open>auto simp: guarded_def\<close>)
    have "s' = s" "l' = (ls i)\<lparr>next_node := node_next nd, pc := Pop_cas\<rparr>" using step 4 a by (simp_all add: sync_pop_def)
    with co_invI [OF pop_next_ok [OF ok 4 i(1) a]] show ?thesis by simp
  next
    case 5
    show ?thesis
    proof (cases "head s = old_head (ls i)")
      case True
      with 5 step have "s' = s\<lparr>head := next_node (ls i)\<rparr>" "l' = (ls i)\<lparr>pc := Pop_clear\<rparr>" by (simp_all add: sync_pop_def)
      with pop_cas_ok [OF ok 5 i(1) True] show ?thesis by (auto intro: co_invI)
    next
      case False
      with 5 step move [of s l'] show ?thesis by (auto simp: sync_pop_def quiet_def)
    qed
  next
    case 6
    with step i slots have "s' = s\<lparr>hazard_pointers := (hazard_pointers s)[i := None]\<rparr>"
      "l' = (if old_head (ls i) = None then pop_returns iter (ls i) else (ls i)\<lparr>pc := Pop_swap\<rparr>)"
      by (simp_all add: sync_pop_def array_simps)
    with co_invI [OF pop_clear_ok [OF ok 6 i(1), of iter]] show ?thesis by simp
  qed
qed

text \<open>Linking a cell, for the two places that do it.\<close>

lemma link_cell_ok:
  assumes ok: "co_ok n (s, ls) own cown xs rs" and i: "n \<le> i"
    and l: "pc (ls i) = Retire_cas \<and> after = (ls i)\<lparr>pc := Retire_count\<rparr> \<or>
      pc (ls i) = Del_back \<and> after = (ls i)\<lparr>cell := rest (ls i), pc := Del_loop\<rparr>"
    and step: "link_cell A after s (ls i) = (s', l')"
  shows "co_inv n (s', ls(i := l'))"
proof -
  note M = mem_okD [OF co_okD(1) [OF ok]]
  obtain c cs where c: "cell (ls i) = Some c" and mine: "cown c = Of i" "own (cell_node (cells s) c) = Of i"
    and place: "pc (ls i) = Retire_cas \<and> (\<forall>b. own b = Of i \<longleftrightarrow> b = cell_node (cells s) c) \<and> (\<forall>b. cown b = Of i \<longleftrightarrow> b = c) \<or>
      pc (ls i) = Del_back \<and> holds_current s own cown i c (rest (ls i)) cs"
  proof (cases "pc (ls i) = Retire_cas")
    case True
    with co_okD(2) [OF ok, of i] that show ?thesis by (auto simp: thread_ok_retiring)
  next
    case False
    with l have p: "pc (ls i) = Del_back" by simp
    with co_okD(2) [OF ok, of i] obtain c cs where "cell (ls i) = Some c" "holds_current s own cown i c (rest (ls i)) cs"
      by (auto simp: thread_ok_current)
    with that p show ?thesis by (auto simp: holds_current_def)
  qed
  obtain d where d: "cells s c = Some d" using mine(1) M(11) [of c] by (cases "cells s c") auto
  have node: "cell_node (cells s) c = data d" by (simp add: cell_node_def d)
  show ?thesis
  proof (cases "next_cell d = node_to_reclaim s \<and> \<not> weak_fails A s")
    case True
    let ?s' = "s\<lparr>node_to_reclaim := Some c\<rparr>"
    have res: "s' = ?s'" "l' = after" using step c d True by (auto simp: link_cell_def)
    have "thread_ok ?s' (own(data d := Retired)) (cown(c := Retired)) i after"
      using place
    proof (elim disjE conjE)
      assume p: "pc (ls i) = Retire_cas" "\<forall>b. own b = Of i \<longleftrightarrow> b = cell_node (cells s) c" "\<forall>b. cown b = Of i \<longleftrightarrow> b = c"
      with l node show ?thesis by (simp add: thread_ok_quiet quiet_def owns_nothing_def)
    next
      assume p: "pc (ls i) = Del_back" "holds_current s own cown i c (rest (ls i)) cs"
      then have "holds_chain ?s' (own(data d := Retired)) (cown(c := Retired)) i (rest (ls i)) cs"
        using node by (auto simp: holds_current_def holds_chain_def)
      with l p(1) show ?thesis by (auto simp: thread_ok_chain)
    qed
    from co_invI [OF link_ok [OF ok i c d _ mine(1) _ this]] True mine(2) node l i res
    show ?thesis by (auto simp: place_popping)
  next
    case False
    with step c d have res: "s' = s\<lparr>cells := (cells s)(c \<mapsto> d\<lparr>next_cell := node_to_reclaim s\<rparr>)\<rparr>" "l' = ls i"
      by (auto simp: link_cell_def)
    have "pc (ls i) = Retire_cas \<or> pc (ls i) = Del_back" using l by blast
    from co_invI [OF relink_ok [OF ok i c d this]] res show ?thesis by simp
  qed
qed


lemma pop_back_ok:
  assumes ok: "co_ok n (s, ls) own cown xs rs" and i: "n \<le> i" and A: "allocates A" and n: "slots_scanned n"
    and pc: "pc (ls i) \<in> {Pop_swap, Retire_new, Retire_cas, Retire_count, Pop_test}"
    and step: "sync_pop A iter i s (ls i) = Some (s', l')"
  shows "co_inv n (s', ls(i := l'))"
proof -
  note move = quiet_move [OF ok _ _ _ _ _ i]
  consider "pc (ls i) = Pop_swap" | "pc (ls i) = Retire_new" | "pc (ls i) = Retire_cas" | "pc (ls i) = Retire_count"
    | "pc (ls i) = Pop_test" using pc by blast
  then show ?thesis
  proof cases
    case 1
    obtain a where a: "old_head (ls i) = Some a" using co_okD(3) [OF ok, of i] 1 i by (auto simp: place_popping)
    then have "own a = Of i" using co_okD(2) [OF ok, of i] 1 by (simp add: thread_ok_popped)
    then obtain nd where nd: "nodes s a = Some nd" using mem_okD(10) [OF co_okD(1) [OF ok], of a] by (cases "nodes s a") auto
    from co_invI [OF pop_swap_ok [OF ok 1 i a nd]] step 1 a nd show ?thesis by (auto simp: sync_pop_def)
  next
    case 2
    obtain a where a: "old_head (ls i) = Some a" using co_okD(3) [OF ok, of i] 2 i by (auto simp: place_popping)
    show ?thesis
    proof (cases "new_cell_at A s")
      case None
      with step 2 a retire_fails_ok [OF ok 2 i] show ?thesis by (auto simp: sync_pop_def intro: co_invI)
    next
      case (Some c)
      with A have "cells s c = None" by (simp add: allocates_def)
      from co_invI [OF retire_new_ok [OF ok 2 i a this]] step 2 a Some show ?thesis by (simp add: sync_pop_def)
    qed
  next
    case 3
    with link_cell_ok [OF ok i] step show ?thesis by (auto simp: sync_pop_def)
  next
    case 4
    with step move [of s' l'] show ?thesis by (auto simp: sync_pop_def quiet_def same_store_def)
  next
    case 5
    with step move [of s l'] show ?thesis by (auto simp: sync_pop_def quiet_def pop_returns_def split: if_splits)
  qed
qed

lemma pop_pass_ok:
  assumes ok: "co_ok n (s, ls) own cown xs rs" and i: "n \<le> i" and n: "slots_scanned n"
    and pc: "pc (ls i) \<in> {Del_exchange, Del_loop, Del_scan, Del_free, Del_count, Del_back}"
    and step: "sync_pop A iter i s (ls i) = Some (s', l')"
  shows "co_inv n (s', ls(i := l'))"
proof -
  consider "pc (ls i) = Del_exchange" | "pc (ls i) = Del_loop" | "pc (ls i) = Del_scan" | "pc (ls i) = Del_free"
    | "pc (ls i) = Del_count" | "pc (ls i) = Del_back" using pc by blast
  then show ?thesis
  proof cases
    case 1
    with co_invI [OF del_exchange_ok [OF ok 1 i]] step show ?thesis by (simp add: sync_pop_def)
  next
    case 2
    show ?thesis
    proof (cases "cell (ls i)")
      case None
      with co_invI [OF del_end_ok [OF ok 2 None i, of iter]] step 2 show ?thesis by (simp add: sync_pop_def)
    next
      case (Some c)
      with del_next_ok [OF ok 2 Some i n] step 2 show ?thesis by (auto simp: sync_pop_def intro: co_invI)
    qed
  next
    case 3
    obtain c cs where c: "cell (ls i) = Some c" "holds_current s own cown i c (rest (ls i)) cs"
      using co_okD(2) [OF ok, of i] 3 by (auto simp: thread_ok_current)
    then have "cown c = Of i" by (simp add: holds_current_def)
    then obtain d where d: "cells s c = Some d" using mem_okD(11) [OF co_okD(1) [OF ok], of c] by (cases "cells s c") auto
    have hp: "length (hazard_pointers s) = max_hazard_pointers" using mem_okD(1) [OF co_okD(1) [OF ok]] .
    have "s' = s" using step 3 c(1) d hp by (auto simp: sync_pop_def array_simps split: if_splits)
    moreover have "co_ok n (s, ls(i := l')) own cown xs rs"
      by (rule del_scan_ok [OF ok 3 i])
        (use step 3 c(1) d hp in \<open>auto simp: sync_pop_def array_simps cell_node_def split: if_splits\<close>)
    ultimately show ?thesis by (auto intro: co_invI)
  next
    case 4
    obtain c d where cd: "cell (ls i) = Some c" "cells s c = Some d" "nodes s (data d) \<noteq> None"
      using del_free_ok [OF ok 4 i, of "[]"] by blast
    with del_free_ok [OF ok 4 i, of "deleted s @ [data d]"] step 4 show ?thesis
      by (auto simp: sync_pop_def intro: co_invI)
  next
    case 5
    have "s' = s\<lparr>reclaim_cnt := reclaim_cnt s - 1\<rparr>" "l' = (ls i)\<lparr>cell := rest (ls i), pc := Del_loop\<rparr>"
      using step 5 by (simp_all add: sync_pop_def)
    with co_invI [OF del_count_ok [OF ok 5 i]] show ?thesis by simp
  next
    case 6
    with link_cell_ok [OF ok i] step show ?thesis by (auto simp: sync_pop_def)
  qed
qed

lemma pop_ok:
  assumes ok: "co_ok n (s, ls) own cown xs rs" and i: "n \<le> i" "i < max_hazard_pointers" and A: "allocates A"
    and n: "slots_scanned n" and step: "sync_pop A iter i s (ls i) = Some (s', l')"
  shows "co_inv n (s', ls(i := l'))"
proof -
  have "pc (ls i) \<notin> {Push_new, Push_load, Push_cas, Finished, Bad_alloc, Bad_access}"
    using step by (auto simp: sync_pop_def)
  then have "pc (ls i) \<in> {Pop_load, Pop_store, Pop_reload, Pop_next, Pop_cas, Pop_clear} \<or>
    pc (ls i) \<in> {Pop_swap, Retire_new, Retire_cas, Retire_count, Pop_test} \<or>
    pc (ls i) \<in> {Del_exchange, Del_loop, Del_scan, Del_free, Del_count, Del_back}" by (cases "pc (ls i)") auto
  then show ?thesis
    using pop_front_ok [OF ok i _ step] pop_back_ok [OF ok i(1) A n _ step] pop_pass_ok [OF ok i(1) n _ step] by blast
qed

text \<open>The number of steps does not matter.\<close>

lemma co_inv_steps:
  assumes "co_inv n (s, ls(i := l))"
  shows "co_inv n (s, ls(i := l\<lparr>steps := k\<rparr>))"
proof -
  have steps: "thread_ok s own cown j (m\<lparr>steps := q\<rparr>) = thread_ok s own cown j m"
    "guard_ok n s own j (m\<lparr>steps := q\<rparr>) = guard_ok n s own j m" "place_ok n j (m\<lparr>steps := q\<rparr>) = place_ok n j m"
    "passed s (m\<lparr>steps := q\<rparr>) j a = passed s m j a" "guarded (m\<lparr>steps := q\<rparr>) = guarded m"
    "old_head (m\<lparr>steps := q\<rparr>) = old_head m" for own cown j a m q
    by (simp_all add: thread_ok_def thread_cells_def thread_nodes_def guard_ok_def place_ok_def passed_def guarded_def)
  let ?ls = "ls(i := l)"
  have ls: "ls(i := l\<lparr>steps := k\<rparr>) = (\<lambda>j. (?ls j)\<lparr>steps := if j = i then k else steps (?ls j)\<rparr>)" by auto
  have "co_ok n (s, ls(i := l\<lparr>steps := k\<rparr>)) own cown xs rs = co_ok n (s, ?ls) own cown xs rs" for own cown xs rs
    unfolding co_ok_def fst_conv snd_conv ls steps ..
  with assms show ?thesis by (simp add: co_inv_def)
qed

lemma co_inv_step:
  assumes inv: "co_inv n (s, ls)" and A: "\<And>i k. allocates (A i k)" and n: "slots_scanned n" and i: "i < 2 * n"
    and step: "co_prog A n iter i s (ls i) = Some (s', l')"
  shows "co_inv n (s', ls(i := l'))"
proof -
  from inv obtain own cown xs rs where ok: "co_ok n (s, ls) own cown xs rs" by (auto simp: co_inv_def)
  obtain l1 where l1: "l' = l1\<lparr>steps := steps (ls i) + 1\<rparr>"
    "(if i < n then sync_push (A i (steps (ls i))) (iter i) s (ls i) else sync_pop (A i (steps (ls i))) (iter i) i s (ls i)) =
      Some (s', l1)"
    using step by (auto simp: co_prog_def)
  have "i < max_hazard_pointers" using i n by (simp add: slots_scanned_def)
  then have "co_inv n (s', ls(i := l1))"
    using l1(2) push_ok [OF ok A, of i] pop_ok [OF ok _ _ A n, of i] by (cases "i < n") auto
  then show ?thesis unfolding l1(1) by (rule co_inv_steps)
qed

lemma co_inv_start: "co_inv n (co_start n)"
proof -
  have "thread_ok co_mem0 (\<lambda>_. Nobody) (\<lambda>_. Nobody) i (co_thread0 n i)" for i
    by (subst thread_ok_quiet) (simp_all add: co_thread0_def quiet_def owns_nothing_def)
  then have "co_ok n (co_start n) (\<lambda>_. Nobody) (\<lambda>_. Nobody) [] []"
    by (simp add: co_ok_def co_start_def mem_ok_def guard_ok_def place_ok_def guarded_def)
      (simp add: co_mem0_def co_thread0_def)
  then show ?thesis by (rule co_invI)
qed

lemma co_inv_reach:
  assumes "reach (co_prog A n iter) (2 * n) (co_start n) c" and "\<And>i k. allocates (A i k)" and "slots_scanned n"
  shows "co_inv n c"
  using assms(1)
proof (rule reach_invariant)
  show "co_inv n (co_start n)" by (rule co_inv_start)
qed (rule co_inv_step [OF _ assms(2,3)])

lemma co_inv_safe: "co_inv n c \<Longrightarrow> pc (snd c i) \<noteq> Bad_access"
  by (cases c) (auto simp: co_inv_def place_ok_def dest: co_okD(3) [of _ _ _ _ _ _ _ i] split: if_splits)


text \<open>
  C3: with fourteen producers and fourteen consumers, whose slots are exactly those the passes look at, no
  run of the lock-free stack ever uses or deletes a node or a cell that is not allocated, and no access
  leaves the array of hazard pointers, whatever addresses the allocator hands out again.
\<close>

theorem co_stack_safe:
  assumes "reach (co_prog A n iter) (2 * n) (co_start n) c" and "\<And>i k. allocates (A i k)" and "slots_scanned n"
  shows "pc (snd c i) \<noteq> Bad_access"
  by (rule co_inv_safe) (rule co_inv_reach [OF assms])

lemma co_stack_safe_witness:
  "\<forall>sched i. pc (snd (run_sched (co_prog by_step 14 (\<lambda>_. 3)) (2 * 14) sched (co_start 14)) i) \<noteq> Bad_access"
  using co_stack_safe [where A = by_step, OF reach_run_sched by_step_allocates fourteen_scanned] by blast

end
