(* ===== verification/COstack_Pairs.thy ===== *)
theory COstack_Pairs
  imports COstack_Invariant
begin

text \<open>
  The lock-free stack with other numbers of threads: runs that use a deleted node or a slot that is
  not there.
\<close>

section \<open>Other numbers of threads\<close>

definition fresh_from :: "nat \<Rightarrow> (nat \<Rightarrow> 'a option) \<Rightarrow> nat \<Rightarrow> bool" where
  "fresh_from i m k \<longleftrightarrow> (\<forall>k'\<ge>k. m (address i k') = None)"

lemma fresh_from_upd: "fresh_from i m k \<Longrightarrow> k \<le> j \<Longrightarrow> j < j' \<Longrightarrow> fresh_from i (m(address i j := x)) j'"
  by (simp add: fresh_from_def address_def max_hazard_pointers_def MAX_NR_THREADS_def)

lemma fresh_from_mono: "fresh_from i m k \<Longrightarrow> k \<le> j \<Longrightarrow> fresh_from i m j"
  by (simp add: fresh_from_def)

lemma fresh_fromD: "fresh_from i m k \<Longrightarrow> k \<le> j \<Longrightarrow> m (address i j) = None"
  by (simp add: fresh_from_def)

text \<open>A push that is not disturbed.\<close>

lemma push_alone:
  assumes "pc l = Push_new" and "round l < iter 0" and "fresh_from 0 (nodes s) (steps l)" and "head s = None" and "0 < n"
    and a: "a = address 0 (steps l)" and nodes: "ns = (nodes s)(a \<mapsto> \<lparr>node_data = Some (round l), node_next = None\<rparr>)"
  shows "\<exists>l'. solo (co_prog by_step n iter 0) (Suc (Suc (Suc 0))) s l = (s\<lparr>nodes := ns, head := Some a\<rparr>, l') \<and>
    pc l' = Push_new \<and> round l' = round l + 1 \<and> fresh_from 0 ns (steps l')"
proof -
  have "nodes s a = None" using fresh_fromD [OF assms(3), of "steps l"] a by simp
  then have "solo (co_prog by_step n iter 0) (Suc (Suc (Suc 0))) s l =
    (s\<lparr>nodes := ns, head := Some a\<rparr>, l\<lparr>pc := Push_new, round := round l + 1, new_node := a, steps := Suc (Suc (Suc (steps l)))\<rparr>)"
    using assms(1,2,4,5) unfolding nodes by (simp add: co_prog_def sync_push_def by_step_def a [symmetric])
  moreover have "fresh_from 0 ns (Suc (Suc (Suc (steps l))))"
    unfolding nodes a by (rule fresh_from_upd [OF assms(3)]) simp_all
  ultimately show ?thesis by simp
qed

text \<open>A pop that is not disturbed, until its node is in the list of retired nodes.\<close>

text \<open>Where a thread gets when it runs alone.\<close>

definition goes :: "('s \<Rightarrow> 'l \<Rightarrow> ('s \<times> 'l) option) \<Rightarrow> 's \<times> 'l \<Rightarrow> 's \<times> 'l \<Rightarrow> bool" where
  "goes f c c' \<longleftrightarrow> (\<exists>m. solo f m (fst c) (snd c) = c')"

lemma goes_refl: "goes f c c"
  unfolding goes_def by (rule exI [of _ 0]) simp

lemma goes_eq: "c = c' \<Longrightarrow> goes f c c'"
  by (simp add: goes_refl)

lemma goes_first: "f s l = Some c1 \<Longrightarrow> goes f c1 c' \<Longrightarrow> goes f (s, l) c'"
  unfolding goes_def by (cases c1) (auto intro: exI [of _ "Suc m" for m])

lemma goes_trans: "goes f c c1 \<Longrightarrow> goes f c1 c2 \<Longrightarrow> goes f c c2"
proof -
  have "solo f (m + k) s l = solo f k (fst (solo f m s l)) (snd (solo f m s l))" for m k s l
  proof (induction m arbitrary: s l)
    case (Suc m)
    have stuck: "f s l = None \<Longrightarrow> solo f k s l = (s, l)" by (cases k) simp_all
    show ?case using Suc stuck by (cases "f s l") auto
  qed simp
  then show "goes f c c1 \<Longrightarrow> goes f c1 c2 \<Longrightarrow> goes f c c2" unfolding goes_def by metis
qed

lemma pop_instr:
  assumes "n \<le> i" "i < length (hazard_pointers s)"
  shows "pc l = Pop_load \<Longrightarrow> co_prog A n iter i s l = Some (s, l\<lparr>old_head := head s, res := None, pc := Pop_store, steps := steps l + 1\<rparr>)"
    "pc l = Pop_store \<Longrightarrow> co_prog A n iter i s l = Some (s\<lparr>hazard_pointers := (hazard_pointers s)[i := old_head l]\<rparr>,
      l\<lparr>temp := old_head l, pc := Pop_reload, steps := steps l + 1\<rparr>)"
    "pc l = Pop_reload \<Longrightarrow> head s = Some a \<Longrightarrow> temp l = Some a \<Longrightarrow>
      co_prog A n iter i s l = Some (s, l\<lparr>old_head := Some a, pc := Pop_next, steps := steps l + 1\<rparr>)"
    "pc l = Pop_next \<Longrightarrow> old_head l = Some a \<Longrightarrow> nodes s a = Some nd \<Longrightarrow>
      co_prog A n iter i s l = Some (s, l\<lparr>next_node := node_next nd, pc := Pop_cas, steps := steps l + 1\<rparr>)"
    "pc l = Pop_cas \<Longrightarrow> head s = old_head l \<Longrightarrow>
      co_prog A n iter i s l = Some (s\<lparr>head := next_node l\<rparr>, l\<lparr>pc := Pop_clear, steps := steps l + 1\<rparr>)"
    "pc l = Pop_clear \<Longrightarrow> old_head l = Some a \<Longrightarrow> co_prog A n iter i s l =
      Some (s\<lparr>hazard_pointers := (hazard_pointers s)[i := None]\<rparr>, l\<lparr>pc := Pop_swap, steps := steps l + 1\<rparr>)"
    "pc l = Pop_swap \<Longrightarrow> old_head l = Some a \<Longrightarrow> nodes s a = Some nd \<Longrightarrow>
      co_prog A n iter i s l = Some (s\<lparr>nodes := (nodes s)(a \<mapsto> nd\<lparr>node_data := res l\<rparr>)\<rparr>,
        l\<lparr>res := node_data nd, pc := Retire_new, steps := steps l + 1\<rparr>)"
    "pc l = Retire_new \<Longrightarrow> old_head l = Some a \<Longrightarrow> new_cell_at (A i (steps l)) s = Some c \<Longrightarrow>
      co_prog A n iter i s l = Some (s\<lparr>cells := (cells s)(c \<mapsto> \<lparr>data = a, next_cell = None\<rparr>)\<rparr>,
        l\<lparr>cell := Some c, pc := Retire_cas, steps := steps l + 1\<rparr>)"
    "pc l = Retire_count \<Longrightarrow> co_prog A n iter i s l =
      Some (s\<lparr>reclaim_cnt := reclaim_cnt s + 1\<rparr>, l\<lparr>pc := Pop_test, steps := steps l + 1\<rparr>)"
    "pc l = Retire_cas \<Longrightarrow> cell l = Some c \<Longrightarrow> cells s c = Some d \<Longrightarrow> next_cell d = node_to_reclaim s \<Longrightarrow>
      \<not> weak_fails (A i (steps l)) s \<Longrightarrow>
      co_prog A n iter i s l = Some (s\<lparr>node_to_reclaim := Some c\<rparr>, l\<lparr>pc := Retire_count, steps := steps l + 1\<rparr>)"
    "pc l = Retire_cas \<Longrightarrow> cell l = Some c \<Longrightarrow> cells s c = Some d \<Longrightarrow> next_cell d \<noteq> node_to_reclaim s \<Longrightarrow>
      co_prog A n iter i s l =
      Some (s\<lparr>cells := (cells s)(c \<mapsto> d\<lparr>next_cell := node_to_reclaim s\<rparr>)\<rparr>, l\<lparr>steps := steps l + 1\<rparr>)"
  using assms by (simp_all add: co_prog_def sync_pop_def link_cell_def array_simps)

lemma pop_announces:
  assumes "n \<le> i" "i < length (hazard_pointers s)" and "pc l = Pop_load" and "head s = Some a"
  shows "goes (co_prog A n iter i) (s, l) (s\<lparr>hazard_pointers := (hazard_pointers s)[i := Some a]\<rparr>,
    l\<lparr>old_head := Some a, res := None, temp := Some a, pc := Pop_next, steps := steps l + 3\<rparr>)"
  by (rule goes_first, rule pop_instr(1), use assms in simp_all,
      rule goes_first, rule pop_instr(2), use assms in simp_all,
      rule goes_first, rule pop_instr(3) [where a = a], use assms in simp_all)
    (rule goes_eq, simp add: numeral_3_eq_3)

lemma pop_takes:
  assumes "n \<le> i" "i < length (hazard_pointers s)" and "pc l = Pop_next" "old_head l = Some a" "head s = Some a"
    "nodes s a = Some nd" "node_next nd = None" "res l = None"
    and "new_cell_at (A i (steps l + 4))
      (s\<lparr>head := None, hazard_pointers := (hazard_pointers s)[i := None], nodes := (nodes s)(a \<mapsto> nd\<lparr>node_data := None\<rparr>)\<rparr>) = Some c"
  shows "goes (co_prog A n iter i) (s, l)
   (s\<lparr>head := None, hazard_pointers := (hazard_pointers s)[i := None], nodes := (nodes s)(a \<mapsto> nd\<lparr>node_data := None\<rparr>),
      cells := (cells s)(c \<mapsto> \<lparr>data = a, next_cell = None\<rparr>)\<rparr>,
    l\<lparr>next_node := None, res := node_data nd, cell := Some c, pc := Retire_cas, steps := steps l + 5\<rparr>)"
  by (rule goes_first, rule pop_instr(4) [where a = a and nd = nd], use assms in simp_all,
      rule goes_first, rule pop_instr(5), use assms in simp_all,
      rule goes_first, rule pop_instr(6) [where a = a], use assms in simp_all,
      rule goes_first, rule pop_instr(7) [where a = a and nd = nd], use assms in simp_all,
      rule goes_first, rule pop_instr(8) [where a = a and c = c], use assms in simp_all)
    (simp add: eval_nat_numeral, rule goes_eq, simp add: eval_nat_numeral)

lemma pop_links:
  assumes "n \<le> i" "i < length (hazard_pointers s)" and "pc l = Retire_cas" "cell l = Some c"
    "cells s c = Some \<lparr>data = a, next_cell = None\<rparr>" and A: "\<And>k s. \<not> weak_fails (A i k) s"
  shows "\<exists>d k. data d = a \<and> steps l < k \<and> goes (co_prog A n iter i) (s, l)
    (s\<lparr>cells := (cells s)(c \<mapsto> d), node_to_reclaim := Some c, reclaim_cnt := reclaim_cnt s + 1\<rparr>,
     l\<lparr>pc := Pop_test, steps := k\<rparr>)"
proof (cases "node_to_reclaim s = None")
  case True
  have cs: "(cells s)(c \<mapsto> \<lparr>data = a, next_cell = None\<rparr>) = cells s" using assms by auto
  have "goes (co_prog A n iter i) (s, l)
    (s\<lparr>node_to_reclaim := Some c, reclaim_cnt := reclaim_cnt s + 1\<rparr>, l\<lparr>pc := Pop_test, steps := Suc (Suc (steps l))\<rparr>)"
    by (rule goes_first, rule pop_instr(10) [where c = c and d = "\<lparr>data = a, next_cell = None\<rparr>"], use assms True in simp_all,
        rule goes_first, rule pop_instr(9), use assms True in simp_all)
      (rule goes_eq, simp)
  with cs show ?thesis by (intro exI [of _ "\<lparr>data = a, next_cell = None\<rparr>"] exI [of _ "Suc (Suc (steps l))"]) simp
next
  case False
  have "goes (co_prog A n iter i) (s, l)
    (s\<lparr>cells := (cells s)(c \<mapsto> \<lparr>data = a, next_cell = node_to_reclaim s\<rparr>), node_to_reclaim := Some c,
       reclaim_cnt := reclaim_cnt s + 1\<rparr>, l\<lparr>pc := Pop_test, steps := Suc (Suc (Suc (steps l)))\<rparr>)"
    by (rule goes_first, rule pop_instr(11) [where c = c and d = "\<lparr>data = a, next_cell = None\<rparr>"],
        use assms False [symmetric] in simp_all,
        rule goes_first, rule pop_instr(10) [where c = c and d = "\<lparr>data = a, next_cell = node_to_reclaim s\<rparr>"], use assms False in simp_all,
        rule goes_first, rule pop_instr(9), use assms in simp_all)
      (rule goes_eq, simp)
  then show ?thesis
    by (intro exI [of _ "\<lparr>data = a, next_cell = node_to_reclaim s\<rparr>"] exI [of _ "Suc (Suc (Suc (steps l)))"]) simp
qed

lemma by_step_simps:
  "cells s (address i k) = None \<Longrightarrow> new_cell_at (by_step i k) s = Some (address i k)" "\<not> weak_fails (by_step i k) s"
  by (simp_all add: by_step_def)

lemma pop_retires:
  assumes i: "n \<le> i" "i < length (hazard_pointers s)" and pc: "pc l = Pop_load" and head: "head s = Some a"
    and nd: "nodes s a = Some nd" "node_next nd = None" and fresh: "fresh_from i (cells s) (steps l)"
  shows "\<exists>s' l' c d. goes (co_prog by_step n iter i) (s, l) (s', l') \<and> pc l' = Pop_test \<and> res l' = node_data nd \<and>
    head s' = None \<and> hazard_pointers s' = (hazard_pointers s)[i := None] \<and>
    nodes s' = (nodes s)(a \<mapsto> nd\<lparr>node_data := None\<rparr>) \<and> node_to_reclaim s' = Some c \<and> cells s' c = Some d \<and> data d = a \<and>
    fresh_from i (cells s') (steps l') \<and> reclaim_cnt s' = reclaim_cnt s + 1"
proof -
  let ?c = "address i (steps l + 7)"
  let ?l1 = "l\<lparr>old_head := Some a, res := None, temp := Some a, pc := Pop_next, steps := steps l + 3\<rparr>"
  let ?s1 = "s\<lparr>hazard_pointers := (hazard_pointers s)[i := Some a]\<rparr>"
  have g1: "goes (co_prog by_step n iter i) (s, l) (?s1, ?l1)" by (rule pop_announces [OF i pc head])
  let ?s2 = "?s1\<lparr>head := None, hazard_pointers := (hazard_pointers ?s1)[i := None],
    nodes := (nodes ?s1)(a \<mapsto> nd\<lparr>node_data := None\<rparr>), cells := (cells ?s1)(?c \<mapsto> \<lparr>data = a, next_cell = None\<rparr>)\<rparr>"
  let ?l2 = "?l1\<lparr>next_node := None, res := node_data nd, cell := Some ?c, pc := Retire_cas, steps := steps ?l1 + 5\<rparr>"
  have "cells s ?c = None" using fresh_fromD [OF fresh, of "steps l + 7"] by simp
  then have g2: "goes (co_prog by_step n iter i) (?s1, ?l1) (?s2, ?l2)"
    by (intro pop_takes) (use i head nd in \<open>simp_all add: by_step_simps add.commute\<close>)
  obtain d k where d: "data d = a" "steps ?l2 < k" and g3: "goes (co_prog by_step n iter i) (?s2, ?l2)
    (?s2\<lparr>cells := (cells ?s2)(?c \<mapsto> d), node_to_reclaim := Some ?c, reclaim_cnt := reclaim_cnt ?s2 + 1\<rparr>,
     ?l2\<lparr>pc := Pop_test, steps := k\<rparr>)"
    using pop_links [of n i ?s2 ?l2 ?c a by_step iter] i by (auto simp: by_step_simps)
  have "fresh_from i ((cells s)(?c \<mapsto> d)) k" by (rule fresh_from_upd [OF fresh]) (use d(2) in simp_all)
  with d(1) goes_trans [OF g1 goes_trans [OF g2 g3]] show ?thesis
    by (intro exI conjI) (assumption | simp)+
qed

text \<open>The pass, up to the first node it deletes.\<close>

lemma pass_instr:
  shows "pc l = Pop_test \<Longrightarrow> 100 \<le> sint (reclaim_cnt s) \<Longrightarrow> n \<le> i \<Longrightarrow>
      co_prog A n iter i s l = Some (s, l\<lparr>pc := Del_exchange, steps := steps l + 1\<rparr>)"
    "pc l = Pop_test \<Longrightarrow> sint (reclaim_cnt s) < 100 \<Longrightarrow> n \<le> i \<Longrightarrow>
      co_prog A n iter i s l = Some (s, (pop_returns (iter i) l)\<lparr>steps := steps l + 1\<rparr>)"
    "pc l = Del_exchange \<Longrightarrow> n \<le> i \<Longrightarrow> co_prog A n iter i s l =
      Some (s\<lparr>node_to_reclaim := None\<rparr>, l\<lparr>cell := node_to_reclaim s, pc := Del_loop, steps := steps l + 1\<rparr>)"
    "pc l = Del_loop \<Longrightarrow> cell l = Some c \<Longrightarrow> cells s c = Some d \<Longrightarrow> n \<le> i \<Longrightarrow> co_prog A n iter i s l =
      Some (s, l\<lparr>rest := next_cell d, slot := start_cid, pc := Del_scan, steps := steps l + 1\<rparr>)"
    "pc l = Del_scan \<Longrightarrow> max_hazard_pointers \<le> slot l \<Longrightarrow> n \<le> i \<Longrightarrow>
      co_prog A n iter i s l = Some (s, l\<lparr>pc := Del_free, steps := steps l + 1\<rparr>)"
    "pc l = Del_scan \<Longrightarrow> slot l < max_hazard_pointers \<Longrightarrow> length (hazard_pointers s) = max_hazard_pointers \<Longrightarrow>
      hazard_pointers s ! slot l = None \<Longrightarrow> cell l = Some c \<Longrightarrow> cells s c = Some d \<Longrightarrow> n \<le> i \<Longrightarrow>
      co_prog A n iter i s l = Some (s, l\<lparr>slot := slot l + 1, steps := steps l + 1\<rparr>)"
    "pc l = Del_free \<Longrightarrow> cell l = Some c \<Longrightarrow> cells s c = Some d \<Longrightarrow> nodes s (data d) = Some nd \<Longrightarrow> n \<le> i \<Longrightarrow>
      co_prog A n iter i s l = Some (s\<lparr>cells := (cells s)(c := None), nodes := (nodes s)(data d := None),
        deleted := deleted s @ [data d]\<rparr>, l\<lparr>pc := Del_count, steps := steps l + 1\<rparr>)"
  by (simp_all add: co_prog_def sync_pop_def array_simps)

lemma pass_scans:
  assumes "slot l + m = max_hazard_pointers" and "pc l = Del_scan" "cell l = Some c" "cells s c = Some d" "n \<le> i"
    and hp: "length (hazard_pointers s) = max_hazard_pointers" "\<And>j. slot l \<le> j \<Longrightarrow> j < max_hazard_pointers \<Longrightarrow> hazard_pointers s ! j = None"
  shows "goes (co_prog A n iter i) (s, l) (s, l\<lparr>slot := max_hazard_pointers, pc := Del_free, steps := steps l + Suc m\<rparr>)"
  using assms
proof (induction m arbitrary: l)
  case 0
  then have slot: "slot l = max_hazard_pointers" by simp
  have same: "l\<lparr>slot := max_hazard_pointers, pc := Del_free, steps := steps l + Suc 0\<rparr> = l\<lparr>pc := Del_free, steps := steps l + 1\<rparr>"
    by (cases l) (use slot in simp)
  show ?case unfolding same
    by (rule goes_first [OF pass_instr(5) goes_refl]) (use 0 slot in simp_all)
next
  case (Suc m)
  let ?l = "l\<lparr>slot := slot l + 1, steps := steps l + 1\<rparr>"
  have "goes (co_prog A n iter i) (s, ?l) (s, ?l\<lparr>slot := max_hazard_pointers, pc := Del_free, steps := steps ?l + Suc m\<rparr>)"
    by (rule Suc.IH) (use Suc.prems in auto)
  moreover have "co_prog A n iter i s l = Some (s, ?l)"
    by (rule pass_instr(6) [OF Suc.prems(2) _ Suc.prems(6) _ Suc.prems(3,4,5)]) (use Suc.prems(1,7) in auto)
  ultimately show ?case by (intro goes_first) simp_all
qed

lemma pass_deletes:
  assumes "pc l = Pop_test" "100 \<le> sint (reclaim_cnt s)" "n \<le> i" "node_to_reclaim s = Some c" "cells s c = Some d"
    and nd: "nodes s (data d) = Some nd"
    and hp: "length (hazard_pointers s) = max_hazard_pointers" "\<And>j. start_cid \<le> j \<Longrightarrow> j < max_hazard_pointers \<Longrightarrow> hazard_pointers s ! j = None"
  shows "\<exists>s' l'. goes (co_prog A n iter i) (s, l) (s', l') \<and> nodes s' (data d) = None"
proof -
  let ?s = "s\<lparr>node_to_reclaim := None\<rparr>"
  let ?l = "l\<lparr>cell := Some c, rest := next_cell d, slot := start_cid, pc := Del_scan, steps := steps l + 3\<rparr>"
  have g1: "goes (co_prog A n iter i) (s, l) (?s, ?l)"
    by (rule goes_first, rule pass_instr(1), use assms in simp_all,
        rule goes_first, rule pass_instr(3), use assms in simp_all,
        rule goes_first, rule pass_instr(4) [where c = c and d = d], use assms in simp_all)
      (rule goes_eq, simp add: eval_nat_numeral)
  let ?l2 = "?l\<lparr>slot := max_hazard_pointers, pc := Del_free, steps := steps ?l + Suc (max_hazard_pointers - start_cid)\<rparr>"
  have g2: "goes (co_prog A n iter i) (?s, ?l) (?s, ?l2)"
    by (rule pass_scans [where c = c and d = d]) (use assms in \<open>simp_all add: start_cid_def\<close>)
  have g3: "goes (co_prog A n iter i) (?s, ?l2) (?s\<lparr>cells := (cells s)(c := None), nodes := (nodes s)(data d := None),
        deleted := deleted s @ [data d]\<rparr>, ?l2\<lparr>pc := Del_count, steps := steps ?l2 + 1\<rparr>)"
    by (rule goes_first, rule pass_instr(7) [where c = c and d = d and nd = nd], use assms in simp_all) (rule goes_eq, simp)
  from goes_trans [OF g1 goes_trans [OF g2 g3]] show ?thesis by (intro exI conjI) (assumption, simp)
qed

lemma goes_reach:
  assumes "reach P N c0 (s, ls)" and "i < N" and "goes (P i) (s, ls i) (s', l')"
  shows "reach P N c0 (s', ls(i := l'))"
proof -
  obtain m where "solo (P i) m s (ls i) = (s', l')" using assms(3) by (auto simp: goes_def)
  from run_sched_solo [of i N P m s ls, OF assms(2) this] reach_run_sched_from [OF assms(1), of "replicate m i"]
  show ?thesis by simp
qed

lemma reach_there: "reach P N c0 c \<Longrightarrow> pc (snd c i) = p \<Longrightarrow> \<exists>c. reach P N c0 c \<and> pc (snd c i) = p"
  by blast

lemma fresh_from_keep: "fresh_from i m k \<Longrightarrow> m a \<noteq> None \<Longrightarrow> fresh_from i (m(a := x)) k"
  by (auto simp: fresh_from_def)

text \<open>
  Between two rounds: producer \<open>0\<close> has pushed \<open>k\<close> values, consumer \<open>n + 1\<close> has popped them, and consumer
  \<open>n\<close> has not started.
\<close>

definition resting :: "nat \<Rightarrow> nat \<Rightarrow> stack_mem \<Rightarrow> (nat \<Rightarrow> co_thread) \<Rightarrow> bool" where
  "resting n k s ls \<longleftrightarrow> hazard_pointers s = replicate max_hazard_pointers None \<and> reclaim_cnt s = of_nat k \<and>
     fresh_from 0 (nodes s) (steps (ls 0)) \<and> fresh_from (Suc n) (cells s) (steps (ls (Suc n))) \<and>
     pc (ls 0) = Push_new \<and> round (ls 0) = int k \<and> pc (ls (Suc n)) = Pop_load \<and> ls n = co_thread0 n n"

lemma resting_push:
  assumes c: "reach (co_prog by_step n iter) (2 * n) c0 (s, ls)" and rest: "resting n k s ls" and head: "head s = None"
    and n: "0 < n" and iter: "int k < iter 0"
  shows "\<exists>s' l' a. reach (co_prog by_step n iter) (2 * n) c0 (s', ls(0 := l')) \<and> head s' = Some a \<and>
    nodes s' a = Some \<lparr>node_data = Some (int k), node_next = None\<rparr> \<and> pc l' = Push_new \<and> round l' = int (Suc k) \<and>
    fresh_from 0 (nodes s') (steps l') \<and> hazard_pointers s' = hazard_pointers s \<and> cells s' = cells s \<and>
    reclaim_cnt s' = reclaim_cnt s"
proof -
  let ?a = "address 0 (steps (ls 0))"
  let ?ns = "(nodes s)(?a \<mapsto> \<lparr>node_data = Some (int k), node_next = None\<rparr>)"
  have r: "pc (ls 0) = Push_new" "round (ls 0) = int k" "fresh_from 0 (nodes s) (steps (ls 0))"
    using rest by (simp_all add: resting_def)
  obtain l' where l': "solo (co_prog by_step n iter 0) (Suc (Suc (Suc 0))) s (ls 0) = (s\<lparr>nodes := ?ns, head := Some ?a\<rparr>, l')"
    "pc l' = Push_new" "round l' = int k + 1" "fresh_from 0 ?ns (steps l')"
    using push_alone [OF r(1) _ r(3) head n refl refl] r(2) iter by auto
  then have "goes (co_prog by_step n iter 0) (s, ls 0) (s\<lparr>nodes := ?ns, head := Some ?a\<rparr>, l')"
    unfolding goes_def by (intro exI [of _ "Suc (Suc (Suc 0))"]) simp
  from goes_reach [of "co_prog by_step n iter", OF c _ this] n
  have "reach (co_prog by_step n iter) (2 * n) c0 (s\<lparr>nodes := ?ns, head := Some ?a\<rparr>, ls(0 := l'))" by simp
  with l'(2-4) show ?thesis by (intro exI [of _ "s\<lparr>nodes := ?ns, head := Some ?a\<rparr>"] exI [of _ l'] exI [of _ ?a]) simp
qed

text \<open>One round, as long as the counter is below the threshold of the pass.\<close>

lemma resting_round:
  assumes c: "reach (co_prog by_step n iter) (2 * n) c0 (s, ls)" and rest: "resting n k s ls" and head: "head s = None"
    and n: "2 \<le> n" "Suc n < max_hazard_pointers" and iter: "int k < iter 0" and k: "Suc k < 100"
  shows "\<exists>s' ls'. reach (co_prog by_step n iter) (2 * n) c0 (s', ls') \<and> resting n (Suc k) s' ls' \<and> head s' = None"
proof -
  let ?P = "co_prog by_step n iter" and ?i = "Suc n"
  obtain s1 l1 a where c1: "reach ?P (2 * n) c0 (s1, ls(0 := l1))" and s1: "head s1 = Some a"
      "nodes s1 a = Some \<lparr>node_data = Some (int k), node_next = None\<rparr>" "pc l1 = Push_new" "round l1 = int (Suc k)"
      "fresh_from 0 (nodes s1) (steps l1)" "hazard_pointers s1 = hazard_pointers s" "cells s1 = cells s"
      "reclaim_cnt s1 = reclaim_cnt s"
    using resting_push [OF c rest head _ iter] n(1) by auto
  let ?l = "ls ?i"
  have l: "pc ?l = Pop_load" "fresh_from ?i (cells s1) (steps ?l)" "?i < length (hazard_pointers s1)"
    using rest s1(6,7) n(2) by (simp_all add: resting_def)
  obtain s2 l2 where g: "goes (?P ?i) (s1, ?l) (s2, l2)" and s2: "pc l2 = Pop_test" "res l2 = Some (int k)" "head s2 = None"
      "hazard_pointers s2 = (hazard_pointers s1)[?i := None]"
      "nodes s2 = (nodes s1)(a \<mapsto> \<lparr>node_data = None, node_next = None\<rparr>)"
      "fresh_from ?i (cells s2) (steps l2)" "reclaim_cnt s2 = reclaim_cnt s1 + 1"
    using pop_retires [where iter = iter, OF _ l(3,1) s1(1,2) _ l(2), of n] by auto
  have c2: "reach ?P (2 * n) c0 (s2, (ls(0 := l1))(?i := l2))"
    by (rule goes_reach [of ?P, OF c1]) (use n(1) g in simp_all)
  have cnt: "reclaim_cnt s2 = of_nat (Suc k)" using s2(7) s1(8) rest by (simp add: resting_def)
  have "sint (reclaim_cnt s2) < 100" unfolding cnt using k sint_small_nat [of "Suc k"] by simp
  let ?l3 = "(pop_returns (iter ?i) l2)\<lparr>steps := steps l2 + 1\<rparr>"
  have "?P ?i s2 (((ls(0 := l1))(?i := l2)) ?i) = Some (s2, ?l3)"
    using pass_instr(2) [OF s2(1) \<open>sint (reclaim_cnt s2) < 100\<close>, of n ?i by_step iter] by simp
  from reach_step [OF c2 _ this] n(1) have "reach ?P (2 * n) c0 (s2, ls(0 := l1, ?i := ?l3))"
    by (simp del: fun_upd_apply)
  moreover have "resting n (Suc k) s2 (ls(0 := l1, ?i := ?l3))"
  proof -
    have "fresh_from 0 (nodes s2) (steps l1)" using s1(2,5) s2(5) by (simp add: fresh_from_keep)
    moreover have "fresh_from ?i (cells s2) (steps l2 + 1)" using s2(6) by (rule fresh_from_mono) simp
    moreover have "hazard_pointers s2 = replicate max_hazard_pointers None"
      using s2(4) s1(6) rest n(2) by (simp add: resting_def list_update_same_conv)
    moreover have "pc ?l3 = Pop_load" using s2(2) by (simp add: pop_returns_def)
    ultimately show ?thesis using rest cnt s1(3,4) n(1) unfolding resting_def by simp
  qed
  ultimately show ?thesis using s2(3) by blast
qed

lemma resting_start: "0 < n \<Longrightarrow> resting n 0 co_mem0 (co_thread0 n)"
  by (simp add: resting_def co_mem0_def co_thread0_def fresh_from_def)

lemma resting_rounds:
  assumes n: "2 \<le> n" "Suc n < max_hazard_pointers" and iter: "100 \<le> iter 0"
  shows "k < 100 \<Longrightarrow> \<exists>s ls. reach (co_prog by_step n iter) (2 * n) (co_start n) (s, ls) \<and> resting n k s ls \<and> head s = None"
proof (induction k)
  case 0
  have "reach (co_prog by_step n iter) (2 * n) (co_start n) (co_mem0, co_thread0 n)"
    unfolding co_start_def by (rule reach_init)
  with resting_start [of n] n(1) show ?case by (intro exI conjI) (assumption | simp add: co_mem0_def)+
next
  case (Suc k)
  then obtain s ls where "reach (co_prog by_step n iter) (2 * n) (co_start n) (s, ls)" "resting n k s ls" "head s = None" by auto
  from resting_round [OF this n] Suc.prems iter show ?case by simp
qed

text \<open>
  With two to thirteen pairs a consumer announces in a slot no pass looks at: the node it is about to
  read can be deleted.
\<close>

lemma few_pairs:
  assumes n: "2 \<le> n" "n < start_cid" and iter: "100 \<le> iter 0"
  shows "\<exists>c. reach (co_prog by_step n iter) (2 * n) (co_start n) c \<and> pc (snd c n) = Bad_access"
proof -
  let ?P = "co_prog by_step n iter" and ?i = "Suc n"
  have slots: "?i < max_hazard_pointers" "n < max_hazard_pointers" using n by (simp_all add: start_cid_def)
  obtain s ls where c: "reach ?P (2 * n) (co_start n) (s, ls)" and rest: "resting n 99 s ls" and head: "head s = None"
    using resting_rounds [where k = 99 and iter = iter, OF n(1) slots(1) iter] by auto
  obtain s1 l1 a where c1: "reach ?P (2 * n) (co_start n) (s1, ls(0 := l1))" and s1: "head s1 = Some a"
      "nodes s1 a = Some \<lparr>node_data = Some (int 99), node_next = None\<rparr>"
      "hazard_pointers s1 = hazard_pointers s" "cells s1 = cells s" "reclaim_cnt s1 = reclaim_cnt s"
    using resting_push [OF c rest head] n(1) iter by auto
  let ?ls1 = "ls(0 := l1)"
  let ?s2 = "s1\<lparr>hazard_pointers := (hazard_pointers s1)[n := Some a]\<rparr>"
  let ?l2 = "(ls n)\<lparr>old_head := Some a, res := None, temp := Some a, pc := Pop_next, steps := steps (ls n) + 3\<rparr>"
  have victim: "pc (?ls1 n) = Pop_load" "?ls1 n = ls n" using rest n(1) by (simp_all add: resting_def co_thread0_def)
  have g0: "goes (?P n) (s1, ?ls1 n) (?s2, ?l2)"
    unfolding victim(2) by (rule pop_announces) (use victim s1(1,3) rest slots in \<open>simp_all add: resting_def\<close>)
  have c2: "reach ?P (2 * n) (co_start n) (?s2, ?ls1(n := ?l2))"
    by (rule goes_reach [of ?P, OF c1 _ g0]) (use n(1) in simp)
  let ?ls2 = "?ls1(n := ?l2)"
  have l: "pc (?ls2 ?i) = Pop_load" "fresh_from ?i (cells ?s2) (steps (?ls2 ?i))" "?i < length (hazard_pointers ?s2)"
    using rest s1(3,4) slots by (simp_all add: resting_def)
  obtain s3 l3 c d where g: "goes (?P ?i) (?s2, ?ls2 ?i) (s3, l3)" and s3: "pc l3 = Pop_test"
      "hazard_pointers s3 = (hazard_pointers ?s2)[?i := None]"
      "nodes s3 a = Some \<lparr>node_data = None, node_next = None\<rparr>" "node_to_reclaim s3 = Some c" "cells s3 c = Some d" "data d = a"
      "reclaim_cnt s3 = reclaim_cnt ?s2 + 1"
    using pop_retires [where iter = iter, OF _ l(3,1) _ _ _ l(2), of n a] s1(1,2) by auto
  have cnt: "100 \<le> sint (reclaim_cnt s3)" using s3(7) s1(5) rest by (simp add: resting_def)
  have hp: "hazard_pointers s3 ! j = None" if "start_cid \<le> j" "j < max_hazard_pointers" for j
    using that s3(2) s1(3) rest n(2) by (auto simp: resting_def nth_list_update)
  have nd: "nodes s3 (data d) = Some \<lparr>node_data = None, node_next = None\<rparr>" using s3(3,6) by simp
  have "length (hazard_pointers s3) = max_hazard_pointers" using s3(2) s1(3) rest by (simp add: resting_def)
  then obtain s4 l4 where g4: "goes (?P ?i) (s3, l3) (s4, l4)" "nodes s4 a = None"
    using pass_deletes [where A = by_step and iter = iter, OF s3(1) cnt _ s3(4,5) nd _ hp, of n ?i] s3(6) by auto
  have c4: "reach ?P (2 * n) (co_start n) (s4, ?ls2(?i := l4))"
    by (rule goes_reach [of ?P, OF c2 _ goes_trans [OF g g4(1)]]) (use n(1) in simp)
  have bad: "?P n s4 ((?ls2(?i := l4)) n) = Some (s4, ?l2\<lparr>pc := Bad_access, steps := steps ?l2 + 1\<rparr>)"
    using g4(2) by (simp add: co_prog_def sync_pop_def)
  have "reach ?P (2 * n) (co_start n) (s4, ?ls2(?i := l4, n := ?l2\<lparr>pc := Bad_access, steps := steps ?l2 + 1\<rparr>))"
    by (rule reach_step [OF c4 _ bad]) (use n(1) in simp)
  then show ?thesis by (rule reach_there) simp
qed

text \<open>With more than fourteen pairs the last consumer has no slot.\<close>

lemma many_pairs:
  assumes "max_hazard_pointers < 2 * n"
  shows "\<exists>c. reach (co_prog by_step n iter) (2 * n) (co_start n) c \<and> pc (snd c (2 * n - 1)) = Bad_access"
proof -
  let ?P = "co_prog by_step n iter" and ?i = "2 * n - 1"
  have n: "0 < n" "n \<le> ?i" "?i < 2 * n" "max_hazard_pointers \<le> ?i" using assms by simp_all
  let ?l = "co_thread0 n ?i"
  let ?l1 = "?l\<lparr>pc := Pop_store, steps := 1\<rparr>"
  have "?P ?i co_mem0 ?l = Some (co_mem0, ?l1)"
    using n(2) by (simp add: co_prog_def sync_pop_def co_thread0_def co_mem0_def)
  from reach_step [OF reach_init [of ?P "2 * n" "(co_mem0, co_thread0 n)", simplified] n(3) this]
  have c1: "reach ?P (2 * n) (co_start n) (co_mem0, (co_thread0 n)(?i := ?l1))" unfolding co_start_def .
  have "?P ?i co_mem0 (((co_thread0 n)(?i := ?l1)) ?i) = Some (co_mem0, ?l1\<lparr>pc := Bad_access, steps := 2\<rparr>)"
    using n(2,4) by (simp add: co_prog_def sync_pop_def co_mem0_def array_store_def)
  from reach_step [OF c1 n(3) this] show ?thesis by (rule reach_there) simp
qed

text \<open>
  C15: with any other number of pairs than fourteen (two or more, and a producer that pushes a hundred
  values) some run uses a deleted node, or a slot beyond the array: below fourteen pairs a consumer
  announces in a slot no pass looks at, above fourteen the last one has no slot.
\<close>

theorem co_stack_other_pairs:
  assumes "2 \<le> n" and "n \<noteq> 14" and "100 \<le> iter 0"
  shows "\<exists>c i. reach (co_prog by_step n iter) (2 * n) (co_start n) c \<and> pc (snd c i) = Bad_access"
proof (cases "n < start_cid")
  case True
  show ?thesis using few_pairs [where n = n and iter = iter] assms(1,3) True by blast
next
  case False
  with assms(2) have "max_hazard_pointers < 2 * n" by (simp add: start_cid_def max_hazard_pointers_def MAX_NR_THREADS_def)
  then show ?thesis using many_pairs [where n = n and iter = iter] by blast
qed

lemma co_stack_other_pairs_witness:
  "\<exists>c i. reach (co_prog by_step 2 (\<lambda>_. 100)) (2 * 2) (co_start 2) c \<and> pc (snd c i) = Bad_access"
  by (rule co_stack_other_pairs) simp_all

end
