(* ===== verification/COstack_Spec.thy ===== *)
theory COstack_Spec
  imports COstack_Invariant
begin

text \<open>
  The lock-free stack implements a stack: the events of any run, in the order in which they take
  effect, are a run of the specification, and the threads return what it says.
\<close>

section \<open>The stack is a stack\<close>

text \<open>
  The events of a run are the moments at which the operations take effect: a push and a pop when they
  exchange the head, a pop that finds nothing when it reads the head again. The state of the
  specification is the list of values and, for each thread, the value its last call took.
\<close>

datatype stack_event = Push int | Pop_called | Pop

fun lifo :: "nat \<times> stack_event \<Rightarrow> int list \<times> (nat \<Rightarrow> int option) \<Rightarrow> int list \<times> (nat \<Rightarrow> int option)" where
  "lifo (i, Push v) (vs, w) = (v # vs, w)"
| "lifo (i, Pop_called) (vs, w) = (vs, w(i := None))"
| "lifo (i, Pop) ([], w) = ([], w(i := None))"
| "lifo (i, Pop) (v # vs, w) = (vs, w(i := Some v))"

fun co_event :: "co_thread \<Rightarrow> co_thread \<Rightarrow> stack_event option" where
  "co_event l l' =
     (if pc l = Push_cas \<and> pc l' = Push_new then Some (Push (round l))
      else if pc l = Pop_load \<and> pc l' = Pop_store then Some Pop_called
      else if (pc l = Pop_reload \<or> pc l = Pop_cas) \<and> pc l' = Pop_clear then Some Pop
      else None)"

definition after_event :: "nat \<Rightarrow> stack_event option \<Rightarrow> int list \<times> (nat \<Rightarrow> int option) \<Rightarrow> int list \<times> (nat \<Rightarrow> int option)" where
  "after_event i e st = (case e of None \<Rightarrow> st | Some e \<Rightarrow> lifo (i, e) st)"

definition run_lifo :: "(nat \<times> stack_event) list \<Rightarrow> int list \<times> (nat \<Rightarrow> int option) \<Rightarrow> int list \<times> (nat \<Rightarrow> int option)" where
  "run_lifo es st = foldl (\<lambda>st e. lifo e st) st es"

text \<open>How a configuration represents a state of the specification.\<close>

definition value_at :: "stack_mem \<Rightarrow> nat \<Rightarrow> int option" where
  "value_at s a = Option.bind (nodes s a) node_data"

definition popped_value :: "stack_mem \<Rightarrow> co_thread \<Rightarrow> int option" where
  "popped_value s l =
     (if (pc l = Pop_clear \<or> pc l = Pop_swap) \<and> old_head l \<noteq> None then value_at s (the (old_head l)) else res l)"

definition values_ok :: "stack_mem \<Rightarrow> co_thread \<Rightarrow> bool" where
  "values_ok s l \<longleftrightarrow>
     (pc l = Push_load \<or> pc l = Push_cas \<longrightarrow> value_at s (new_node l) = Some (round l)) \<and>
     (pc l \<in> {Pop_store, Pop_reload, Pop_next, Pop_cas, Pop_clear, Pop_swap} \<longrightarrow> res l = None)"

definition represents :: "(stack_mem, co_thread) cfg \<Rightarrow> int list \<times> (nat \<Rightarrow> int option) \<Rightarrow> bool" where
  "represents c st \<longleftrightarrow>
     (\<exists>xs. schain (nodes (fst c)) (head (fst c)) xs \<and> map (value_at (fst c)) xs = map Some (fst st)) \<and>
     (\<forall>i. snd st i = popped_value (fst c) (snd c i) \<and> values_ok (fst c) (snd c i))"

lemma value_at_head [simp]: "value_at (s\<lparr>head := p\<rparr>) = value_at s"
  by (simp add: value_at_def fun_eq_iff)

lemma schain_unique: "schain ns p xs \<Longrightarrow> schain ns p ys \<Longrightarrow> xs = ys"
proof (induction xs arbitrary: p ys)
  case Nil
  then show ?case by (cases ys) auto
next
  case (Cons a xs)
  then show ?case by (cases ys) (auto split: option.splits)
qed

text \<open>A thread only writes nodes that are its own.\<close>

definition writes_own :: "(nat \<Rightarrow> owner) \<Rightarrow> nat \<Rightarrow> stack_mem \<Rightarrow> stack_mem \<Rightarrow> bool" where
  "writes_own own i s s' \<longleftrightarrow> (\<forall>a. own a \<noteq> Of i \<longrightarrow> own a \<noteq> Nobody \<longrightarrow> nodes s' a = nodes s a)"

lemma push_writes_own:
  assumes ok: "co_ok n (s, ls) own cown xs rs" and A: "allocates A"
    and step: "sync_push A iter s (ls i) = Some (s', l')"
  shows "writes_own own i s s'"
proof -
  have "own (new_node (ls i)) = Of i" if "pc (ls i) = Push_load \<or> pc (ls i) = Push_cas"
    using co_okD(2) [OF ok, of i] thread_ok_pushing [OF that] by simp
  moreover have "own a = Nobody" if "new_node_at A s = Some a" for a
    using that A mem_okD(10) [OF co_okD(1) [OF ok], of a] by (simp add: allocates_def)
  ultimately show ?thesis
    using step by (auto simp: sync_push_def writes_own_def split: co_pc.splits option.splits if_splits)
qed

lemma pop_writes_own:
  assumes ok: "co_ok n (s, ls) own cown xs rs" and i: "n \<le> i"
    and step: "sync_pop A iter i s (ls i) = Some (s', l')"
  shows "writes_own own i s s'"
proof (cases "pc (ls i) = Pop_swap \<or> pc (ls i) = Del_free")
  case True
  then show ?thesis
  proof
    assume pc: "pc (ls i) = Pop_swap"
    then have "own a = Of i" if "old_head (ls i) = Some a" for a
      using that co_okD(2) [OF ok, of i] by (simp add: thread_ok_popped)
    with pc step show ?thesis by (auto simp: sync_pop_def writes_own_def split: option.splits)
  next
    assume pc: "pc (ls i) = Del_free"
    then have "own (cell_node (cells s) c) = Of i" if "cell (ls i) = Some c" for c
      using that co_okD(2) [OF ok, of i] by (auto simp: thread_ok_current holds_current_def)
    with pc step show ?thesis
      by (auto simp: sync_pop_def writes_own_def cell_node_def split: option.splits if_splits)
  qed
next
  case False
  then have "nodes s' = nodes s"
    using step by (auto simp: sync_pop_def link_cell_def split: co_pc.splits option.splits if_splits)
  then show ?thesis by (simp add: writes_own_def)
qed

lemma represents_step:
  assumes ok: "co_ok n (s, ls) own cown xs rs" and rep: "represents (s, ls) (vs, w)" and own: "writes_own own i s s'"
    and chain: "schain (nodes s') (head s') xs'" "map (value_at s') xs' = map Some vs'"
    and mine: "values_ok s' l'" "w' = w(i := popped_value s' l')"
  shows "represents (s', ls(i := l')) (vs', w')"
proof -
  have unchanged: "value_at s' a = value_at s a" if "own a = Of j" "j \<noteq> i" for a j
    using own that by (simp add: writes_own_def value_at_def)
  have "popped_value s' (ls j) = popped_value s (ls j) \<and> values_ok s' (ls j) = values_ok s (ls j)" if j: "j \<noteq> i" for j
  proof -
    have "own (new_node (ls j)) = Of j" if "pc (ls j) = Push_load \<or> pc (ls j) = Push_cas"
      using co_okD(2) [OF ok, of j] thread_ok_pushing [OF that] by simp
    moreover have "own a = Of j" if "pc (ls j) = Pop_clear \<or> pc (ls j) = Pop_swap" "old_head (ls j) = Some a" for a
      using co_okD(2) [OF ok, of j] thread_ok_popped [of "ls j"] that by metis
    ultimately show ?thesis using unchanged [OF _ j] by (auto simp: popped_value_def values_ok_def)
  qed
  then show ?thesis using rep chain mine by (auto simp: represents_def)
qed

text \<open>Steps that are not events.\<close>

lemma represents_internal:
  assumes ok: "co_ok n (s, ls) own cown xs rs" and rep: "represents (s, ls) (vs, w)" and own: "writes_own own i s s'"
    and "head s' = head s" and mine: "values_ok s' l'" "popped_value s' l' = w' i" "w' = w(i := w' i)"
  shows "represents (s', ls(i := l')) (vs, w')"
proof (rule represents_step [OF ok rep own _ _ mine(1)])
  have same: "nodes s' a = nodes s a" if "a \<in> set xs" for a
    using own that mem_okD(4) [OF co_okD(1) [OF ok], of a] by (simp add: writes_own_def)
  have xs: "schain (nodes s) (head s) xs" using mem_okD(2) [OF co_okD(1) [OF ok]] .
  with same show "schain (nodes s') (head s') xs" using \<open>head s' = head s\<close> schain_cong by metis
  have "map (value_at s) xs = map Some vs" using rep schain_unique [OF xs] by (auto simp: represents_def)
  with same show "map (value_at s') xs = map Some vs" by (metis (no_types, lifting) map_eq_conv value_at_def)
qed (use mine in metis)


lemma push_internal:
  assumes step: "sync_push A iter s l = Some (s', l')" and old: "values_ok s l"
    and no: "\<not> (pc l = Push_cas \<and> pc l' = Push_new)"
  shows "head s' = head s \<and> values_ok s' l' \<and> popped_value s' l' = popped_value s l \<and> co_event l l' = None"
proof -
  consider "pc l = Push_new" | "pc l = Push_load" | "pc l = Push_cas" | "pc l \<notin> {Push_new, Push_load, Push_cas}" by auto
  then show ?thesis
  proof cases
    case 1
    with step show ?thesis
      by (auto simp: sync_push_def values_ok_def value_at_def popped_value_def split: option.splits if_splits)
  next
    case 2
    with step old show ?thesis
      by (auto simp: sync_push_def values_ok_def value_at_def popped_value_def split: option.splits)
  next
    case 3
    with step old no show ?thesis
      by (auto simp: sync_push_def values_ok_def value_at_def popped_value_def split: option.splits if_splits)
  next
    case 4
    with step show ?thesis by (auto simp: sync_push_def split: co_pc.splits)
  qed
qed

lemma push_refines:
  assumes ok: "co_ok n (s, ls) own cown xs rs" and rep: "represents (s, ls) (vs, w)" and A: "allocates A"
    and step: "sync_push A iter s (ls i) = Some (s', l')"
  shows "represents (s', ls(i := l')) (after_event i (co_event (ls i) l') (vs, w))"
proof -
  have own: "writes_own own i s s'" by (rule push_writes_own [OF ok A step])
  have old: "values_ok s (ls i)" "w i = popped_value s (ls i)" using rep by (simp_all add: represents_def)
  show ?thesis
  proof (cases "pc (ls i) = Push_cas \<and> pc l' = Push_new")
    case True
    have "nodes s (new_node (ls i)) \<noteq> None"
      using old(1) True by (cases "nodes s (new_node (ls i))") (simp_all add: values_ok_def value_at_def)
    then obtain nd where nd: "nodes s (new_node (ls i)) = Some nd" by blast
    have head: "head s = node_next nd \<and> \<not> weak_fails A s"
      using step True nd by (cases "head s = node_next nd"; cases "weak_fails A s") (auto simp: sync_push_def)
    with step True nd have res: "s' = s\<lparr>head := Some (new_node (ls i))\<rparr>"
      "l' = (ls i)\<lparr>round := round (ls i) + 1, pc := Push_new\<rparr>" by (simp_all add: sync_push_def)
    have xs: "schain (nodes s) (head s) xs" using mem_okD(2) [OF co_okD(1) [OF ok]] .
    have vs: "map (value_at s) xs = map Some vs" using rep schain_unique [OF xs] by (auto simp: represents_def)
    have "represents (s', ls(i := l')) (round (ls i) # vs, w)"
    proof (rule represents_step [OF ok rep own])
      show "schain (nodes s') (head s') (new_node (ls i) # xs)" using res nd head xs by simp
      show "map (value_at s') (new_node (ls i) # xs) = map Some (round (ls i) # vs)"
        using vs old(1) True res by (simp add: values_ok_def)
      show "values_ok s' l'" "w = w(i := popped_value s' l')"
        using res old(2) True by (simp_all add: values_ok_def popped_value_def fun_eq_iff)
    qed
    with True show ?thesis by (simp add: after_event_def)
  next
    case False
    note move = push_internal [where l = "ls i", OF step old(1) False]
    have "represents (s', ls(i := l')) (vs, w)"
      by (rule represents_internal [OF ok rep own]) (use move old(2) in \<open>simp_all add: fun_eq_iff\<close>)
    with move show ?thesis by (simp add: after_event_def)
  qed
qed

text \<open>The events of a pop.\<close>

lemma pop_event_refines:
  assumes ok: "co_ok n (s, ls) own cown xs rs" and rep: "represents (s, ls) (vs, w)" and i: "n \<le> i"
    and step: "sync_pop A iter i s (ls i) = Some (s', l')"
    and pc: "pc (ls i) = Pop_reload \<or> pc (ls i) = Pop_cas" "pc l' = Pop_clear"
  shows "represents (s', ls(i := l')) (lifo (i, Pop) (vs, w))"
proof -
  have own: "writes_own own i s s'" by (rule pop_writes_own [OF ok i step])
  have old: "values_ok s (ls i)" using rep by (simp add: represents_def)
  have xs: "schain (nodes s) (head s) xs" using mem_okD(2) [OF co_okD(1) [OF ok]] .
  have vs: "map (value_at s) xs = map Some vs" using rep schain_unique [OF xs] by (auto simp: represents_def)
  show ?thesis
  proof (cases "pc (ls i) = Pop_reload")
    case True
    with step pc(2) have res: "s' = s" "l' = (ls i)\<lparr>old_head := None, pc := Pop_clear\<rparr>" "head s = None"
      by (auto simp: sync_pop_def split: if_splits)
    then have "xs = []" using xs by (cases xs) auto
    then have empty: "vs = []" using vs by simp
    have "represents (s', ls(i := l')) ([], w(i := None))"
    proof (rule represents_step [OF ok rep own])
      show "schain (nodes s') (head s') []" "map (value_at s') [] = map Some []" using res by simp_all
      show "values_ok s' l'" "w(i := None) = w(i := popped_value s' l')"
        using res old True by (simp_all add: values_ok_def popped_value_def)
    qed
    with empty show ?thesis by simp
  next
    case False
    with pc have p: "pc (ls i) = Pop_cas" by simp
    with step pc(2) have res: "s' = s\<lparr>head := next_node (ls i)\<rparr>" "l' = (ls i)\<lparr>pc := Pop_clear\<rparr>"
      "head s = old_head (ls i)" by (auto simp: sync_pop_def split: if_splits)
    obtain a xs' where a: "xs = a # xs'" "old_head (ls i) = Some a" and
      after: "co_ok n (s\<lparr>head := next_node (ls i)\<rparr>, ls(i := (ls i)\<lparr>pc := Pop_clear\<rparr>)) (own(a := Of i)) cown xs' rs"
      using pop_cas_ok [OF ok p i res(3)] by blast
    obtain v vs' where v: "vs = v # vs'" "value_at s a = Some v" "map (value_at s) xs' = map Some vs'"
      using vs a(1) by (cases vs) auto
    have "represents (s', ls(i := l')) (vs', w(i := Some v))"
    proof (rule represents_step [OF ok rep own])
      show "schain (nodes s') (head s') xs'" using mem_okD(2) [OF co_okD(1) [OF after]] res by simp
      show "map (value_at s') xs' = map Some vs'" using v(3) res by simp
      show "values_ok s' l'" "w(i := Some v) = w(i := popped_value s' l')"
        using res old p a(2) v(2) by (simp_all add: values_ok_def popped_value_def value_at_def)
    qed
    with v show ?thesis by simp
  qed
qed

lemma pop_internal:
  assumes step: "sync_pop A iter i s l = Some (s', l')" and old: "values_ok s l"
    and no: "\<not> ((pc l = Pop_reload \<or> pc l = Pop_cas) \<and> pc l' = Pop_clear)" and safe: "pc l' \<noteq> Bad_access"
  shows "head s' = head s" and "values_ok s' l'"
    and "popped_value s' l' = (if pc l = Pop_load then None else popped_value s l)"
proof -
  show "head s' = head s"
    using step no by (auto simp: sync_pop_def link_cell_def split: co_pc.splits option.splits if_splits)
  show "values_ok s' l'"
    using step old no
    by (auto simp: sync_pop_def link_cell_def values_ok_def pop_returns_def split: co_pc.splits option.splits if_splits)
  show "popped_value s' l' = (if pc l = Pop_load then None else popped_value s l)"
    using step old no safe
    by (auto simp: sync_pop_def link_cell_def values_ok_def popped_value_def value_at_def pop_returns_def
        split: co_pc.splits option.splits if_splits)
qed

lemma pop_refines:
  assumes ok: "co_ok n (s, ls) own cown xs rs" and rep: "represents (s, ls) (vs, w)" and i: "n \<le> i"
    and step: "sync_pop A iter i s (ls i) = Some (s', l')"
    and safe: "pc l' \<noteq> Bad_access"
  shows "represents (s', ls(i := l')) (after_event i (co_event (ls i) l') (vs, w))"
proof (cases "(pc (ls i) = Pop_reload \<or> pc (ls i) = Pop_cas) \<and> pc l' = Pop_clear")
  case True
  then have "co_event (ls i) l' = Some Pop" by auto
  with pop_event_refines [OF ok rep i step] True show ?thesis by (simp add: after_event_def)
next
  case False
  have own: "writes_own own i s s'" by (rule pop_writes_own [OF ok i step])
  have old: "values_ok s (ls i)" "w i = popped_value s (ls i)" using rep by (simp_all add: represents_def)
  note move = pop_internal [where l = "ls i", OF step old(1) False safe]
  have pcs: "pc (ls i) \<noteq> Push_cas" "pc (ls i) = Pop_load \<Longrightarrow> pc l' = Pop_store" using step by (auto simp: sync_pop_def)
  let ?w = "if pc (ls i) = Pop_load then w(i := None) else w"
  have "represents (s', ls(i := l')) (vs, ?w)"
    by (rule represents_internal [OF ok rep own move(1,2)]) (use move(3) old(2) in auto)
  moreover have "after_event i (co_event (ls i) l') (vs, w) = (vs, ?w)"
    using False pcs by (auto simp: after_event_def)
  ultimately show ?thesis by simp
qed


lemma co_event_steps: "co_event l (l'\<lparr>steps := k\<rparr>) = co_event l l'"
  by simp

lemma represents_steps:
  "represents (s, ls(i := l\<lparr>steps := k\<rparr>)) st = represents (s, ls(i := l)) st"
proof -
  have steps: "popped_value s (m\<lparr>steps := q\<rparr>) = popped_value s m" "values_ok s (m\<lparr>steps := q\<rparr>) = values_ok s m" for m q
    by (simp_all add: popped_value_def values_ok_def)
  let ?ls = "ls(i := l)"
  have ls: "ls(i := l\<lparr>steps := k\<rparr>) = (\<lambda>j. (?ls j)\<lparr>steps := if j = i then k else steps (?ls j)\<rparr>)" by auto
  show ?thesis unfolding represents_def fst_conv snd_conv ls steps ..
qed

lemma co_refines_step:
  assumes inv: "co_inv n (s, ls)" and rep: "represents (s, ls) st" and A: "\<And>i k. allocates (A i k)"
    and n: "slots_scanned n" and i: "i < 2 * n" and step: "co_prog A n iter i s (ls i) = Some (s', l')"
  shows "represents (s', ls(i := l')) (after_event i (co_event (ls i) l') st)"
proof -
  obtain vs w where st: "st = (vs, w)" by (cases st)
  from inv obtain own cown xs rs where ok: "co_ok n (s, ls) own cown xs rs" by (auto simp: co_inv_def)
  obtain l1 where l1: "l' = l1\<lparr>steps := steps (ls i) + 1\<rparr>"
    "(if i < n then sync_push (A i (steps (ls i))) (iter i) s (ls i) else sync_pop (A i (steps (ls i))) (iter i) i s (ls i)) =
      Some (s', l1)"
    using step by (auto simp: co_prog_def)
  have "pc l' \<noteq> Bad_access" using co_inv_safe [OF co_inv_step [OF inv A n i step], of i] by simp
  then have safe: "pc l1 \<noteq> Bad_access" using l1(1) by simp
  have "represents (s', ls(i := l1)) (after_event i (co_event (ls i) l1) (vs, w))"
  proof (cases "i < n")
    case True
    with l1(2) push_refines [OF ok rep [unfolded st] A] show ?thesis by simp
  next
    case False
    with l1(2) pop_refines [OF ok rep [unfolded st] _ _ safe] show ?thesis by simp
  qed
  then show ?thesis unfolding l1(1) represents_steps co_event_steps st .
qed

lemma represents_start: "represents (co_start n) ([], \<lambda>_. None)"
  by (simp add: represents_def co_start_def co_mem0_def co_thread0_def popped_value_def values_ok_def exI [of _ "[]"])

lemma run_lifo_append: "run_lifo (xs @ ys) st = run_lifo ys (run_lifo xs st)"
  by (simp add: run_lifo_def)

lemma represents_run:
  assumes A: "\<And>i k. allocates (A i k)" and n: "slots_scanned n" and "reach (co_prog A n iter) (2 * n) (co_start n) c"
    and "represents c st"
  shows "represents (run_sched (co_prog A n iter) (2 * n) is c)
    (run_lifo (trace_of (co_prog A n iter) (2 * n) co_event is c) st)"
  using assms(3,4)
proof (induction "is" arbitrary: c st)
  case Nil
  then show ?case by (simp add: run_lifo_def)
next
  case (Cons i "is")
  let ?P = "co_prog A n iter"
  let ?c = "sched_step ?P (2 * n) i c"
  let ?e = "if i < 2 * n then (case co_event (snd c i) (snd ?c i) of None \<Rightarrow> [] | Some e \<Rightarrow> [(i, e)]) else []"
  have "represents ?c (run_lifo ?e st)"
  proof (cases "?c = c")
    case True
    have "co_event l l = None" for l by (cases "pc l") simp_all
    with True Cons.prems(2) show ?thesis by (simp add: run_lifo_def)
  next
    case False
    obtain s' l' where i: "i < 2 * n" and step: "?P i (fst c) (snd c i) = Some (s', l')"
      and c': "?c = (s', (snd c)(i := l'))" by (rule sched_step_cases [of ?P "2 * n" i c]) (use False in auto)
    have "co_inv n (fst c, snd c)" using co_inv_reach [OF Cons.prems(1) A n] by simp
    from co_refines_step [OF this _ A n i step] Cons.prems(2)
    have "represents ?c (after_event i (co_event (snd c i) l') st)" by (simp add: c')
    moreover have "run_lifo ?e st = after_event i (co_event (snd c i) l') st"
      using i by (cases "co_event (snd c i) l'") (simp_all add: run_lifo_def after_event_def c' del: co_event.simps)
    ultimately show ?thesis by simp
  qed
  from Cons.IH [OF reach_sched_step [OF Cons.prems(1)] this]
  show ?case by (simp add: Let_def run_lifo_append del: co_event.simps)
qed


text \<open>
  C2: the lock-free stack with fourteen pairs is a stack: under every interleaving and every behaviour of
  the allocator and of the weak exchanges, the list from the head holds the values, and the consumers
  return the values, that a sequential stack gives for the pushes and pops in the order in which they
  exchanged the head (a pop that returns nothing: in which it read an empty head).
\<close>

theorem co_stack_lifo:
  assumes "\<And>i k. allocates (A i k)" and "slots_scanned n"
  shows "represents (run_sched (co_prog A n iter) (2 * n) sched (co_start n))
    (run_lifo (trace_of (co_prog A n iter) (2 * n) co_event sched (co_start n)) ([], \<lambda>_. None))"
  by (rule represents_run [OF assms reach_init represents_start])

lemma co_stack_lifo_witness:
  "\<forall>sched. represents (run_sched (co_prog by_step 14 (\<lambda>_. 3)) (2 * 14) sched (co_start 14))
    (run_lifo (trace_of (co_prog by_step 14 (\<lambda>_. 3)) (2 * 14) co_event sched (co_start 14)) ([], \<lambda>_. None))"
  using co_stack_lifo [where A = by_step, OF by_step_allocates fourteen_scanned] by blast

end
