(* ===== verification/Release_Acquire.thy ===== *)
theory Release_Acquire
  imports Sync_Loop Hazard_Pointers
begin

text \<open>
  The memory model of C++ for atomic variables that are accessed with the orders \<open>relaxed\<close>, \<open>acquire\<close>,
  \<open>release\<close> and \<open>acq_rel\<close>, for the acquire/release variants of the locks (\<open>*_ar.cpp\<close>). The memory keeps,
  for each variable, all messages written to it, in modification order. A thread may read any message
  that is not older than the one it knows; a release attaches what the writer knows to its
  message, an acquire adds it to what the reader knows. What happens before an event is recorded in
  vector clocks. The loop around the lock is the one of \<open>Sync_Loop\<close>.
\<close>

section \<open>Views and messages\<close>

text \<open>
  \<open>seen\<close>: the position of the newest message the thread knows of each variable; \<open>clock\<close>: the number of
  events of each thread that happened before. Positions leave gaps, in which messages can be inserted
  later.
\<close>

record 'x view =
  seen :: "'x \<Rightarrow> nat"
  clock :: "nat \<Rightarrow> nat"

definition nothing :: "'x view" where
  "nothing = \<lparr>seen = \<lambda>_. 0, clock = \<lambda>_. 0\<rparr>"

definition tick :: "nat \<Rightarrow> 'x view \<Rightarrow> 'x view" where
  "tick i V = V\<lparr>clock := (clock V)(i := clock V i + 1)\<rparr>"

definition observes :: "'x \<Rightarrow> nat \<Rightarrow> 'x view \<Rightarrow> 'x view" where
  "observes x t V = V\<lparr>seen := (seen V)(x := t)\<rparr>"

definition join :: "'x view \<Rightarrow> 'x view \<Rightarrow> 'x view" where
  "join V W = \<lparr>seen = \<lambda>x. max (seen V x) (seen W x), clock = \<lambda>i. max (clock V i) (clock W i)\<rparr>"

type_synonym 'x memory = "'x \<Rightarrow> nat \<Rightarrow> (int \<times> 'x view) option"

definition acquires :: "memory_order \<Rightarrow> bool" where
  "acquires ord \<longleftrightarrow> ord \<in> {Acquire, Acq_rel, Seq_cst}"

definition releases :: "memory_order \<Rightarrow> bool" where
  "releases ord \<longleftrightarrow> ord \<in> {Release, Acq_rel, Seq_cst}"

section \<open>Accesses\<close>

text \<open>
  An access and what the thread does with the value it reads. \<open>Update\<close> is a read-modify-write operation;
  \<open>Local\<close> touches no shared variable.
\<close>

datatype ('x, 'a) access =
    Load memory_order 'x "int \<Rightarrow> 'a"
  | Store memory_order 'x int 'a
  | Update memory_order 'x "int \<Rightarrow> int" "int \<Rightarrow> 'a"
  | Local 'a

text \<open>
  \<open>performs i a (m, V) r (m', V')\<close>: thread \<open>i\<close> with view \<open>V\<close> performs the access with result \<open>r\<close>. A relaxed
  store publishes nothing but itself. A read-modify-write operation reads the message right before
  the one it writes, which carries on what its predecessor published.
\<close>

inductive performs ::
  "nat \<Rightarrow> ('x, 'a) access \<Rightarrow> 'x memory \<times> 'x view \<Rightarrow> 'a \<Rightarrow> 'x memory \<times> 'x view \<Rightarrow> bool" for i :: nat where
  performs_load:
    "m x t = Some (v, W) \<Longrightarrow> seen V x \<le> t \<Longrightarrow> V1 = observes x t (tick i V) \<Longrightarrow>
     V' = (if acquires ord then join V1 W else V1) \<Longrightarrow>
     performs i (Load ord x k) (m, V) (k v) (m, V')"
| performs_store:
    "m x t = None \<Longrightarrow> seen V x < t \<Longrightarrow> V' = observes x t (tick i V) \<Longrightarrow>
     W = (if releases ord then V' else observes x t nothing) \<Longrightarrow>
     performs i (Store ord x v r) (m, V) r (m(x := (m x)(t \<mapsto> (v, W))), V')"
| performs_update:
    "m x t = Some (v, W) \<Longrightarrow> seen V x \<le> t \<Longrightarrow> m x (Suc t) = None \<Longrightarrow> V1 = observes x (Suc t) (tick i V) \<Longrightarrow>
     V' = (if acquires ord then join V1 W else V1) \<Longrightarrow>
     W' = observes x (Suc t) (if releases ord then join W V' else W) \<Longrightarrow>
     performs i (Update ord x f k) (m, V) (k v) (m(x := (m x)(Suc t \<mapsto> (f v, W'))), V')"
| performs_local:
    "performs i (Local r) (m, V) r (m, tick i V)"

inductive_cases performs_loadE: "performs i (Load ord x k) (m, V) r (m', V')"
inductive_cases performs_storeE: "performs i (Store ord x v a) (m, V) r (m', V')"
inductive_cases performs_updateE: "performs i (Update ord x f k) (m, V) r (m', V')"
inductive_cases performs_localE: "performs i (Local a) (m, V) r (m', V')"

section \<open>The benchmark loop\<close>

record ('x, 'v, 'p, 'q) ra_code =
  ra_lock_entry :: 'p
  ra_lock :: "nat \<Rightarrow> 'v \<Rightarrow> 'p \<Rightarrow> ('x, 'v \<times> 'p outcome) access"
  ra_unlock_entry :: 'q
  ra_unlock :: "nat \<Rightarrow> 'v \<Rightarrow> 'q \<Rightarrow> ('x, 'v \<times> 'q outcome) access"

text \<open>
  A configuration. The ghost \<open>left\<close> is, for each thread, the number of the event by which it last left its
  critical section.
\<close>

record ('x, 'v, 'p, 'q) ra_cfg =
  messages :: "'x memory"
  views :: "nat \<Rightarrow> 'x view"
  threads :: "nat \<Rightarrow> ('v, 'p, 'q) sync_thread"
  left :: "nat \<Rightarrow> nat"

inductive ra_step ::
  "('x, 'v, 'p, 'q) ra_code \<Rightarrow> (nat \<Rightarrow> int) \<Rightarrow> nat \<Rightarrow> ('x, 'v, 'p, 'q) ra_cfg \<Rightarrow> ('x, 'v, 'p, 'q) ra_cfg \<Rightarrow> bool"
  for C :: "('x, 'v, 'p, 'q) ra_code" and nr_iter :: "nat \<Rightarrow> int" and i :: nat where
  ra_for_test:
    "pc (threads c i) = ForTest \<Longrightarrow>
     ra_step C nr_iter i c (c\<lparr>threads := (threads c)(i := (threads c i)
       \<lparr>pc := (if iter (threads c i) \<noteq> nr_iter i then InLock (ra_lock_entry C) else Finished)\<rparr>)\<rparr>)"
| ra_in_lock:
    "pc (threads c i) = InLock p \<Longrightarrow>
     performs i (ra_lock C i (tls (threads c i)) p) (messages c, views c i) (v', r) (m', V') \<Longrightarrow>
     ra_step C nr_iter i c (c\<lparr>messages := m', views := (views c)(i := V'),
       threads := (threads c)(i := (threads c i)\<lparr>tls := v', pc := after_lock r\<rparr>)\<rparr>)"
| ra_useful_in:
    "pc (threads c i) = UsefulIn \<Longrightarrow> V' = tick i (views c i) \<Longrightarrow>
     ra_step C nr_iter i c (c\<lparr>views := (views c)(i := V'), left := (left c)(i := clock V' i),
       threads := (threads c)(i := (threads c i)\<lparr>pc := InUnlock (ra_unlock_entry C)\<rparr>)\<rparr>)"
| ra_in_unlock:
    "pc (threads c i) = InUnlock q \<Longrightarrow>
     performs i (ra_unlock C i (tls (threads c i)) q) (messages c, views c i) (v', r) (m', V') \<Longrightarrow>
     ra_step C nr_iter i c (c\<lparr>messages := m', views := (views c)(i := V'),
       threads := (threads c)(i := (threads c i)\<lparr>tls := v', pc := after_unlock r\<rparr>)\<rparr>)"
| ra_useful_out:
    "pc (threads c i) = UsefulOut \<Longrightarrow>
     ra_step C nr_iter i c (c\<lparr>threads := (threads c)(i := (threads c i)\<lparr>pc := ForTest, iter := iter (threads c i) + 1\<rparr>)\<rparr>)"

text \<open>The start: the initial values are messages that every thread knows.\<close>

definition ra_init :: "('x \<Rightarrow> int) \<Rightarrow> (nat \<Rightarrow> 'v) \<Rightarrow> ('x, 'v, 'p, 'q) ra_cfg" where
  "ra_init vals v = \<lparr>messages = (\<lambda>x t. if t = 0 then Some (vals x, nothing) else None), views = (\<lambda>_. nothing),
     threads = (\<lambda>i. \<lparr>pc = ForTest, iter = 0, tls = v i\<rparr>), left = (\<lambda>_. 0)\<rparr>"

inductive ra_reach ::
  "('x, 'v, 'p, 'q) ra_code \<Rightarrow> bench \<Rightarrow> ('x, 'v, 'p, 'q) ra_cfg \<Rightarrow> ('x, 'v, 'p, 'q) ra_cfg \<Rightarrow> bool"
  for C :: "('x, 'v, 'p, 'q) ra_code" and b :: bench and c0 :: "('x, 'v, 'p, 'q) ra_cfg" where
  ra_start: "ra_reach C b c0 c0"
| ra_next: "ra_reach C b c0 c \<Longrightarrow> i < nr_threads b \<Longrightarrow> ra_step C (iters b) i c c' \<Longrightarrow> ra_reach C b c0 c'"

lemma ra_invariant:
  assumes "ra_reach C b c0 c" and "I c0"
    and "\<And>c i c'. I c \<Longrightarrow> i < nr_threads b \<Longrightarrow> ra_step C (iters b) i c c' \<Longrightarrow> I c'"
  shows "I c"
  using assms by (induction rule: ra_reach.induct) auto

section \<open>What a lock promises\<close>

text \<open>
  Critical sections exclude each other, and whatever was done in one happened before all that follow:
  the data they protect is free of races.
\<close>

definition ra_exclusive :: "('x, 'v, 'p, 'q) ra_cfg \<Rightarrow> bool" where
  "ra_exclusive c \<longleftrightarrow> (\<forall>i j. in_cs (threads c i) \<longrightarrow> in_cs (threads c j) \<longrightarrow> i = j)"

definition ra_ordered :: "('x, 'v, 'p, 'q) ra_cfg \<Rightarrow> bool" where
  "ra_ordered c \<longleftrightarrow> (\<forall>i j. in_cs (threads c i) \<longrightarrow> left c j \<le> clock (views c i) j)"

lemma view_simps [simp]:
  "seen nothing x = 0" "clock nothing i = 0"
  "seen (tick i V) = seen V" "clock (tick i V) j = (if j = i then clock V i + 1 else clock V j)"
  "seen (observes x t V) = (seen V)(x := t)" "clock (observes x t V) = clock V"
  "seen (join V W) x = max (seen V x) (seen W x)" "clock (join V W) i = max (clock V i) (clock W i)"
  by (simp_all add: nothing_def tick_def observes_def join_def)

text \<open>Nothing is forgotten.\<close>

lemma performs_mono:
  assumes "performs i a (m, V) r (m', V')"
  shows "clock V j \<le> clock V' j"
  using assms by (cases rule: performs.cases) auto

lemma performs_seen_mono:
  assumes "performs i a (m, V) r (m', V')"
  shows "seen V x \<le> seen V' x"
  using assms by (cases rule: performs.cases) (auto simp: le_max_iff_disj)

text \<open>No view gets ahead of the messages.\<close>

lemma performs_bound:
  assumes step: "performs i a (m, V) r (m', V')"
    and old: "\<forall>x t v W. m x t = Some (v, W) \<longrightarrow> seen W y \<le> T" "seen V y \<le> T"
    and top: "\<forall>t. m' y t \<noteq> None \<longrightarrow> t \<le> T"
  shows "seen V' y \<le> T \<and> (\<forall>x t v W. m' x t = Some (v, W) \<longrightarrow> seen W y \<le> T)"
    using step
  proof cases
    case (performs_load x t v W V1 ord k)
    have "x = y \<Longrightarrow> t \<le> T" using top performs_load by auto
    with performs_load old show ?thesis by (auto simp: fun_upd_apply)
  next
    case (performs_store x t ord W v)
    have "x = y \<Longrightarrow> t \<le> T" using top performs_store by auto
    with performs_store old show ?thesis by (auto simp: fun_upd_apply)
  next
    case (performs_update x t v W V1 ord W' f k)
    have "x = y \<Longrightarrow> Suc t \<le> T" using top performs_update by auto
    with performs_update old show ?thesis by (auto simp: fun_upd_apply)
  qed (use old in auto)

section \<open>Concrete runs\<close>

text \<open>
  A run is determined by a list of threads and positions: the position of the message that the next
  access of the thread reads, or of the one that it stores.
\<close>

fun perform_at :: "nat \<Rightarrow> nat \<Rightarrow> ('x, 'a) access \<Rightarrow> 'x memory \<Rightarrow> 'x view \<Rightarrow> ('a \<times> 'x memory \<times> 'x view) option" where
  "perform_at i t (Load ord x k) m V =
     (case m x t of
        None \<Rightarrow> None
      | Some (v, W) \<Rightarrow>
          if seen V x \<le> t
          then let V1 = observes x t (tick i V) in Some (k v, m, if acquires ord then join V1 W else V1)
          else None)"
| "perform_at i t (Store ord x v r) m V =
     (if m x t = None \<and> seen V x < t
      then let V' = observes x t (tick i V)
        in Some (r, m(x := (m x)(t \<mapsto> (v, if releases ord then V' else observes x t nothing))), V')
      else None)"
| "perform_at i t (Update ord x f k) m V =
     (case m x t of
        None \<Rightarrow> None
      | Some (v, W) \<Rightarrow>
          if seen V x \<le> t \<and> m x (Suc t) = None
          then let V1 = observes x (Suc t) (tick i V); V' = (if acquires ord then join V1 W else V1)
            in Some (k v, m(x := (m x)(Suc t \<mapsto> (f v, observes x (Suc t) (if releases ord then join W V' else W)))), V')
          else None)"
| "perform_at i t (Local r) m V = Some (r, m, tick i V)"

lemma perform_at_sound: "perform_at i t a m V = Some (r, m', V') \<Longrightarrow> performs i a (m, V) r (m', V')"
  by (cases a) (auto simp: Let_def split: option.splits if_splits intro!: performs.intros)

definition ra_exec1 ::
  "('x, 'v, 'p, 'q) ra_code \<Rightarrow> (nat \<Rightarrow> int) \<Rightarrow> nat \<Rightarrow> nat \<Rightarrow> ('x, 'v, 'p, 'q) ra_cfg \<Rightarrow> ('x, 'v, 'p, 'q) ra_cfg option" where
  "ra_exec1 C nr_iter i t c =
     (let th = threads c i in
      case pc th of
        ForTest \<Rightarrow> Some (c\<lparr>threads := (threads c)(i := th
          \<lparr>pc := (if iter th \<noteq> nr_iter i then InLock (ra_lock_entry C) else Finished)\<rparr>)\<rparr>)
      | InLock p \<Rightarrow>
          (case perform_at i t (ra_lock C i (tls th) p) (messages c) (views c i) of
             None \<Rightarrow> None
           | Some ((v', r), m', V') \<Rightarrow> Some (c\<lparr>messages := m', views := (views c)(i := V'),
               threads := (threads c)(i := th\<lparr>tls := v', pc := after_lock r\<rparr>)\<rparr>))
      | UsefulIn \<Rightarrow>
          (let V' = tick i (views c i) in
           Some (c\<lparr>views := (views c)(i := V'), left := (left c)(i := clock V' i),
             threads := (threads c)(i := th\<lparr>pc := InUnlock (ra_unlock_entry C)\<rparr>)\<rparr>))
      | InUnlock q \<Rightarrow>
          (case perform_at i t (ra_unlock C i (tls th) q) (messages c) (views c i) of
             None \<Rightarrow> None
           | Some ((v', r), m', V') \<Rightarrow> Some (c\<lparr>messages := m', views := (views c)(i := V'),
               threads := (threads c)(i := th\<lparr>tls := v', pc := after_unlock r\<rparr>)\<rparr>))
      | UsefulOut \<Rightarrow> Some (c\<lparr>threads := (threads c)(i := th\<lparr>pc := ForTest, iter := iter th + 1\<rparr>)\<rparr>)
      | _ \<Rightarrow> None)"

fun ra_exec ::
  "('x, 'v, 'p, 'q) ra_code \<Rightarrow> bench \<Rightarrow> (nat \<times> nat) list \<Rightarrow> ('x, 'v, 'p, 'q) ra_cfg \<Rightarrow> ('x, 'v, 'p, 'q) ra_cfg option" where
  "ra_exec C b [] c = Some c"
| "ra_exec C b ((i, t) # script) c =
     (if i < nr_threads b
      then (case ra_exec1 C (iters b) i t c of None \<Rightarrow> None | Some c' \<Rightarrow> ra_exec C b script c')
      else None)"

lemma ra_exec1_sound:
  assumes "ra_exec1 C nr_iter i t c = Some c'"
  shows "ra_step C nr_iter i c c'"
proof (cases "pc (threads c i)")
  case ForTest
  then show ?thesis using assms ra_for_test [of c i C nr_iter] by (simp add: ra_exec1_def Let_def)
next
  case (InLock p)
  with assms obtain v' r m' V' where p: "perform_at i t (ra_lock C i (tls (threads c i)) p) (messages c) (views c i) = Some ((v', r), m', V')"
    and c': "c' = c\<lparr>messages := m', views := (views c)(i := V'),
      threads := (threads c)(i := (threads c i)\<lparr>tls := v', pc := after_lock r\<rparr>)\<rparr>"
    by (auto simp: ra_exec1_def Let_def split: option.splits)
  show ?thesis unfolding c' by (rule ra_in_lock [OF InLock perform_at_sound [OF p]])
next
  case UsefulIn
  then show ?thesis using assms ra_useful_in [of c i _ C nr_iter] by (simp add: ra_exec1_def Let_def)
next
  case (InUnlock q)
  with assms obtain v' r m' V' where p: "perform_at i t (ra_unlock C i (tls (threads c i)) q) (messages c) (views c i) = Some ((v', r), m', V')"
    and c': "c' = c\<lparr>messages := m', views := (views c)(i := V'),
      threads := (threads c)(i := (threads c i)\<lparr>tls := v', pc := after_unlock r\<rparr>)\<rparr>"
    by (auto simp: ra_exec1_def Let_def split: option.splits)
  show ?thesis unfolding c' by (rule ra_in_unlock [OF InUnlock perform_at_sound [OF p]])
next
  case UsefulOut
  then show ?thesis using assms ra_useful_out [of c i C nr_iter] by (simp add: ra_exec1_def Let_def)
qed (use assms in \<open>simp_all add: ra_exec1_def\<close>)

lemma ra_exec_reach:
  assumes "ra_exec C b script c = Some c'" and "ra_reach C b c0 c"
  shows "ra_reach C b c0 c'"
  using assms
proof (induction C b script c rule: ra_exec.induct)
  case (2 C b i t script c)
  then obtain c1 where "i < nr_threads b" "ra_exec1 C (iters b) i t c = Some c1" "ra_exec C b script c1 = Some c'"
    by (auto split: if_splits option.splits)
  with 2 show ?case by (metis ra_exec1_sound ra_next)
qed simp

lemma ra_exec_run:
  assumes "map_option f (ra_exec C b script c0) = Some y"
  shows "\<exists>c. ra_reach C b c0 c \<and> f c = y"
  using assms ra_exec_reach [OF _ ra_start] by fastforce

end
