(* ===== verification/RA_Flag_Lock.thy ===== *)
theory RA_Flag_Lock
  imports Release_Acquire
begin

text \<open>
  Locks whose acquire/release variant takes a flag by a read-modify-write operation that acquires and
  gives it up by a store that releases, whatever else they do with other variables. Under the memory
  model they exclude each other, and critical sections are ordered.
\<close>

section \<open>The history of the flag\<close>

text \<open>
  The newest message that gave the flag up is at \<open>t0\<close>; if \<open>L\<close> is not zero, the flag was taken by the
  message after it, and \<open>L - 1\<close> more attempts to take it followed. An older message that gave the flag up
  has a successor that took it.
\<close>

definition flag_history :: "'x memory \<Rightarrow> 'x \<Rightarrow> nat \<Rightarrow> nat \<Rightarrow> bool" where
  "flag_history m flag t0 L \<longleftrightarrow>
     (\<exists>W. m flag t0 = Some (0, W)) \<and> (\<forall>t. t0 < t \<longrightarrow> t \<le> t0 + L \<longrightarrow> (\<exists>W. m flag t = Some (1, W))) \<and>
     (\<forall>t>t0 + L. m flag t = None) \<and> (\<forall>t<t0. \<forall>W. m flag t = Some (0, W) \<longrightarrow> m flag (Suc t) \<noteq> None)"

definition holds_flag :: "'q \<Rightarrow> ('v, 'p, 'q) sync_thread \<Rightarrow> bool" where
  "holds_flag q0 t \<longleftrightarrow> pc t = UsefulIn \<or> pc t = InUnlock q0"

definition flag_inv :: "'q \<Rightarrow> 'x \<Rightarrow> ('x, 'v, 'p, 'q) ra_cfg \<Rightarrow> nat \<Rightarrow> nat \<Rightarrow> bool" where
  "flag_inv q0 flag c t0 L \<longleftrightarrow>
     flag_history (messages c) flag t0 L \<and>
     (\<forall>i. seen (views c i) flag \<le> t0 + L) \<and>
     (\<forall>x t v W. messages c x t = Some (v, W) \<longrightarrow> seen W flag \<le> t0 + L) \<and>
     (\<forall>i j. holds_flag q0 (threads c i) \<longrightarrow> holds_flag q0 (threads c j) \<longrightarrow> i = j) \<and>
     (L = 0 \<longleftrightarrow> (\<forall>i. \<not> holds_flag q0 (threads c i))) \<and>
     (\<forall>i. holds_flag q0 (threads c i) \<longrightarrow> t0 < seen (views c i) flag \<and> (\<forall>j. left c j \<le> clock (views c i) j)) \<and>
     (\<forall>t v W j. t0 \<le> t \<longrightarrow> messages c flag t = Some (v, W) \<longrightarrow> \<not> holds_flag q0 (threads c j) \<longrightarrow>
        left c j \<le> clock W j)"

lemma flag_invD:
  assumes "flag_inv q0 flag c t0 L"
  shows "flag_history (messages c) flag t0 L" "seen (views c i) flag \<le> t0 + L"
    "messages c x t = Some (v, W) \<Longrightarrow> seen W flag \<le> t0 + L"
    "holds_flag q0 (threads c i) \<Longrightarrow> holds_flag q0 (threads c j) \<Longrightarrow> i = j"
    "L = 0 \<longleftrightarrow> (\<forall>i. \<not> holds_flag q0 (threads c i))"
    "holds_flag q0 (threads c i) \<Longrightarrow> t0 < seen (views c i) flag"
    "holds_flag q0 (threads c i) \<Longrightarrow> left c j \<le> clock (views c i) j"
    "t0 \<le> t \<Longrightarrow> messages c flag t = Some (v, W) \<Longrightarrow> \<not> holds_flag q0 (threads c j) \<Longrightarrow> left c j \<le> clock W j"
  using assms unfolding flag_inv_def by blast+

lemma flag_historyD:
  assumes "flag_history m flag t0 L"
  shows "\<exists>W. m flag t0 = Some (0, W)" "t0 < t \<Longrightarrow> t \<le> t0 + L \<Longrightarrow> \<exists>W. m flag t = Some (1, W)"
    "t0 + L < t \<Longrightarrow> m flag t = None" "t < t0 \<Longrightarrow> m flag t = Some (0, W) \<Longrightarrow> m flag (Suc t) \<noteq> None"
    "m flag t \<noteq> None \<Longrightarrow> t \<le> t0 + L" "t0 \<le> t \<Longrightarrow> t \<le> t0 + L \<Longrightarrow> m flag t \<noteq> None"
proof -
  show 1: "\<exists>W. m flag t0 = Some (0, W)" "t0 < t \<Longrightarrow> t \<le> t0 + L \<Longrightarrow> \<exists>W. m flag t = Some (1, W)"
    "t0 + L < t \<Longrightarrow> m flag t = None" "t < t0 \<Longrightarrow> m flag t = Some (0, W) \<Longrightarrow> m flag (Suc t) \<noteq> None"
    using assms unfolding flag_history_def by blast+
  show "m flag t \<noteq> None \<Longrightarrow> t \<le> t0 + L" using 1(3) by (metis not_le)
  show "t0 \<le> t \<Longrightarrow> t \<le> t0 + L \<Longrightarrow> m flag t \<noteq> None" using 1(1,2) by (cases "t = t0") auto
qed

text \<open>A step of thread \<open>i\<close> that neither writes the flag nor changes who holds it.\<close>

lemma flag_inv_quiet:
  assumes inv: "flag_inv q0 flag c t0 L"
    and step: "performs i a (messages c, views c i) r (m', V')" and quiet: "m' flag = messages c flag"
    and same: "holds_flag q0 t' = holds_flag q0 (threads c i)"
  shows "flag_inv q0 flag (c\<lparr>messages := m', views := (views c)(i := V'), threads := (threads c)(i := t')\<rparr>) t0 L"
proof -
  note I = flag_invD [OF inv]
  have bound: "seen V' flag \<le> t0 + L \<and> (\<forall>x t v W. m' x t = Some (v, W) \<longrightarrow> seen W flag \<le> t0 + L)"
    by (rule performs_bound [OF step]) (use I(2,3) quiet flag_historyD(5) [OF I(1)] in auto)
  have mono: "clock (views c i) j \<le> clock V' j" "seen (views c i) flag \<le> seen V' flag" for j
    using performs_mono [OF step] performs_seen_mono [OF step] by auto
  have holds: "holds_flag q0 (if j = i then t' else threads c j) = holds_flag q0 (threads c j)" for j
    using same by simp
  have "holds_flag q0 (threads c i) \<Longrightarrow> left c j \<le> clock V' j" for j
    using I(7) [of i j] mono(1) [of j] by simp
  moreover have "holds_flag q0 (threads c i) \<Longrightarrow> t0 < seen V' flag" using I(6) [of i] mono(2) by simp
  ultimately show ?thesis
    using inv bound quiet unfolding flag_inv_def flag_history_def by (simp add: holds)
qed

text \<open>Taking the flag: it was free exactly when the newest message gave it up.\<close>

lemma flag_taken_history:
  assumes hist: "flag_history m flag t0 L" and m: "m flag t = Some (v, W)" "m flag (Suc t) = None"
  shows "v = 0 \<Longrightarrow> t = t0 \<and> L = 0" and "v \<noteq> 0 \<Longrightarrow> t < t0 \<or> t = t0 + L \<and> 0 < L"
    and "m' = m(flag := (m flag)(Suc t \<mapsto> (1, W'))) \<Longrightarrow>
      flag_history m' flag t0 (if t < t0 then L else Suc L) \<and> (t < t0 \<longrightarrow> Suc t < t0)"
proof -
  note H = flag_historyD [OF hist]
  have le: "t \<le> t0 + L" using H(5) [of t] m(1) by simp
  have last: "t < t0 \<or> t = t0 + L"
  proof (rule ccontr)
    assume "\<not> (t < t0 \<or> t = t0 + L)"
    with le have "t0 \<le> Suc t" "Suc t \<le> t0 + L" by simp_all
    with H(6) [of "Suc t"] m(2) show False by simp
  qed
  have older: "\<not> (t < t0 \<and> v = 0)" using H(4) [of t W] m by auto
  have at0: "v = 0" if "t = t0" using H(1) m(1) that by auto
  have after: "v = 1" if "t0 < t" using H(2) [OF that le] m(1) by auto
  show "v = 0 \<Longrightarrow> t = t0 \<and> L = 0" using last older after by (cases "t0 < t") auto
  show "v \<noteq> 0 \<Longrightarrow> t < t0 \<or> t = t0 + L \<and> 0 < L" using last at0 by (cases L) auto
  assume m': "m' = m(flag := (m flag)(Suc t \<mapsto> (1, W')))"
  have ahead: "t < t0 \<longrightarrow> Suc t < t0" using H(1) m(2) by (metis Suc_lessI option.distinct(1))
  show "flag_history m' flag t0 (if t < t0 then L else Suc L) \<and> (t < t0 \<longrightarrow> Suc t < t0)"
  proof (cases "t < t0")
    case True
    then show ?thesis using ahead hist unfolding flag_history_def m' by auto
  next
    case False
    then have t: "t = t0 + L" using last by simp
    have "\<exists>W. m' flag s = Some (1, W)" if "t0 < s" "s \<le> t0 + Suc L" for s
      using H(2) [OF that(1)] that t unfolding m' by (cases "s = Suc t") auto
    moreover have "m' flag t0 = m flag t0" using t unfolding m' by simp
    moreover have "m' flag s = m flag s" if "s < t0" for s using that t unfolding m' by simp
    moreover have "m' flag (Suc s) \<noteq> None" if "m flag (Suc s) \<noteq> None" for s using that unfolding m' by simp
    ultimately show ?thesis using False t hist unfolding flag_history_def m' by auto
  qed
qed

lemma flag_inv_take:
  assumes inv: "flag_inv q0 flag c t0 L" and free: "\<not> holds_flag q0 (threads c i)"
    and step: "performs i (Update ord flag (\<lambda>_. 1) k) (messages c, views c i) r (m', V')" and ord: "acquires ord"
    and result: "\<And>v. holds_flag q0 t' \<longleftrightarrow> r = k 0" "\<And>v. k v = k 0 \<Longrightarrow> v = 0"
  shows "\<exists>t0 L. flag_inv q0 flag (c\<lparr>messages := m', views := (views c)(i := V'), threads := (threads c)(i := t')\<rparr>) t0 L"
proof -
  note I = flag_invD [OF inv] and H = flag_historyD [OF flag_invD(1) [OF inv]]
  from step obtain t v W W' where m: "messages c flag t = Some (v, W)" "messages c flag (Suc t) = None"
    and seen: "seen (views c i) flag \<le> t" and r: "r = k v"
    and V': "V' = join (observes flag (Suc t) (tick i (views c i))) W"
    and W': "W' = observes flag (Suc t) (if releases ord then join W V' else W)"
    and m': "m' = (messages c)(flag := (messages c flag)(Suc t \<mapsto> (1, W')))"
    by (rule performs_updateE) (use ord in auto)
  define L' where "L' = (if t < t0 then L else Suc L)"
  have hist: "flag_history m' flag t0 L'" and ahead: "t < t0 \<longrightarrow> Suc t < t0"
    using flag_taken_history(3) [OF I(1) m m'] unfolding L'_def by auto
  have grows: "L \<le> L'" by (simp add: L'_def)
  have bound: "seen V' flag \<le> t0 + L' \<and> (\<forall>x t v W. m' x t = Some (v, W) \<longrightarrow> seen W flag \<le> t0 + L')"
  proof (rule performs_bound [OF step])
    show "\<forall>x t v W. messages c x t = Some (v, W) \<longrightarrow> seen W flag \<le> t0 + L'" using I(3) grows by fastforce
    show "seen (views c i) flag \<le> t0 + L'" using I(2) [of i] grows by simp
    show "\<forall>s. m' flag s \<noteq> None \<longrightarrow> s \<le> t0 + L'" using flag_historyD(5) [OF hist] by blast
  qed
  have others: "seen (views c j) flag \<le> t0 + L'" for j using I(2) [of j] grows by simp
  have clocks: "left c j \<le> clock U j"
    if "t0 \<le> s" "m' flag s = Some (u, U)" "\<not> holds_flag q0 (threads c j)" for s u U j
  proof (cases "s = Suc t")
    case True
    with that(1) ahead have t: "t0 \<le> t" by (cases "t < t0") auto
    have "left c j \<le> clock W j" by (rule I(8) [OF t m(1) that(3)])
    moreover have "clock W j \<le> clock W' j" unfolding W' by simp
    ultimately show ?thesis using that(2) True by (simp add: m')
  next
    case False
    with that show ?thesis using I(8) by (simp add: m')
  qed
  have mine: "left c j \<le> clock V' j" if "\<not> holds_flag q0 (threads c j)" "t0 \<le> t" for j
    using I(8) [OF that(2) m(1) that(1)] unfolding V' by simp
  show ?thesis
  proof (cases "v = 0")
    case True
    with flag_taken_history(1) [OF I(1) m] have t: "t = t0" "L = 0" by simp_all
    then have nobody: "\<not> holds_flag q0 (threads c j)" for j using I(5) by blast
    have taken: "holds_flag q0 t'" using result(1) r True by simp
    have "t0 < seen V' flag" unfolding V' by (simp add: t)
    moreover have "L' = 1" by (simp add: L'_def t)
    ultimately have "flag_inv q0 flag (c\<lparr>messages := m', views := (views c)(i := V'), threads := (threads c)(i := t')\<rparr>) t0 1"
      using hist bound others clocks mine nobody taken t unfolding flag_inv_def by (auto simp: t)
    then show ?thesis by blast
  next
    case False
    then have same: "\<not> holds_flag q0 t'" using result r by auto
    then have holds: "holds_flag q0 (if j = i then t' else threads c j) = holds_flag q0 (threads c j)" for j
      using free by simp
    have "L' = 0 \<longleftrightarrow> L = 0" using flag_taken_history(2) [OF I(1) m False] by (auto simp: L'_def)
    then have "flag_inv q0 flag (c\<lparr>messages := m', views := (views c)(i := V'), threads := (threads c)(i := t')\<rparr>) t0 L'"
      using inv free hist bound others clocks unfolding flag_inv_def by (simp add: holds)
    then show ?thesis by blast
  qed
qed

text \<open>Giving the flag up.\<close>

lemma flag_inv_release:
  assumes inv: "flag_inv q0 flag c t0 L" and held: "holds_flag q0 (threads c i)"
    and step: "performs i (Store ord flag 0 r') (messages c, views c i) r (m', V')" and ord: "releases ord"
    and t': "\<not> holds_flag q0 t'"
  shows "\<exists>t0 L. flag_inv q0 flag (c\<lparr>messages := m', views := (views c)(i := V'), threads := (threads c)(i := t')\<rparr>) t0 L"
proof -
  note I = flag_invD [OF inv] and H = flag_historyD [OF flag_invD(1) [OF inv]]
  from step obtain t where m: "messages c flag t = None" "seen (views c i) flag < t"
    and V': "V' = observes flag t (tick i (views c i))" and m': "m' = (messages c)(flag := (messages c flag)(t \<mapsto> (0, V')))"
    by (rule performs_storeE) (use ord in auto)
  have L: "0 < L" using I(5) held by (cases L) auto
  have t: "t0 + L < t"
  proof (rule ccontr)
    assume "\<not> t0 + L < t"
    moreover have "t0 < t" using I(6) [OF held] m(2) by simp
    ultimately show False using H(6) [of t] m(1) by simp
  qed
  have only: "j = i" if "holds_flag q0 (threads c j)" for j using I(4) [OF that held] .
  have hist: "flag_history m' flag t 0"
  proof -
    have "m' flag (Suc s) \<noteq> None" if "s < t" "m' flag s = Some (0, W)" for s W
    proof -
      have s: "messages c flag s = Some (0, W)" using that by (simp add: m')
      then have "s \<le> t0 + L" using H(5) [of s] by simp
      moreover have "s \<noteq> t0 + L \<and> \<not> (t0 < s \<and> s \<le> t0 + L)" using H(2) [of s] H(2) [of "t0 + L"] L s by auto
      ultimately have "s < t0 \<or> s = t0 \<and> 0 < L" using L by auto
      then have "messages c flag (Suc s) \<noteq> None" using H(4) [of s W] H(6) [of "Suc s"] s L by auto
      then show ?thesis by (simp add: m')
    qed
    moreover have "m' flag s = None" if "t < s" for s using H(3) [of s] t that by (simp add: m')
    ultimately show ?thesis unfolding flag_history_def by (simp add: m')
  qed
  have bound: "seen V' flag \<le> t \<and> (\<forall>x s v W. m' x s = Some (v, W) \<longrightarrow> seen W flag \<le> t)"
  proof (rule performs_bound [OF step])
    show "\<forall>x s v W. messages c x s = Some (v, W) \<longrightarrow> seen W flag \<le> t" using I(3) t by fastforce
    show "seen (views c i) flag \<le> t" using m(2) by simp
    show "\<forall>s. m' flag s \<noteq> None \<longrightarrow> s \<le> t" using flag_historyD(5) [OF hist] by simp
  qed
  have "seen (views c j) flag \<le> t" for j using I(2) [of j] t by simp
  moreover have "left c j \<le> clock V' j" for j using I(7) [OF held, of j] unfolding V' by (cases "j = i") simp_all
  moreover have "m' flag s = Some (u, U) \<Longrightarrow> t \<le> s \<Longrightarrow> U = V'" for s u U
    using H(3) [of s] t by (cases "s = t") (auto simp: m')
  moreover have "\<not> holds_flag q0 (if j = i then t' else threads c j)" for j using t' only by auto
  ultimately have "flag_inv q0 flag (c\<lparr>messages := m', views := (views c)(i := V'), threads := (threads c)(i := t')\<rparr>) t 0"
    using hist bound unfolding flag_inv_def by auto
  then show ?thesis by blast
qed

text \<open>Leaving the critical section.\<close>

lemma flag_inv_useful_in:
  assumes inv: "flag_inv q0 flag c t0 L" and pc: "pc (threads c i) = UsefulIn" and V': "V' = tick i (views c i)"
  shows "flag_inv q0 flag (c\<lparr>views := (views c)(i := V'), left := (left c)(i := clock V' i),
    threads := (threads c)(i := (threads c i)\<lparr>pc := InUnlock q0\<rparr>)\<rparr>) t0 L"
proof -
  note I = flag_invD [OF inv]
  have held: "holds_flag q0 (threads c i)" using pc by (simp add: holds_flag_def)
  have holds: "holds_flag q0 (if j = i then (threads c i)\<lparr>pc := InUnlock q0\<rparr> else threads c j) = holds_flag q0 (threads c j)" for j
    using held by (simp add: holds_flag_def)
  have only: "j = i" if "holds_flag q0 (threads c j)" for j using I(4) [OF that held] .
  show ?thesis
    using inv held only I(7) [OF held] unfolding flag_inv_def V' by (simp add: holds)
qed

lemma flag_inv_threads:
  assumes "flag_inv q0 flag c t0 L" and "holds_flag q0 t' = holds_flag q0 (threads c i)"
  shows "flag_inv q0 flag (c\<lparr>threads := (threads c)(i := t')\<rparr>) t0 L"
proof -
  have "holds_flag q0 (if j = i then t' else threads c j) = holds_flag q0 (threads c j)" for j using assms(2) by simp
  with assms(1) show ?thesis unfolding flag_inv_def by simp
qed

section \<open>The interface\<close>

text \<open>
  What \<open>lock()\<close> may do: return only from an update of the flag that acquires, sets it and has found it
  clear; the other accesses do not write the flag. What \<open>unlock()\<close> may do: first clear the flag with a
  store that releases.
\<close>

definition taking_access :: "'x \<Rightarrow> ('x, 'v \<times> 'p outcome) access \<Rightarrow> bool" where
  "taking_access flag a \<longleftrightarrow>
     (case a of
        Load ord x k \<Rightarrow> \<forall>v. snd (k v) \<noteq> Return
      | Store ord x v r \<Rightarrow> x \<noteq> flag \<and> snd r \<noteq> Return
      | Update ord x f k \<Rightarrow>
          if x = flag then acquires ord \<and> f = (\<lambda>_. 1) \<and> (\<forall>v. snd (k v) = Return \<longleftrightarrow> v = 0) else \<forall>v. snd (k v) \<noteq> Return
      | Local r \<Rightarrow> snd r \<noteq> Return)"

definition clearing_access :: "'q \<Rightarrow> 'x \<Rightarrow> ('x, 'v \<times> 'q outcome) access \<Rightarrow> bool" where
  "clearing_access q0 flag a \<longleftrightarrow> (\<exists>ord r. a = Store ord flag 0 r \<and> releases ord \<and> snd r \<noteq> Goto q0)"

definition other_access :: "'q \<Rightarrow> 'x \<Rightarrow> ('x, 'v \<times> 'q outcome) access \<Rightarrow> bool" where
  "other_access q0 flag a \<longleftrightarrow>
     (case a of
        Load ord x k \<Rightarrow> \<forall>v. snd (k v) \<noteq> Goto q0
      | Store ord x v r \<Rightarrow> x \<noteq> flag \<and> snd r \<noteq> Goto q0
      | Update ord x f k \<Rightarrow> x \<noteq> flag \<and> (\<forall>v. snd (k v) \<noteq> Goto q0)
      | Local r \<Rightarrow> snd r \<noteq> Goto q0)"

lemma performs_other_flag:
  assumes "performs i a (m, V) r (m', V')" and "other_access q0 flag a"
  shows "m' flag = m flag" and "snd r \<noteq> Goto q0"
  using assms by (cases rule: performs.cases; auto simp: other_access_def)+

lemma performs_taking:
  assumes "performs i a (m, V) r (m', V')" and "taking_access flag a"
  shows "m' flag = m flag \<and> snd r \<noteq> Return \<or> (\<exists>ord k. a = Update ord flag (\<lambda>_. 1) k \<and> acquires ord \<and>
    (\<forall>v. snd (k v) = Return \<longleftrightarrow> v = 0))"
  using assms by (cases rule: performs.cases) (auto simp: taking_access_def split: if_splits)

locale ra_flag_lock =
  fixes C :: "('x, 'v, 'p, 'q) ra_code" and flag :: 'x and vals :: "'x \<Rightarrow> int" and v0 :: "nat \<Rightarrow> 'v"
  assumes taking: "taking_access flag (ra_lock C i v p)"
    and clearing: "clearing_access (ra_unlock_entry C) flag (ra_unlock C i v (ra_unlock_entry C))"
    and others: "q \<noteq> ra_unlock_entry C \<Longrightarrow> other_access (ra_unlock_entry C) flag (ra_unlock C i v q)"
    and clear: "vals flag = 0"
begin

lemma inv_start: "flag_inv (ra_unlock_entry C) flag (ra_init vals v0) 0 0"
  using clear by (simp add: flag_inv_def flag_history_def ra_init_def holds_flag_def)

lemma inv_step:
  assumes inv: "\<exists>t0 L. flag_inv (ra_unlock_entry C) flag c t0 L" and step: "ra_step C nr_iter i c c'"
  shows "\<exists>t0 L. flag_inv (ra_unlock_entry C) flag c' t0 L"
proof -
  let ?q0 = "ra_unlock_entry C"
  obtain t0 L where I: "flag_inv ?q0 flag c t0 L" using inv by blast
  from step show ?thesis
  proof cases
    case ra_for_test
    show ?thesis unfolding ra_for_test(1)
      by (intro exI, rule flag_inv_threads [OF I]) (use ra_for_test(2) in \<open>simp add: holds_flag_def\<close>)
  next
    case (ra_in_lock p v' r m' V')
    let ?t' = "(threads c i)\<lparr>tls := v', pc := after_lock r\<rparr>"
    have free: "\<not> holds_flag ?q0 (threads c i)" using ra_in_lock by (simp add: holds_flag_def)
    from performs_taking [OF ra_in_lock(3) taking] show ?thesis
    proof
      assume q: "m' flag = messages c flag \<and> snd (v', r) \<noteq> Return"
      then have "\<not> holds_flag ?q0 ?t'" by (cases r) (auto simp: holds_flag_def)
      with flag_inv_quiet [OF I ra_in_lock(3) conjunct1 [OF q]] free ra_in_lock(1) show ?thesis by auto
    next
      assume "\<exists>ord k. ra_lock C i (tls (threads c i)) p = Update ord flag (\<lambda>_. 1) k \<and> acquires ord \<and>
        (\<forall>v. snd (k v) = Return \<longleftrightarrow> v = 0)"
      then obtain ord k where a: "ra_lock C i (tls (threads c i)) p = Update ord flag (\<lambda>_. 1) k" "acquires ord"
        and k: "\<And>v. snd (k v) = Return \<longleftrightarrow> v = 0" by blast
      from ra_in_lock(3) a have step: "performs i (Update ord flag (\<lambda>_. 1) k) (messages c, views c i) (v', r) (m', V')" by simp
      then obtain v where v: "(v', r) = k v" by (rule performs_updateE) auto
      have "holds_flag ?q0 ?t' \<longleftrightarrow> (v', r) = k 0"
      proof -
        have "holds_flag ?q0 ?t' \<longleftrightarrow> r = Return" by (cases r) (simp_all add: holds_flag_def)
        also have "\<dots> \<longleftrightarrow> v = 0" using k [of v] v by (metis snd_conv)
        also have "\<dots> \<longleftrightarrow> (v', r) = k 0" using k v by metis
        finally show ?thesis .
      qed
      moreover have "k v = k 0 \<Longrightarrow> v = 0" for v using k by metis
      ultimately show ?thesis using flag_inv_take [OF I free step a(2)] ra_in_lock(1) by simp
    qed
  next
    case (ra_useful_in V')
    with flag_inv_useful_in [OF I] show ?thesis by blast
  next
    case (ra_in_unlock q v' r m' V')
    let ?t' = "(threads c i)\<lparr>tls := v', pc := after_unlock r\<rparr>"
    show ?thesis
    proof (cases "q = ?q0")
      case True
      from clearing [of i "tls (threads c i)"] obtain ord r0 where a: "ra_unlock C i (tls (threads c i)) ?q0 = Store ord flag 0 r0"
        "releases ord" "snd r0 \<noteq> Goto ?q0" by (auto simp: clearing_access_def)
      from ra_in_unlock(3) a True have step: "performs i (Store ord flag 0 r0) (messages c, views c i) (v', r) (m', V')" by simp
      then have "(v', r) = r0" by (rule performs_storeE)
      with a(3) have "\<not> holds_flag ?q0 ?t'" by (cases r) (auto simp: holds_flag_def)
      moreover have "holds_flag ?q0 (threads c i)" using ra_in_unlock(2) True by (simp add: holds_flag_def)
      ultimately show ?thesis using flag_inv_release [OF I _ step a(2)] ra_in_unlock(1) by simp
    next
      case False
      note quiet = performs_other_flag [OF ra_in_unlock(3) others [OF False]]
      have "\<not> holds_flag ?q0 ?t'" using quiet(2) by (cases r) (auto simp: holds_flag_def)
      moreover have "\<not> holds_flag ?q0 (threads c i)" using ra_in_unlock(2) False by (simp add: holds_flag_def)
      ultimately show ?thesis using flag_inv_quiet [OF I ra_in_unlock(3) quiet(1)] ra_in_unlock(1) by auto
    qed
  next
    case ra_useful_out
    show ?thesis unfolding ra_useful_out(1)
      by (intro exI, rule flag_inv_threads [OF I]) (use ra_useful_out(2) in \<open>simp add: holds_flag_def\<close>)
  qed
qed

text \<open>Critical sections exclude each other and are ordered, in every reachable configuration.\<close>

lemma exclusive_ordered:
  assumes "ra_reach C b (ra_init vals v0) c"
  shows "ra_exclusive c \<and> ra_ordered c"
proof -
  have "\<exists>t0 L. flag_inv (ra_unlock_entry C) flag c t0 L"
    using assms by (rule ra_invariant) (use inv_start inv_step in blast)+
  then obtain t0 L where I: "flag_inv (ra_unlock_entry C) flag c t0 L" by blast
  have "in_cs t \<Longrightarrow> holds_flag (ra_unlock_entry C) t" for t :: "('v, 'p, 'q) sync_thread"
    by (simp add: in_cs_def holds_flag_def)
  then show ?thesis
    using flag_invD(4,7) [OF I] unfolding ra_exclusive_def ra_ordered_def by blast
qed

end

end
