(* ===== verification/RA_Locks.thy ===== *)
theory RA_Locks
  imports RA_Flag_Lock
begin

text \<open>
  The acquire/release variants of the locks around a flag: \<open>TASLock/taslock_ar.cpp\<close>,
  \<open>TATASLock/tatas_lock_ar.cpp\<close> and \<open>Taubenfeld/fair_lock_ar.cpp\<close> (under \<open>benchmark/blocking\<close>). A bool is 0
  or 1. The memory barrier of the fair lock is an inline assembly statement, to which the language
  gives no meaning; here it orders nothing.
\<close>

section \<open>Test and set\<close>

fun tas_ar_lock :: "nat \<Rightarrow> unit \<Rightarrow> unit \<Rightarrow> (unit, unit \<times> unit outcome) access" where
  "tas_ar_lock tid v _ = Update Acquire () (\<lambda>_. 1) (\<lambda>old. (v, if old \<noteq> 0 then Goto () else Return))"

fun tas_ar_unlock :: "nat \<Rightarrow> unit \<Rightarrow> unit \<Rightarrow> (unit, unit \<times> unit outcome) access" where
  "tas_ar_unlock tid v _ = Store Release () 0 (v, Return)"

definition taslock_ar_sync :: "(unit, unit, unit, unit) ra_code" where
  "taslock_ar_sync =
     \<lparr>ra_lock_entry = (), ra_lock = tas_ar_lock, ra_unlock_entry = (), ra_unlock = tas_ar_unlock\<rparr>"

text \<open>\<open>init_taslock\<close> has cleared the flag.\<close>

definition tas_ar_vals :: "unit \<Rightarrow> int" where
  "tas_ar_vals _ = 0"

section \<open>Test and test and set\<close>

datatype tatas_ar_label = Load_flag | Exchange_flag

fun tatas_ar_lock :: "nat \<Rightarrow> unit \<Rightarrow> tatas_ar_label \<Rightarrow> (unit, unit \<times> tatas_ar_label outcome) access" where
  "tatas_ar_lock tid v Load_flag =
     Load Relaxed () (\<lambda>locked. (v, Goto (if locked \<noteq> 0 then Load_flag else Exchange_flag)))"
| "tatas_ar_lock tid v Exchange_flag =
     Update Acquire () (\<lambda>_. 1) (\<lambda>old. (v, if old = 0 then Return else Goto Load_flag))"

fun tatas_ar_unlock :: "nat \<Rightarrow> unit \<Rightarrow> unit \<Rightarrow> (unit, unit \<times> unit outcome) access" where
  "tatas_ar_unlock tid v _ = Store Release () 0 (v, Return)"

definition tatas_ar_sync :: "(unit, unit, tatas_ar_label, unit) ra_code" where
  "tatas_ar_sync =
     \<lparr>ra_lock_entry = Load_flag, ra_lock = tatas_ar_lock, ra_unlock_entry = (), ra_unlock = tatas_ar_unlock\<rparr>"

definition tatas_ar_vals :: "unit \<Rightarrow> int" where
  "tatas_ar_vals _ = 0"

section \<open>Taubenfeld's fair lock\<close>

datatype fair_ar_var = Group_var | State_var nat | Locked_var

text \<open>
  \<open>entry_section\<close> and \<open>lock\<close>, with the local variables \<open>tmp\<close> and \<open>j\<close>. The two loads of the last condition of
  the loop are separate accesses.
\<close>

datatype fair_ar_label =
    Ar_doorway | Ar_load_group | Ar_end_doorway int
  | Ar_for int nat | Ar_test_group int nat | Ar_await_door int nat | Ar_await_other int nat | Ar_await_group int nat
  | Ar_barrier | Ar_load_locked | Ar_exchange_locked

fun fair_ar_lock :: "nat \<Rightarrow> nat \<Rightarrow> unit \<Rightarrow> fair_ar_label \<Rightarrow> (fair_ar_var, unit \<times> fair_ar_label outcome) access" where
  "fair_ar_lock n tid v Ar_doorway = Store Relaxed (State_var tid) 2 (v, Goto Ar_load_group)"
| "fair_ar_lock n tid v Ar_load_group = Load Relaxed Group_var (\<lambda>g. (v, Goto (Ar_end_doorway g)))"
| "fair_ar_lock n tid v (Ar_end_doorway tmp) = Store Release (State_var tid) tmp (v, Goto (Ar_for tmp 0))"
| "fair_ar_lock n tid v (Ar_for tmp j) = Local (v, Goto (if j < n then Ar_test_group tmp j else Ar_barrier))"
| "fair_ar_lock n tid v (Ar_test_group tmp j) =
     Load Relaxed Group_var (\<lambda>g. (v, Goto (if tmp \<noteq> g then Ar_barrier else Ar_await_door tmp j)))"
| "fair_ar_lock n tid v (Ar_await_door tmp j) =
     Load Relaxed (State_var j) (\<lambda>x. (v, Goto (if x = 2 then Ar_await_door tmp j
       else if x = 1 - tmp then Ar_await_other tmp j else Ar_for tmp (j + 1))))"
| "fair_ar_lock n tid v (Ar_await_other tmp j) =
     Load Relaxed (State_var j) (\<lambda>x. (v, Goto (if x = 1 - tmp then Ar_await_group tmp j else Ar_for tmp (j + 1))))"
| "fair_ar_lock n tid v (Ar_await_group tmp j) =
     Load Relaxed Group_var (\<lambda>g. (v, Goto (if tmp = g then Ar_await_other tmp j else Ar_for tmp (j + 1))))"
| "fair_ar_lock n tid v Ar_barrier = Local (v, Goto Ar_load_locked)"
| "fair_ar_lock n tid v Ar_load_locked =
     Load Relaxed Locked_var (\<lambda>x. (v, Goto (if x \<noteq> 0 then Ar_load_locked else Ar_exchange_locked)))"
| "fair_ar_lock n tid v Ar_exchange_locked =
     Update Acquire Locked_var (\<lambda>_. 1) (\<lambda>old. (v, if old = 0 then Return else Goto Ar_load_locked))"

text \<open>\<open>unlock\<close> and \<open>exit_section\<close>.\<close>

datatype fair_ar_exit_label = Ar_clear_locked | Ar_load_own | Ar_store_group int | Ar_store_inactive

fun fair_ar_unlock :: "nat \<Rightarrow> unit \<Rightarrow> fair_ar_exit_label \<Rightarrow> (fair_ar_var, unit \<times> fair_ar_exit_label outcome) access" where
  "fair_ar_unlock tid v Ar_clear_locked = Store Release Locked_var 0 (v, Goto Ar_load_own)"
| "fair_ar_unlock tid v Ar_load_own = Load Relaxed (State_var tid) (\<lambda>x. (v, Goto (Ar_store_group (1 - x))))"
| "fair_ar_unlock tid v (Ar_store_group store_val) = Store Relaxed Group_var store_val (v, Goto Ar_store_inactive)"
| "fair_ar_unlock tid v Ar_store_inactive = Store Release (State_var tid) 3 (v, Return)"

definition fair_ar_sync :: "nat \<Rightarrow> (fair_ar_var, unit, fair_ar_label, fair_ar_exit_label) ra_code" where
  "fair_ar_sync n =
     \<lparr>ra_lock_entry = Ar_doorway, ra_lock = fair_ar_lock n, ra_unlock_entry = Ar_clear_locked, ra_unlock = fair_ar_unlock\<rparr>"

text \<open>\<open>init_fair_lock\<close>: every thread is inactive. \<open>group\<close> is what the execution before left.\<close>

fun fair_ar_vals :: "int \<Rightarrow> fair_ar_var \<Rightarrow> int" where
  "fair_ar_vals g Group_var = g"
| "fair_ar_vals g (State_var tid) = 3"
| "fair_ar_vals g Locked_var = 0"

section \<open>They meet the interface\<close>

interpretation tas_ar: ra_flag_lock taslock_ar_sync "()" tas_ar_vals "\<lambda>_. ()"
  by unfold_locales
    (simp_all add: taslock_ar_sync_def tas_ar_vals_def taking_access_def clearing_access_def acquires_def releases_def)

interpretation tatas_ar: ra_flag_lock tatas_ar_sync "()" tatas_ar_vals "\<lambda>_. ()"
proof unfold_locales
  show "taking_access () (ra_lock tatas_ar_sync i v p)" for i v p
    by (cases p) (simp_all add: tatas_ar_sync_def taking_access_def acquires_def)
qed (simp_all add: tatas_ar_sync_def tatas_ar_vals_def clearing_access_def releases_def)

interpretation fair_ar: ra_flag_lock "fair_ar_sync n" Locked_var "fair_ar_vals g" "\<lambda>_. ()" for n g
proof unfold_locales
  show "taking_access Locked_var (ra_lock (fair_ar_sync n) i v p)" for i v p
    by (cases p) (simp_all add: fair_ar_sync_def taking_access_def acquires_def)
  show "other_access (ra_unlock_entry (fair_ar_sync n)) Locked_var (ra_unlock (fair_ar_sync n) i v q)"
    if "q \<noteq> ra_unlock_entry (fair_ar_sync n)" for i v q
    using that by (cases q) (simp_all add: fair_ar_sync_def other_access_def)
qed (simp_all add: fair_ar_sync_def clearing_access_def releases_def)

section \<open>Properties\<close>

text \<open>
  C11: the acquire/release variants of the test-and-set, the test-and-test-and-set and Taubenfeld's fair
  lock, under the memory model of the language and for any number of threads: at most one thread is in
  its critical section, and all that any thread did in an earlier one happened before.
\<close>

theorem flag_locks_ar_ordered:
  assumes "ra_reach taslock_ar_sync b (ra_init tas_ar_vals (\<lambda>_. ())) c1"
    and "ra_reach tatas_ar_sync b (ra_init tatas_ar_vals (\<lambda>_. ())) c2"
    and "ra_reach (fair_ar_sync (nr_threads b)) b (ra_init (fair_ar_vals g) (\<lambda>_. ())) c3"
  shows "ra_exclusive c1 \<and> ra_ordered c1 \<and> ra_exclusive c2 \<and> ra_ordered c2 \<and> ra_exclusive c3 \<and> ra_ordered c3"
  using tas_ar.exclusive_ordered [OF assms(1)] tatas_ar.exclusive_ordered [OF assms(2)]
    fair_ar.exclusive_ordered [OF assms(3)] by blast

text \<open>Runs in which the second thread enters its critical section after the first one has left.\<close>

definition two_rounds :: bench where
  "two_rounds = \<lparr>nr_threads = 2, iters = \<lambda>_. 2\<rparr>"

definition handed_over :: "('x, 'v, 'p, 'q) ra_cfg \<Rightarrow> bool" where
  "handed_over c \<longleftrightarrow> pc (threads c 0) = UsefulOut \<and> in_cs (threads c 1) \<and> 0 < left c 0"

lemma tas_ar_run:
  "map_option handed_over (ra_exec taslock_ar_sync two_rounds
     [(0, 0), (0, 0), (1, 0), (1, 1), (0, 0), (0, 3), (1, 3)] (ra_init tas_ar_vals (\<lambda>_. ()))) = Some True"
  by code_simp

lemma tatas_ar_run:
  "map_option handed_over (ra_exec tatas_ar_sync two_rounds
     [(0, 0), (0, 0), (0, 0), (1, 0), (1, 0), (1, 1), (0, 0), (0, 3), (1, 3), (1, 3)]
     (ra_init tatas_ar_vals (\<lambda>_. ()))) = Some True"
  by code_simp

lemma fair_ar_run:
  "map_option handed_over (ra_exec (fair_ar_sync 2) two_rounds
     [(0, 0), (0, 1), (0, 0), (0, 2), (0, 0), (0, 0), (0, 2), (0, 0), (0, 0), (0, 0), (0, 0), (0, 0), (0, 0), (0, 0),
      (0, 0), (0, 2), (0, 2), (0, 1), (0, 3),
      (1, 0), (1, 1), (1, 0), (1, 2), (1, 0), (1, 1), (1, 0), (1, 2), (1, 2)]
     (ra_init (fair_ar_vals 0) (\<lambda>_. ()))) = Some True"
  by code_simp

text \<open>For each of the three locks a run in which the critical section of thread \<open>0\<close> happened before that of thread \<open>1\<close>.\<close>

theorem flag_locks_ar_ordered_witness:
  "\<exists>c1 c2 c3. handed_over (c1 :: (unit, unit, unit, unit) ra_cfg) \<and>
     handed_over (c2 :: (unit, unit, tatas_ar_label, unit) ra_cfg) \<and>
     handed_over (c3 :: (fair_ar_var, unit, fair_ar_label, fair_ar_exit_label) ra_cfg) \<and>
     ra_ordered c1 \<and> ra_ordered c2 \<and> ra_ordered c3"
proof -
  obtain c1 where c1: "ra_reach taslock_ar_sync two_rounds (ra_init tas_ar_vals (\<lambda>_. ())) c1" "handed_over c1"
    using ra_exec_run [OF tas_ar_run] by auto
  obtain c2 where c2: "ra_reach tatas_ar_sync two_rounds (ra_init tatas_ar_vals (\<lambda>_. ())) c2" "handed_over c2"
    using ra_exec_run [OF tatas_ar_run] by auto
  obtain c3 where "ra_reach (fair_ar_sync 2) two_rounds (ra_init (fair_ar_vals 0) (\<lambda>_. ())) c3" and c3: "handed_over c3"
    using ra_exec_run [OF fair_ar_run] by auto
  then have "ra_reach (fair_ar_sync (nr_threads two_rounds)) two_rounds (ra_init (fair_ar_vals 0) (\<lambda>_. ())) c3"
    by (simp add: two_rounds_def)
  from flag_locks_ar_ordered [OF c1(1) c2(1) this] c1(2) c2(2) c3 show ?thesis by blast
qed

end
