(* ===== verification/RA_Peterson.thy ===== *)
theory RA_Peterson
  imports Release_Acquire
begin

text \<open>
  The acquire/release variants of Peterson's lock (\<open>PetersonLock/peterson_lock_ar.cpp\<close>) and of the filter
  lock (\<open>FilterLock/filter_lock_ar.cpp\<close>), for two threads: the exchanges keep the threads apart, but a
  thread can leave its loop by a relaxed load, and then the critical section it follows did not happen
  before its own.
\<close>

section \<open>Peterson's lock\<close>

datatype peterson_var = Flag0 | Flag1 | Turn

datatype peterson_ar_label = Ar_store_flag | Ar_exchange_turn | Ar_load_flag | Ar_load_turn

fun peterson_ar_lock :: "nat \<Rightarrow> unit \<Rightarrow> peterson_ar_label \<Rightarrow> (peterson_var, unit \<times> peterson_ar_label outcome) access" where
  "peterson_ar_lock tid v Ar_store_flag = Store Relaxed (if tid = 0 then Flag0 else Flag1) 1 (v, Goto Ar_exchange_turn)"
| "peterson_ar_lock tid v Ar_exchange_turn =
     Update Acq_rel Turn (\<lambda>_. if tid = 0 then 1 else 0) (\<lambda>_. (v, Goto Ar_load_flag))"
| "peterson_ar_lock tid v Ar_load_flag =
     Load Acquire (if tid = 0 then Flag1 else Flag0) (\<lambda>x. (v, if x \<noteq> 0 then Goto Ar_load_turn else Return))"
| "peterson_ar_lock tid v Ar_load_turn =
     Load Relaxed Turn (\<lambda>x. (v, if x = (if tid = 0 then 1 else 0) then Goto Ar_load_flag else Return))"

fun peterson_ar_unlock :: "nat \<Rightarrow> unit \<Rightarrow> unit \<Rightarrow> (peterson_var, unit \<times> unit outcome) access" where
  "peterson_ar_unlock tid v _ = Store Release (if tid = 0 then Flag0 else Flag1) 0 (v, Return)"

definition peterson_ar :: "(peterson_var, unit, peterson_ar_label, unit) ra_code" where
  "peterson_ar =
     \<lparr>ra_lock_entry = Ar_store_flag, ra_lock = peterson_ar_lock, ra_unlock_entry = (), ra_unlock = peterson_ar_unlock\<rparr>"

text \<open>\<open>reset_peterson_lock\<close>\<close>

definition peterson_ar_vals :: "peterson_var \<Rightarrow> int" where
  "peterson_ar_vals _ = 0"

definition peterson_race :: "(nat \<times> nat) list" where
  "peterson_race =
     [(0, 0), (0, 1), (0, 0), (0, 0),
      (1, 0), (1, 1), (1, 1), (1, 1),
      (0, 0), (0, 2), (0, 0), (0, 0), (0, 3), (0, 2),
      (1, 3)]"

section \<open>The threads exclude each other\<close>

definition flag_of :: "nat \<Rightarrow> peterson_var" where
  "flag_of i = (if i = 0 then Flag0 else Flag1)"

definition yields :: "nat \<Rightarrow> int" where
  "yields i = (if i = 0 then 1 else 0)"

text \<open>The thread has set its flag; it has also exchanged \<open>turn\<close>.\<close>

definition announced_ar :: "(unit, peterson_ar_label, unit) sync_thread \<Rightarrow> bool" where
  "announced_ar t \<longleftrightarrow> past_lock t \<or> pc t \<in> {InLock Ar_exchange_turn, InLock Ar_load_flag, InLock Ar_load_turn}"

definition gave_ar :: "(unit, peterson_ar_label, unit) sync_thread \<Rightarrow> bool" where
  "gave_ar t \<longleftrightarrow> past_lock t \<or> pc t \<in> {InLock Ar_load_flag, InLock Ar_load_turn}"

lemma gave_announced: "gave_ar t \<Longrightarrow> announced_ar t"
  by (auto simp: gave_ar_def announced_ar_def)

type_synonym peterson_cfg = "(peterson_var, unit, peterson_ar_label, unit) ra_cfg"

text \<open>
  The flags: only its thread writes a flag, and no view is ahead of it. \<open>turn\<close>: the messages up to \<open>T\<close>, all
  exchanges. \<open>xch i\<close>: the position of the last exchange of thread \<open>i\<close>.
\<close>

definition flags_inv :: "peterson_cfg \<Rightarrow> bool" where
  "flags_inv c \<longleftrightarrow> (\<forall>i<2.
     (\<forall>t. messages c (flag_of i) t \<noteq> None \<longrightarrow> t \<le> seen (views c i) (flag_of i)) \<and>
     (\<forall>x t v W. messages c x t = Some (v, W) \<longrightarrow> seen W (flag_of i) \<le> seen (views c i) (flag_of i)) \<and>
     (\<forall>j<2. seen (views c j) (flag_of i) \<le> seen (views c i) (flag_of i)) \<and>
     (announced_ar (threads c i) \<longrightarrow> (\<exists>W. messages c (flag_of i) (seen (views c i) (flag_of i)) = Some (1, W))))"

definition turn_inv :: "peterson_cfg \<Rightarrow> (nat \<Rightarrow> nat) \<Rightarrow> nat \<Rightarrow> bool" where
  "turn_inv c xch T \<longleftrightarrow> (\<forall>t. messages c Turn t \<noteq> None \<longleftrightarrow> t \<le> T) \<and>
     (\<forall>i<2. gave_ar (threads c i) \<longrightarrow> xch i \<le> T \<and> xch i \<le> seen (views c i) Turn \<and>
       (\<exists>W. messages c Turn (xch i) = Some (yields i, W)) \<and>
       (\<forall>t v W. xch i \<le> t \<longrightarrow> messages c Turn t = Some (v, W) \<longrightarrow>
          seen (views c i) (flag_of i) \<le> seen W (flag_of i)))"

definition order_inv :: "peterson_cfg \<Rightarrow> (nat \<Rightarrow> nat) \<Rightarrow> nat \<Rightarrow> bool" where
  "order_inv c xch T \<longleftrightarrow> (\<forall>i<2. \<forall>j<2. i \<noteq> j \<longrightarrow> gave_ar (threads c i) \<longrightarrow> gave_ar (threads c j) \<longrightarrow>
     xch i \<noteq> xch j \<and>
     (xch j < xch i \<longrightarrow> xch i = T \<and> seen (views c j) (flag_of j) \<le> seen (views c i) (flag_of j)) \<and>
     (past_lock (threads c i) \<longrightarrow> xch i < xch j))"

definition peterson_ar_inv :: "peterson_cfg \<Rightarrow> (nat \<Rightarrow> nat) \<Rightarrow> nat \<Rightarrow> bool" where
  "peterson_ar_inv c xch T \<longleftrightarrow> flags_inv c \<and> turn_inv c xch T \<and> order_inv c xch T"

lemma flag_of_neq: "i < 2 \<Longrightarrow> j < 2 \<Longrightarrow> flag_of i = flag_of j \<longleftrightarrow> i = j" "flag_of i \<noteq> Turn" "Turn \<noteq> flag_of i"
  by (auto simp: flag_of_def)

text \<open>Steps of thread \<open>i\<close> that write nothing.\<close>

lemma peterson_read_ok:
  assumes inv: "peterson_ar_inv c xch T" and i: "i < 2"
    and V: "\<And>x. seen (views c i) x \<le> seen V' x" "\<And>j. j < 2 \<Longrightarrow> seen V' (flag_of j) \<le> seen (views c j) (flag_of j)"
    and t': "announced_ar t' \<Longrightarrow> announced_ar (threads c i)" "gave_ar t' \<Longrightarrow> gave_ar (threads c i)"
    and past: "\<And>j. past_lock t' \<Longrightarrow> j < 2 \<Longrightarrow> j \<noteq> i \<Longrightarrow> gave_ar (threads c j) \<Longrightarrow> xch i < xch j"
    and c': "messages c' = messages c" "views c' = (views c)(i := V')" "threads c' = (threads c)(i := t')"
  shows "peterson_ar_inv c' xch T"
proof -
  have own: "seen V' (flag_of i) = seen (views c i) (flag_of i)" using V(1) V(2) [OF i] by (rule antisym [rotated])
  have "flags_inv c'"
    using inv V(2) t'(1) own unfolding peterson_ar_inv_def flags_inv_def c' by simp
  moreover have "turn_inv c' xch T"
    using inv t'(2) own V(1) [of Turn] unfolding peterson_ar_inv_def turn_inv_def c' by (auto intro: order_trans)
  moreover have "order_inv c' xch T"
    unfolding order_inv_def
  proof (intro allI impI)
    fix k j :: nat
    assume k: "k < 2" "j < 2" "k \<noteq> j" "gave_ar (threads c' k)" "gave_ar (threads c' j)"
    then have g: "gave_ar (threads c k)" "gave_ar (threads c j)" using t'(2) unfolding c' by (auto split: if_splits)
    have O: "xch k \<noteq> xch j" "xch j < xch k \<longrightarrow> xch k = T \<and> seen (views c j) (flag_of j) \<le> seen (views c k) (flag_of j)"
      "past_lock (threads c k) \<longrightarrow> xch k < xch j"
      using inv k(1-3) g unfolding peterson_ar_inv_def order_inv_def by blast+
    have "past_lock (threads c' k) \<Longrightarrow> xch k < xch j"
      using O(3) past [of j] k(2,3) g(2) unfolding c' by (cases "k = i") auto
    moreover have "seen (views c k) (flag_of j) \<le> seen (views c' k) (flag_of j)" using V(1) unfolding c' by simp
    moreover have "seen (views c' j) (flag_of j) = seen (views c j) (flag_of j)" using own unfolding c' by simp
    ultimately show "xch k \<noteq> xch j \<and>
      (xch j < xch k \<longrightarrow> xch k = T \<and> seen (views c' j) (flag_of j) \<le> seen (views c' k) (flag_of j)) \<and>
      (past_lock (threads c' k) \<longrightarrow> xch k < xch j)" using O by auto
  qed
  ultimately show ?thesis by (simp add: peterson_ar_inv_def)
qed

lemma peterson_local_ok:
  assumes inv: "peterson_ar_inv c xch T" and i: "i < 2" and V: "seen V' = seen (views c i)"
    and t': "announced_ar t' \<Longrightarrow> past_lock t' \<and> past_lock (threads c i)"
    and c': "messages c' = messages c" "views c' = (views c)(i := V')" "threads c' = (threads c)(i := t')"
  shows "\<exists>xch T. peterson_ar_inv c' xch T"
proof -
  have "seen V' (flag_of j) \<le> seen (views c j) (flag_of j)" if "j < 2" for j
    using inv i that unfolding V peterson_ar_inv_def flags_inv_def by blast
  moreover have "xch i < xch j" if "past_lock t'" "j < 2" "j \<noteq> i" "gave_ar (threads c j)" for j
  proof -
    have "past_lock (threads c i)" using t' that(1) by (simp add: announced_ar_def)
    then show ?thesis using inv i that unfolding peterson_ar_inv_def order_inv_def gave_ar_def by blast
  qed
  moreover have "announced_ar t' \<Longrightarrow> announced_ar (threads c i)" "gave_ar t' \<Longrightarrow> gave_ar (threads c i)"
    using t' gave_announced [of t'] by (auto simp: announced_ar_def gave_ar_def)
  ultimately show ?thesis using peterson_read_ok [OF inv i _ _ _ _ _ c'] V by (metis order_refl)
qed

text \<open>Writing the own flag.\<close>

lemma two_threads: "i < 2 \<Longrightarrow> j < 2 \<Longrightarrow> k < 2 \<Longrightarrow> j \<noteq> k \<Longrightarrow> (i::nat) = j \<or> i = k"
  by auto

lemma peterson_write_ok:
  assumes inv: "peterson_ar_inv c xch T" and i: "i < 2"
    and step: "performs i (Store ord (flag_of i) v r0) (messages c, views c i) r (m', V')"
    and t': "announced_ar t' \<Longrightarrow> v = 1" "\<not> gave_ar t'"
    and c': "messages c' = m'" "views c' = (views c)(i := V')" "threads c' = (threads c)(i := t')"
  shows "peterson_ar_inv c' xch T"
proof -
  from step obtain t W where t: "seen (views c i) (flag_of i) < t" and V': "V' = observes (flag_of i) t (tick i (views c i))"
    and W: "W = V' \<or> W = observes (flag_of i) t nothing"
    and m': "m' = (messages c)(flag_of i := (messages c (flag_of i))(t \<mapsto> (v, W)))"
    by (rule performs_storeE) (auto split: if_splits)
  have F: "messages c (flag_of k) s \<noteq> None \<Longrightarrow> s \<le> seen (views c k) (flag_of k)"
    "messages c x s = Some (u, U) \<Longrightarrow> seen U (flag_of k) \<le> seen (views c k) (flag_of k)"
    "j < 2 \<Longrightarrow> seen (views c j) (flag_of k) \<le> seen (views c k) (flag_of k)"
    "announced_ar (threads c k) \<Longrightarrow> \<exists>W. messages c (flag_of k) (seen (views c k) (flag_of k)) = Some (1, W)"
    if "k < 2" for k x s u U j
    using inv that unfolding peterson_ar_inv_def flags_inv_def by blast+
  have V'i: "seen V' (flag_of i) = t" "\<And>k. k < 2 \<Longrightarrow> k \<noteq> i \<Longrightarrow> seen V' (flag_of k) = seen (views c i) (flag_of k)"
    using i by (simp_all add: V' flag_of_neq)
  have Wi: "seen W (flag_of i) = t" "\<And>k. k < 2 \<Longrightarrow> k \<noteq> i \<Longrightarrow> seen W (flag_of k) \<le> seen (views c i) (flag_of k)"
    using W V'i i by (auto simp: flag_of_neq)
  have "flags_inv c'"
    unfolding flags_inv_def
  proof (intro allI impI)
    fix k :: nat
    assume k: "k < 2"
    show "(\<forall>s. messages c' (flag_of k) s \<noteq> None \<longrightarrow> s \<le> seen (views c' k) (flag_of k)) \<and>
      (\<forall>x s u U. messages c' x s = Some (u, U) \<longrightarrow> seen U (flag_of k) \<le> seen (views c' k) (flag_of k)) \<and>
      (\<forall>j<2. seen (views c' j) (flag_of k) \<le> seen (views c' k) (flag_of k)) \<and>
      (announced_ar (threads c' k) \<longrightarrow> (\<exists>W. messages c' (flag_of k) (seen (views c' k) (flag_of k)) = Some (1, W)))"
    proof (cases "k = i")
      case True
      have "s \<le> t" if "messages c (flag_of i) s \<noteq> None" for s using F(1) [OF i that] t by simp
      moreover have "seen U (flag_of i) \<le> t" if "messages c x s = Some (u, U)" for x s u U using F(2) [OF i that] t by simp
      moreover have "seen (views c j) (flag_of i) \<le> t" if "j < 2" for j using F(3) [OF i that] t by simp
      ultimately show ?thesis using V'i(1) Wi(1) t'(1) True unfolding c' m' by auto
    next
      case False
      have "seen W (flag_of k) \<le> seen (views c k) (flag_of k)" using Wi(2) [OF k False] F(3) [OF k i] by simp
      then show ?thesis
        using F [OF k] V'i(2) [OF k False] False i k unfolding c' m' by (auto simp: flag_of_neq)
    qed
  qed
  moreover have "turn_inv c' xch T"
    using inv t'(2) V' i unfolding peterson_ar_inv_def turn_inv_def c' m' by (simp add: flag_of_neq)
  moreover have "order_inv c' xch T"
    unfolding order_inv_def
  proof (intro allI impI)
    fix k j :: nat
    assume "k < 2" "j < 2" "k \<noteq> j" "gave_ar (threads c' k)" "gave_ar (threads c' j)"
    moreover from this have "i = k \<or> i = j" using i by (intro two_threads)
    ultimately have False using t'(2) unfolding c' by auto
    then show "xch k \<noteq> xch j \<and> (xch j < xch k \<longrightarrow> xch k = T \<and>
        seen (views c' j) (flag_of j) \<le> seen (views c' k) (flag_of j)) \<and>
      (past_lock (threads c' k) \<longrightarrow> xch k < xch j)" ..
  qed
  ultimately show ?thesis by (simp add: peterson_ar_inv_def)
qed

text \<open>The exchange of \<open>turn\<close>.\<close>

lemma peterson_exchange_ok:
  assumes inv: "peterson_ar_inv c xch T" and i: "i < 2" and pc: "announced_ar (threads c i)" 
    and step: "performs i (Update Acq_rel Turn (\<lambda>_. yields i) k0) (messages c, views c i) r (m', V')"
    and t': "\<not> past_lock t'"
    and c': "messages c' = m'" "views c' = (views c)(i := V')" "threads c' = (threads c)(i := t')"
  shows "peterson_ar_inv c' (xch(i := Suc T)) (Suc T)"
proof -
  have turn: "messages c Turn s \<noteq> None \<longleftrightarrow> s \<le> T" for s
    using inv unfolding peterson_ar_inv_def turn_inv_def by blast
  from step obtain s u W V1 where s: "messages c Turn s = Some (u, W)" "messages c Turn (Suc s) = None"
    and V1: "V1 = observes Turn (Suc s) (tick i (views c i))" and V': "V' = join V1 W"
    and m': "m' = (messages c)(Turn := (messages c Turn)(Suc s \<mapsto> (yields i, observes Turn (Suc s) (join W V'))))"
    by (rule performs_updateE) (auto simp: acquires_def releases_def)
  have "s \<le> T" "\<not> Suc s \<le> T" using turn [of s] turn [of "Suc s"] s by auto
  then have sT: "s = T" by simp
  let ?W' = "observes Turn (Suc s) (join W V')"
  have F: "messages c (flag_of k) s \<noteq> None \<Longrightarrow> s \<le> seen (views c k) (flag_of k)"
    "messages c x s = Some (u, U) \<Longrightarrow> seen U (flag_of k) \<le> seen (views c k) (flag_of k)"
    "j < 2 \<Longrightarrow> seen (views c j) (flag_of k) \<le> seen (views c k) (flag_of k)"
    "announced_ar (threads c k) \<Longrightarrow> \<exists>W. messages c (flag_of k) (seen (views c k) (flag_of k)) = Some (1, W)"
    if "k < 2" for k x s u U j
    using inv that unfolding peterson_ar_inv_def flags_inv_def by blast+
  have seen: "seen V' (flag_of k) = max (seen (views c i) (flag_of k)) (seen W (flag_of k))"
    "seen ?W' (flag_of k) = seen V' (flag_of k)" "seen V' Turn = max (Suc T) (seen W Turn)" for k
    by (simp_all add: V' V1 flag_of_neq sT)
  have le: "seen V' (flag_of k) \<le> seen (views c k) (flag_of k)" if "k < 2" for k
    using F(3) [OF that i] F(2) [OF that s(1)] seen(1) by simp
  have own: "seen V' (flag_of i) = seen (views c i) (flag_of i)" using le [OF i] seen(1) [of i] by simp
  have others: "messages c' (flag_of k) = messages c (flag_of k)" for k using i unfolding c' m' by (simp add: flag_of_neq)
  have "flags_inv c'"
    unfolding flags_inv_def
  proof (intro allI impI)
    fix k :: nat
    assume k: "k < 2"
    have same: "seen (views c' k) (flag_of k) = seen (views c k) (flag_of k)" using own unfolding c' by simp
    have "seen U (flag_of k) \<le> seen (views c k) (flag_of k)" if "messages c' x q = Some (u, U)" for x q u U
      using that F(2) [OF k] le [OF k] seen(2) [of k] unfolding c' m' by (auto split: if_splits)
    moreover have "seen (views c' j) (flag_of k) \<le> seen (views c k) (flag_of k)" if "j < 2" for j
      using F(3) [OF k that] le [OF k] unfolding c' by simp
    moreover have "announced_ar (threads c' k) \<longrightarrow> announced_ar (threads c k)" using pc unfolding c' by simp
    ultimately show "(\<forall>s. messages c' (flag_of k) s \<noteq> None \<longrightarrow> s \<le> seen (views c' k) (flag_of k)) \<and>
      (\<forall>x s u U. messages c' x s = Some (u, U) \<longrightarrow> seen U (flag_of k) \<le> seen (views c' k) (flag_of k)) \<and>
      (\<forall>j<2. seen (views c' j) (flag_of k) \<le> seen (views c' k) (flag_of k)) \<and>
      (announced_ar (threads c' k) \<longrightarrow> (\<exists>W. messages c' (flag_of k) (seen (views c' k) (flag_of k)) = Some (1, W)))"
      using F(1,4) [OF k] unfolding same others by blast
  qed
  moreover have G: "xch k \<le> T" "xch k \<le> seen (views c k) Turn" "\<exists>W. messages c Turn (xch k) = Some (yields k, W)"
    "xch k \<le> q \<Longrightarrow> messages c Turn q = Some (v, U) \<Longrightarrow> seen (views c k) (flag_of k) \<le> seen U (flag_of k)"
    if "k < 2" "gave_ar (threads c k)" for k q v U
    using inv that unfolding peterson_ar_inv_def turn_inv_def by blast+
  have pub: "seen (views c k) (flag_of k) \<le> seen ?W' (flag_of k)" if "k < 2" "gave_ar (threads c k) \<or> k = i" for k
  proof (cases "k = i")
    case True
    then show ?thesis using seen(2) [of i] own by simp
  next
    case False
    then show ?thesis using G(4) [OF that(1) _ G(1) [OF that(1), folded sT] s(1)] that(2) seen(1,2) [of k] by simp
  qed
  have turn': "messages c' Turn q = (if q = Suc T then Some (yields i, ?W') else messages c Turn q)" for q
    unfolding c' m' sT by simp
  have "turn_inv c' (xch(i := Suc T)) (Suc T)"
    unfolding turn_inv_def
  proof (intro conjI allI impI)
    show "(messages c' Turn q \<noteq> None) = (q \<le> Suc T)" for q using turn [of q] unfolding turn' by auto
    fix k :: nat
    assume k: "k < 2" "gave_ar (threads c' k)"
    then have g: "gave_ar (threads c k) \<or> k = i" unfolding c' by (auto split: if_splits)
    show "(xch(i := Suc T)) k \<le> Suc T" "(xch(i := Suc T)) k \<le> seen (views c' k) Turn"
      "\<exists>W. messages c' Turn ((xch(i := Suc T)) k) = Some (yields k, W)"
      using g G(1,2,3) [OF k(1)] seen(3) unfolding turn' c'(2) by (auto simp: le_Suc_eq)
    show "seen (views c' k) (flag_of k) \<le> seen U (flag_of k)"
      if "(xch(i := Suc T)) k \<le> q" "messages c' Turn q = Some (v, U)" for q v U
      using that g G(4) [OF k(1)] pub [OF k(1) g] turn [of q] own unfolding turn' c'(2) by (auto split: if_splits)
  qed
  moreover have "order_inv c' (xch(i := Suc T)) (Suc T)"
    unfolding order_inv_def
  proof (intro allI impI)
    fix k j :: nat
    assume k: "k < 2" "j < 2" "k \<noteq> j" "gave_ar (threads c' k)" "gave_ar (threads c' j)"
    then have "i = k \<or> i = j" using i by (intro two_threads)
    then show "(xch(i := Suc T)) k \<noteq> (xch(i := Suc T)) j \<and>
      ((xch(i := Suc T)) j < (xch(i := Suc T)) k \<longrightarrow> (xch(i := Suc T)) k = Suc T \<and>
        seen (views c' j) (flag_of j) \<le> seen (views c' k) (flag_of j)) \<and>
      (past_lock (threads c' k) \<longrightarrow> (xch(i := Suc T)) k < (xch(i := Suc T)) j)"
    proof
      assume ik: "i = k"
      then have "gave_ar (threads c j)" using k unfolding c' by simp
      then have "xch j \<le> T" "seen (views c j) (flag_of j) \<le> seen V' (flag_of j)"
        using G(1) [OF k(2)] pub [OF k(2)] seen(2) [of j] by simp_all
      then show ?thesis using ik k(3) t' unfolding c' by simp
    next
      assume ij: "i = j"
      then have "gave_ar (threads c k)" using k unfolding c' by simp
      then have "xch k \<le> T" using G(1) [OF k(1)] by simp
      then show ?thesis using ij k(3) unfolding c' by simp
    qed
  qed
  ultimately show ?thesis by (simp add: peterson_ar_inv_def)
qed

text \<open>What a load of the own loop condition tells when the other thread has exchanged \<open>turn\<close> as well.\<close>

lemma peterson_load_bound:
  assumes inv: "peterson_ar_inv c xch T" and i: "i < 2" and j: "j < 2"
    and step: "performs i (Load ord x k) (messages c, views c i) r (m', V')"
  shows "seen V' (flag_of j) \<le> seen (views c j) (flag_of j)" and "m' = messages c"
proof -
  show m': "m' = messages c" using step by (rule performs_loadE) simp
  have F: "\<forall>t. messages c (flag_of j) t \<noteq> None \<longrightarrow> t \<le> seen (views c j) (flag_of j)"
    "\<forall>x t v W. messages c x t = Some (v, W) \<longrightarrow> seen W (flag_of j) \<le> seen (views c j) (flag_of j)"
    "seen (views c i) (flag_of j) \<le> seen (views c j) (flag_of j)"
    using inv i j unfolding peterson_ar_inv_def flags_inv_def by blast+
  show "seen V' (flag_of j) \<le> seen (views c j) (flag_of j)"
    using performs_bound [OF step F(2,3)] F(1) m' by simp
qed

lemma peterson_first_waits:
  assumes inv: "peterson_ar_inv c xch T" and ij: "i < 2" "j < 2" "i \<noteq> j"
    and gave: "gave_ar (threads c i)" "gave_ar (threads c j)" and later: "xch j < xch i"
  shows "messages c (flag_of j) s = Some (v, W) \<Longrightarrow> seen (views c i) (flag_of j) \<le> s \<Longrightarrow> v = 1"
    and "messages c Turn s = Some (v, W) \<Longrightarrow> seen (views c i) Turn \<le> s \<Longrightarrow> v = yields i"
proof -
  have O: "xch i = T" "seen (views c j) (flag_of j) \<le> seen (views c i) (flag_of j)"
    using inv ij gave later unfolding peterson_ar_inv_def order_inv_def by blast+
  have F: "messages c (flag_of j) s \<noteq> None \<Longrightarrow> s \<le> seen (views c j) (flag_of j)"
    "\<exists>W. messages c (flag_of j) (seen (views c j) (flag_of j)) = Some (1, W)"
    using inv ij gave_announced [OF gave(2)] unfolding peterson_ar_inv_def flags_inv_def by blast+
  show "v = 1" if "messages c (flag_of j) s = Some (v, W)" "seen (views c i) (flag_of j) \<le> s"
  proof -
    have "s = seen (views c j) (flag_of j)" using that F(1) O(2) by simp
    with F(2) that(1) show ?thesis by auto
  qed
  have G: "messages c Turn s \<noteq> None \<longleftrightarrow> s \<le> T" "xch i \<le> seen (views c i) Turn"
    "\<exists>W. messages c Turn (xch i) = Some (yields i, W)"
    using inv ij gave unfolding peterson_ar_inv_def turn_inv_def by blast+
  show "v = yields i" if "messages c Turn s = Some (v, W)" "seen (views c i) Turn \<le> s"
  proof -
    have "s = xch i" using that G(1,2) O(1) by simp
    with G(3) that(1) show ?thesis by auto
  qed
qed

lemma peterson_load_ok:
  assumes inv: "peterson_ar_inv c xch T" and i: "i < 2" and gave: "gave_ar (threads c i)"
    and step: "performs i (Load ord x k) (messages c, views c i) r (m', V')"
    and t': "\<And>j. past_lock t' \<Longrightarrow> j < 2 \<Longrightarrow> j \<noteq> i \<Longrightarrow> x = Turn \<and> r \<noteq> k (yields i) \<or> x = flag_of j \<and> r \<noteq> k 1"
    and c': "messages c' = m'" "views c' = (views c)(i := V')" "threads c' = (threads c)(i := t')"
  shows "peterson_ar_inv c' xch T"
proof (rule peterson_read_ok [OF inv i _ _ _ _ _ _ c'(2,3)])
  show "seen (views c i) y \<le> seen V' y" for y by (rule performs_seen_mono [OF step])
  show "seen V' (flag_of j) \<le> seen (views c j) (flag_of j)" if "j < 2" for j by (rule peterson_load_bound [OF inv i that step])
  show "messages c' = messages c" using c'(1) peterson_load_bound(2) [OF inv i i step] by simp
  show "announced_ar (threads c i)" "gave_ar (threads c i)" using gave gave_announced by auto
  obtain s v W where s: "messages c x s = Some (v, W)" "seen (views c i) x \<le> s" "r = k v"
    using step by (rule performs_loadE) simp
  show "xch i < xch j" if "past_lock t'" "j < 2" "j \<noteq> i" "gave_ar (threads c j)" for j
  proof (rule ccontr)
    assume "\<not> xch i < xch j"
    moreover have "xch i \<noteq> xch j" using inv i that gave unfolding peterson_ar_inv_def order_inv_def by blast
    ultimately have "xch j < xch i" by simp
    note waits = peterson_first_waits [OF inv i that(2) that(3) [symmetric] gave that(4) this]
    from t' [OF that(1-3)] s waits show False by auto
  qed
qed

lemma peterson_ar_lock_flag:
  "i < 2 \<Longrightarrow> j < 2 \<Longrightarrow> j \<noteq> i \<Longrightarrow> (if i = 0 then Flag1 else Flag0) = flag_of j"
  by (auto simp: flag_of_def)

lemma peterson_ar_step:
  assumes inv: "peterson_ar_inv c xch T" and i: "i < 2" and step: "ra_step peterson_ar nr_iter i c c'"
  shows "\<exists>xch T. peterson_ar_inv c' xch T"
  using step
proof cases
  case ra_for_test
  have "\<not> announced_ar ((threads c i)\<lparr>pc := (if iter (threads c i) \<noteq> nr_iter i then InLock (ra_lock_entry peterson_ar) else Finished)\<rparr>)"
    by (simp add: announced_ar_def peterson_ar_def)
  then show ?thesis unfolding ra_for_test(1) by (intro peterson_local_ok [OF inv i refl]) simp_all
next
  case (ra_in_lock p v' r m' V')
  let ?t' = "(threads c i)\<lparr>tls := v', pc := after_lock r\<rparr>"
  have c': "messages c' = m'" "views c' = (views c)(i := V')" "threads c' = (threads c)(i := ?t')"
    using ra_in_lock(1) by simp_all
  have perf: "performs i (peterson_ar_lock i (tls (threads c i)) p) (messages c, views c i) (v', r) (m', V')"
    using ra_in_lock(3) by (simp add: peterson_ar_def)
  show ?thesis
  proof (cases p)
    case Ar_store_flag
    with perf have p: "performs i (Store Relaxed (flag_of i) 1 (tls (threads c i), Goto Ar_exchange_turn)) (messages c, views c i) (v', r) (m', V')"
      by (simp add: flag_of_def)
    then have "r = Goto Ar_exchange_turn" by (rule performs_storeE) simp
    then have "\<not> gave_ar ?t'" by (simp add: gave_ar_def)
    with peterson_write_ok [OF inv i p _ _ c'] show ?thesis by blast
  next
    case Ar_exchange_turn
    with perf have p: "performs i (Update Acq_rel Turn (\<lambda>_. yields i) (\<lambda>_. (tls (threads c i), Goto Ar_load_flag))) (messages c, views c i) (v', r) (m', V')"
      by (simp add: yields_def)
    then have "r = Goto Ar_load_flag" by (rule performs_updateE) simp
    then have "\<not> past_lock ?t'" by simp
    moreover have "announced_ar (threads c i)" using ra_in_lock(2) Ar_exchange_turn by (simp add: announced_ar_def)
    ultimately show ?thesis using peterson_exchange_ok [OF inv i _ p _ c'] by blast
  next
    case Ar_load_flag
    let ?j = "1 - i"
    have j: "?j < 2" "?j \<noteq> i" using i by (auto simp: less_2_cases_iff)
    have p: "performs i (Load Acquire (flag_of ?j) (\<lambda>x. (tls (threads c i), if x \<noteq> 0 then Goto Ar_load_turn else Return)))
      (messages c, views c i) (v', r) (m', V')"
      using perf Ar_load_flag peterson_ar_lock_flag [OF i j] by simp
    have other: "k = ?j" if "k < 2" "k \<noteq> i" for k using i that by auto
    show ?thesis
    proof (intro exI, rule peterson_load_ok [OF inv i _ p _ c'])
      show "gave_ar (threads c i)" using ra_in_lock(2) Ar_load_flag by (simp add: gave_ar_def)
      fix k :: nat
      assume "past_lock ?t'" "k < 2" "k \<noteq> i"
      then have "r \<noteq> Goto Ar_load_turn" by auto
      then show "flag_of ?j = Turn \<and> (v', r) \<noteq> (tls (threads c i), if yields i \<noteq> 0 then Goto Ar_load_turn else Return) \<or>
        flag_of ?j = flag_of k \<and> (v', r) \<noteq> (tls (threads c i), if (1::int) \<noteq> 0 then Goto Ar_load_turn else Return)"
        using other [OF \<open>k < 2\<close> \<open>k \<noteq> i\<close>] by simp
    qed
  next
    case Ar_load_turn
    have p: "performs i (Load Relaxed Turn (\<lambda>x. (tls (threads c i), if x = yields i then Goto Ar_load_flag else Return)))
      (messages c, views c i) (v', r) (m', V')"
      using perf Ar_load_turn by (simp add: yields_def)
    show ?thesis
    proof (intro exI, rule peterson_load_ok [OF inv i _ p _ c'])
      show "gave_ar (threads c i)" using ra_in_lock(2) Ar_load_turn by (simp add: gave_ar_def)
      fix k :: nat
      assume "past_lock ?t'" "k < 2" "k \<noteq> i"
      then have "r \<noteq> Goto Ar_load_flag" by auto
      then show "Turn = Turn \<and> (v', r) \<noteq> (tls (threads c i), if yields i = yields i then Goto Ar_load_flag else Return) \<or>
        Turn = flag_of k \<and> (v', r) \<noteq> (tls (threads c i), if 1 = yields i then Goto Ar_load_flag else Return)"
        by simp
    qed
  qed
next
  case (ra_useful_in V')
  then show ?thesis unfolding ra_useful_in(1)
    by (intro peterson_local_ok [OF inv i, where V' = V']) (simp_all add: announced_ar_def)
next
  case (ra_in_unlock q v' r m' V')
  let ?t' = "(threads c i)\<lparr>tls := v', pc := after_unlock r\<rparr>"
  have c': "messages c' = m'" "views c' = (views c)(i := V')" "threads c' = (threads c)(i := ?t')"
    using ra_in_unlock(1) by simp_all
  have p: "performs i (Store Release (flag_of i) 0 (tls (threads c i), Return)) (messages c, views c i) (v', r) (m', V')"
    using ra_in_unlock(3) by (simp add: peterson_ar_def flag_of_def)
  then have "r = Return" by (rule performs_storeE) simp
  then have "\<not> gave_ar ?t'" "\<not> announced_ar ?t'" by (simp_all add: gave_ar_def announced_ar_def)
  with peterson_write_ok [OF inv i p _ _ c'] show ?thesis by blast
next
  case ra_useful_out
  have "\<not> announced_ar ((threads c i)\<lparr>pc := ForTest, iter := k\<rparr>)" for k by (simp add: announced_ar_def)
  then show ?thesis unfolding ra_useful_out(1) by (intro peterson_local_ok [OF inv i refl]) simp_all
qed

lemma peterson_ar_start: "peterson_ar_inv (ra_init peterson_ar_vals v) (\<lambda>_. 0) 0"
  by (simp add: peterson_ar_inv_def flags_inv_def turn_inv_def order_inv_def ra_init_def announced_ar_def gave_ar_def)

lemma peterson_ar_idle: "ra_reach peterson_ar b c0 c \<Longrightarrow> nr_threads b \<le> i \<Longrightarrow> threads c i = threads c0 i"
proof (induction rule: ra_reach.induct)
  case (ra_next c k c')
  from ra_next.hyps(3) have "threads c' i = threads c i" if "i \<noteq> k" using that by cases simp_all
  with ra_next show ?case by auto
qed simp

text \<open>
  C13: the acquire/release variant of Peterson's lock keeps two threads apart under the memory model of the
  language, although the flags are stored and \<open>turn\<close> is loaded relaxed.
\<close>

theorem peterson_ar_exclusive:
  assumes "ra_reach peterson_ar b (ra_init peterson_ar_vals (\<lambda>_. ())) c" and "nr_threads b \<le> 2"
  shows "ra_exclusive c"
proof -
  have "\<exists>xch T. peterson_ar_inv c xch T"
    using assms(1)
  proof (rule ra_invariant)
    show "\<exists>xch T. peterson_ar_inv (ra_init peterson_ar_vals (\<lambda>_. ())) xch T" using peterson_ar_start by blast
    show "\<exists>xch T. peterson_ar_inv c' xch T"
      if "\<exists>xch T. peterson_ar_inv c xch T" "i < nr_threads b" "ra_step peterson_ar (iters b) i c c'" for c i c'
      using peterson_ar_step [OF _ _ that(3)] that(1,2) assms(2) by auto
  qed
  then obtain xch T where inv: "peterson_ar_inv c xch T" by blast
  have small: "i < 2" if "in_cs (threads c i)" for i
  proof (rule ccontr)
    assume "\<not> i < 2"
    then have "threads c i = threads (ra_init peterson_ar_vals (\<lambda>_. ()) :: peterson_cfg) i"
      by (intro peterson_ar_idle [OF assms(1)]) (use assms(2) in simp)
    with that show False by (simp add: ra_init_def in_cs_def)
  qed
  have "xch i < xch j" if "in_cs (threads c i)" "in_cs (threads c j)" "i \<noteq> j" for i j
    using inv small that unfolding peterson_ar_inv_def order_inv_def by (simp add: gave_ar_def in_cs_def)
  then show ?thesis unfolding ra_exclusive_def by (metis less_asym)
qed

section \<open>The filter lock\<close>

text \<open>Level \<open>0\<close> of \<open>victims\<close> is not used.\<close>

datatype filter_var = Level nat | Victim nat

datatype filter_ar_label =
    Ar_for_level nat | Ar_store_level nat | Ar_exchange_victim nat | Ar_higher_or_equal nat nat | Ar_load_victim nat

fun filter_ar_lock :: "nat \<Rightarrow> nat \<Rightarrow> unit \<Rightarrow> filter_ar_label \<Rightarrow> (filter_var, unit \<times> filter_ar_label outcome) access" where
  "filter_ar_lock n tid v (Ar_for_level level) =
     Local (v, if level < n then Goto (Ar_store_level level) else Return)"
| "filter_ar_lock n tid v (Ar_store_level level) =
     Store Release (Level tid) (int level) (v, Goto (Ar_exchange_victim level))"
| "filter_ar_lock n tid v (Ar_exchange_victim level) =
     Update Acq_rel (Victim level) (\<lambda>_. int tid) (\<lambda>_. (v, Goto (Ar_higher_or_equal level 0)))"
| "filter_ar_lock n tid v (Ar_higher_or_equal level k) =
     (if \<not> k < n then Local (v, Goto (Ar_for_level (level + 1)))
      else if k = tid then Local (v, Goto (Ar_higher_or_equal level (k + 1)))
      else Load Relaxed (Level k) (\<lambda>level_k. (v, Goto
        (if level_k \<ge> int level then Ar_load_victim level else Ar_higher_or_equal level (k + 1)))))"
| "filter_ar_lock n tid v (Ar_load_victim level) =
     Load Relaxed (Victim level) (\<lambda>victim. (v, Goto
       (if int tid = victim then Ar_higher_or_equal level 0 else Ar_for_level (level + 1))))"

fun filter_ar_unlock :: "nat \<Rightarrow> unit \<Rightarrow> unit \<Rightarrow> (filter_var, unit \<times> unit outcome) access" where
  "filter_ar_unlock tid v _ = Store Release (Level tid) 0 (v, Return)"

definition filter_ar :: "nat \<Rightarrow> (filter_var, unit, filter_ar_label, unit) ra_code" where
  "filter_ar n =
     \<lparr>ra_lock_entry = Ar_for_level 1, ra_lock = filter_ar_lock n, ra_unlock_entry = (), ra_unlock = filter_ar_unlock\<rparr>"

text \<open>\<open>reset_filter_lock\<close> of every thread\<close>

definition filter_ar_vals :: "filter_var \<Rightarrow> int" where
  "filter_ar_vals _ = 0"

definition filter_race :: "(nat \<times> nat) list" where
  "filter_race =
     [(0, 0), (0, 0), (0, 1), (0, 0), (0, 0), (0, 0), (0, 0), (0, 0),
      (1, 0), (1, 0), (1, 1), (1, 1),
      (0, 0), (0, 2),
      (1, 2), (1, 0), (1, 0), (1, 0)]"

lemma filter_race_run:
  "map_option (\<lambda>c. (pc (threads c 0), pc (threads c 1), left c 0, clock (views c 1) 0))
    (ra_exec (filter_ar 2) \<lparr>nr_threads = 2, iters = \<lambda>_. 1\<rparr> filter_race (ra_init filter_ar_vals (\<lambda>_. ()))) =
   Some (UsefulOut, UsefulIn, 8, 3)"
  by code_simp

section \<open>Unordered critical sections\<close>

lemma peterson_race_run:
  "map_option (\<lambda>c. (pc (threads c 0), pc (threads c 1), left c 0, clock (views c 1) 0))
    (ra_exec peterson_ar \<lparr>nr_threads = 2, iters = \<lambda>_. 2\<rparr> peterson_race (ra_init peterson_ar_vals (\<lambda>_. ()))) =
   Some (InLock Ar_load_flag, UsefulIn, 4, 2)"
  by code_simp

theorem peterson_ar_exclusive_witness:
  "\<exists>c :: peterson_cfg. in_cs (threads c 1) \<and> 0 < left c 0 \<and> ra_exclusive c"
proof -
  obtain c where c: "ra_reach peterson_ar \<lparr>nr_threads = 2, iters = \<lambda>_. 2\<rparr> (ra_init peterson_ar_vals (\<lambda>_. ())) c"
      "in_cs (threads c 1)" "0 < left c 0"
    using ra_exec_run [OF peterson_race_run] by (auto simp: in_cs_def)
  have "ra_exclusive c" by (rule peterson_ar_exclusive [OF c(1)]) simp
  with c show ?thesis by blast
qed

text \<open>
  C16: in the acquire/release variants of Peterson's lock and of the filter lock the critical sections of two
  threads need not be ordered: there is a run of each in which a thread is in its critical section and
  the last critical section of the other one did not happen before, because the loop was left by a relaxed
  load. The data that the lock protects are subject to a data race.
\<close>

theorem relaxed_exit_unordered:
  "(\<exists>c. ra_reach peterson_ar \<lparr>nr_threads = 2, iters = \<lambda>_. 2\<rparr> (ra_init peterson_ar_vals (\<lambda>_. ())) c \<and>
      \<not> ra_ordered c) \<and>
   (\<exists>c. ra_reach (filter_ar 2) \<lparr>nr_threads = 2, iters = \<lambda>_. 1\<rparr> (ra_init filter_ar_vals (\<lambda>_. ())) c \<and>
      \<not> ra_ordered c)"
proof
  obtain c where c: "ra_reach peterson_ar \<lparr>nr_threads = 2, iters = \<lambda>_. 2\<rparr> (ra_init peterson_ar_vals (\<lambda>_. ())) c"
      "in_cs (threads c 1)" "\<not> left c 0 \<le> clock (views c 1) 0"
    using ra_exec_run [OF peterson_race_run] by (auto simp: in_cs_def)
  then show "\<exists>c. ra_reach peterson_ar \<lparr>nr_threads = 2, iters = \<lambda>_. 2\<rparr> (ra_init peterson_ar_vals (\<lambda>_. ())) c \<and>
      \<not> ra_ordered c"
    unfolding ra_ordered_def by blast
  obtain d where d: "ra_reach (filter_ar 2) \<lparr>nr_threads = 2, iters = \<lambda>_. 1\<rparr> (ra_init filter_ar_vals (\<lambda>_. ())) d"
      "in_cs (threads d 1)" "\<not> left d 0 \<le> clock (views d 1) 0"
    using ra_exec_run [OF filter_race_run] by (auto simp: in_cs_def)
  then show "\<exists>c. ra_reach (filter_ar 2) \<lparr>nr_threads = 2, iters = \<lambda>_. 1\<rparr> (ra_init filter_ar_vals (\<lambda>_. ())) c \<and>
      \<not> ra_ordered c"
    unfolding ra_ordered_def by blast
qed

end
