(* ===== verification/Array_Lock.thy ===== *)
theory Array_Lock
  imports Lock_Executions
begin

text \<open>
  The array lock (\<open>benchmark/blocking/ArrayLock/arraylock_sc.cpp\<close>): \<open>lock()\<close> draws a ticket from
  \<open>tail\<close>, which fixes a slot of \<open>flags\<close>, and spins on that slot; \<open>unlock()\<close> clears its own slot and
  sets the next one. \<open>flags\<close> is an array of \<open>MAX_NR_THREADS\<close> entries.
\<close>

section \<open>The code\<close>

record array_env =
  flags :: "bool list"
  tail :: "64 word"

datatype array_lock_label = FetchAddTail | LoadFlagSlot
datatype array_unlock_label = StoreOwnFalse | StoreNextTrue

text \<open>
  An access \<open>flags[k]\<close> with \<open>k\<close> a C \<open>int\<close>: a negative or too large \<open>k\<close> is undefined behaviour.
\<close>

definition flags_load :: "array_env \<Rightarrow> int \<Rightarrow> bool option" where
  "flags_load env k = (if k < 0 then None else array_load (flags env) (nat k))"

definition flags_store :: "array_env \<Rightarrow> int \<Rightarrow> bool \<Rightarrow> array_env option" where
  "flags_store env k v =
     (if k < 0 then None
      else map_option (\<lambda>fs. env\<lparr>flags := fs\<rparr>) (array_store (flags env) (nat k) v))"

text \<open>
  The thread-local \<open>thread_lock_slot\<close> is the survivor of \<open>lock()\<close> that \<open>unlock()\<close> reads. \<open>tail++\<close>
  on an atomic \<open>long long\<close> wraps, \<open>%\<close> is the remainder of truncating division.
\<close>

fun array_lock_instr ::
  "nat \<Rightarrow> nat \<Rightarrow> array_env \<Rightarrow> int \<Rightarrow> array_lock_label
    \<Rightarrow> array_env \<times> int \<times> array_lock_label outcome" where
  "array_lock_instr n tid env thread_lock_slot FetchAddTail =
     (let (tail', old) = atomic_fetch_add (tail env) 1
      in (env\<lparr>tail := tail'\<rparr>, sint old smod int n, Goto LoadFlagSlot))"
| "array_lock_instr n tid env thread_lock_slot LoadFlagSlot =
     (case flags_load env thread_lock_slot of
        None \<Rightarrow> (env, thread_lock_slot, Crash)
      | Some b \<Rightarrow> (env, thread_lock_slot, if \<not> b then Goto LoadFlagSlot else Return))"

fun array_unlock_instr ::
  "nat \<Rightarrow> nat \<Rightarrow> array_env \<Rightarrow> int \<Rightarrow> array_unlock_label
    \<Rightarrow> array_env \<times> int \<times> array_unlock_label outcome" where
  "array_unlock_instr n tid env thread_lock_slot StoreOwnFalse =
     (case flags_store env thread_lock_slot False of
        None \<Rightarrow> (env, thread_lock_slot, Crash)
      | Some env' \<Rightarrow> (env', thread_lock_slot, Goto StoreNextTrue))"
| "array_unlock_instr n tid env thread_lock_slot StoreNextTrue =
     (case flags_store env ((thread_lock_slot + 1) smod int n) True of
        None \<Rightarrow> (env, thread_lock_slot, Crash)
      | Some env' \<Rightarrow> (env', thread_lock_slot, Return))"

text \<open>The code of a benchmark with \<open>nr_threads\<close> threads.\<close>

definition arraylock_sync ::
  "nat \<Rightarrow> (array_env, int, array_lock_label, array_unlock_label) lock_code" where
  "arraylock_sync n =
     \<lparr>lock_entry = FetchAddTail, lock_instr = array_lock_instr n,
      unlock_entry = StoreOwnFalse, unlock_instr = array_unlock_instr n\<rparr>"

text \<open>
  \<open>init_arraylock(nr_threads)\<close>: \<open>for (int i = 0; i < nr_threads; ++i) flags[i].b.store(false)\<close>, then
  the slot \<open>tail\<close> is set. \<open>None\<close>: it wrote outside \<open>flags\<close>.
\<close>

fun clear_flags :: "nat \<Rightarrow> nat \<Rightarrow> array_env \<Rightarrow> array_env option" where
  "clear_flags i 0 env = Some env"
| "clear_flags i (Suc k) env =
     (case flags_store env (int i) False of None \<Rightarrow> None | Some env' \<Rightarrow> clear_flags (Suc i) k env')"

definition init_arraylock :: "nat \<Rightarrow> array_env \<Rightarrow> array_env option" where
  "init_arraylock n env =
     (case clear_flags 0 n (env\<lparr>tail := 0\<rparr>) of
        None \<Rightarrow> None
      | Some env' \<Rightarrow> flags_store env' (sint (tail env')) True)"

text \<open>The static storage before \<open>main\<close> runs.\<close>

definition array_static :: array_env where
  "array_static = \<lparr>flags = replicate MAX_NR_THREADS False, tail = 0\<rparr>"

definition array_mem0 :: "nat \<Rightarrow> array_env" where
  "array_mem0 n = (case init_arraylock n array_static of Some env \<Rightarrow> env | None \<Rightarrow> array_static)"

section \<open>Initialisation\<close>

lemma flags_store_in:
  "0 \<le> k \<Longrightarrow> nat k < length (flags env) \<Longrightarrow>
   flags_store env k v = Some (env\<lparr>flags := (flags env)[nat k := v]\<rparr>)"
  by (simp add: flags_store_def array_simps)

lemma flags_load_in:
  "0 \<le> k \<Longrightarrow> nat k < length (flags env) \<Longrightarrow> flags_load env k = Some (flags env ! nat k)"
  by (simp add: flags_load_def array_simps)

lemma clear_flags_result:
  "i + k \<le> length (flags env) \<Longrightarrow>
   clear_flags i k env =
     Some (env\<lparr>flags := take i (flags env) @ replicate k False @ drop (i + k) (flags env)\<rparr>)"
proof (induction i k env rule: clear_flags.induct)
  case (1 i env)
  then show ?case by simp
next
  case (2 i k env)
  then have i: "i < length (flags env)" by simp
  then have st: "flags_store env (int i) False = Some (env\<lparr>flags := (flags env)[i := False]\<rparr>)"
    by (simp add: flags_store_in)
  have "clear_flags (Suc i) k (env\<lparr>flags := (flags env)[i := False]\<rparr>) =
      Some (env\<lparr>flags := take (Suc i) ((flags env)[i := False]) @ replicate k False @
        drop (Suc i + k) ((flags env)[i := False])\<rparr>)"
    using 2 st by simp
  moreover have "take (Suc i) ((flags env)[i := False]) = take i (flags env) @ [False]"
    using i by (simp add: take_Suc_conv_app_nth)
  ultimately show ?case using st by simp
qed

lemma clear_flags_overflow:
  "i \<le> length (flags env) \<Longrightarrow> length (flags env) < i + k \<Longrightarrow> clear_flags i k env = None"
proof (induction i k env rule: clear_flags.induct)
  case (2 i k env)
  show ?case
  proof (cases "i < length (flags env)")
    case True
    with 2 show ?thesis by (simp add: flags_store_in)
  next
    case False
    then show ?thesis by (simp add: flags_store_def array_store_def)
  qed
qed simp

lemma init_arraylock_ok:
  assumes "0 < n" and "n \<le> length (flags env)"
  shows "init_arraylock n env =
    Some \<lparr>flags = True # replicate (n - 1) False @ drop n (flags env), tail = 0\<rparr>"
proof -
  have "clear_flags 0 n (env\<lparr>tail := 0\<rparr>) =
      Some (env\<lparr>tail := 0, flags := replicate n False @ drop n (flags env)\<rparr>)"
    using assms by (simp add: clear_flags_result)
  then show ?thesis
    using assms by (cases n; cases env) (simp_all add: init_arraylock_def flags_store_in)
qed

lemma array_mem0_eq:
  assumes "0 < n" and "n \<le> MAX_NR_THREADS"
  shows "array_mem0 n = \<lparr>flags = True # replicate (MAX_NR_THREADS - 1) False, tail = 0\<rparr>"
proof -
  have "MAX_NR_THREADS - 1 = (n - 1) + (MAX_NR_THREADS - n)" using assms by simp
  then have "replicate (n - 1) False @ replicate (MAX_NR_THREADS - n) False =
      replicate (MAX_NR_THREADS - 1) False"
    by (simp add: replicate_add)
  then show ?thesis
    using assms by (simp add: array_mem0_def array_static_def init_arraylock_ok)
qed

section \<open>The line of ticket holders\<close>

type_synonym array_thread = "(int, array_lock_label, array_unlock_label) sync_thread"

definition has_ticket :: "array_thread \<Rightarrow> bool" where
  "has_ticket t \<longleftrightarrow> past_lock t \<or> pc t = InLock LoadFlagSlot"

lemma has_ticket_pc [simp]:
  "pc t = ForTest \<Longrightarrow> \<not> has_ticket t"
  "pc t = InLock p \<Longrightarrow> has_ticket t \<longleftrightarrow> p = LoadFlagSlot"
  "pc t = UsefulIn \<Longrightarrow> has_ticket t"
  "pc t = InUnlock q \<Longrightarrow> has_ticket t"
  "pc t = UsefulOut \<Longrightarrow> \<not> has_ticket t"
  "pc t = Finished \<Longrightarrow> \<not> has_ticket t"
  by (simp_all add: has_ticket_def)

text \<open>Tickets the thread has drawn.\<close>

definition tickets :: "array_thread \<Rightarrow> nat" where
  "tickets t = nat (iter t) + (if has_ticket t \<or> pc t = UsefulOut then 1 else 0)"

text \<open>
  The threads in line are \<open>Q\<close>, in the order of their tickets \<open>h, h + 1, ...\<close>. The slot of a
  ticket is its remainder; the only flag set is the one of \<open>h\<close>, unless its holder is between
  the two stores of \<open>unlock()\<close>. Everybody but the first in line spins.
\<close>

definition mid_release :: "(nat \<Rightarrow> array_thread) \<Rightarrow> nat list \<Rightarrow> bool" where
  "mid_release ls Q \<longleftrightarrow> Q \<noteq> [] \<and> pc (ls (hd Q)) = InUnlock StoreNextTrue"

definition array_line :: "nat \<Rightarrow> (array_env, array_thread) cfg \<Rightarrow> nat \<Rightarrow> nat list \<Rightarrow> bool" where
  "array_line n c h Q \<longleftrightarrow>
     distinct Q \<and> set Q = {i. has_ticket (snd c i)} \<and> set Q \<subseteq> {..<n} \<and>
     (\<forall>k<length Q. tls (snd c (Q ! k)) = int ((h + k) mod n)) \<and>
     tail (fst c) = of_nat (h + length Q) \<and>
     h + length Q = (\<Sum>i<n. tickets (snd c i)) \<and>
     length (flags (fst c)) = MAX_NR_THREADS \<and>
     (\<forall>j<n. flags (fst c) ! j \<longleftrightarrow> j = h mod n \<and> \<not> mid_release (snd c) Q) \<and>
     (\<forall>k<length Q. 0 < k \<longrightarrow> pc (snd c (Q ! k)) = InLock LoadFlagSlot) \<and>
     (\<forall>i. pc (snd c i) \<noteq> Crashed)"

definition valid_array :: "bench \<Rightarrow> bool" where
  "valid_array b \<longleftrightarrow> valid_bench b \<and> nr_threads b \<le> MAX_NR_THREADS \<and>
     (\<Sum>i<nr_threads b. iters b i) < 2 ^ 63"

text \<open>
  The memory after \<open>init_arraylock(nr_threads)\<close>, which thread 0 calls before every execution; what the
  executions before left in \<open>tail\<close> and in the slots of the threads is overwritten.
\<close>

definition array_prepared :: "nat \<Rightarrow> array_env \<Rightarrow> array_env" where
  "array_prepared n env = (case init_arraylock n env of Some env' \<Rightarrow> env' | None \<Rightarrow> env)"

definition valid_array_on :: "array_env \<Rightarrow> bench \<Rightarrow> bool" where
  "valid_array_on env b \<longleftrightarrow> valid_array b \<and> length (flags env) = MAX_NR_THREADS"

lemma valid_array_static: "valid_array_on array_static b \<longleftrightarrow> valid_array b"
  by (simp add: valid_array_on_def array_static_def)

lemma array_line_init:
  assumes "valid_array_on e b"
  shows "array_line (nr_threads b) (sync_init (array_prepared (nr_threads b) e) v) 0 []"
proof -
  have n: "0 < nr_threads b" "nr_threads b \<le> length (flags e)" and len: "length (flags e) = MAX_NR_THREADS"
    using assms by (auto simp: valid_array_on_def valid_array_def valid_bench_def)
  have "(True # replicate (nr_threads b - 1) False @ drop (nr_threads b) (flags e)) ! j \<longleftrightarrow> j = 0"
    if "j < nr_threads b" for j
    using that n by (cases j) (auto simp: nth_append)
  then show ?thesis
    using n len by (auto simp: array_line_def mid_release_def tickets_def array_prepared_def init_arraylock_ok)
qed

text \<open>The line is never longer than the number of threads.\<close>

lemma array_line_length:
  assumes "array_line n c h Q"
  shows "length Q \<le> n"
proof -
  from assms have "distinct Q" "set Q \<subseteq> {..<n}" unfolding array_line_def by blast+
  then show ?thesis using card_mono [of "{..<n}" "set Q"] by (simp add: distinct_card)
qed

text \<open>Two tickets in line have different slots.\<close>

lemma slot_inj:
  assumes "(h + k) mod n = h mod n" and "k < (n::nat)"
  shows "k = 0"
proof -
  from assms(1) have "n dvd k" using mod_eq_dvd_iff_nat [of h "h + k" n] by simp
  with assms(2) show ?thesis by (auto dest: nat_dvd_not_less)
qed

lemma array_line_parts:
  assumes "array_line n (s, ls) h Q"
  shows "distinct Q" and "set Q = {i. has_ticket (ls i)}" and "set Q \<subseteq> {..<n}"
    and "k < length Q \<Longrightarrow> tls (ls (Q ! k)) = int ((h + k) mod n)"
    and "tail s = of_nat (h + length Q)"
    and "h + length Q = (\<Sum>i<n. tickets (ls i))"
    and "length (flags s) = MAX_NR_THREADS"
    and "j < n \<Longrightarrow> flags s ! j \<longleftrightarrow> j = h mod n \<and> \<not> mid_release ls Q"
    and "k < length Q \<Longrightarrow> 0 < k \<Longrightarrow> pc (ls (Q ! k)) = InLock LoadFlagSlot"
    and "pc (ls i) \<noteq> Crashed"
proof -
  note parts = assms [unfolded array_line_def fst_conv snd_conv]
  show "distinct Q" "set Q = {i. has_ticket (ls i)}" "set Q \<subseteq> {..<n}"
    "tail s = of_nat (h + length Q)" "h + length Q = (\<Sum>i<n. tickets (ls i))"
    "length (flags s) = MAX_NR_THREADS" "pc (ls i) \<noteq> Crashed"
    using parts by blast+
  show "k < length Q \<Longrightarrow> tls (ls (Q ! k)) = int ((h + k) mod n)"
    "j < n \<Longrightarrow> flags s ! j \<longleftrightarrow> j = h mod n \<and> \<not> mid_release ls Q"
    "k < length Q \<Longrightarrow> 0 < k \<Longrightarrow> pc (ls (Q ! k)) = InLock LoadFlagSlot"
    using parts by blast+
qed

lemma array_line_first:
  assumes line: "array_line n (s, ls) h Q" and past: "past_lock (ls i)"
  obtains Q' where "Q = i # Q'"
proof -
  have "i \<in> set Q" using array_line_parts(2) [OF line] past by (simp add: has_ticket_def)
  then obtain k where k: "k < length Q" "Q ! k = i" by (auto simp: in_set_conv_nth)
  have "k = 0"
  proof (rule ccontr)
    assume "k \<noteq> 0"
    with k array_line_parts(9) [OF line, of k] have "pc (ls i) = InLock LoadFlagSlot" by simp
    with past show False by simp
  qed
  with k that show thesis by (cases Q) auto
qed

text \<open>Steps that change neither the line, nor a slot, nor the number of tickets drawn.\<close>

lemma array_line_keep:
  assumes line: "array_line n (s, ls) h Q" and "i < n"
    and same: "has_ticket t' = has_ticket (ls i)" "tickets t' = tickets (ls i)"
      "tls t' = tls (ls i)" "pc t' \<noteq> Crashed"
    and first: "pc (ls i) = InLock LoadFlagSlot \<longrightarrow> pc t' = InLock LoadFlagSlot \<or> Q ! 0 = i"
    and mid: "pc t' \<noteq> InUnlock StoreNextTrue" "pc (ls i) \<noteq> InUnlock StoreNextTrue"
  shows "array_line n (s, ls(i := t')) h Q"
proof -
  have "(\<Sum>j<n. tickets ((ls(i := t')) j)) = (\<Sum>j<n. tickets (ls j))"
    using sum_fun_upd_add [where g = "\<lambda>_. tickets", OF \<open>i < n\<close>, of ls t'] same by simp
  moreover have "mid_release (ls(i := t')) Q = mid_release ls Q"
    using mid by (auto simp: mid_release_def)
  moreover have "pc ((ls(i := t')) (Q ! k)) = InLock LoadFlagSlot"
    if "k < length Q" "0 < k" for k
  proof (cases "Q ! k = i")
    case True
    moreover have "Q ! 0 \<noteq> Q ! k"
      using array_line_parts(1) [OF line] that nth_eq_iff_index_eq [of Q 0 k] by fastforce
    moreover have "pc (ls (Q ! k)) = InLock LoadFlagSlot"
      using array_line_parts(9) [OF line] that by blast
    ultimately show ?thesis using first by auto
  next
    case False
    then show ?thesis using line that by (simp add: array_line_def)
  qed
  moreover have "tls ((ls(i := t')) j) = tls (ls j)"
    "has_ticket ((ls(i := t')) j) = has_ticket (ls j)" "pc ((ls(i := t')) j) \<noteq> Crashed" for j
    using same array_line_parts(10) [OF line] by auto
  ultimately show ?thesis
    unfolding array_line_def fst_conv snd_conv by (simp only: array_line_parts [OF line])
      (use array_line_parts(2-4,6,8) [OF line] in auto)
qed

text \<open>Drawing a ticket joins the line at its end.\<close>

lemma array_line_arrive:
  assumes line: "array_line n (s, ls) h Q" and n: "i < n"
    and pc: "pc (ls i) = InLock FetchAddTail" and it: "0 \<le> iter (ls i)"
    and bound: "h + length Q < 2 ^ 63"
  shows "array_line n (s\<lparr>tail := tail s + 1\<rparr>,
      ls(i := (ls i)\<lparr>tls := sint (tail s) smod int n, pc := InLock LoadFlagSlot\<rparr>)) h (Q @ [i])"
    (is "array_line n (?s, ls(i := ?t)) h _")
proof -
  note p = array_line_parts [OF line]
  have notin: "i \<notin> set Q" using p(2) pc by simp
  have "sint (tail s) = int (h + length Q)"
    using bound unfolding p(5) by (rule sint_of_nat_small)
  then have slot: "sint (tail s) smod int n = int ((h + length Q) mod n)"
    by (simp only: smod_of_nat)
  have other: "ls (Q ! k) = (ls(i := ?t)) (Q ! k)" if "k < length Q" for k
    using that notin nth_mem by fastforce
  have "tickets ?t = Suc (tickets (ls i))" using pc by (simp add: tickets_def)
  then have sum: "(\<Sum>j<n. tickets ((ls(i := ?t)) j)) = Suc (\<Sum>j<n. tickets (ls j))"
    using sum_fun_upd_add [where g = "\<lambda>_. tickets", OF n, of ls ?t] by simp
  have mid: "mid_release (ls(i := ?t)) (Q @ [i]) = mid_release ls Q"
    using notin by (cases Q) (auto simp: mid_release_def)
  show ?thesis
    unfolding array_line_def fst_conv snd_conv
  proof (intro conjI allI impI)
    show "distinct (Q @ [i])" using p(1) notin by simp
    show "set (Q @ [i]) = {j. has_ticket ((ls(i := ?t)) j)}" using p(2) by auto
    show "set (Q @ [i]) \<subseteq> {..<n}" using p(3) n by simp
    show "tail ?s = of_nat (h + length (Q @ [i]))" using p(5) by simp
    show "h + length (Q @ [i]) = (\<Sum>j<n. tickets ((ls(i := ?t)) j))" using sum p(6) by simp
    show "length (flags ?s) = MAX_NR_THREADS" using p(7) by simp
  next
    fix k assume "k < length (Q @ [i])"
    then show "tls ((ls(i := ?t)) ((Q @ [i]) ! k)) = int ((h + k) mod n)"
      using p(4) [of k] slot other [of k] by (cases "k = length Q") (auto simp: nth_append)
  next
    fix j assume "j < n"
    then show "flags ?s ! j \<longleftrightarrow> j = h mod n \<and> \<not> mid_release (ls(i := ?t)) (Q @ [i])"
      using p(8) [of j] mid by simp
  next
    fix k assume "k < length (Q @ [i])" "0 < k"
    then show "pc ((ls(i := ?t)) ((Q @ [i]) ! k)) = InLock LoadFlagSlot"
      using p(9) [of k] other [of k] by (cases "k = length Q") (auto simp: nth_append)
  next
    fix j show "pc ((ls(i := ?t)) j) \<noteq> Crashed" using p(10) [of j] by simp
  qed
qed

text \<open>The two stores of \<open>unlock()\<close>, by the first in line.\<close>

lemma array_line_release:
  assumes line: "array_line n (s, ls) h (i # Q)" and n: "0 < n" "n \<le> MAX_NR_THREADS"
    and pc: "pc (ls i) = InUnlock StoreOwnFalse"
  shows "flags_store s (tls (ls i)) False = Some (s\<lparr>flags := (flags s)[h mod n := False]\<rparr>)"
    and "array_line n (s\<lparr>flags := (flags s)[h mod n := False]\<rparr>,
      ls(i := (ls i)\<lparr>pc := InUnlock StoreNextTrue\<rparr>)) h (i # Q)"
    (is "array_line n (?s, ls(i := ?t)) h _")
proof -
  note p = array_line_parts [OF line]
  have slot: "tls (ls i) = int (h mod n)" using p(4) [of 0] by simp
  have len: "h mod n < length (flags s)"
    using n p(7) mod_less_divisor [of n h] by linarith
  show "flags_store s (tls (ls i)) False = Some (s\<lparr>flags := (flags s)[h mod n := False]\<rparr>)"
    using len by (simp add: slot flags_store_in)
  have i: "i < n" using p(3) by simp
  have "tickets ?t = tickets (ls i)" using pc by (simp add: tickets_def)
  then have sum: "(\<Sum>j<n. tickets ((ls(i := ?t)) j)) = (\<Sum>j<n. tickets (ls j))"
    using sum_fun_upd_add [where g = "\<lambda>_. tickets", OF i, of ls ?t] by simp
  show "array_line n (?s, ls(i := ?t)) h (i # Q)"
    unfolding array_line_def fst_conv snd_conv
  proof (intro conjI allI impI)
    show "set (i # Q) = {j. has_ticket ((ls(i := ?t)) j)}" using p(2) pc by auto
    show "h + length (i # Q) = (\<Sum>j<n. tickets ((ls(i := ?t)) j))" using sum p(6) by simp
    show "tail ?s = of_nat (h + length (i # Q))" using p(5) by simp
    show "length (flags ?s) = MAX_NR_THREADS" using p(7) by simp
  next
    fix k assume "k < length (i # Q)"
    then show "tls ((ls(i := ?t)) ((i # Q) ! k)) = int ((h + k) mod n)"
      using p(4) [of k] by (cases "(i # Q) ! k = i") auto
  next
    fix j assume "j < n"
    then show "flags ?s ! j \<longleftrightarrow> j = h mod n \<and> \<not> mid_release (ls(i := ?t)) (i # Q)"
      using p(8) [of j] len by (cases "j = h mod n") (simp_all add: mid_release_def)
  next
    fix k assume "k < length (i # Q)" "0 < k"
    then show "pc ((ls(i := ?t)) ((i # Q) ! k)) = InLock LoadFlagSlot"
      using p(1) p(9) [of k] nth_mem [of "k - 1" Q] by (cases k) auto
  next
    fix j show "pc ((ls(i := ?t)) j) \<noteq> Crashed" using p(10) [of j] by simp
  qed (use p in auto)
qed

lemma array_line_leave:
  assumes line: "array_line n (s, ls) h (i # Q)" and n: "0 < n" "n \<le> MAX_NR_THREADS"
    and pc: "pc (ls i) = InUnlock StoreNextTrue"
  shows "flags_store s ((tls (ls i) + 1) smod int n) True =
      Some (s\<lparr>flags := (flags s)[Suc h mod n := True]\<rparr>)"
    and "array_line n (s\<lparr>flags := (flags s)[Suc h mod n := True]\<rparr>,
      ls(i := (ls i)\<lparr>pc := UsefulOut\<rparr>)) (Suc h) Q"
    (is "array_line n (?s, ls(i := ?t)) _ _")
proof -
  note p = array_line_parts [OF line]
  have "tls (ls i) + 1 = int (Suc (h mod n))" using p(4) [of 0] by simp
  then have slot: "(tls (ls i) + 1) smod int n = int (Suc h mod n)"
    by (simp only: smod_of_nat mod_Suc_eq)
  have len: "Suc h mod n < length (flags s)"
    using n p(7) mod_less_divisor [of n "Suc h"] by linarith
  show "flags_store s ((tls (ls i) + 1) smod int n) True =
      Some (s\<lparr>flags := (flags s)[Suc h mod n := True]\<rparr>)"
    using len by (simp add: slot flags_store_in)
  have i: "i < n" and iQ: "i \<notin> set Q" using p(1,3) by simp_all
  have "tickets ?t = tickets (ls i)" using pc by (simp add: tickets_def)
  then have sum: "(\<Sum>j<n. tickets ((ls(i := ?t)) j)) = (\<Sum>j<n. tickets (ls j))"
    using sum_fun_upd_add [where g = "\<lambda>_. tickets", OF i, of ls ?t] by simp
  have wait: "pc (ls (Q ! k)) = InLock LoadFlagSlot" if "k < length Q" for k
    using p(9) [of "Suc k"] that by simp
  have other: "(ls(i := ?t)) (Q ! k) = ls (Q ! k)" if "k < length Q" for k
    using that iQ nth_mem by fastforce
  have mid: "\<not> mid_release (ls(i := ?t)) Q"
    using wait [of 0] other [of 0] by (cases Q) (auto simp: mid_release_def)
  show "array_line n (?s, ls(i := ?t)) (Suc h) Q"
    unfolding array_line_def fst_conv snd_conv
  proof (intro conjI allI impI)
    show "set Q = {j. has_ticket ((ls(i := ?t)) j)}" using p(2) iQ by auto
    show "Suc h + length Q = (\<Sum>j<n. tickets ((ls(i := ?t)) j))" using sum p(6) by simp
    show "tail ?s = of_nat (Suc h + length Q)" using p(5) by simp
    show "length (flags ?s) = MAX_NR_THREADS" using p(7) by simp
  next
    fix k assume "k < length Q"
    then show "tls ((ls(i := ?t)) (Q ! k)) = int ((Suc h + k) mod n)"
      using p(4) [of "Suc k"] other [of k] by simp
  next
    fix j assume "j < n"
    then show "flags ?s ! j \<longleftrightarrow> j = Suc h mod n \<and> \<not> mid_release (ls(i := ?t)) Q"
      using p(8) [of j] len mid pc by (cases "j = Suc h mod n") (simp_all add: mid_release_def)
  next
    fix k assume "k < length Q"
    then show "pc ((ls(i := ?t)) (Q ! k)) = InLock LoadFlagSlot"
      using wait other by simp
  next
    fix j show "pc ((ls(i := ?t)) j) \<noteq> Crashed" using p(10) [of j] by simp
  qed (use p in auto)
qed

section \<open>Every step moves the line as a queue\<close>

text \<open>The threads that have arrived and not been served.\<close>

definition waiting :: "(nat \<Rightarrow> array_thread) \<Rightarrow> nat list \<Rightarrow> nat list" where
  "waiting ls Q = (if Q \<noteq> [] \<and> past_lock (ls (hd Q)) then List.tl Q else Q)"

definition array_door :: "array_lock_label \<Rightarrow> bool" where
  "array_door p \<longleftrightarrow> p = FetchAddTail"

lemma array_not_overflown:
  assumes "valid_array b" and it: "iter_inv b (s, ls)"
    and line: "array_line (nr_threads b) (s, ls) h Q"
  shows "h + length Q < 2 ^ 63"
proof -
  have "int (tickets (ls i)) \<le> iters b i" for i
  proof (cases "has_ticket (ls i) \<or> pc (ls i) = UsefulOut")
    case True
    then have "pc (ls i) \<notin> {ForTest, Finished, Crashed}"
      using array_line_parts(10) [OF line, of i] by auto
    with it have "0 \<le> iter (ls i)" "iter (ls i) < iters b i"
      unfolding iter_inv_def by (metis snd_conv)+
    with True show ?thesis by (simp add: tickets_def)
  next
    case False
    with it show ?thesis by (simp add: tickets_def iter_inv_def)
  qed
  then have "int (h + length Q) \<le> (\<Sum>i<nr_threads b. iters b i)"
    unfolding array_line_parts(6) [OF line] by (simp only: int_sum) (rule sum_mono, blast)
  with assms(1) show ?thesis by (simp add: valid_array_def)
qed

text \<open>The spinning thread: its flag is set only when it is the first in line and nobody is inside.\<close>

lemma array_spin_first:
  assumes line: "array_line n (s, ls) h Q" and n: "0 < n" "n \<le> MAX_NR_THREADS"
    and pc: "pc (ls i) = InLock LoadFlagSlot"
  obtains b where "flags_load s (tls (ls i)) = Some b"
    and "b \<longleftrightarrow> Q \<noteq> [] \<and> hd Q = i"
proof -
  note p = array_line_parts [OF line]
  have "i \<in> set Q" using p(2) pc by simp
  then obtain k where k: "k < length Q" "Q ! k = i" by (auto simp: in_set_conv_nth)
  with p(4) have slot: "tls (ls i) = int ((h + k) mod n)" by blast
  have slot_n: "(h + k) mod n < n" using n by simp
  have "k < n" using k array_line_length [OF line] by linarith
  have "flags s ! ((h + k) mod n) \<longleftrightarrow> k = 0"
  proof
    assume "flags s ! ((h + k) mod n)"
    with p(8) [OF slot_n] have "(h + k) mod n = h mod n" by blast
    then show "k = 0" using slot_inj \<open>k < n\<close> by blast
  next
    assume "k = 0"
    with k pc have "\<not> mid_release ls Q" by (auto simp: mid_release_def hd_conv_nth)
    with p(8) [OF slot_n] \<open>k = 0\<close> show "flags s ! ((h + k) mod n)" by simp
  qed
  moreover have "k = 0 \<longleftrightarrow> Q \<noteq> [] \<and> hd Q = i"
    using k nth_eq_iff_index_eq [OF p(1), of 0 k] by (cases Q) auto
  ultimately show thesis
    using slot less_le_trans [OF slot_n n(2)] p(7)
    by (intro that) (simp_all add: flags_load_in del: of_nat_mod)
qed

text \<open>\<open>lock()\<close>: drawing a ticket, spinning, entering.\<close>

lemma array_step_lock:
  assumes valid: "valid_array b" and it: "iter_inv b (s, ls)" and n: "nr_threads b = n"
    and line: "array_line n (s, ls) h Q" and i: "i < n"
    and pc: "pc (ls i) = InLock p" and instr: "array_lock_instr n i s (tls (ls i)) p = (s', v', r)"
    and t': "t' = (ls i)\<lparr>tls := v', pc := after_lock r\<rparr>"
  shows "\<exists>Q'. array_line n (s', ls(i := t')) h Q' \<and>
    queue_moves (waiting ls Q) i (fifo_label array_door (ls i) t') (waiting (ls(i := t')) Q')"
proof (cases p)
  case FetchAddTail
  have notin: "i \<notin> set Q" using array_line_parts(2) [OF line] pc FetchAddTail by simp
  have "0 \<le> iter (ls i)" using it by (simp add: iter_inv_def)
  from array_line_arrive [OF line i _ this array_not_overflown [OF valid it]] line n pc FetchAddTail
  have "array_line n (s\<lparr>tail := tail s + 1\<rparr>,
      ls(i := (ls i)\<lparr>tls := sint (tail s) smod int n, pc := InLock LoadFlagSlot\<rparr>)) h (Q @ [i])"
    by simp
  moreover have "s' = s\<lparr>tail := tail s + 1\<rparr>"
    "t' = (ls i)\<lparr>tls := sint (tail s) smod int n, pc := InLock LoadFlagSlot\<rparr>"
    using instr t' FetchAddTail by (auto simp: atomic_fetch_add_def)
  moreover have "waiting (ls(i := t')) (Q @ [i]) = waiting ls Q @ [i]"
    using notin calculation(3) by (cases Q) (auto simp: waiting_def)
  moreover have "fifo_label array_door (ls i) t' = Some Arrive"
    using pc FetchAddTail calculation(3) by (simp add: fifo_label_def at_door_def array_door_def)
  ultimately show ?thesis by (intro exI [of _ "Q @ [i]"]) simp
next
  case LoadFlagSlot
  have "0 < n" "n \<le> MAX_NR_THREADS"
    using valid n by (auto simp: valid_array_def valid_bench_def)
  then obtain c where c: "flags_load s (tls (ls i)) = Some c" "c \<longleftrightarrow> Q \<noteq> [] \<and> hd Q = i"
    using array_spin_first [OF line] pc LoadFlagSlot by blast
  then have eq: "s' = s" "t' = (ls i)\<lparr>pc := (if c then UsefulIn else InLock LoadFlagSlot)\<rparr>"
    using instr t' LoadFlagSlot by (auto split: if_splits)
  have line': "array_line n (s, ls(i := t')) h Q"
    using c pc LoadFlagSlot
    by (intro array_line_keep [OF line i]) (auto simp: eq tickets_def hd_conv_nth)
  moreover have "queue_moves (waiting ls Q) i (fifo_label array_door (ls i) t')
      (waiting (ls(i := t')) Q)"
    using c(2) pc LoadFlagSlot
    by (cases Q; cases c)
      (auto simp: eq waiting_def fifo_label_def at_door_def array_door_def cs_label_def in_cs_def)
  ultimately show ?thesis using eq by blast
qed

text \<open>\<open>unlock()\<close>: the holder is the first in line, and stays so until its second store.\<close>

lemma array_step_unlock:
  assumes line: "array_line n (s, ls) h Q" and n: "0 < n" "n \<le> MAX_NR_THREADS"
    and pc: "pc (ls i) = InUnlock q" and instr: "array_unlock_instr n i s (tls (ls i)) q = (s', v', r)"
    and t': "t' = (ls i)\<lparr>tls := v', pc := after_unlock r\<rparr>"
  shows "\<exists>h' Q'. array_line n (s', ls(i := t')) h' Q' \<and>
    queue_moves (waiting ls Q) i (fifo_label array_door (ls i) t') (waiting (ls(i := t')) Q')"
proof -
  have "past_lock (ls i)" using pc by simp
  from array_line_first [OF line this] obtain Q' where Q: "Q = i # Q'" .
  have label: "fifo_label array_door (ls i) t' = None"
    using pc t' by (cases r) (simp_all add: fifo_label_def at_door_def cs_label_def in_cs_def)
  show ?thesis
  proof (cases q)
    case StoreOwnFalse
    note rel = array_line_release [OF line [unfolded Q] n]
    from rel pc StoreOwnFalse instr t'
    have "s' = s\<lparr>flags := (flags s)[h mod n := False]\<rparr>"
      "t' = (ls i)\<lparr>pc := InUnlock StoreNextTrue\<rparr>"
      by auto
    with rel(2) pc StoreOwnFalse label Q show ?thesis
      by (intro exI [of _ h] exI [of _ Q]) (simp add: waiting_def)
  next
    case StoreNextTrue
    note lv = array_line_leave [OF line [unfolded Q] n]
    from lv pc StoreNextTrue instr t'
    have eq: "s' = s\<lparr>flags := (flags s)[Suc h mod n := True]\<rparr>"
      "t' = (ls i)\<lparr>pc := UsefulOut\<rparr>"
      by auto
    have line': "array_line n (s', ls(i := t')) (Suc h) Q'"
      using lv(2) pc StoreNextTrue eq by simp
    have "\<not> past_lock ((ls(i := t')) (hd Q'))" if "Q' \<noteq> []"
      using array_line_parts(9) [OF line, of 1] array_line_parts(1) [OF line] that Q
      by (cases Q') auto
    then have "waiting (ls(i := t')) Q' = waiting ls Q"
      using pc by (auto simp: waiting_def Q)
    with line' label show ?thesis
      by (intro exI [of _ "Suc h"] exI [of _ Q']) simp
  qed
qed

text \<open>The configuration has a line whose waiting part is \<open>w\<close>.\<close>

definition array_queue :: "bench \<Rightarrow> (array_env, array_thread) cfg \<Rightarrow> nat list \<Rightarrow> bool" where
  "array_queue b c w \<longleftrightarrow> iter_inv b c \<and>
     (\<exists>h Q. array_line (nr_threads b) c h Q \<and> waiting (snd c) Q = w)"

lemma array_queue_init:
  assumes "valid_array_on e b"
  shows "array_queue b (sync_init (array_prepared (nr_threads b) e) v) []"
proof -
  have "iter_inv b (sync_init (array_prepared (nr_threads b) e) v)"
    using assms by (auto simp: valid_array_on_def valid_array_def valid_bench_def iter_inv_def)
  moreover have "waiting ls [] = []" for ls by (simp add: waiting_def)
  ultimately show ?thesis
    unfolding array_queue_def using array_line_init [OF assms] by blast
qed

lemma array_step:
  assumes valid: "valid_array b" and it: "iter_inv b (s, ls)"
    and line: "array_line (nr_threads b) (s, ls) h Q" and i: "i < nr_threads b"
    and step: "sync_step (arraylock_sync (nr_threads b)) (iters b i) i s (ls i) = Some (s', t')"
  shows "\<exists>h' Q'. array_line (nr_threads b) (s', ls(i := t')) h' Q' \<and>
    queue_moves (waiting ls Q) i (fifo_label array_door (ls i) t') (waiting (ls(i := t')) Q')"
proof -
  have n: "0 < nr_threads b" "nr_threads b \<le> MAX_NR_THREADS"
    using valid by (auto simp: valid_array_def valid_bench_def)
  have same: ?thesis
    if "array_line (nr_threads b) (s', ls(i := t')) h Q" "past_lock t' = past_lock (ls i)"
      "fifo_label array_door (ls i) t' = None"
    using that by (intro exI [of _ h] exI [of _ Q]) (simp add: waiting_def)
  note labels = arraylock_sync_def tickets_def fifo_label_def at_door_def array_door_def
    cs_label_def in_cs_def
  from step show ?thesis
  proof (cases rule: sync_step_cases)
    case (lock p v' r)
    then have "array_lock_instr (nr_threads b) i s (tls (ls i)) p = (s', v', r)"
      by (simp add: arraylock_sync_def)
    from array_step_lock [OF valid it refl line i lock(1) this lock(3)] show ?thesis by blast
  next
    case (unlock q v' r)
    then have "array_unlock_instr (nr_threads b) i s (tls (ls i)) q = (s', v', r)"
      by (simp add: arraylock_sync_def)
    from array_step_unlock [OF line n unlock(1) this unlock(3)] show ?thesis .
  next
    case test
    then show ?thesis
      using array_line_keep [OF line i, of t'] by (intro same) (auto simp: labels)
  next
    case enter
    then show ?thesis
      using array_line_keep [OF line i, of t'] by (intro same) (auto simp: labels)
  next
    case crit
    then show ?thesis
      using array_line_keep [OF line i, of t'] by (intro same) (auto simp: labels)
  next
    case out
    moreover have "0 \<le> iter (ls i)" using it by (simp add: iter_inv_def)
    ultimately show ?thesis
      using array_line_keep [OF line i, of t'] by (intro same) (auto simp: labels)
  qed
qed

lemma array_queue_step:
  assumes "valid_array b" and "array_queue b (s, ls) w" and "i < nr_threads b"
    and step: "sync_step (arraylock_sync (nr_threads b)) (iters b i) i s (ls i) = Some (s', t')"
  shows "\<exists>w'. array_queue b (s', ls(i := t')) w' \<and>
    queue_moves w i (fifo_label array_door (ls i) t') w'"
proof -
  from assms(2) obtain h Q where it: "iter_inv b (s, ls)"
    and line: "array_line (nr_threads b) (s, ls) h Q" and w: "w = waiting ls Q"
    by (auto simp: array_queue_def)
  from array_step [OF assms(1) it line assms(3) step] iter_inv_step [where ls = ls, OF it step] w
  show ?thesis by (auto simp: array_queue_def)
qed

lemma array_queue_reach:
  assumes "valid_array_on e b"
    and "sync_reach (arraylock_sync (nr_threads b)) b (array_prepared (nr_threads b) e) v c"
  shows "\<exists>w. array_queue b c w"
  using assms(2)
proof (rule sync_reach_invariant)
  show "\<exists>w. array_queue b (sync_init (array_prepared (nr_threads b) e) v) w"
    using array_queue_init [OF assms(1)] by blast
qed (use array_queue_step assms(1) in \<open>unfold valid_array_on_def, blast\<close>)

section \<open>The lock meets the interfaces\<close>

fun array_rank :: "array_lock_label \<Rightarrow> nat" where
  "array_rank FetchAddTail = 1"
| "array_rank LoadFlagSlot = 0"

fun array_urank :: "array_unlock_label \<Rightarrow> nat" where
  "array_urank StoreOwnFalse = 1"
| "array_urank StoreNextTrue = 0"

lemma array_rank_less: "array_rank p < 2" "array_urank q < 2"
  by (cases p; simp) (cases q; simp)

text \<open>The first in line can always move; without a line, anybody can.\<close>

lemma array_advances:
  assumes valid: "valid_array b" and it: "iter_inv b c"
    and line: "array_line (nr_threads b) c h Q"
    and i: "i < nr_threads b" "pc (snd c i) \<noteq> Finished" "Q = [] \<or> hd Q = i"
  shows "advances (arraylock_sync (nr_threads b)) 2 array_rank array_urank (iters b i) i (fst c) (snd c i)"
proof -
  obtain s ls where c: "c = (s, ls)" by (cases c)
  note line' = line [unfolded c]
  have n: "0 < nr_threads b" "nr_threads b \<le> MAX_NR_THREADS"
    using valid by (auto simp: valid_array_def valid_bench_def)
  have ok: "pc (snd c i) \<noteq> Crashed" using array_line_parts(10) [OF line'] c by simp
  show ?thesis
  proof (cases "pc (snd c i)")
    case (InLock p)
    show ?thesis
    proof (cases p)
      case FetchAddTail
      with InLock c show ?thesis
        by (auto intro!: advances_lock array_rank_less simp: arraylock_sync_def atomic_fetch_add_def)
    next
      case LoadFlagSlot
      with InLock have "i \<in> set Q" using array_line_parts(2) [OF line'] c by simp
      with i(3) have "Q \<noteq> [] \<and> hd Q = i" by auto
      moreover from InLock LoadFlagSlot have "pc (ls i) = InLock LoadFlagSlot" by (simp add: c)
      from array_spin_first [OF line' n this] obtain c
        where "flags_load s (tls (ls i)) = Some c" "c \<longleftrightarrow> Q \<noteq> [] \<and> hd Q = i" .
      ultimately have "flags_load s (tls (ls i)) = Some True" by simp
      with InLock LoadFlagSlot c show ?thesis
        by (auto intro!: advances_lock array_rank_less simp: arraylock_sync_def)
    qed
  next
    case (InUnlock q)
    then have "past_lock (ls i)" by (simp add: c)
    from array_line_first [OF line' this] obtain Q' where Q: "Q = i # Q'" .
    note line2 = line' [unfolded Q]
    show ?thesis
      using InUnlock c array_line_release(1) [OF line2 n] array_line_leave(1) [OF line2 n]
      by (cases q) (auto intro!: advances_unlock array_rank_less simp: arraylock_sync_def)
  qed (use i it ok in \<open>auto intro!: advances_in_loop array_rank_less\<close>)
qed

lemma array_unstuck:
  assumes valid: "valid_array_on e b"
    and reach: "sync_reach (arraylock_sync (nr_threads b)) b (array_prepared (nr_threads b) e) v c"
    and unfinished: "\<not> all_finished (nr_threads b) c"
  shows "\<exists>is. total_rank 2 array_rank array_urank b
      (run_sched (sync_prog (arraylock_sync (nr_threads b)) b) (nr_threads b) is c)
    < total_rank 2 array_rank array_urank b c"
proof -
  obtain s ls where c: "c = (s, ls)" by (cases c)
  from array_queue_reach [OF valid reach] obtain h Q
    where it: "iter_inv b c" and line: "array_line (nr_threads b) c h Q"
    by (auto simp: array_queue_def)
  obtain i where "i < nr_threads b" "pc (snd c i) \<noteq> Finished" "Q = [] \<or> hd Q = i"
  proof (cases Q)
    case Nil
    then show ?thesis using unfinished that by (auto simp: all_finished_def)
  next
    case (Cons i Q')
    then have "has_ticket (ls i)" "i < nr_threads b"
      using array_line_parts(2,3) [OF line [unfolded c]] by auto
    moreover then have "pc (ls i) \<noteq> Finished" by auto
    ultimately show ?thesis using Cons c that by simp
  qed
  with array_advances [OF _ it line] total_rank_advances valid show ?thesis unfolding valid_array_on_def by blast
qed

interpretation arraylock: live_lock "valid_array_on e" "\<lambda>b. arraylock_sync (nr_threads b)"
  "\<lambda>b. array_prepared (nr_threads b) e" "\<lambda>_. v" "\<lambda>_. 2" "\<lambda>_. array_rank" "\<lambda>_. array_urank" for e v
proof unfold_locales
  fix b assume "valid_array_on e b"
  then show "valid_bench b" by (simp add: valid_array_on_def valid_array_def)
next
  fix b c i j
  assume "valid_array_on e b"
    "sync_reach (arraylock_sync (nr_threads b)) b (array_prepared (nr_threads b) e) v c"
    and cs: "in_cs (snd c i)" "in_cs (snd c j)"
  then obtain h Q where "array_line (nr_threads b) (fst c, snd c) h Q"
    using array_queue_reach by (fastforce simp: array_queue_def)
  with array_line_first [OF this] cs show "i = j" by (metis in_cs_past_lock list.inject)
next
  fix b c i
  assume "valid_array_on e b"
    "sync_reach (arraylock_sync (nr_threads b)) b (array_prepared (nr_threads b) e) v c"
  then obtain h Q where "array_line (nr_threads b) (fst c, snd c) h Q"
    using array_queue_reach by (fastforce simp: array_queue_def)
  then show "pc (snd c i) \<noteq> Crashed" by (rule array_line_parts)
qed (rule array_unstuck)

interpretation arraylock: fifo_lock "valid_array_on e" "\<lambda>b. arraylock_sync (nr_threads b)"
  "\<lambda>b. array_prepared (nr_threads b) e" "\<lambda>_. v" array_door array_queue for e v
  by unfold_locales (simp_all add: array_queue_init array_queue_step valid_array_on_def)

lemma array_mem0_static:
  assumes "valid_array b"
  shows "array_prepared (nr_threads b) array_static = array_mem0 (nr_threads b)"
  using assms by (auto simp: array_mem0_def array_prepared_def split: option.splits)

text \<open>Thread 0 initialises the lock before every execution, so that the executions complete one after the other.\<close>

lemma array_all_executions:
  assumes "\<And>b. b \<in> set bs \<Longrightarrow> valid_array b \<and> nr_threads b = n \<and> (\<Sum>i<nr_threads b. iters b i) = amount"
  shows "all_complete (\<lambda>b. arraylock_sync (nr_threads b)) 
    (each_with (\<lambda>m. (array_prepared n (fst m), snd m)) bs) amount (array_mem0 n, v)"
proof (rule all_completeI [where left = "\<lambda>m. length (flags (fst m)) = MAX_NR_THREADS"])
  show "length (flags (fst (array_mem0 n, v))) = MAX_NR_THREADS"
  proof (cases "n \<le> MAX_NR_THREADS \<and> 0 < n")
    case True
    then show ?thesis by (simp add: array_mem0_eq MAX_NR_THREADS_def)
  next
    case False
    then show ?thesis
      by (cases "n = 0")
        (auto simp: array_mem0_def array_static_def init_arraylock_def clear_flags_overflow flags_store_in MAX_NR_THREADS_def)
  qed
next
  fix b and m :: "array_env \<times> (nat \<Rightarrow> int)" and p :: "array_env \<times> (nat \<Rightarrow> int) \<Rightarrow> array_env \<times> (nat \<Rightarrow> int)" and sched
  assume "(b, p) \<in> set (each_with (\<lambda>m. (array_prepared n (fst m), snd m)) bs)" and "length (flags (fst m)) = MAX_NR_THREADS"
  then have b: "b \<in> set bs" "p = (\<lambda>m. (array_prepared n (fst m), snd m))" and "valid_array_on (fst m) b"
    using assms [of b] by (simp_all add: valid_array_on_def each_with_set)
  from arraylock.completes_serialised [OF this(3)] assms [OF b(1)]
  show "completes_with (arraylock_sync (nr_threads b)) b (p m) sched amount"
    unfolding b(2) by (intro completes_withI) auto
next
  fix b and m m' :: "array_env \<times> (nat \<Rightarrow> int)" and p :: "array_env \<times> (nat \<Rightarrow> int) \<Rightarrow> array_env \<times> (nat \<Rightarrow> int)" and c
  assume "(b, p) \<in> set (each_with (\<lambda>m. (array_prepared n (fst m), snd m)) bs)" and "length (flags (fst m)) = MAX_NR_THREADS"
    and r: "sync_reach (arraylock_sync (nr_threads b)) b (fst (p m)) (snd (p m)) c" and m': "fst m' = fst c"
  then have b: "b \<in> set bs" "p = (\<lambda>m. (array_prepared n (fst m), snd m))" and "valid_array_on (fst m) b"
    using assms [of b] by (simp_all add: valid_array_on_def each_with_set)
  from array_queue_reach [OF this(3), of "snd m" c] r assms [OF b(1)] b(2) obtain h Q where "array_line n (fst c, snd c) h Q"
    by (auto simp: array_queue_def)
  from array_line_parts(7) [OF this] m' show "length (flags (fst m')) = MAX_NR_THREADS" by simp
qed

section \<open>Properties\<close>

text \<open>
  The array lock with at most \<open>MAX_NR_THREADS\<close> threads and fewer than $2^{63}$ tickets: whatever instructions have run, in whatever order the scheduler chose,
  some continuation lets every thread finish; in the completed run the critical sections are
  serialised (no thread enters while another is inside) and each thread has executed
  \<open>useful_in\<close> exactly \<open>nr_iter\<close> times.
\<close>

theorem array_contract:
  assumes "valid_array b"
  shows "\<exists>more.
    all_finished (nr_threads b) (sync_run (arraylock_sync (nr_threads b)) b (array_mem0 (nr_threads b)) (\<lambda>_. 0) (sched @ more)) \<and>
    lock_spec None (cs_trace (arraylock_sync (nr_threads b)) b (array_mem0 (nr_threads b)) (\<lambda>_. 0) (sched @ more)) = Some None \<and>
    (\<forall>i<nr_threads b.
       int (entries i (cs_trace (arraylock_sync (nr_threads b)) b (array_mem0 (nr_threads b)) (\<lambda>_. 0) (sched @ more))) = iters b i)"
  using arraylock.completes_serialised [where e = array_static and b = b and v = "\<lambda>_. 0" and sched = sched] assms
  by (simp add: valid_array_static array_mem0_static)

theorem array_contract_witness:
  "\<exists>more.
    all_finished 2 (sync_run (arraylock_sync (nr_threads two_threads)) two_threads (array_mem0 (nr_threads two_threads)) (\<lambda>_. 0) ([0, 1, 0, 1] @ more)) \<and>
    lock_spec None (cs_trace (arraylock_sync (nr_threads two_threads)) two_threads (array_mem0 (nr_threads two_threads)) (\<lambda>_. 0) ([0, 1, 0, 1] @ more)) = Some None \<and>
    (\<forall>i<2. int (entries i (cs_trace (arraylock_sync (nr_threads two_threads)) two_threads (array_mem0 (nr_threads two_threads)) (\<lambda>_. 0) ([0, 1, 0, 1] @ more))) = 1)"
  using array_contract [of two_threads "[0, 1, 0, 1]"] by (simp add: valid_array_def MAX_NR_THREADS_def)



text \<open>
  \<open>init_arraylock\<close> on the static array stays inside \<open>flags\<close> exactly for the thread counts up
  to \<open>MAX_NR_THREADS\<close>; for every larger one it writes out of bounds.
\<close>

theorem array_init_bounds:
  "init_arraylock n array_static = None \<longleftrightarrow> MAX_NR_THREADS < n"
proof (cases "MAX_NR_THREADS < n")
  case True
  then show ?thesis
    by (simp add: init_arraylock_def clear_flags_overflow array_static_def)
next
  case False
  show ?thesis
  proof (cases n)
    case 0
    then show ?thesis
      by (simp add: init_arraylock_def array_static_def flags_store_in MAX_NR_THREADS_def)
  next
    case (Suc m)
    with False show ?thesis by (simp add: init_arraylock_ok array_static_def)
  qed
qed

end
