(* ===== verification/RA_Array.thy ===== *)
theory RA_Array
  imports Release_Acquire Array_Lock
begin

text \<open>
  The acquire/release variant of the array lock (\<open>benchmark/blocking/ArrayLock/arraylock_ar.cpp\<close>) under the
  memory model: a waiting thread can still read old messages of its slot, but none in which the slot
  was set for an earlier ticket, because the tickets are drawn by operations that acquire and release
  and there are no more threads than slots.
\<close>

section \<open>The code\<close>

datatype array_var = Tail | Flag nat

datatype array_ar_label = Ar_fetch_add | Ar_load_slot
datatype array_ar_unlock_label = Ar_store_own | Ar_store_next

text \<open>\<open>flags[k]\<close>: undefined outside the array. \<open>tail\<close> is a signed integer of 64 bits, which wraps around.\<close>

definition flag_index :: "int \<Rightarrow> nat option" where
  "flag_index k = (if 0 \<le> k \<and> nat k < MAX_NR_THREADS then Some (nat k) else None)"

definition tail_add :: "int \<Rightarrow> int" where
  "tail_add v = sint (word_of_int (v + 1) :: 64 word)"

fun array_ar_lock :: "nat \<Rightarrow> nat \<Rightarrow> int \<Rightarrow> array_ar_label \<Rightarrow> (array_var, int \<times> array_ar_label outcome) access" where
  "array_ar_lock n tid thread_lock_slot Ar_fetch_add =
     Update Acq_rel Tail tail_add (\<lambda>old. (old smod int n, Goto Ar_load_slot))"
| "array_ar_lock n tid thread_lock_slot Ar_load_slot =
     (case flag_index thread_lock_slot of
        None \<Rightarrow> Local (thread_lock_slot, Crash)
      | Some s \<Rightarrow> Load Acquire (Flag s) (\<lambda>b. (thread_lock_slot, if b = 0 then Goto Ar_load_slot else Return)))"

fun array_ar_unlock ::
  "nat \<Rightarrow> nat \<Rightarrow> int \<Rightarrow> array_ar_unlock_label \<Rightarrow> (array_var, int \<times> array_ar_unlock_label outcome) access" where
  "array_ar_unlock n tid thread_lock_slot Ar_store_own =
     (case flag_index thread_lock_slot of
        None \<Rightarrow> Local (thread_lock_slot, Crash)
      | Some s \<Rightarrow> Store Relaxed (Flag s) 0 (thread_lock_slot, Goto Ar_store_next))"
| "array_ar_unlock n tid thread_lock_slot Ar_store_next =
     (case flag_index ((thread_lock_slot + 1) smod int n) of
        None \<Rightarrow> Local (thread_lock_slot, Crash)
      | Some s \<Rightarrow> Store Release (Flag s) 1 (thread_lock_slot, Return))"

definition arraylock_ar_sync :: "nat \<Rightarrow> (array_var, int, array_ar_label, array_ar_unlock_label) ra_code" where
  "arraylock_ar_sync n =
     \<lparr>ra_lock_entry = Ar_fetch_add, ra_lock = array_ar_lock n, ra_unlock_entry = Ar_store_own, ra_unlock = array_ar_unlock n\<rparr>"

text \<open>\<open>init_arraylock\<close>: all flags are cleared but the one of slot \<open>0\<close>.\<close>

fun array_ar_vals :: "array_var \<Rightarrow> int" where
  "array_ar_vals Tail = 0"
| "array_ar_vals (Flag s) = (if s = 0 then 1 else 0)"

section \<open>The invariant\<close>

type_synonym array_ar_thread = "(int, array_ar_label, array_ar_unlock_label) sync_thread"
type_synonym array_ar_cfg = "(array_var, int, array_ar_label, array_ar_unlock_label) ra_cfg"

definition in_line :: "array_ar_thread \<Rightarrow> bool" where
  "in_line t \<longleftrightarrow> past_lock t \<or> pc t = InLock Ar_load_slot"

definition ar_tickets :: "array_ar_thread \<Rightarrow> nat" where
  "ar_tickets t = nat (iter t) + (if in_line t \<or> pc t = UsefulOut then 1 else 0)"

text \<open>
  Ghost state: the last ticket of each thread, the number of tickets drawn, the ticket whose turn it
  is; the positions of the messages that cleared and set the flag for a ticket; and \<open>public\<close>, such that
  whoever draws a ticket learns that the flags of all smaller tickets have been cleared.
\<close>

record array_ghost =
  ticket :: "nat \<Rightarrow> nat option"
  drawn :: nat
  turn_of :: nat
  cleared :: "nat \<Rightarrow> nat"
  set_at :: "nat \<Rightarrow> nat"
  public :: nat

definition knows :: "nat \<Rightarrow> array_ghost \<Rightarrow> array_var view \<Rightarrow> nat \<Rightarrow> bool" where
  "knows n g V d \<longleftrightarrow> (\<forall>j<d. cleared g j \<le> seen V (Flag (j mod n)))"

definition tail_inv :: "nat \<Rightarrow> array_ar_cfg \<Rightarrow> array_ghost \<Rightarrow> bool" where
  "tail_inv n c g \<longleftrightarrow> (\<forall>t. messages c Tail t \<noteq> None \<longleftrightarrow> t \<le> drawn g) \<and>
     (\<exists>W. messages c Tail (drawn g) = Some (int (drawn g), W) \<and> knows n g W (public g)) \<and>
     drawn g = (\<Sum>i<n. ar_tickets (threads c i))"

definition ticket_inv :: "nat \<Rightarrow> array_ghost \<Rightarrow> bool" where
  "ticket_inv n g \<longleftrightarrow>
     (\<forall>i k. ticket g i = Some k \<longrightarrow> i < n \<and> k < drawn g) \<and>
     (\<forall>i j. ticket g i \<noteq> None \<longrightarrow> ticket g i = ticket g j \<longrightarrow> i = j) \<and>
     (\<forall>j<drawn g. public g \<le> j \<longrightarrow> (\<exists>i. ticket g i = Some j)) \<and>
     public g \<le> turn_of g \<and> turn_of g \<le> drawn g"

definition line_inv :: "nat \<Rightarrow> array_ar_cfg \<Rightarrow> array_ghost \<Rightarrow> bool" where
  "line_inv n c g \<longleftrightarrow> (\<forall>i.
     (in_line (threads c i) \<longrightarrow> (\<exists>k. ticket g i = Some k \<and> turn_of g \<le> k \<and> tls (threads c i) = int (k mod n) \<and>
        Suc k - n \<le> turn_of g \<and> knows n g (views c i) (Suc k - n))) \<and>
     (\<not> in_line (threads c i) \<longrightarrow> (\<forall>k. ticket g i = Some k \<longrightarrow> k < turn_of g \<and> knows n g (views c i) (Suc k))))"

definition holder_inv :: "nat \<Rightarrow> array_ar_cfg \<Rightarrow> array_ghost \<Rightarrow> bool" where
  "holder_inv n c g \<longleftrightarrow> (\<forall>i. past_lock (threads c i) \<longrightarrow>
     ticket g i = Some (turn_of g) \<and> knows n g (views c i) (turn_of g) \<and>
     set_at g (turn_of g) \<le> seen (views c i) (Flag (turn_of g mod n)) \<and>
     (\<forall>j. left c j \<le> clock (views c i) j) \<and>
     (pc (threads c i) = InUnlock Ar_store_next \<longrightarrow> knows n g (views c i) (Suc (turn_of g)) \<and>
        set_at g (turn_of g) < cleared g (turn_of g)))"

definition flag_inv_ar :: "nat \<Rightarrow> array_ar_cfg \<Rightarrow> array_ghost \<Rightarrow> bool" where
  "flag_inv_ar n c g \<longleftrightarrow> (\<forall>j<turn_of g. set_at g j < cleared g j) \<and>
     (\<forall>s<n. \<forall>t v W. messages c (Flag s) t = Some (v, W) \<longrightarrow> v \<noteq> 0 \<longrightarrow>
        (\<exists>j\<le>turn_of g. j mod n = s \<and> t = set_at g j \<and>
           (j = turn_of g \<longrightarrow> knows n g W j \<and>
              ((\<forall>i. \<not> past_lock (threads c i)) \<longrightarrow> (\<forall>i. left c i \<le> clock W i)))))"

definition array_ar_inv :: "nat \<Rightarrow> array_ar_cfg \<Rightarrow> array_ghost \<Rightarrow> bool" where
  "array_ar_inv n c g \<longleftrightarrow>
     tail_inv n c g \<and> ticket_inv n g \<and> line_inv n c g \<and> holder_inv n c g \<and> flag_inv_ar n c g"

section \<open>Lemmas on the invariant\<close>

lemma knows_mono: "knows n g V d \<Longrightarrow> (\<And>s. seen V (Flag s) \<le> seen V' (Flag s)) \<Longrightarrow> d' \<le> d \<Longrightarrow> knows n g V' d'"
  unfolding knows_def by (meson order_trans less_le_trans)

lemma knows_ghost [simp]:
  "knows n (g\<lparr>ticket := a\<rparr>) = knows n g" "knows n (g\<lparr>drawn := b\<rparr>) = knows n g" "knows n (g\<lparr>public := b\<rparr>) = knows n g"
  "knows n (g\<lparr>turn_of := b\<rparr>) = knows n g" "knows n (g\<lparr>set_at := f\<rparr>) = knows n g"
  by (simp_all add: knows_def fun_eq_iff)

lemma array_ar_invD:
  assumes "array_ar_inv n c g"
  shows "tail_inv n c g" and "ticket_inv n g" and "line_inv n c g" and "holder_inv n c g" and "flag_inv_ar n c g"
  using assms by (simp_all add: array_ar_inv_def)

lemma in_ar_line_pc [simp]:
  "pc t = ForTest \<Longrightarrow> \<not> in_line t"
  "pc t = InLock p \<Longrightarrow> in_line t \<longleftrightarrow> p = Ar_load_slot"
  "pc t = UsefulIn \<Longrightarrow> in_line t"
  "pc t = InUnlock q \<Longrightarrow> in_line t"
  "pc t = UsefulOut \<Longrightarrow> \<not> in_line t"
  "pc t = Finished \<Longrightarrow> \<not> in_line t"
  by (simp_all add: in_line_def)

lemma tickets_same:
  assumes "i < n" and "ar_tickets t' = ar_tickets (threads c i)"
  shows "(\<Sum>j<n. ar_tickets (((threads c)(i := t')) j)) = (\<Sum>j<n. ar_tickets (threads c j))"
  using sum_fun_upd_add [where g = "\<lambda>_. ar_tickets", OF assms(1), of "threads c" t'] assms(2) by simp

text \<open>The thread past its lock is the one whose turn it is.\<close>

lemma holder_unique:
  assumes "array_ar_inv n c g" and "past_lock (threads c i)" and "ticket g j = Some (turn_of g)"
  shows "j = i"
proof -
  have "ticket g i = ticket g j" and "ticket g i \<noteq> None"
    using array_ar_invD(4) [OF assms(1)] assms(2,3) by (simp_all add: holder_inv_def)
  with array_ar_invD(2) [OF assms(1)] show ?thesis unfolding ticket_inv_def by metis
qed

lemma array_ar_start: "0 < n \<Longrightarrow>
  array_ar_inv n (ra_init array_ar_vals (\<lambda>_. 0))
    \<lparr>ticket = \<lambda>_. None, drawn = 0, turn_of = 0, cleared = \<lambda>_. 0, set_at = \<lambda>_. 0, public = 0\<rparr>"
  by (auto simp: array_ar_inv_def tail_inv_def ticket_inv_def line_inv_def holder_inv_def flag_inv_ar_def
      knows_def ra_init_def ar_tickets_def in_line_def past_lock_def)

lemma tail_inv_keep:
  assumes "tail_inv n c g" and "i < n" and "ar_tickets t' = ar_tickets (threads c i)"
    and "messages c' Tail = messages c Tail" and "threads c' = (threads c)(i := t')"
  shows "tail_inv n c' g"
  using assms(1) unfolding tail_inv_def assms(4,5) tickets_same [where t' = t' and c = c, OF assms(2,3)] .

lemma tail_inv_ghost:
  assumes "tail_inv n c g" and "drawn g' = drawn g" and "public g' = public g"
    and "\<And>V. knows n g' V (public g) = knows n g V (public g)"
  shows "tail_inv n c g'"
  using assms(1) unfolding tail_inv_def assms(2-4) .

lemma holder_invD:
  assumes "holder_inv n c g" and "past_lock (threads c i)"
  shows "ticket g i = Some (turn_of g)" and "knows n g (views c i) (turn_of g)"
    and "set_at g (turn_of g) \<le> seen (views c i) (Flag (turn_of g mod n))" and "left c j \<le> clock (views c i) j"
    and "pc (threads c i) = InUnlock Ar_store_next \<Longrightarrow> knows n g (views c i) (Suc (turn_of g))"
    and "pc (threads c i) = InUnlock Ar_store_next \<Longrightarrow> set_at g (turn_of g) < cleared g (turn_of g)"
  using assms unfolding holder_inv_def by blast+

lemma line_invD:
  assumes "line_inv n c g" and "\<not> in_line (threads c i)" and "ticket g i = Some k"
  shows "k < turn_of g" and "knows n g (views c i) (Suc k)"
  using assms unfolding line_inv_def by blast+

lemma line_invE:
  assumes "line_inv n c g" and "in_line (threads c i)"
  obtains k where "ticket g i = Some k" "turn_of g \<le> k" "tls (threads c i) = int (k mod n)"
    "Suc k - n \<le> turn_of g" "knows n g (views c i) (Suc k - n)"
  using assms unfolding line_inv_def by blast

lemma flag_inv_ar_keep:
  assumes inv: "flag_inv_ar n c g" and m: "\<And>s. messages c' (Flag s) = messages c (Flag s)"
    and free: "\<forall>j. \<not> past_lock (threads c' j) \<Longrightarrow> (\<forall>j. \<not> past_lock (threads c j)) \<and> left c' = left c"
  shows "flag_inv_ar n c' g"
  unfolding flag_inv_ar_def m
proof (intro conjI allI impI)
  show "set_at g j < cleared g j" if "j < turn_of g" for j using inv that by (simp add: flag_inv_ar_def)
  fix s t v W
  assume "s < n" "messages c (Flag s) t = Some (v, W)" "v \<noteq> 0"
  with inv obtain j where "j \<le> turn_of g" "j mod n = s" "t = set_at g j"
    "j = turn_of g \<longrightarrow> knows n g W j \<and> ((\<forall>i. \<not> past_lock (threads c i)) \<longrightarrow> (\<forall>i. left c i \<le> clock W i))"
    unfolding flag_inv_ar_def by blast
  with free show "\<exists>j\<le>turn_of g. j mod n = s \<and> t = set_at g j \<and> (j = turn_of g \<longrightarrow> knows n g W j \<and>
      ((\<forall>i. \<not> past_lock (threads c' i)) \<longrightarrow> (\<forall>i. left c' i \<le> clock W i)))"
    by auto
qed

text \<open>Steps of a thread outside its critical section that write nothing and do not change its place in the line.\<close>

lemma array_ar_quiet:
  assumes inv: "array_ar_inv n c g" and i: "i < n"
    and V: "\<And>x. seen (views c i) x \<le> seen V' x"
    and line: "in_line t' = in_line (threads c i)" "in_line t' \<Longrightarrow> tls t' = tls (threads c i)"
    and out: "\<not> past_lock (threads c i)" "\<not> past_lock t'" and same: "ar_tickets t' = ar_tickets (threads c i)"
    and c': "messages c' = messages c" "left c' = left c" "views c' = (views c)(i := V')" "threads c' = (threads c)(i := t')"
  shows "array_ar_inv n c' g"
proof -
  note I = array_ar_invD [OF inv]
  have "tail_inv n c' g"
    by (rule tail_inv_keep [OF I(1) i same]) (simp_all add: c')
  moreover have "line_inv n c' g"
  proof -
    have "knows n g V' d" if "knows n g (views c i) d" for d using that V by (rule knows_mono) simp
    with I(3) line show ?thesis unfolding line_inv_def c' by auto
  qed
  moreover have "holder_inv n c' g" using I(4) out unfolding holder_inv_def c' by auto
  moreover have "flag_inv_ar n c' g"
    by (rule flag_inv_ar_keep [OF I(5)]) (use out in \<open>auto simp: c' split: if_splits\<close>)
  ultimately show ?thesis using I(2) by (simp add: array_ar_inv_def)
qed

section \<open>Taking the lock\<close>

text \<open>Whoever has drawn ticket \<open>drawn\<close> shares the slots with fewer than \<open>n\<close> tickets that are not public.\<close>

lemma tickets_of_threads:
  assumes "ticket_inv n g"
  shows "drawn g - public g \<le> n"
proof -
  have "{public g..<drawn g} \<subseteq> (\<lambda>i. the (ticket g i)) ` {..<n}"
  proof
    fix j assume "j \<in> {public g..<drawn g}"
    with assms obtain i where "ticket g i = Some j" by (auto simp: ticket_inv_def)
    moreover from this assms have "i < n" by (auto simp: ticket_inv_def)
    ultimately show "j \<in> (\<lambda>i. the (ticket g i)) ` {..<n}" by force
  qed
  then have "card {public g..<drawn g} \<le> card {..<n}" by (rule surj_card_le [rotated]) simp
  then show ?thesis by simp
qed

lemma tail_add_small: "Suc k < 2 ^ 63 \<Longrightarrow> tail_add (int k) = int (Suc k)"
  using sint_of_nat_small [of "Suc k"] by (simp add: tail_add_def add.commute)

lemma array_ar_draw:
  assumes inv: "array_ar_inv n c g" and i: "i < n" and pc: "pc (threads c i) = InLock Ar_fetch_add"
    and small: "Suc (drawn g) < 2 ^ 63"
    and step: "performs i (Update Acq_rel Tail tail_add (\<lambda>old. (old smod int n, Goto Ar_load_slot)))
      (messages c, views c i) (v', r) (m', V')"
  shows "\<exists>g. array_ar_inv n (c\<lparr>messages := m', views := (views c)(i := V'),
    threads := (threads c)(i := (threads c i)\<lparr>tls := v', pc := after_lock r\<rparr>)\<rparr>) g"
proof -
  note I = array_ar_invD [OF inv]
  let ?T = "drawn g"
  let ?t = "(threads c i)\<lparr>tls := v', pc := after_lock r\<rparr>"
  let ?c = "c\<lparr>messages := m', views := (views c)(i := V'), threads := (threads c)(i := ?t)\<rparr>"
  from step obtain t v W W' where m: "messages c Tail t = Some (v, W)" "messages c Tail (Suc t) = None"
    and V': "V' = join (observes Tail (Suc t) (tick i (views c i))) W"
    and W': "W' = observes Tail (Suc t) (join W V')"
    and m': "m' = (messages c)(Tail := (messages c Tail)(Suc t \<mapsto> (tail_add v, W')))"
    and r: "v' = v smod int n" "r = Goto Ar_load_slot"
    by (rule performs_updateE) (auto simp: acquires_def releases_def)
  have top: "messages c Tail s \<noteq> None \<longleftrightarrow> s \<le> ?T" for s using I(1) by (simp add: tail_inv_def)
  have t: "t = ?T" using top [of t] top [of "Suc t"] m by auto
  from I(1) m(1) have v: "v = int ?T" and W: "knows n g W (public g)" by (auto simp: tail_inv_def t)
  have out: "\<not> in_line (threads c i)" "\<not> past_lock (threads c i)" using pc by simp_all
  define p' where "p' = (case ticket g i of None \<Rightarrow> public g | Some k \<Rightarrow> max (public g) (Suc k))"
  define g' where "g' = g\<lparr>ticket := (ticket g)(i \<mapsto> ?T), drawn := Suc ?T, public := p'\<rparr>"
  have knows [simp]: "knows n g' = knows n g" by (simp add: g'_def)
  have own: "k < turn_of g" "knows n g (views c i) (Suc k)" if "ticket g i = Some k" for k
    using I(3) out(1) that by (auto simp: line_inv_def)
  have seen: "seen (views c i) x \<le> seen V' x" "seen W x \<le> seen V' x" "seen V' x \<le> seen W' x" if "x \<noteq> Tail" for x
    using that by (simp_all add: V' W')
  have kV: "knows n g V' p'"
  proof (cases "ticket g i")
    case None
    then show ?thesis using knows_mono [OF W] seen(2) by (simp add: p'_def)
  next
    case (Some k)
    have "knows n g V' (public g)" by (rule knows_mono [OF W]) (simp_all add: seen(2))
    moreover have "knows n g V' (Suc k)" by (rule knows_mono [OF own(2) [OF Some]]) (simp_all add: seen(1))
    ultimately show ?thesis by (simp add: p'_def Some max_def)
  qed
  then have kW: "knows n g W' p'" by (rule knows_mono) (simp_all add: seen(3))
  have "public g \<le> p'" and turn: "p' \<le> turn_of g"
    using own(1) I(2) by (auto simp: p'_def ticket_inv_def split: option.splits)
  have tick': "ticket_inv n g'"
  proof -
    have "\<exists>i'. ((ticket g)(i \<mapsto> ?T)) i' = Some j" if j: "j < Suc ?T" "p' \<le> j" for j
    proof (cases "j = ?T")
      case False
      then have "j < ?T" "public g \<le> j" using j \<open>public g \<le> p'\<close> by simp_all
      with I(2) obtain i' where i': "ticket g i' = Some j" unfolding ticket_inv_def by blast
      have "i' \<noteq> i" using i' j(2) by (auto simp: p'_def)
      with i' show ?thesis by (intro exI [of _ i']) simp
    qed (intro exI [of _ i], simp)
    moreover have new: "ticket g j \<noteq> Some ?T" for j using I(2) by (auto simp: ticket_inv_def)
    moreover have "Some ?T \<noteq> ticket g j" for j using new [of j] by metis
    ultimately show ?thesis
      using I(2) i turn unfolding ticket_inv_def g'_def by (auto simp: less_Suc_eq split: if_splits)
  qed
  have room: "Suc ?T - n \<le> p'" using tickets_of_threads [OF tick'] by (simp add: g'_def)
  have "tail_inv n ?c g'"
  proof -
    have "ar_tickets ?t = Suc (ar_tickets (threads c i))" using pc r by (simp add: ar_tickets_def)
    then have "(\<Sum>j<n. ar_tickets (((threads c)(i := ?t)) j)) = Suc (\<Sum>j<n. ar_tickets (threads c j))"
      using sum_fun_upd_add [where g = "\<lambda>_. ar_tickets", OF i, of "threads c" ?t] by simp
    moreover have "m' Tail s \<noteq> None \<longleftrightarrow> s \<le> Suc ?T" for s using top [of s] by (auto simp: m' t)
    moreover have "m' Tail (Suc ?T) = Some (int (Suc ?T), W')" by (simp add: m' t v tail_add_small [OF small])
    ultimately show ?thesis using I(1) kW unfolding tail_inv_def by (simp add: g'_def)
  qed
  moreover have "line_inv n ?c g'"
  proof -
    have "v' = int (?T mod n)" using r(1) v by (simp add: smod_of_nat)
    moreover have "knows n g V' (Suc ?T - n)" using kV room unfolding knows_def by auto
    ultimately show ?thesis
      using I(2,3) r(2) room turn unfolding line_inv_def ticket_inv_def by (auto simp: g'_def)
  qed
  moreover have "holder_inv n ?c g'" using I(4) out(2) r(2) unfolding holder_inv_def by (auto simp: g'_def)
  moreover have "flag_inv_ar n ?c g'"
  proof -
    have "(\<forall>j. \<not> past_lock (((threads c)(i := ?t)) j)) \<longleftrightarrow> (\<forall>j. \<not> past_lock (threads c j))" using out r(2) by auto
    with I(5) show ?thesis unfolding flag_inv_ar_def by (simp add: g'_def m')
  qed
  ultimately have "array_ar_inv n ?c g'" using tick' by (simp add: array_ar_inv_def)
  then show ?thesis by blast
qed

text \<open>A thread that finds the flag of its slot set has its turn.\<close>

lemma array_ar_enter:
  assumes inv: "array_ar_inv n c g" and i: "i < n" and n: "n \<le> MAX_NR_THREADS" and pc: "pc (threads c i) = InLock Ar_load_slot"
    and step: "performs i (array_ar_lock n i (tls (threads c i)) Ar_load_slot) (messages c, views c i) (v', r) (m', V')"
  shows "array_ar_inv n (c\<lparr>messages := m', views := (views c)(i := V'),
    threads := (threads c)(i := (threads c i)\<lparr>tls := v', pc := after_lock r\<rparr>)\<rparr>) g"
proof -
  note I = array_ar_invD [OF inv]
  let ?t = "(threads c i)\<lparr>tls := v', pc := after_lock r\<rparr>"
  let ?c = "c\<lparr>messages := m', views := (views c)(i := V'), threads := (threads c)(i := ?t)\<rparr>"
  have line: "in_line (threads c i)" and out: "\<not> past_lock (threads c i)" using pc by simp_all
  from I(3) line obtain k where k: "ticket g i = Some k" "turn_of g \<le> k" "tls (threads c i) = int (k mod n)"
    "Suc k - n \<le> turn_of g" "knows n g (views c i) (Suc k - n)" unfolding line_inv_def by blast
  have slot: "k mod n < n" using i by simp
  then have "flag_index (tls (threads c i)) = Some (k mod n)" using n k(3) by (simp add: flag_index_def)
  with step obtain t v W where m: "messages c (Flag (k mod n)) t = Some (v, W)" "seen (views c i) (Flag (k mod n)) \<le> t"
    and V': "V' = join (observes (Flag (k mod n)) t (tick i (views c i))) W"
    and r: "v' = tls (threads c i)" "r = (if v = 0 then Goto Ar_load_slot else Return)" and m': "m' = messages c"
    by (auto elim!: performs_loadE simp: acquires_def split: if_splits)
  have seen: "seen (views c i) x \<le> seen V' x" for x using m(2) by (simp add: V' le_max_iff_disj)
  have same: "ar_tickets ?t = ar_tickets (threads c i)" using pc r(2) by (simp add: ar_tickets_def)
  have stays: "in_line ?t" using r(2) by (simp split: if_splits)
  show ?thesis
  proof (cases "v = 0")
    case True
    then show ?thesis
      using array_ar_quiet [OF inv i seen, of ?t ?c] line stays out same r m' by simp
  next
    case False
    from I(5) slot m(1) False obtain j where j: "j \<le> turn_of g" "j mod n = k mod n" "t = set_at g j"
      and mine: "j = turn_of g \<Longrightarrow> knows n g W j"
        "j = turn_of g \<Longrightarrow> \<forall>i. \<not> past_lock (threads c i) \<Longrightarrow> \<forall>i. left c i \<le> clock W i"
      unfolding flag_inv_ar_def by blast
    have "j = k"
    proof (rule ccontr)
      assume "j \<noteq> k"
      with j(1) k(2) have "j < k" by simp
      with j(2) have "j + n \<le> k" by (metis le_add_diff_inverse less_imp_le mod_eq_dvd_iff_nat dvd_imp_le zero_less_diff add_le_mono1 add.commute nat_add_left_cancel_le)
      then have "cleared g j \<le> seen (views c i) (Flag (k mod n))"
        using k(5) unfolding knows_def j(2) [symmetric] by simp
      moreover have "set_at g j < cleared g j"
        using I(5) k(4) \<open>j + n \<le> k\<close> by (simp add: flag_inv_ar_def)
      ultimately show False using m(2) j(3) by simp
    qed
    with j(1) k(2) have turn: "k = turn_of g" "t = set_at g (turn_of g)" "j = turn_of g" using j(3) by simp_all
    have free: "\<not> past_lock (threads c i')" for i'
      using holder_unique [OF inv, of i' i] k(1) turn(1) out by auto
    have kW: "knows n g W (turn_of g)" and clocks: "left c i' \<le> clock W i'" for i'
      using mine turn(3) free by simp_all
    have "knows n g V' (turn_of g)" by (rule knows_mono [OF kW]) (simp_all add: V')
    have "tail_inv n ?c g"
      by (rule tail_inv_keep [OF I(1) i same]) (simp_all add: m')
    moreover have "line_inv n ?c g"
      using I(3) k r \<open>knows n g V' (turn_of g)\<close> stays turn(1)
      unfolding line_inv_def by (auto intro: knows_mono)
    moreover have "holder_inv n ?c g"
    proof -
      have "left c i' \<le> clock V' i'" for i' using clocks [of i'] by (simp add: V')
      then show ?thesis
        using free k(1) turn \<open>knows n g V' (turn_of g)\<close> r(2) False unfolding holder_inv_def by (auto simp: V')
    qed
    moreover have "flag_inv_ar n ?c g"
      by (rule flag_inv_ar_keep [OF I(5)]) (use r(2) False in \<open>auto simp: m' dest: spec [of _ i]\<close>)
    ultimately show ?thesis using I(2) by (simp add: array_ar_inv_def)
  qed
qed

section \<open>The critical section and \<open>unlock()\<close>\<close>

lemma array_ar_critical:
  assumes inv: "array_ar_inv n c g" and i: "i < n" and pc: "pc (threads c i) = UsefulIn" and V': "V' = tick i (views c i)"
  shows "array_ar_inv n (c\<lparr>views := (views c)(i := V'), left := (left c)(i := clock V' i),
    threads := (threads c)(i := (threads c i)\<lparr>pc := InUnlock Ar_store_own\<rparr>)\<rparr>) g"
proof -
  note I = array_ar_invD [OF inv]
  let ?t = "(threads c i)\<lparr>pc := InUnlock Ar_store_own\<rparr>"
  let ?c = "c\<lparr>views := (views c)(i := V'), left := (left c)(i := clock V' i), threads := (threads c)(i := ?t)\<rparr>"
  have past: "past_lock (threads c i)" "in_line (threads c i)" "past_lock ?t" "in_line ?t" using pc by simp_all
  have only: "i' = i" if "past_lock (threads c i')" for i'
    using holder_unique [OF inv that, of i] I(4) past(1) unfolding holder_inv_def by auto
  have same: "ar_tickets ?t = ar_tickets (threads c i)" using pc by (simp add: ar_tickets_def)
  have knows: "knows n g V' = knows n g (views c i)" by (simp add: V' knows_def fun_eq_iff)
  have "tail_inv n ?c g" by (rule tail_inv_keep [OF I(1) i same]) simp_all
  moreover have "line_inv n ?c g" using I(3) past unfolding line_inv_def by (simp add: knows)
  moreover have "holder_inv n ?c g"
    unfolding holder_inv_def
  proof (intro allI impI)
    fix j
    assume "past_lock (threads ?c j)"
    then have j: "j = i" using only by (cases "j = i") auto
    note H = holder_invD [OF I(4) past(1)]
    have "left ?c k \<le> clock V' k" for k using H(4) [of k] by (simp add: V')
    then show "ticket g j = Some (turn_of g) \<and> knows n g (views ?c j) (turn_of g) \<and>
      set_at g (turn_of g) \<le> seen (views ?c j) (Flag (turn_of g mod n)) \<and> (\<forall>k. left ?c k \<le> clock (views ?c j) k) \<and>
      (pc (threads ?c j) = InUnlock Ar_store_next \<longrightarrow> knows n g (views ?c j) (Suc (turn_of g)) \<and>
        set_at g (turn_of g) < cleared g (turn_of g))"
      using H(1-3) by (simp add: j knows) (simp add: V')
  qed
  moreover have "flag_inv_ar n ?c g"
    by (rule flag_inv_ar_keep [OF I(5)]) (use past(3) in \<open>auto dest: spec [of _ i]\<close>)
  ultimately show ?thesis using I(2) by (simp add: array_ar_inv_def)
qed

text \<open>The holder's slots are inside the array.\<close>

lemma holder_slots:
  assumes inv: "array_ar_inv n c g" and n: "0 < n" "n \<le> MAX_NR_THREADS" and past: "past_lock (threads c i)"
  shows "flag_index (tls (threads c i)) = Some (turn_of g mod n)"
    and "flag_index ((tls (threads c i) + 1) smod int n) = Some (Suc (turn_of g) mod n)"
proof -
  have "in_line (threads c i)" using past by (simp add: in_line_def)
  then have tls: "tls (threads c i) = int (turn_of g mod n)"
    using array_ar_invD(3,4) [OF inv] past unfolding line_inv_def holder_inv_def by fastforce
  have "turn_of g mod n < n" using n(1) by simp
  with n tls show "flag_index (tls (threads c i)) = Some (turn_of g mod n)" by (simp add: flag_index_def)
  have "(tls (threads c i) + 1) smod int n = int (Suc (turn_of g mod n) mod n)"
    using smod_of_nat [of "Suc (turn_of g mod n)" n] by (simp add: tls add.commute)
  moreover have "Suc (turn_of g) mod n < MAX_NR_THREADS" using mod_less_divisor [OF n(1)] n(2) by (rule less_le_trans)
  ultimately show "flag_index ((tls (threads c i) + 1) smod int n) = Some (Suc (turn_of g) mod n)"
    using n by (simp add: flag_index_def mod_Suc_eq)
qed

lemma array_ar_clear:
  assumes inv: "array_ar_inv n c g" and i: "i < n" and n: "n \<le> MAX_NR_THREADS" and pc: "pc (threads c i) = InUnlock Ar_store_own"
    and step: "performs i (array_ar_unlock n i (tls (threads c i)) Ar_store_own) (messages c, views c i) (v', r) (m', V')"
  shows "\<exists>g. array_ar_inv n (c\<lparr>messages := m', views := (views c)(i := V'),
    threads := (threads c)(i := (threads c i)\<lparr>tls := v', pc := after_unlock r\<rparr>)\<rparr>) g"
proof -
  note I = array_ar_invD [OF inv]
  let ?h = "turn_of g"
  let ?t = "(threads c i)\<lparr>tls := v', pc := after_unlock r\<rparr>"
  let ?c = "c\<lparr>messages := m', views := (views c)(i := V'), threads := (threads c)(i := ?t)\<rparr>"
  have past: "past_lock (threads c i)" "in_line (threads c i)" using pc by simp_all
  have only: "i' = i" if "past_lock (threads c i')" for i'
    using holder_unique [OF inv that, of i] I(4) past(1) unfolding holder_inv_def by auto
  note H = holder_invD [OF I(4) past(1)]
  from step holder_slots(1) [OF inv _ n past(1)] i obtain t W where
    t: "messages c (Flag (?h mod n)) t = None" "seen (views c i) (Flag (?h mod n)) < t"
    and V': "V' = observes (Flag (?h mod n)) t (tick i (views c i))"
    and m': "m' = (messages c)(Flag (?h mod n) := (messages c (Flag (?h mod n)))(t \<mapsto> (0, W)))"
    and r: "v' = tls (threads c i)" "r = Goto Ar_store_next"
    by (auto elim!: performs_storeE)
  define g' where "g' = g\<lparr>cleared := (cleared g)(?h := t)\<rparr>"
  have g' [simp]: "ticket g' = ticket g" "drawn g' = drawn g" "turn_of g' = ?h" "public g' = public g" "set_at g' = set_at g"
    by (simp_all add: g'_def)
  have knows: "knows n g' V d = knows n g V d" if "d \<le> ?h" for V d using that by (auto simp: knows_def g'_def)
  have seen: "seen (views c i) x \<le> seen V' x" for x using t(2) by (simp add: V')
  have kV: "knows n g V' d" if "knows n g (views c i) d" for d using that seen by (rule knows_mono) simp
  have public: "public g \<le> ?h" using I(2) by (simp add: ticket_inv_def)
  have same: "ar_tickets ?t = ar_tickets (threads c i)" using pc r by (simp add: ar_tickets_def)
  have "tail_inv n ?c g"
    by (rule tail_inv_keep [OF I(1) i same]) (simp_all add: m')
  then have "tail_inv n ?c g'" by (rule tail_inv_ghost) (simp_all add: knows public)
  moreover have "ticket_inv n g'" using I(2) unfolding ticket_inv_def g' .
  moreover have "line_inv n ?c g'"
    unfolding line_inv_def
  proof (intro allI conjI impI)
    fix j
    assume "in_line (threads ?c j)"
    then have "in_line (threads c j)" using past(2) by (cases "j = i") simp_all
    from line_invE [OF I(3) this] obtain k where "ticket g j = Some k" "?h \<le> k" "tls (threads c j) = int (k mod n)"
      "Suc k - n \<le> ?h" "knows n g (views c j) (Suc k - n)" .
    then show "\<exists>k. ticket g' j = Some k \<and> turn_of g' \<le> k \<and> tls (threads ?c j) = int (k mod n) \<and>
        Suc k - n \<le> turn_of g' \<and> knows n g' (views ?c j) (Suc k - n)"
      using r(1) kV by (auto simp: knows)
  next
    fix j k
    assume j: "\<not> in_line (threads ?c j)" "ticket g' j = Some k"
    then have "j \<noteq> i" using r(2) by auto
    with j line_invD [OF I(3), of j k] show "k < turn_of g'" "knows n g' (views ?c j) (Suc k)" by (simp_all add: knows)
  qed
  moreover have "holder_inv n ?c g'"
  proof -
    have "knows n g' V' (Suc ?h)" using kV [OF H(2)] by (auto simp: knows_def g'_def less_Suc_eq V')
    moreover have "set_at g ?h < cleared g' ?h" using H(3) t(2) by (simp add: g'_def)
    moreover have "left c j \<le> clock V' j" for j using H(4) [of j] by (cases "j = i") (simp_all add: V')
    ultimately show ?thesis
      using H(1-3) kV [OF H(2)] only order_trans [OF H(3) seen] unfolding holder_inv_def by (auto simp: knows)
  qed
  moreover have "flag_inv_ar n ?c g'"
    unfolding flag_inv_ar_def
  proof (intro conjI allI impI)
    show "set_at g' j < cleared g' j" if "j < turn_of g'" for j using I(5) that by (simp add: flag_inv_ar_def g'_def)
    fix s u v U
    assume s: "s < n" "messages ?c (Flag s) u = Some (v, U)" "v \<noteq> 0"
    then have "messages c (Flag s) u = Some (v, U)" by (auto simp: m' split: if_splits)
    with I(5) s obtain j where "j \<le> ?h" "j mod n = s" "u = set_at g j" "j = ?h \<longrightarrow> knows n g U j"
      unfolding flag_inv_ar_def by blast
    moreover have "past_lock ?t" using r(2) by simp
    ultimately show "\<exists>j\<le>turn_of g'. j mod n = s \<and> u = set_at g' j \<and> (j = turn_of g' \<longrightarrow> knows n g' U j \<and>
        ((\<forall>i. \<not> past_lock (threads ?c i)) \<longrightarrow> (\<forall>i. left ?c i \<le> clock U i)))"
      by (auto simp: knows intro!: exI [of _ j])
  qed
  ultimately have "array_ar_inv n ?c g'" by (simp add: array_ar_inv_def)
  then show ?thesis by blast
qed

lemma array_ar_pass:
  assumes inv: "array_ar_inv n c g" and i: "i < n" and n: "n \<le> MAX_NR_THREADS" and pc: "pc (threads c i) = InUnlock Ar_store_next"
    and step: "performs i (array_ar_unlock n i (tls (threads c i)) Ar_store_next) (messages c, views c i) (v', r) (m', V')"
  shows "\<exists>g. array_ar_inv n (c\<lparr>messages := m', views := (views c)(i := V'),
    threads := (threads c)(i := (threads c i)\<lparr>tls := v', pc := after_unlock r\<rparr>)\<rparr>) g"
proof -
  note I = array_ar_invD [OF inv]
  let ?h = "turn_of g"
  let ?t = "(threads c i)\<lparr>tls := v', pc := after_unlock r\<rparr>"
  let ?c = "c\<lparr>messages := m', views := (views c)(i := V'), threads := (threads c)(i := ?t)\<rparr>"
  have past: "past_lock (threads c i)" "in_line (threads c i)" using pc by simp_all
  have only: "i' = i" if "past_lock (threads c i')" for i'
    using holder_unique [OF inv that, of i] I(4) past(1) unfolding holder_inv_def by auto
  have H: "ticket g i = Some ?h" "knows n g (views c i) (Suc ?h)" "set_at g ?h < cleared g ?h"
    "left c j \<le> clock (views c i) j" for j
    using holder_invD [OF I(4) past(1)] pc by simp_all
  from step holder_slots(2) [OF inv _ n past(1)] i obtain t where
    t: "messages c (Flag (Suc ?h mod n)) t = None" "seen (views c i) (Flag (Suc ?h mod n)) < t"
    and V': "V' = observes (Flag (Suc ?h mod n)) t (tick i (views c i))"
    and m': "m' = (messages c)(Flag (Suc ?h mod n) := (messages c (Flag (Suc ?h mod n)))(t \<mapsto> (1, V')))"
    and r: "v' = tls (threads c i)" "r = Return"
    by (auto elim!: performs_storeE simp: releases_def)
  define g' where "g' = g\<lparr>turn_of := Suc ?h, set_at := (set_at g)(Suc ?h := t)\<rparr>"
  have g' [simp]: "ticket g' = ticket g" "drawn g' = drawn g" "turn_of g' = Suc ?h" "public g' = public g"
    "cleared g' = cleared g" "knows n g' = knows n g" by (simp_all add: g'_def)
  have out: "\<not> in_line ?t" "\<not> past_lock ?t" using r(2) by simp_all
  have nobody: "\<not> past_lock (threads ?c i')" for i' using only out(2) by (cases "i' = i") auto
  have seen: "seen (views c i) x \<le> seen V' x" for x using t(2) by (simp add: V')
  have kV: "knows n g V' (Suc ?h)" using H(2) seen by (rule knows_mono) simp
  have same: "ar_tickets ?t = ar_tickets (threads c i)" using pc r by (simp add: ar_tickets_def)
  have "tail_inv n ?c g"
    by (rule tail_inv_keep [OF I(1) i same]) (simp_all add: m')
  then have "tail_inv n ?c g'" by (rule tail_inv_ghost) simp_all
  moreover have "ticket_inv n g'"
  proof -
    have "?h < drawn g" using I(2) H(1) by (auto simp: ticket_inv_def)
    with I(2) show ?thesis unfolding ticket_inv_def g' by (metis Suc_leI le_SucI)
  qed
  moreover have "line_inv n ?c g'"
    unfolding line_inv_def
  proof (intro allI conjI impI)
    fix j
    assume j: "in_line (threads ?c j)"
    then have neq: "j \<noteq> i" using out(1) by auto
    with j I(3) obtain k where k: "ticket g j = Some k" "?h \<le> k" "tls (threads c j) = int (k mod n)"
      "Suc k - n \<le> ?h" "knows n g (views c j) (Suc k - n)" unfolding line_inv_def by auto
    have "k \<noteq> ?h" using holder_unique [OF inv past(1), of j] k(1) neq by auto
    with k neq show "\<exists>k. ticket g' j = Some k \<and> turn_of g' \<le> k \<and> tls (threads ?c j) = int (k mod n) \<and>
        Suc k - n \<le> turn_of g' \<and> knows n g' (views ?c j) (Suc k - n)" by auto
  next
    fix j k
    assume j: "\<not> in_line (threads ?c j)" "ticket g' j = Some k"
    show "k < turn_of g'" "knows n g' (views ?c j) (Suc k)"
      using j line_invD [OF I(3), of j k] kV H(1) by (cases "j = i"; simp)+
  qed
  moreover have "holder_inv n ?c g'" using nobody unfolding holder_inv_def by blast
  moreover have "flag_inv_ar n ?c g'"
    unfolding flag_inv_ar_def
  proof (intro conjI allI impI)
    show "set_at g' j < cleared g' j" if "j < turn_of g'" for j
      using I(5) H(3) that by (auto simp: flag_inv_ar_def g'_def less_Suc_eq)
    fix s u v U
    assume s: "s < n" "messages ?c (Flag s) u = Some (v, U)" "v \<noteq> 0"
    have clocks: "left c j \<le> clock V' j" for j using H(4) [of j] by (cases "j = i") (simp_all add: V')
    show "\<exists>j\<le>turn_of g'. j mod n = s \<and> u = set_at g' j \<and> (j = turn_of g' \<longrightarrow> knows n g' U j \<and>
        ((\<forall>i. \<not> past_lock (threads ?c i)) \<longrightarrow> (\<forall>i. left ?c i \<le> clock U i)))"
    proof (cases "s = Suc ?h mod n \<and> u = t")
      case True
      then have "U = V'" using s(2) by (simp add: m')
      then show ?thesis using True kV clocks by (intro exI [of _ "Suc ?h"]) (simp add: g'_def)
    next
      case False
      then have "messages c (Flag s) u = Some (v, U)" using s(2) by (auto simp: m' split: if_splits)
      with I(5) s obtain j where "j \<le> ?h" "j mod n = s" "u = set_at g j" unfolding flag_inv_ar_def by blast
      then show ?thesis by (intro exI [of _ j]) (simp add: g'_def)
    qed
  qed
  ultimately have "array_ar_inv n ?c g'" by (simp add: array_ar_inv_def)
  then show ?thesis by blast
qed

section \<open>All steps\<close>

text \<open>The rounds of the loop, for any lock.\<close>

definition rounds_ok :: "(nat \<Rightarrow> int) \<Rightarrow> array_ar_cfg \<Rightarrow> bool" where
  "rounds_ok k c \<longleftrightarrow> (\<forall>i. 0 \<le> iter (threads c i) \<and> iter (threads c i) \<le> k i \<and>
     (pc (threads c i) \<notin> {ForTest, Finished} \<longrightarrow> iter (threads c i) < k i))"

lemma rounds_ok_step:
  assumes "rounds_ok k c" and "ra_step C k i c c'"
  shows "rounds_ok k c'"
  using assms(2,1)
proof cases
  case ra_useful_out
  have "iter (threads c i) < k i" using assms(1) ra_useful_out(2) by (simp add: rounds_ok_def)
  then have "iter (threads c i) + 1 \<le> k i" by simp
  then show ?thesis using assms(1) ra_useful_out unfolding rounds_ok_def by simp
qed (auto simp: rounds_ok_def dest: spec [of _ i] order_le_imp_less_or_eq)

text \<open>A ticket for each round: a thread that is about to draw one has fewer than it has rounds.\<close>

lemma rounds_tickets:
  assumes "rounds_ok k c" and "i < n" and "pc (threads c i) = InLock Ar_fetch_add"
  shows "Suc (\<Sum>j<n. ar_tickets (threads c j)) \<le> (\<Sum>j<n. nat (k j))"
proof -
  have all: "ar_tickets (threads c j) \<le> nat (k j)" for j
  proof -
    note R = assms(1) [unfolded rounds_ok_def, rule_format, of j]
    show ?thesis
    proof (cases "pc (threads c j) = ForTest \<or> pc (threads c j) = Finished")
      case True
      then have "ar_tickets (threads c j) = nat (iter (threads c j))" by (auto simp: ar_tickets_def)
      with R show ?thesis by (simp add: nat_mono)
    next
      case False
      with R have "0 \<le> iter (threads c j)" "iter (threads c j) < k j" by simp_all
      then have "Suc (nat (iter (threads c j))) \<le> nat (k j)" by linarith
      then show ?thesis by (simp add: ar_tickets_def)
    qed
  qed
  have "iter (threads c i) < k i" "0 \<le> iter (threads c i)" using assms(1,3) by (simp_all add: rounds_ok_def)
  then have "ar_tickets (threads c i) < nat (k i)" using assms(3) by (simp add: ar_tickets_def)
  then have "(\<Sum>j<n. ar_tickets (threads c j)) < (\<Sum>j<n. nat (k j))"
    using all assms(2) by (intro sum_strict_mono_ex1) auto
  then show ?thesis by simp
qed

lemma array_ar_step:
  assumes inv: "array_ar_inv n c g" and rounds: "rounds_ok k c" and i: "i < n" and n: "n \<le> MAX_NR_THREADS"
    and small: "(\<Sum>j<n. nat (k j)) < 2 ^ 63" and step: "ra_step (arraylock_ar_sync n) k i c c'"
  shows "\<exists>g. array_ar_inv n c' g"
  using step
proof cases
  case ra_for_test
  let ?t = "(threads c i)\<lparr>pc := (if iter (threads c i) \<noteq> k i then InLock Ar_fetch_add else Finished)\<rparr>"
  have "array_ar_inv n (c\<lparr>threads := (threads c)(i := ?t)\<rparr>) g"
    by (rule array_ar_quiet [OF inv i order_refl, where t' = ?t])
      (use ra_for_test(2) in \<open>auto simp: ar_tickets_def\<close>)
  then show ?thesis using ra_for_test(1) by (auto simp: arraylock_ar_sync_def)
next
  case (ra_in_lock p v' r m' V')
  show ?thesis
  proof (cases p)
    case Ar_fetch_add
    have "drawn g = (\<Sum>j<n. ar_tickets (threads c j))" using array_ar_invD(1) [OF inv] by (simp add: tail_inv_def)
    then have "Suc (drawn g) < 2 ^ 63"
      using rounds_tickets [OF rounds i] ra_in_lock(2) Ar_fetch_add small by simp
    with array_ar_draw [OF inv i _ this] ra_in_lock Ar_fetch_add show ?thesis
      by (simp add: arraylock_ar_sync_def)
  next
    case Ar_load_slot
    with array_ar_enter [OF inv i n] ra_in_lock have "array_ar_inv n c' g" by (simp add: arraylock_ar_sync_def)
    then show ?thesis by blast
  qed
next
  case (ra_useful_in V')
  with array_ar_critical [OF inv i] have "array_ar_inv n c' g" by (simp add: arraylock_ar_sync_def)
  then show ?thesis by blast
next
  case (ra_in_unlock q v' r m' V')
  then show ?thesis
    using array_ar_clear [OF inv i n] array_ar_pass [OF inv i n] by (cases q) (simp_all add: arraylock_ar_sync_def)
next
  case ra_useful_out
  let ?t = "(threads c i)\<lparr>pc := ForTest, iter := iter (threads c i) + 1\<rparr>"
  have "0 \<le> iter (threads c i)" using rounds by (simp add: rounds_ok_def)
  then have "array_ar_inv n (c\<lparr>threads := (threads c)(i := ?t)\<rparr>) g"
    by (intro array_ar_quiet [OF inv i order_refl, where t' = ?t])
      (use ra_useful_out(2) in \<open>auto simp: ar_tickets_def nat_add_distrib\<close>)
  then show ?thesis using ra_useful_out(1) by auto
qed

lemma array_ar_reach:
  assumes b: "valid_array b" and reach: "ra_reach (arraylock_ar_sync (nr_threads b)) b (ra_init array_ar_vals (\<lambda>_. 0)) c"
  shows "\<exists>g. array_ar_inv (nr_threads b) c g"
proof -
  have n: "0 < nr_threads b" "nr_threads b \<le> MAX_NR_THREADS" and iters: "\<And>i. 0 \<le> iters b i"
    and sum: "(\<Sum>i<nr_threads b. iters b i) < 2 ^ 63"
    using b by (simp_all add: valid_array_def valid_bench_def)
  have small: "(\<Sum>i<nr_threads b. nat (iters b i)) < 2 ^ 63"
  proof -
    have "int (\<Sum>i<nr_threads b. nat (iters b i)) < int (2 ^ 63)" using sum iters by simp
    then show ?thesis by (simp only: of_nat_less_iff)
  qed
  have "(\<exists>g. array_ar_inv (nr_threads b) c g) \<and> rounds_ok (iters b) c"
    using reach
  proof (rule ra_invariant)
    show "(\<exists>g. array_ar_inv (nr_threads b) (ra_init array_ar_vals (\<lambda>_. 0)) g) \<and>
        rounds_ok (iters b) (ra_init array_ar_vals (\<lambda>_. 0))"
      using array_ar_start [OF n(1)] iters by (auto simp: rounds_ok_def ra_init_def)
  next
    fix c i c'
    assume I: "(\<exists>g. array_ar_inv (nr_threads b) c g) \<and> rounds_ok (iters b) c" and i: "i < nr_threads b"
      and step: "ra_step (arraylock_ar_sync (nr_threads b)) (iters b) i c c'"
    then show "(\<exists>g. array_ar_inv (nr_threads b) c' g) \<and> rounds_ok (iters b) c'"
      using array_ar_step [OF _ _ i n(2) small step] rounds_ok_step [OF _ step] by blast
  qed
  then show ?thesis by blast
qed

section \<open>Properties\<close>

text \<open>
  C12: the acquire/release variant of the array lock, with at most \<open>MAX_NR_THREADS\<close> threads and fewer than
  $2^{63}$ tickets: a waiting thread never takes an old message of its slot for its turn; at most one
  thread is in its critical section, and each critical section happened before the next.
\<close>

theorem array_ar_ordered:
  assumes "valid_array b" and "ra_reach (arraylock_ar_sync (nr_threads b)) b (ra_init array_ar_vals (\<lambda>_. 0)) c"
  shows "ra_exclusive c \<and> ra_ordered c"
proof -
  obtain g where inv: "array_ar_inv (nr_threads b) c g" using array_ar_reach [OF assms] by blast
  have past: "in_cs t \<Longrightarrow> past_lock t" for t :: array_ar_thread by (simp add: in_cs_def)
  note H = holder_invD [OF array_ar_invD(4) [OF inv] past]
  show ?thesis
    using holder_unique [OF inv past] H(1,4) unfolding ra_exclusive_def ra_ordered_def by metis
qed

lemma array_ar_run:
  "map_option (\<lambda>c. (pc (threads c 0), pc (threads c 1), left c 0))
     (ra_exec (arraylock_ar_sync 2) \<lparr>nr_threads = 2, iters = \<lambda>_. 1\<rparr>
       [(0, 0), (0, 0), (0, 0), (1, 0), (1, 1), (1, 0), (0, 0), (0, 1), (0, 1), (1, 1)]
       (ra_init array_ar_vals (\<lambda>_. 0))) = Some (UsefulOut, UsefulIn, 3)"
  by code_simp

theorem array_ar_ordered_witness:
  "\<exists>c :: array_ar_cfg. in_cs (threads c 1) \<and> 0 < left c 0 \<and> ra_exclusive c \<and> ra_ordered c"
proof -
  let ?b = "\<lparr>nr_threads = 2, iters = \<lambda>_. 1\<rparr>"
  obtain c where c: "ra_reach (arraylock_ar_sync 2) ?b (ra_init array_ar_vals (\<lambda>_. 0)) c" "in_cs (threads c 1)" "0 < left c 0"
    using ra_exec_run [OF array_ar_run] by (auto simp: in_cs_def)
  have "ra_exclusive c \<and> ra_ordered c"
    by (rule array_ar_ordered [of ?b]) (use c(1) in \<open>simp_all add: valid_array_def valid_bench_def MAX_NR_THREADS_def\<close>)
  with c show ?thesis by blast
qed

end
