(* ===== verification/CLH_Lock.thy ===== *)
theory CLH_Lock
  imports Lock_Executions
begin

text \<open>
  The CLH queue lock (\<open>benchmark/blocking/CLHQueueLock/clhqueue_lock_sc.cpp\<close>): the waiting threads
  form an implicit list. \<open>lock()\<close> marks the thread's own node as locked, swaps it into \<open>tail\<close> and
  spins on the node it found there; \<open>unlock()\<close> clears the own node and takes over the
  predecessor's. Nodes wander between threads; the invariant says who has which.
\<close>

section \<open>The code\<close>

text \<open>The nodes: the static \<open>common_node\<close>, and the one each thread allocates.\<close>

datatype clh_node = Common_node | Allocated nat

text \<open>A pointer to a node, \<open>None\<close> for \<open>nullptr\<close>.\<close>

type_synonym node_ptr = "clh_node option"

record clh_env =
  clh_tail :: node_ptr
  node_locked :: "clh_node \<Rightarrow> bool"

text \<open>The \<open>thread_local\<close> variables.\<close>

record clh_tls =
  myNode :: node_ptr
  myPred :: node_ptr
  myAlloc :: node_ptr

datatype clh_lock_label = StoreMyLocked | ExchangeTail | LoadPredLocked
datatype clh_unlock_label = StoreMyUnlocked | TakePred

text \<open>Following a null pointer is undefined behaviour (\<open>Crash\<close>).\<close>

fun clh_lock_instr ::
  "nat \<Rightarrow> clh_env \<Rightarrow> clh_tls \<Rightarrow> clh_lock_label \<Rightarrow> clh_env \<times> clh_tls \<times> clh_lock_label outcome" where
  "clh_lock_instr tid env v StoreMyLocked =
     (case myNode v of
        None \<Rightarrow> (env, v, Crash)
      | Some a \<Rightarrow> (env\<lparr>node_locked := (node_locked env)(a := True)\<rparr>, v, Goto ExchangeTail))"
| "clh_lock_instr tid env v ExchangeTail =
     (let (tail', old) = atomic_exchange (clh_tail env) (myNode v)
      in (env\<lparr>clh_tail := tail'\<rparr>, v\<lparr>myPred := old\<rparr>, Goto LoadPredLocked))"
| "clh_lock_instr tid env v LoadPredLocked =
     (case myPred v of
        None \<Rightarrow> (env, v, Crash)
      | Some a \<Rightarrow> (env, v, if node_locked env a then Goto LoadPredLocked else Return))"

fun clh_unlock_instr ::
  "nat \<Rightarrow> clh_env \<Rightarrow> clh_tls \<Rightarrow> clh_unlock_label \<Rightarrow> clh_env \<times> clh_tls \<times> clh_unlock_label outcome" where
  "clh_unlock_instr tid env v StoreMyUnlocked =
     (case myNode v of
        None \<Rightarrow> (env, v, Crash)
      | Some a \<Rightarrow> (env\<lparr>node_locked := (node_locked env)(a := False)\<rparr>, v, Goto TakePred))"
| "clh_unlock_instr tid env v TakePred = (env, v\<lparr>myNode := myPred v\<rparr>, Return)"

definition clhqueue_sync :: "(clh_env, clh_tls, clh_lock_label, clh_unlock_label) lock_code" where
  "clhqueue_sync =
     \<lparr>lock_entry = StoreMyLocked, lock_instr = clh_lock_instr,
      unlock_entry = StoreMyUnlocked, unlock_instr = clh_unlock_instr\<rparr>"

text \<open>\<open>init_per_exec_global()\<close>: the store of \<open>tail\<close>, then the store through the loaded pointer.\<close>

definition init_per_exec_global :: "clh_env \<Rightarrow> clh_env" where
  "init_per_exec_global env =
     (let env' = env\<lparr>clh_tail := Some Common_node\<rparr> in
      case clh_tail env' of
        None \<Rightarrow> env'
      | Some a \<Rightarrow> env'\<lparr>node_locked := (node_locked env')(a := False)\<rparr>)"

text \<open>
  \<open>init_per_exec_per_thread()\<close>, given what \<open>aligned_alloc\<close> returned: without memory the process
  exits with a failure status (\<open>Inl\<close>).
\<close>

definition init_per_exec_per_thread :: "node_ptr \<Rightarrow> clh_tls \<Rightarrow> int + clh_tls" where
  "init_per_exec_per_thread allocated v =
     (let v' = v\<lparr>myAlloc := allocated\<rparr> in
      if myAlloc v' = None then Inl 1 else Inr (v'\<lparr>myNode := myAlloc v'\<rparr>))"

text \<open>\<open>delete_per_thread()\<close> frees the node the thread allocated, whoever uses it now.\<close>

definition delete_per_thread :: "clh_tls \<Rightarrow> node_ptr" where
  "delete_per_thread v = myAlloc v"

text \<open>
  The state between the two barriers of an execution. The nodes' flags are whatever the memory held
  before, \<open>g\<close>; each thread got memory of its own.
\<close>

definition clh_mem0 :: "(clh_node \<Rightarrow> bool) \<Rightarrow> clh_env" where
  "clh_mem0 g = init_per_exec_global \<lparr>clh_tail = None, node_locked = g\<rparr>"

definition clh_prepared :: "(nat \<Rightarrow> clh_tls) \<Rightarrow> nat \<Rightarrow> clh_tls" where
  "clh_prepared v tid = (case init_per_exec_per_thread (Some (Allocated tid)) (v tid) of Inr v' \<Rightarrow> v' | Inl _ \<Rightarrow> v tid)"

text \<open>The \<open>thread_local\<close> variables before \<open>main\<close> runs, and in the first execution.\<close>

definition clh_static_tls :: "nat \<Rightarrow> clh_tls" where
  "clh_static_tls tid = \<lparr>myNode = None, myPred = None, myAlloc = None\<rparr>"

definition clh_tls0 :: "nat \<Rightarrow> clh_tls" where
  "clh_tls0 = clh_prepared clh_static_tls"

text \<open>
  What is done between the two barriers of an execution, on the memory and the \<open>thread_local\<close> variables
  that the one before left: thread 0 initialises the globals, each thread its own variables. The memory
  that \<open>aligned_alloc\<close> returns holds anything (\<open>g\<close>); nobody uses a node of an earlier execution, which
  \<open>delete_per_thread()\<close> freed, so that the names of the nodes are free for the new ones.
\<close>

definition clh_prepare :: "(nat \<Rightarrow> bool) \<Rightarrow> clh_env \<times> (nat \<Rightarrow> clh_tls) \<Rightarrow> clh_env \<times> (nat \<Rightarrow> clh_tls)" where
  "clh_prepare g m =
     (init_per_exec_global ((fst m)\<lparr>node_locked := (\<lambda>a. case a of
          Common_node \<Rightarrow> node_locked (fst m) Common_node | Allocated tid \<Rightarrow> g tid)\<rparr>),
      clh_prepared (snd m))"

lemma clh_mem0_simps [simp]:
  "clh_tail (clh_mem0 g) = Some Common_node" "\<not> node_locked (clh_mem0 g) Common_node"
  by (simp_all add: clh_mem0_def init_per_exec_global_def)

lemma clh_prepared_simps [simp]:
  "myNode (clh_prepared v i) = Some (Allocated i)"
  by (simp add: clh_prepared_def init_per_exec_per_thread_def)

lemma clh_prepare_eq: "\<exists>g'. clh_prepare g m = (clh_mem0 g', clh_prepared (snd m))"
  by (cases "fst m") (auto simp: clh_prepare_def clh_mem0_def init_per_exec_global_def)

section \<open>The line of threads and their nodes\<close>

type_synonym clh_thread = "(clh_tls, clh_lock_label, clh_unlock_label) sync_thread"

text \<open>In line: from the exchange to the store that lets the successor in.\<close>

definition in_line :: "clh_thread \<Rightarrow> bool" where
  "in_line t \<longleftrightarrow> pc t \<in> {InLock LoadPredLocked, UsefulIn, InUnlock StoreMyUnlocked}"

text \<open>The node the thread has for its next \<open>lock()\<close>; in line, the node its successor waits for.\<close>

definition node_of :: "clh_thread \<Rightarrow> node_ptr" where
  "node_of t = (if pc t = InUnlock TakePred then myPred (tls t) else myNode (tls t))"

text \<open>
  Each thread in line waits for its predecessor's node, the first one for \<open>p\<close>; the last node of
  the line is what \<open>tail\<close> points to.
\<close>

fun linked :: "(nat \<Rightarrow> clh_thread) \<Rightarrow> node_ptr \<Rightarrow> nat list \<Rightarrow> bool" where
  "linked ls p [] = True"
| "linked ls p (i # Q) \<longleftrightarrow> myPred (tls (ls i)) = p \<and> linked ls (node_of (ls i)) Q"

fun last_node :: "(nat \<Rightarrow> clh_thread) \<Rightarrow> node_ptr \<Rightarrow> nat list \<Rightarrow> node_ptr" where
  "last_node ls p [] = p"
| "last_node ls p (i # Q) = last_node ls (node_of (ls i)) Q"

lemma linked_snoc: "linked ls p (Q @ [i]) \<longleftrightarrow> linked ls p Q \<and> myPred (tls (ls i)) = last_node ls p Q"
  by (induction ls p Q rule: linked.induct) auto

lemma last_node_snoc: "last_node ls p (Q @ [i]) = node_of (ls i)"
  by (induction ls p Q rule: last_node.induct) auto

lemma linked_cong:
  "(\<And>i. i \<in> set Q \<Longrightarrow> tls (ls' i) = tls (ls i) \<and> node_of (ls' i) = node_of (ls i)) \<Longrightarrow>
   linked ls' p Q = linked ls p Q"
  by (induction ls p Q rule: linked.induct) auto

lemma last_node_cong:
  "(\<And>i. i \<in> set Q \<Longrightarrow> node_of (ls' i) = node_of (ls i)) \<Longrightarrow> last_node ls' p Q = last_node ls p Q"
  by (induction ls p Q rule: last_node.induct) auto

text \<open>
  \<open>Q\<close> is the line and \<open>x\<close> the node in front of it. All nodes are different; the front node is
  not locked, those of the threads in line are.
\<close>

definition clh_line :: "nat \<Rightarrow> (clh_env, clh_thread) cfg \<Rightarrow> clh_node \<Rightarrow> nat list \<Rightarrow> bool" where
  "clh_line n c x Q \<longleftrightarrow>
     distinct Q \<and> set Q = {i. i < n \<and> in_line (snd c i)} \<and>
     (\<forall>i<n. node_of (snd c i) \<noteq> None \<and> node_of (snd c i) \<noteq> Some x) \<and>
     inj_on (\<lambda>i. node_of (snd c i)) {..<n} \<and>
     linked (snd c) (Some x) Q \<and> clh_tail (fst c) = last_node (snd c) (Some x) Q \<and>
     \<not> node_locked (fst c) x \<and>
     (\<forall>i<n. \<forall>a. in_line (snd c i) \<or> pc (snd c i) = InLock ExchangeTail \<longrightarrow>
        node_of (snd c i) = Some a \<longrightarrow> node_locked (fst c) a) \<and>
     (\<forall>i \<in> set (tl Q). pc (snd c i) = InLock LoadPredLocked) \<and>
     (\<forall>i<n. pc (snd c i) \<noteq> Crashed)"

lemma clh_line_parts:
  assumes "clh_line n (s, ls) x Q"
  shows "distinct Q" and "set Q = {i. i < n \<and> in_line (ls i)}"
    and "i < n \<Longrightarrow> node_of (ls i) \<noteq> None \<and> node_of (ls i) \<noteq> Some x"
    and "inj_on (\<lambda>i. node_of (ls i)) {..<n}"
    and "linked ls (Some x) Q" and "clh_tail s = last_node ls (Some x) Q" and "\<not> node_locked s x"
    and "i < n \<Longrightarrow> in_line (ls i) \<or> pc (ls i) = InLock ExchangeTail \<Longrightarrow> node_of (ls i) = Some a \<Longrightarrow>
      node_locked s a"
    and "i \<in> set (tl Q) \<Longrightarrow> pc (ls i) = InLock LoadPredLocked"
    and "i < n \<Longrightarrow> pc (ls i) \<noteq> Crashed"
  using assms unfolding clh_line_def fst_conv snd_conv by blast+

lemma clh_line_init: "clh_line n (sync_init (clh_mem0 g) (clh_prepared v)) Common_node []"
  by (auto simp: clh_line_def in_line_def node_of_def inj_on_def)

lemma in_line_pc [simp]:
  "pc t = ForTest \<Longrightarrow> \<not> in_line t"
  "pc t = InLock p \<Longrightarrow> in_line t \<longleftrightarrow> p = LoadPredLocked"
  "pc t = UsefulIn \<Longrightarrow> in_line t"
  "pc t = InUnlock q \<Longrightarrow> in_line t \<longleftrightarrow> q = StoreMyUnlocked"
  "pc t = UsefulOut \<Longrightarrow> \<not> in_line t"
  "pc t = Finished \<Longrightarrow> \<not> in_line t"
  by (simp_all add: in_line_def)

text \<open>Different threads have different nodes.\<close>

lemma clh_line_node:
  assumes "clh_line n (s, ls) x Q" and "i < n" "j < n" "node_of (ls i) = node_of (ls j)"
  shows "i = j"
  using clh_line_parts(4) [OF assms(1)] assms(2-4) by (auto dest: inj_onD)

text \<open>Steps that leave the thread's node, its place and all flags but its own alone.\<close>

lemma clh_line_keep:
  assumes line: "clh_line n (s, ls) x Q" and i: "i < n"
    and env: "clh_tail s' = clh_tail s" "\<And>a. node_of (ls i) \<noteq> Some a \<Longrightarrow> node_locked s' a = node_locked s a"
    and same: "in_line t' = in_line (ls i)" "node_of t' = node_of (ls i)" "pc t' \<noteq> Crashed"
      "in_line t' \<Longrightarrow> tls t' = tls (ls i)"
    and own: "\<And>a. in_line t' \<or> pc t' = InLock ExchangeTail \<Longrightarrow> node_of t' = Some a \<Longrightarrow> node_locked s' a"
    and first: "i \<in> set (tl Q) \<Longrightarrow> pc t' = InLock LoadPredLocked"
  shows "clh_line n (s', ls(i := t')) x Q"
proof -
  note p = clh_line_parts [OF line]
  have node: "node_of ((ls(i := t')) j) = node_of (ls j)" for j using same(2) by simp
  have "tls ((ls(i := t')) j) = tls (ls j)" if "j \<in> set Q" for j
    using that p(2) same(1,4) by (cases "j = i") auto
  then have chain: "linked (ls(i := t')) (Some x) Q" "last_node (ls(i := t')) (Some x) Q = last_node ls (Some x) Q"
    using p(5) node linked_cong [of Q "ls(i := t')" ls] last_node_cong [of Q "ls(i := t')" ls] by auto
  show ?thesis
    unfolding clh_line_def fst_conv snd_conv node
  proof (intro conjI allI impI ballI)
    show "set Q = {j. j < n \<and> in_line ((ls(i := t')) j)}" using p(2) same(1) by auto
    show "clh_tail s' = last_node (ls(i := t')) (Some x) Q" using chain(2) env(1) p(6) by simp
    show "\<not> node_locked s' x" using p(7) env(2) p(3) [OF i] by simp
  next
    fix j a
    assume j: "j < n" "in_line ((ls(i := t')) j) \<or> pc ((ls(i := t')) j) = InLock ExchangeTail"
      "node_of (ls j) = Some a"
    show "node_locked s' a"
    proof (cases "j = i")
      case True
      with j own same(2) show ?thesis by auto
    next
      case False
      with clh_line_node [OF line j(1) i] j(3) have "node_of (ls i) \<noteq> Some a" by metis
      with env(2) p(8) [OF j(1)] j False show ?thesis by auto
    qed
  next
    fix j assume "j \<in> set (tl Q)"
    then show "pc ((ls(i := t')) j) = InLock LoadPredLocked" using p(9) first by auto
  next
    fix j assume "j < n"
    then show "pc ((ls(i := t')) j) \<noteq> Crashed" using p(10) same(3) by auto
  qed (use p(1,3,4) chain in auto)
qed

text \<open>Swapping the node into \<open>tail\<close> joins the line at its end.\<close>

lemma clh_line_arrive:
  assumes line: "clh_line n (s, ls) x Q" and i: "i < n" and pc: "pc (ls i) = InLock ExchangeTail"
  shows "clh_line n (s\<lparr>clh_tail := myNode (tls (ls i))\<rparr>,
      ls(i := (ls i)\<lparr>tls := (tls (ls i))\<lparr>myPred := clh_tail s\<rparr>, pc := InLock LoadPredLocked\<rparr>)) x (Q @ [i])"
    (is "clh_line n (?s, ls(i := ?t)) x _")
proof -
  note p = clh_line_parts [OF line]
  have notin: "i \<notin> set Q" using p(2) pc by simp
  have node: "node_of ((ls(i := ?t)) j) = node_of (ls j)" for j
    using pc by (simp add: node_of_def)
  have my: "node_of (ls i) = myNode (tls (ls i))" using pc by (simp add: node_of_def)
  have "linked (ls(i := ?t)) (Some x) Q = linked ls (Some x) Q"
    using notin node by (intro linked_cong) auto
  moreover have "last_node (ls(i := ?t)) (Some x) Q = last_node ls (Some x) Q"
    using node by (intro last_node_cong)
  ultimately have chain: "linked (ls(i := ?t)) (Some x) (Q @ [i])"
    using p(5,6) by (simp add: linked_snoc)
  show ?thesis
    unfolding clh_line_def fst_conv snd_conv node
  proof (intro conjI allI impI ballI)
    show "set (Q @ [i]) = {j. j < n \<and> in_line ((ls(i := ?t)) j)}" using p(2) i by auto
    show "clh_tail ?s = last_node (ls(i := ?t)) (Some x) (Q @ [i])"
      by (simp only: last_node_snoc node) (simp add: my)
  next
    fix j a
    assume j: "j < n" "in_line ((ls(i := ?t)) j) \<or> pc ((ls(i := ?t)) j) = InLock ExchangeTail"
      "node_of (ls j) = Some a"
    then have "in_line (ls j) \<or> pc (ls j) = InLock ExchangeTail" using pc by (cases "j = i") auto
    with p(8) [OF j(1)] j(3) show "node_locked ?s a" by simp
  next
    fix j assume j: "j \<in> set (tl (Q @ [i]))"
    show "pc ((ls(i := ?t)) j) = InLock LoadPredLocked"
    proof (cases "j = i")
      case False
      with j have "j \<in> set (tl Q)" by (cases Q) auto
      with p(9) False show ?thesis by simp
    qed simp
  next
    fix j assume "j < n"
    then show "pc ((ls(i := ?t)) j) \<noteq> Crashed" using p(10) by auto
  qed (use p(1,3,4,7) chain notin in auto)
qed

text \<open>The spinning thread finds its predecessor's node unlocked exactly when it is the first in line.\<close>

lemma linked_locked:
  assumes "linked ls p (Q @ i # R)" and "\<And>j. j \<in> set Q \<Longrightarrow> \<exists>a. node_of (ls j) = Some a \<and> P a"
    and "Q \<noteq> []"
  shows "\<exists>a. myPred (tls (ls i)) = Some a \<and> P a"
  using assms
proof (induction Q arbitrary: p)
  case (Cons j Q)
  then show ?case by (cases Q) auto
qed simp

lemma clh_spin:
  assumes line: "clh_line n (s, ls) x Q" and i: "i < n" and pc: "pc (ls i) = InLock LoadPredLocked"
  obtains a where "myPred (tls (ls i)) = Some a" and "\<not> node_locked s a \<longleftrightarrow> hd Q = i"
proof -
  note p = clh_line_parts [OF line]
  have "i \<in> set Q" using p(2) i pc by simp
  then obtain Q1 Q2 where Q: "Q = Q1 @ i # Q2" by (auto simp: in_set_conv_decomp)
  show thesis
  proof (cases "Q1 = []")
    case True
    with Q p(5,7) that show ?thesis by auto
  next
    case False
    have "\<exists>a. node_of (ls j) = Some a \<and> node_locked s a" if "j \<in> set Q1" for j
    proof -
      have "j \<in> set Q" using that Q by simp
      then have "j < n" "in_line (ls j)" using p(2) by auto
      with p(3,8) [OF \<open>j < n\<close>] show ?thesis by auto
    qed
    with p(5) False obtain a where "myPred (tls (ls i)) = Some a" "node_locked s a"
      unfolding Q by (metis linked_locked)
    moreover have "hd Q \<noteq> i" using p(1) Q False by (cases Q1) auto
    ultimately show ?thesis using that by blast
  qed
qed

text \<open>A thread past \<open>lock()\<close> and still in line is the first in line.\<close>

lemma clh_line_first:
  assumes line: "clh_line n (s, ls) x Q" and i: "i < n" "in_line (ls i)" "pc (ls i) \<noteq> InLock LoadPredLocked"
  obtains Q' where "Q = i # Q'"
proof -
  have "i \<in> set Q" using clh_line_parts(2) [OF line] i by simp
  moreover have "i \<notin> set (tl Q)" using clh_line_parts(9) [OF line] i by blast
  ultimately show thesis using that by (cases Q) auto
qed

text \<open>The first in line clears its node and leaves: the node becomes the front, the old front its own.\<close>

lemma clh_line_leave:
  assumes line: "clh_line n (s, ls) x (i # Q)" and pc: "pc (ls i) = InUnlock StoreMyUnlocked"
    and a: "myNode (tls (ls i)) = Some a"
  shows "clh_line n (s\<lparr>node_locked := (node_locked s)(a := False)\<rparr>,
      ls(i := (ls i)\<lparr>pc := InUnlock TakePred\<rparr>)) a Q"
    (is "clh_line n (?s, ls(i := ?t)) a Q")
proof -
  note p = clh_line_parts [OF line]
  have i: "i < n" and iQ: "i \<notin> set Q" using p(1,2) by auto
  have old: "node_of (ls i) = Some a" using pc a by (simp add: node_of_def)
  have new: "node_of ?t = Some x" using p(5) by (simp add: node_of_def)
  have other: "node_of ((ls(i := ?t)) j) = node_of (ls j)" "tls ((ls(i := ?t)) j) = tls (ls j)"
    if "j \<noteq> i" for j
    using that by simp_all
  have ax: "a \<noteq> x" using p(3) [OF i] old by auto
  have diff: "node_of (ls j) \<noteq> Some a" if "j < n" "j \<noteq> i" for j
    using clh_line_node [OF line that(1) i] old that by auto
  have rest: "tls ((ls(i := ?t)) j) = tls (ls j) \<and> node_of ((ls(i := ?t)) j) = node_of (ls j)"
    if "j \<in> set Q" for j
    using that iQ by auto
  have chain: "linked (ls(i := ?t)) (Some a) Q" "clh_tail s = last_node (ls(i := ?t)) (Some a) Q"
    using p(5,6) old linked_cong [of Q "ls(i := ?t)" ls, OF rest]
      last_node_cong [of Q "ls(i := ?t)" ls] rest
    by (simp_all del: fun_upd_apply)
  show ?thesis
    unfolding clh_line_def fst_conv snd_conv
  proof (intro conjI allI impI ballI)
    show "set Q = {j. j < n \<and> in_line ((ls(i := ?t)) j)}" using p(2) iQ by auto
  next
    fix j assume j: "j < n"
    show "node_of ((ls(i := ?t)) j) \<noteq> None" "node_of ((ls(i := ?t)) j) \<noteq> Some a"
      using new ax diff [OF j] p(3) [OF j] other(1) by (cases "j = i"; simp)+
    show "pc ((ls(i := ?t)) j) \<noteq> Crashed" using p(10) j by auto
  next
    show "inj_on (\<lambda>j. node_of ((ls(i := ?t)) j)) {..<n}"
    proof (rule inj_onI)
      fix j k assume "j \<in> {..<n}" "k \<in> {..<n}"
        and eq: "node_of ((ls(i := ?t)) j) = node_of ((ls(i := ?t)) k)"
      then show "j = k"
        using new other(1) p(3) clh_line_node [OF line, of j k]
        by (cases "j = i"; cases "k = i") auto
    qed
  next
    fix j b
    assume j: "j < n" "in_line ((ls(i := ?t)) j) \<or> pc ((ls(i := ?t)) j) = InLock ExchangeTail"
      "node_of ((ls(i := ?t)) j) = Some b"
    then have "j \<noteq> i" by auto
    with j p(8) [OF j(1)] diff [OF j(1)] show "node_locked ?s b" by auto
  next
    fix j assume "j \<in> set (tl Q)"
    then have "j \<in> set Q" by (cases Q) auto
    with iQ p(9) show "pc ((ls(i := ?t)) j) = InLock LoadPredLocked" by auto
  qed (use p(1) chain in auto)
qed

section \<open>Every step moves the line as a queue\<close>

definition waiting :: "(nat \<Rightarrow> clh_thread) \<Rightarrow> nat list \<Rightarrow> nat list" where
  "waiting ls Q = (if Q \<noteq> [] \<and> pc (ls (hd Q)) \<noteq> InLock LoadPredLocked then tl Q else Q)"

definition clh_door :: "clh_lock_label \<Rightarrow> bool" where
  "clh_door p \<longleftrightarrow> p = ExchangeTail"

lemmas clh_labels = fifo_label_def at_door_def clh_door_def cs_label_def in_cs_def

lemma clh_step_lock:
  assumes line: "clh_line n (s, ls) x Q" and i: "i < n"
    and pc: "pc (ls i) = InLock p" and instr: "clh_lock_instr i s (tls (ls i)) p = (s', v', r)"
    and t': "t' = (ls i)\<lparr>tls := v', pc := after_lock r\<rparr>"
  shows "\<exists>Q'. clh_line n (s', ls(i := t')) x Q' \<and>
    queue_moves (waiting ls Q) i (fifo_label clh_door (ls i) t') (waiting (ls(i := t')) Q')"
proof (cases p)
  case StoreMyLocked
  have node: "node_of (ls i) = myNode (tls (ls i))" using pc StoreMyLocked by (simp add: node_of_def)
  with clh_line_parts(3) [OF line i] obtain a where a: "myNode (tls (ls i)) = Some a" by auto
  with instr t' StoreMyLocked have eq: "s' = s\<lparr>node_locked := (node_locked s)(a := True)\<rparr>"
    "t' = (ls i)\<lparr>pc := InLock ExchangeTail\<rparr>"
    by auto
  have notin: "i \<notin> set Q" using clh_line_parts(2) [OF line] pc StoreMyLocked by simp
  have "clh_line n (s', ls(i := t')) x Q"
    using pc StoreMyLocked a node notin list.set_sel(2) [of Q i]
    by (intro clh_line_keep [OF line i]) (cases Q; auto simp: eq node_of_def)+
  moreover have "waiting (ls(i := t')) Q = waiting ls Q"
    using notin by (cases Q) (auto simp: waiting_def)
  moreover have "fifo_label clh_door (ls i) t' = None"
    using pc StoreMyLocked by (simp add: clh_labels eq)
  ultimately show ?thesis by auto
next
  case ExchangeTail
  with instr t' have eq: "s' = s\<lparr>clh_tail := myNode (tls (ls i))\<rparr>"
    "t' = (ls i)\<lparr>tls := (tls (ls i))\<lparr>myPred := clh_tail s\<rparr>, pc := InLock LoadPredLocked\<rparr>"
    by (auto simp: atomic_exchange_def)
  have notin: "i \<notin> set Q" using clh_line_parts(2) [OF line] pc ExchangeTail by simp
  have "clh_line n (s', ls(i := t')) x (Q @ [i])"
    using clh_line_arrive [OF line i] pc ExchangeTail by (simp add: eq)
  moreover have "waiting (ls(i := t')) (Q @ [i]) = waiting ls Q @ [i]"
    using notin by (cases Q) (auto simp: waiting_def eq)
  moreover have "fifo_label clh_door (ls i) t' = Some Arrive"
    using pc ExchangeTail by (simp add: clh_labels eq)
  ultimately show ?thesis by auto
next
  case LoadPredLocked
  then have pc': "pc (ls i) = InLock LoadPredLocked" using pc by simp
  from clh_spin [OF line i this] obtain a where a: "myPred (tls (ls i)) = Some a"
    "\<not> node_locked s a \<longleftrightarrow> hd Q = i" .
  with instr t' LoadPredLocked have eq: "s' = s"
    "t' = (ls i)\<lparr>pc := (if hd Q = i then UsefulIn else InLock LoadPredLocked)\<rparr>"
    by auto
  have iQ: "i \<in> set Q" using clh_line_parts(2) [OF line] i pc' by simp
  have "hd Q = i \<Longrightarrow> i \<notin> set (tl Q)"
    using clh_line_parts(1) [OF line] iQ by (cases Q) auto
  then have "clh_line n (s', ls(i := t')) x Q"
    using pc' clh_line_parts(8) [OF line i]
    by (cases "hd Q = i") (intro clh_line_keep [OF line i], auto simp: eq node_of_def)+
  moreover have "queue_moves (waiting ls Q) i (fifo_label clh_door (ls i) t')
      (waiting (ls(i := t')) Q)"
    using pc' iQ by (cases Q) (auto simp: eq waiting_def clh_labels)
  ultimately show ?thesis by blast
qed

lemma clh_step_unlock:
  assumes line: "clh_line n (s, ls) x Q" and i: "i < n"
    and pc: "pc (ls i) = InUnlock q" and instr: "clh_unlock_instr i s (tls (ls i)) q = (s', v', r)"
    and t': "t' = (ls i)\<lparr>tls := v', pc := after_unlock r\<rparr>"
  shows "\<exists>x' Q'. clh_line n (s', ls(i := t')) x' Q' \<and>
    queue_moves (waiting ls Q) i (fifo_label clh_door (ls i) t') (waiting (ls(i := t')) Q')"
proof -
  have label: "fifo_label clh_door (ls i) t' = None"
    using pc t' by (cases r) (simp_all add: clh_labels)
  show ?thesis
  proof (cases q)
    case StoreMyUnlocked
    with pc i obtain Q' where Q: "Q = i # Q'" by (elim clh_line_first [OF line]) auto
    have "node_of (ls i) = myNode (tls (ls i))" using pc StoreMyUnlocked by (simp add: node_of_def)
    with clh_line_parts(3) [OF line i] obtain a where a: "myNode (tls (ls i)) = Some a" by auto
    with instr t' StoreMyUnlocked have eq: "s' = s\<lparr>node_locked := (node_locked s)(a := False)\<rparr>"
      "t' = (ls i)\<lparr>pc := InUnlock TakePred\<rparr>"
      by auto
    have "clh_line n (s', ls(i := t')) a Q'"
      using clh_line_leave [OF line [unfolded Q]] pc StoreMyUnlocked a by (simp add: eq)
    moreover have "pc ((ls(i := t')) j) = InLock LoadPredLocked" if "j \<in> set Q'" for j
      using clh_line_parts(9) [OF line, of j] clh_line_parts(1) [OF line] that Q by auto
    then have "waiting (ls(i := t')) Q' = waiting ls Q"
      using pc StoreMyUnlocked by (cases Q') (auto simp: waiting_def Q)
    ultimately show ?thesis using label by auto
  next
    case TakePred
    with instr t' have eq: "s' = s" "t' = (ls i)\<lparr>tls := (tls (ls i))\<lparr>myNode := myPred (tls (ls i))\<rparr>, pc := UsefulOut\<rparr>"
      by auto
    have notin: "i \<notin> set Q" using clh_line_parts(2) [OF line] pc TakePred by simp
    have "clh_line n (s', ls(i := t')) x Q"
      using pc TakePred notin
      by (intro clh_line_keep [OF line i]) (cases Q; auto simp: eq node_of_def)+
    moreover have "waiting (ls(i := t')) Q = waiting ls Q"
      using notin by (cases Q) (auto simp: waiting_def)
    ultimately show ?thesis using label by auto
  qed
qed

definition clh_queue :: "bench \<Rightarrow> (clh_env, clh_thread) cfg \<Rightarrow> nat list \<Rightarrow> bool" where
  "clh_queue b c w \<longleftrightarrow> (\<exists>x Q. clh_line (nr_threads b) c x Q \<and> waiting (snd c) Q = w)"

lemma clh_queue_init: "clh_queue b (sync_init (clh_mem0 g) (clh_prepared v)) []"
  using clh_line_init unfolding clh_queue_def by (fastforce simp: waiting_def)

lemma clh_step:
  assumes line: "clh_line n (s, ls) x Q" and i: "i < n"
    and step: "sync_step clhqueue_sync k i s (ls i) = Some (s', t')"
  shows "\<exists>x' Q'. clh_line n (s', ls(i := t')) x' Q' \<and>
    queue_moves (waiting ls Q) i (fifo_label clh_door (ls i) t') (waiting (ls(i := t')) Q')"
proof -
  have outside: ?thesis
    if "s' = s" "\<not> in_line (ls i)" "\<not> in_line t'" "node_of t' = node_of (ls i)"
      "pc t' \<notin> {Crashed, InLock ExchangeTail}" "fifo_label clh_door (ls i) t' = None"
  proof -
    have "i \<notin> set Q" using clh_line_parts(2) [OF line] that by simp
    then have "waiting (ls(i := t')) Q = waiting ls Q" "i \<notin> set (tl Q)"
      by (cases Q; auto simp: waiting_def)+
    moreover have "clh_line n (s', ls(i := t')) x Q"
      using that calculation by (intro clh_line_keep [OF line i]) auto
    ultimately show ?thesis using that by auto
  qed
  from step show ?thesis
  proof (cases rule: sync_step_cases)
    case (lock p v' r)
    then have "clh_lock_instr i s (tls (ls i)) p = (s', v', r)" by (simp add: clhqueue_sync_def)
    from clh_step_lock [OF line i lock(1) this lock(3)] show ?thesis by blast
  next
    case crit
    with i obtain Q' where Q: "Q = i # Q'" by (elim clh_line_first [OF line]) auto
    have "i \<notin> set Q'" using clh_line_parts(1) [OF line] Q by simp
    with crit Q clh_line_parts(8) [OF line i] have "clh_line n (s', ls(i := t')) x Q"
      by (intro clh_line_keep [OF line i]) (auto simp: clhqueue_sync_def node_of_def)
    moreover have "waiting (ls(i := t')) Q = waiting ls Q"
      using crit by (simp add: waiting_def Q clhqueue_sync_def)
    moreover have "fifo_label clh_door (ls i) t' = None" using crit by (simp add: clh_labels)
    ultimately show ?thesis by auto
  next
    case (unlock q v' r)
    then have "clh_unlock_instr i s (tls (ls i)) q = (s', v', r)" by (simp add: clhqueue_sync_def)
    from clh_step_unlock [OF line i unlock(1) this unlock(3)] show ?thesis .
  next
    case test
    then show ?thesis by (intro outside) (auto simp: node_of_def clh_labels)
  next
    case enter
    then show ?thesis by (intro outside) (auto simp: clhqueue_sync_def node_of_def clh_labels)
  next
    case out
    then show ?thesis by (intro outside) (auto simp: node_of_def clh_labels)
  qed
qed

lemma clh_queue_step:
  assumes "clh_queue b (s, ls) w" and "i < nr_threads b"
    and "sync_step clhqueue_sync (iters b i) i s (ls i) = Some (s', t')"
  shows "\<exists>w'. clh_queue b (s', ls(i := t')) w' \<and> queue_moves w i (fifo_label clh_door (ls i) t') w'"
proof -
  from assms(1) obtain x Q where line: "clh_line (nr_threads b) (s, ls) x Q" and w: "w = waiting ls Q"
    by (auto simp: clh_queue_def)
  from clh_step [where ls = ls, OF line assms(2,3)] w show ?thesis by (auto simp: clh_queue_def)
qed

lemma clh_queue_reach:
  assumes "sync_reach clhqueue_sync b (clh_mem0 g) (clh_prepared v) c"
  shows "\<exists>x Q. clh_line (nr_threads b) c x Q"
proof -
  from assms have "\<exists>w. clh_queue b c w"
  proof (rule sync_reach_invariant)
    show "\<exists>w. clh_queue b (sync_init (clh_mem0 g) (clh_prepared v)) w" using clh_queue_init by blast
  qed (use clh_queue_step in blast)
  then show ?thesis by (auto simp: clh_queue_def)
qed

section \<open>The lock meets the interfaces\<close>

fun clh_rank :: "clh_lock_label \<Rightarrow> nat" where
  "clh_rank StoreMyLocked = 2"
| "clh_rank ExchangeTail = 1"
| "clh_rank LoadPredLocked = 0"

fun clh_urank :: "clh_unlock_label \<Rightarrow> nat" where
  "clh_urank StoreMyUnlocked = 1"
| "clh_urank TakePred = 0"

lemma clh_rank_less: "clh_rank p < 3" "clh_urank q < 3"
  by (cases p; simp) (cases q; simp)

text \<open>Everybody outside the line and the first in it can move.\<close>

lemma clh_advances:
  assumes it: "iter_inv b c" and line: "clh_line n c x Q"
    and i: "i < n" "pc (snd c i) \<noteq> Finished" "in_line (snd c i) \<Longrightarrow> hd Q = i"
  shows "advances clhqueue_sync 3 clh_rank clh_urank (iters b i) i (fst c) (snd c i)"
proof -
  have "clh_line n (fst c, snd c) x Q" using line by simp
  note line' = this
  have ok: "pc (snd c i) \<noteq> Crashed" by (rule clh_line_parts(10) [OF line' i(1)])
  have node: "node_of (snd c i) \<noteq> None" using clh_line_parts(3) [OF line' i(1)] by simp
  show ?thesis
  proof (cases "pc (snd c i)")
    case (InLock p)
    then obtain a where "p \<noteq> LoadPredLocked \<longrightarrow> myNode (tls (snd c i)) = Some a"
      "p = LoadPredLocked \<longrightarrow> myPred (tls (snd c i)) = Some a \<and> \<not> node_locked (fst c) a"
      using node clh_spin [OF line' i(1)] i(3) by (cases p) (auto simp: node_of_def)
    with InLock show ?thesis
      by (cases p) (auto intro!: advances_lock clh_rank_less simp: clhqueue_sync_def atomic_exchange_def)
  next
    case (InUnlock q)
    with node show ?thesis
      by (cases q) (auto intro!: advances_unlock clh_rank_less simp: clhqueue_sync_def node_of_def)
  qed (use i it ok in \<open>auto intro!: advances_in_loop clh_rank_less\<close>)
qed

lemma clh_unstuck:
  assumes valid: "valid_bench b" and reach: "sync_reach clhqueue_sync b (clh_mem0 g) (clh_prepared v) c"
    and unfinished: "\<not> all_finished (nr_threads b) c"
  shows "\<exists>is. total_rank 3 clh_rank clh_urank b
      (run_sched (sync_prog clhqueue_sync b) (nr_threads b) is c)
    < total_rank 3 clh_rank clh_urank b c"
proof -
  have it: "iter_inv b c" by (rule sync_reach_iter_inv [OF valid reach])
  from clh_queue_reach [OF reach] obtain x Q where line: "clh_line (nr_threads b) (fst c, snd c) x Q"
    by auto
  obtain i where "i < nr_threads b" "pc (snd c i) \<noteq> Finished" "in_line (snd c i) \<Longrightarrow> hd Q = i"
  proof (cases Q)
    case Nil
    then have "\<not> in_line (snd c i)" if "i < nr_threads b" for i
      using clh_line_parts(2) [OF line] that by auto
    then show ?thesis using unfinished that by (auto simp: all_finished_def)
  next
    case (Cons i Q')
    then have "i < nr_threads b" "in_line (snd c i)" using clh_line_parts(2) [OF line] by auto
    moreover then have "pc (snd c i) \<noteq> Finished" by auto
    ultimately show ?thesis using Cons that by simp
  qed
  with clh_advances [OF it _, of "nr_threads b" x Q i] line total_rank_advances show ?thesis
    by (metis prod.collapse)
qed

interpretation clh: live_lock valid_bench "\<lambda>_. clhqueue_sync" "\<lambda>_. clh_mem0 g" "\<lambda>_. clh_prepared v"
  "\<lambda>_. 3" "\<lambda>_. clh_rank" "\<lambda>_. clh_urank" for g v
proof unfold_locales
  fix b c i j
  assume "sync_reach clhqueue_sync b (clh_mem0 g) (clh_prepared v) c"
    and ij: "i < nr_threads b" "j < nr_threads b" "in_cs (snd c i)" "in_cs (snd c j)"
  then obtain x Q where line: "clh_line (nr_threads b) (fst c, snd c) x Q"
    using clh_queue_reach by fastforce
  obtain Q1 where "Q = i # Q1" by (rule clh_line_first [OF line ij(1)]) (use ij in \<open>auto simp: in_cs_def\<close>)
  moreover obtain Q2 where "Q = j # Q2" by (rule clh_line_first [OF line ij(2)]) (use ij in \<open>auto simp: in_cs_def\<close>)
  ultimately show "i = j" by simp
next
  fix b c i
  assume r: "sync_reach clhqueue_sync b (clh_mem0 g) (clh_prepared v) c"
  show "pc (snd c i) \<noteq> Crashed"
  proof (cases "i < nr_threads b")
    case True
    from r obtain x Q where "clh_line (nr_threads b) (fst c, snd c) x Q"
      using clh_queue_reach by fastforce
    from clh_line_parts(10) [OF this True] show ?thesis .
  next
    case False
    then show ?thesis using sync_reach_idle [OF r, of i] by simp
  qed
qed (assumption, rule clh_unstuck)

interpretation clh: fifo_lock valid_bench "\<lambda>_. clhqueue_sync" "\<lambda>_. clh_mem0 g" "\<lambda>_. clh_prepared v"
  clh_door clh_queue for g v
  by unfold_locales (simp_all add: clh_queue_init clh_queue_step)

text \<open>The executions of a benchmark, each with memory for the nodes that holds anything.\<close>

lemma clh_all_executions:
  assumes "\<And>x. x \<in> set xs \<Longrightarrow> (\<exists>g. snd x = clh_prepare g) \<and> valid_bench (fst x) \<and>
    (\<Sum>i<nr_threads (fst x). iters (fst x) i) = amount"
  shows "all_complete (\<lambda>_. clhqueue_sync) xs amount m"
proof (rule all_completeI [where left = "\<lambda>_. True"])
  fix b p and m :: "clh_env \<times> (nat \<Rightarrow> clh_tls)" and sched
  assume "(b, p) \<in> set xs"
  from assms [OF this] obtain g where "p = clh_prepare g" and b: "valid_bench b" "(\<Sum>i<nr_threads b. iters b i) = amount"
    by auto
  with clh_prepare_eq [of g m] obtain g' where "p m = (clh_mem0 g', clh_prepared (snd m))" by auto
  with clh.completes_serialised [OF b(1)] b(2) show "completes_with clhqueue_sync b (p m) sched amount"
    by (intro completes_withI) auto
qed simp_all

section \<open>Properties\<close>

text \<open>
  The CLH lock benchmark: whatever the nodes held before and whatever instructions have run, in
  whatever order the scheduler chose, some continuation lets every thread finish; in the completed
  run the critical sections are serialised (no thread enters while another is inside), each thread
  has executed \<open>useful_in\<close> exactly \<open>nr_iter\<close> times, and no null pointer was followed.
\<close>

theorem clh_contract:
  assumes "valid_bench b"
  shows "\<exists>more.
    all_finished (nr_threads b) (sync_run clhqueue_sync b (clh_mem0 g) clh_tls0 (sched @ more)) \<and>
    lock_spec None (cs_trace clhqueue_sync b (clh_mem0 g) clh_tls0 (sched @ more)) = Some None \<and>
    (\<forall>i<nr_threads b.
       int (entries i (cs_trace clhqueue_sync b (clh_mem0 g) clh_tls0 (sched @ more))) = iters b i)"
  unfolding clh_tls0_def using assms by (rule clh.completes_serialised)

theorem clh_contract_witness:
  "\<exists>more.
    all_finished 2 (sync_run clhqueue_sync two_threads (clh_mem0 (\<lambda>_. True)) clh_tls0 ([0, 1, 0, 1] @ more)) \<and>
    lock_spec None
      (cs_trace clhqueue_sync two_threads (clh_mem0 (\<lambda>_. True)) clh_tls0 ([0, 1, 0, 1] @ more)) = Some None \<and>
    (\<forall>i<2. int (entries i
      (cs_trace clhqueue_sync two_threads (clh_mem0 (\<lambda>_. True)) clh_tls0 ([0, 1, 0, 1] @ more))) = 1)"
  using clh_contract [of two_threads "\<lambda>_. True" "[0, 1, 0, 1]"] by simp

text \<open>
  C4: The CLH lock is first come, first served: in every run the threads enter their critical
  sections in the order in which they swapped their nodes into \<open>tail\<close>.
\<close>

theorem clh_fifo:
  assumes "valid_bench b"
  shows "prefix
    (order_of Served (fifo_trace clh_door clhqueue_sync b (clh_mem0 g) clh_tls0 sched))
    (order_of Arrive (fifo_trace clh_door clhqueue_sync b (clh_mem0 g) clh_tls0 sched))"
  unfolding clh_tls0_def using assms by (rule clh.first_come_first_served)

theorem clh_fifo_witness:
  "prefix
    (order_of Served (fifo_trace clh_door clhqueue_sync two_threads (clh_mem0 (\<lambda>_. True)) clh_tls0 [1, 0, 1, 1, 0]))
    (order_of Arrive (fifo_trace clh_door clhqueue_sync two_threads (clh_mem0 (\<lambda>_. True)) clh_tls0 [1, 0, 1, 1, 0]))"
  using clh_fifo [of two_threads "\<lambda>_. True" "[1, 0, 1, 1, 0]"] by simp

end
