(* ===== verification/RA_CLH.thy ===== *)
theory RA_CLH
  imports Release_Acquire CLH_Lock
begin

text \<open>
  The acquire/release variant of the CLH queue lock (\<open>benchmark/blocking/CLHQueueLock/clhqueue_lock_ar.cpp\<close>)
  under the memory model. The source exchanges \<open>tail\<close> relaxed, after the inline assembly of \<open>mem_fence\<close>,
  and its comments call this a substitute for release and consume; the language gives no meaning to
  the assembly, which is no access here. The order of the exchange is a parameter: with an exchange that
  acquires and releases, the lock is correct, by a simulation by the sequentially consistent
  variant of \<open>CLH_Lock\<close>; relaxed, it is not a lock.
\<close>

section \<open>The code\<close>

text \<open>The shared variables; pointers are stored as numbers.\<close>

datatype clh_var = Tail_ptr | Locked_of clh_node

fun ptr_code :: "node_ptr \<Rightarrow> int" where
  "ptr_code None = -1"
| "ptr_code (Some Common_node) = 0"
| "ptr_code (Some (Allocated i)) = int i + 1"

definition ptr_at :: "int \<Rightarrow> node_ptr" where
  "ptr_at k = (if k < 0 then None else if k = 0 then Some Common_node else Some (Allocated (nat (k - 1))))"

lemma ptr_at_code [simp]: "ptr_at (ptr_code p) = p"
  by (cases p rule: ptr_code.cases) (simp_all add: ptr_at_def)

text \<open>The labels and the \<open>thread_local\<close> variables are those of the sequentially consistent variant.\<close>

fun clh_ar_lock ::
  "memory_order \<Rightarrow> nat \<Rightarrow> clh_tls \<Rightarrow> clh_lock_label \<Rightarrow> (clh_var, clh_tls \<times> clh_lock_label outcome) access" where
  "clh_ar_lock exchange tid v StoreMyLocked =
     (case myNode v of
        None \<Rightarrow> Local (v, Crash)
      | Some a \<Rightarrow> Store Relaxed (Locked_of a) 1 (v, Goto ExchangeTail))"
| "clh_ar_lock exchange tid v ExchangeTail =
     Update exchange Tail_ptr (\<lambda>_. ptr_code (myNode v)) (\<lambda>old. (v\<lparr>myPred := ptr_at old\<rparr>, Goto LoadPredLocked))"
| "clh_ar_lock exchange tid v LoadPredLocked =
     (case myPred v of
        None \<Rightarrow> Local (v, Crash)
      | Some a \<Rightarrow> Load Acquire (Locked_of a) (\<lambda>b. (v, if b \<noteq> 0 then Goto LoadPredLocked else Return)))"

fun clh_ar_unlock ::
  "nat \<Rightarrow> clh_tls \<Rightarrow> clh_unlock_label \<Rightarrow> (clh_var, clh_tls \<times> clh_unlock_label outcome) access" where
  "clh_ar_unlock tid v StoreMyUnlocked =
     (case myNode v of
        None \<Rightarrow> Local (v, Crash)
      | Some a \<Rightarrow> Store Release (Locked_of a) 0 (v, Goto TakePred))"
| "clh_ar_unlock tid v TakePred = Local (v\<lparr>myNode := myPred v\<rparr>, Return)"

definition clhqueue_ar_sync :: "memory_order \<Rightarrow> (clh_var, clh_tls, clh_lock_label, clh_unlock_label) ra_code" where
  "clhqueue_ar_sync exchange =
     \<lparr>ra_lock_entry = StoreMyLocked, ra_lock = clh_ar_lock exchange,
      ra_unlock_entry = StoreMyUnlocked, ra_unlock = clh_ar_unlock\<rparr>"

text \<open>After \<open>init_per_exec_global\<close>; the allocated nodes hold anything.\<close>

fun clh_ar_vals :: "(nat \<Rightarrow> bool) \<Rightarrow> clh_var \<Rightarrow> int" where
  "clh_ar_vals g Tail_ptr = ptr_code (Some Common_node)"
| "clh_ar_vals g (Locked_of Common_node) = 0"
| "clh_ar_vals g (Locked_of (Allocated i)) = of_bool (g i)"

section \<open>The invariant\<close>

type_synonym clh_ar_cfg = "(clh_var, clh_tls, clh_lock_label, clh_unlock_label) ra_cfg"

text \<open>The positions of the newest messages of the flags and of \<open>tail\<close>, and the memory they make up.\<close>

record clh_ghost =
  flag_top :: "clh_node \<Rightarrow> nat"
  drawn :: nat

definition newest :: "clh_var memory \<Rightarrow> clh_ghost \<Rightarrow> clh_env" where
  "newest m g = \<lparr>clh_tail = ptr_at (fst (the (m Tail_ptr (drawn g)))),
     node_locked = (\<lambda>a. fst (the (m (Locked_of a) (flag_top g a))) \<noteq> 0)\<rparr>"

definition tops :: "clh_var memory \<Rightarrow> clh_ghost \<Rightarrow> bool" where
  "tops m g \<longleftrightarrow> (\<forall>t. m Tail_ptr t \<noteq> None \<longleftrightarrow> t \<le> drawn g) \<and>
     (\<forall>a. m (Locked_of a) (flag_top g a) \<noteq> None \<and> (\<forall>t. m (Locked_of a) t \<noteq> None \<longrightarrow> t \<le> flag_top g a))"

text \<open>Whoever knows \<open>V\<close> takes no old release of the node for the one it waits for.\<close>

definition fresh :: "clh_var memory \<Rightarrow> clh_ghost \<Rightarrow> clh_var view \<Rightarrow> clh_node \<Rightarrow> bool" where
  "fresh m g V a \<longleftrightarrow>
     (\<forall>t W. m (Locked_of a) t = Some (0, W) \<longrightarrow> seen V (Locked_of a) \<le> t \<longrightarrow> t = flag_top g a)"

definition holds_lock :: "clh_thread \<Rightarrow> bool" where
  "holds_lock t \<longleftrightarrow> pc t \<in> {UsefulIn, InUnlock StoreMyUnlocked}"

definition tail_known :: "clh_var memory \<Rightarrow> clh_ghost \<Rightarrow> bool" where
  "tail_known m g \<longleftrightarrow> (\<exists>a W. m Tail_ptr (drawn g) = Some (ptr_code (Some a), W) \<and> fresh m g W a)"

definition nodes_known :: "nat \<Rightarrow> clh_ar_cfg \<Rightarrow> clh_ghost \<Rightarrow> bool" where
  "nodes_known n c g \<longleftrightarrow> (\<forall>i<n. \<forall>a.
     (node_of (threads c i) = Some a \<longrightarrow> flag_top g a \<le> seen (views c i) (Locked_of a)) \<and>
     (pc (threads c i) = InLock LoadPredLocked \<longrightarrow> myPred (tls (threads c i)) = Some a \<longrightarrow>
        fresh (messages c) g (views c i) a))"

definition sections_known :: "nat \<Rightarrow> clh_ar_cfg \<Rightarrow> clh_ghost \<Rightarrow> clh_node \<Rightarrow> bool" where
  "sections_known n c g x \<longleftrightarrow>
     (\<forall>i<n. holds_lock (threads c i) \<longrightarrow>
        flag_top g x \<le> seen (views c i) (Locked_of x) \<and> (\<forall>j. left c j \<le> clock (views c i) j)) \<and>
     ((\<forall>i<n. \<not> holds_lock (threads c i)) \<longrightarrow>
        (\<exists>W. messages c (Locked_of x) (flag_top g x) = Some (0, W) \<and> (\<forall>j. left c j \<le> clock W j)))"

definition clh_ar_inv :: "nat \<Rightarrow> clh_ar_cfg \<Rightarrow> clh_ghost \<Rightarrow> clh_node \<Rightarrow> nat list \<Rightarrow> bool" where
  "clh_ar_inv n c g x Q \<longleftrightarrow> tops (messages c) g \<and> clh_line n (newest (messages c) g, threads c) x Q \<and>
     tail_known (messages c) g \<and> nodes_known n c g \<and> sections_known n c g x \<and>
     (\<forall>i\<ge>n. pc (threads c i) = ForTest)"

lemma clh_ar_invD:
  assumes "clh_ar_inv n c g x Q"
  shows "tops (messages c) g" and "clh_line n (newest (messages c) g, threads c) x Q"
    and "tail_known (messages c) g" and "nodes_known n c g" and "sections_known n c g x"
    and "n \<le> i \<Longrightarrow> pc (threads c i) = ForTest"
  using assms by (simp_all add: clh_ar_inv_def)

lemma topsD:
  assumes "tops m g"
  shows "m Tail_ptr t \<noteq> None \<longleftrightarrow> t \<le> drawn g" and "m (Locked_of a) (flag_top g a) \<noteq> None"
    and "m (Locked_of a) t = Some y \<Longrightarrow> t \<le> flag_top g a"
  using assms by (auto simp: tops_def)

lemma nodes_knownD:
  assumes "nodes_known n c g" and "i < n"
  shows "node_of (threads c i) = Some a \<Longrightarrow> flag_top g a \<le> seen (views c i) (Locked_of a)"
    and "pc (threads c i) = InLock LoadPredLocked \<Longrightarrow> myPred (tls (threads c i)) = Some a \<Longrightarrow>
      fresh (messages c) g (views c i) a"
  using assms unfolding nodes_known_def by blast+

lemma sections_knownD:
  assumes "sections_known n c g x" and "i < n" and "holds_lock (threads c i)"
  shows "flag_top g x \<le> seen (views c i) (Locked_of x)" and "left c j \<le> clock (views c i) j"
  using assms unfolding sections_known_def by blast+

lemma fresh_mono: "fresh m g V a \<Longrightarrow> seen V (Locked_of a) \<le> seen V' (Locked_of a) \<Longrightarrow> fresh m g V' a"
  unfolding fresh_def by (meson order_trans)

lemma fresh_top: "tops m g \<Longrightarrow> flag_top g a \<le> seen V (Locked_of a) \<Longrightarrow> fresh m g V a"
  unfolding fresh_def by (meson order_trans antisym topsD(3))

lemma holds_lock_pc [simp]:
  "pc t = ForTest \<Longrightarrow> \<not> holds_lock t" "pc t = InLock p \<Longrightarrow> \<not> holds_lock t" "pc t = UsefulIn \<Longrightarrow> holds_lock t"
  "pc t = InUnlock q \<Longrightarrow> holds_lock t \<longleftrightarrow> q = StoreMyUnlocked" "pc t = UsefulOut \<Longrightarrow> \<not> holds_lock t"
  "pc t = Finished \<Longrightarrow> \<not> holds_lock t"
  by (simp_all add: holds_lock_def)

text \<open>The holder is the first in line, and so the only one.\<close>

lemma clh_holder_first:
  assumes "clh_line n (s, ls) x Q" and "i < n" and "holds_lock (ls i)"
  obtains Q' where "Q = i # Q'"
  by (rule clh_line_first [OF assms(1,2)]) (use assms(3) in \<open>auto simp: holds_lock_def in_line_def\<close>)

lemma clh_holder_unique:
  assumes "clh_line n (s, ls) x Q" and "i < n" "holds_lock (ls i)" and "j < n" "holds_lock (ls j)"
  shows "j = i"
proof -
  obtain Q1 where "Q = i # Q1" by (rule clh_holder_first [OF assms(1-3)])
  moreover obtain Q2 where "Q = j # Q2" by (rule clh_holder_first [OF assms(1,4,5)])
  ultimately show ?thesis by simp
qed

text \<open>A node somebody waits for, or at the end of the line: nobody's, or that of a thread in line.\<close>

lemma linked_owner: "linked ls p Q \<Longrightarrow> i \<in> set Q \<Longrightarrow> myPred (tls (ls i)) = p \<or> (\<exists>k\<in>set Q. myPred (tls (ls i)) = node_of (ls k))"
  by (induction ls p Q rule: linked.induct) auto

lemma last_node_owner: "last_node ls p Q = p \<or> (\<exists>k\<in>set Q. last_node ls p Q = node_of (ls k))"
  by (induction ls p Q rule: last_node.induct) auto

lemma not_own_node:
  assumes line: "clh_line n (s, ls) x Q" and i: "i < n" "\<not> in_line (ls i)" "node_of (ls i) = Some a"
  shows "clh_tail s \<noteq> Some a" and "a \<noteq> x"
    and "j < n \<Longrightarrow> pc (ls j) = InLock LoadPredLocked \<Longrightarrow> myPred (tls (ls j)) \<noteq> Some a"
proof -
  note p = clh_line_parts [OF line]
  have other: "node_of (ls k) \<noteq> Some a" if "k \<in> set Q" for k
    using clh_line_node [OF line, of k i] that p(2) i by auto
  show "a \<noteq> x" using p(3) [OF i(1)] i(3) by auto
  with other show "clh_tail s \<noteq> Some a"
    using last_node_owner [of ls "Some x" Q] unfolding p(6) by auto
  show "myPred (tls (ls j)) \<noteq> Some a" if j: "j < n" "pc (ls j) = InLock LoadPredLocked"
  proof -
    have "j \<in> set Q" using p(2) j by simp
    with linked_owner [OF p(5) this] other \<open>a \<noteq> x\<close> show ?thesis by auto
  qed
qed

section \<open>The steps keep the invariant\<close>

lemma clh_ar_start:
  "clh_ar_inv n (ra_init (clh_ar_vals h) clh_tls0) \<lparr>flag_top = \<lambda>_. 0, drawn = 0\<rparr> Common_node []"
proof -
  let ?c = "ra_init (clh_ar_vals h) clh_tls0" and ?g = "\<lparr>flag_top = \<lambda>_. 0, drawn = 0\<rparr>"
  have "newest (messages ?c) ?g = clh_mem0 (\<lambda>a. case a of Common_node \<Rightarrow> False | Allocated i \<Rightarrow> h i)"
    by (auto simp: newest_def ra_init_def clh_mem0_def init_per_exec_global_def ptr_at_def fun_eq_iff split: clh_node.split)
  moreover have "threads ?c = snd (sync_init s clh_tls0)" for s :: clh_env
    by (simp add: ra_init_def sync_init_def)
  ultimately have "clh_line n (newest (messages ?c) ?g, threads ?c) Common_node []"
    using clh_line_init [of n _ clh_static_tls] unfolding clh_tls0_def by (metis prod.collapse sync_init_def fst_conv)
  then show ?thesis
    by (auto simp: clh_ar_inv_def tops_def tail_known_def nodes_known_def sections_known_def fresh_def ra_init_def
        intro!: exI [of _ Common_node])
qed

text \<open>Accesses that write nothing, without a change of the thread's place or node.\<close>

lemma clh_ar_quiet:
  assumes inv: "clh_ar_inv n c g x Q" and i: "i < n"
    and V: "\<And>y. seen (views c i) y \<le> seen V' y" "\<And>j. clock (views c i) j \<le> clock V' j"
    and line: "in_line t' = in_line (threads c i)" "node_of t' = node_of (threads c i)" "pc t' \<noteq> Crashed"
      "in_line t' \<Longrightarrow> tls t' = tls (threads c i)" "pc t' \<noteq> InLock ExchangeTail"
      "pc t' = InLock LoadPredLocked \<longleftrightarrow> pc (threads c i) = InLock LoadPredLocked"
    and left: "left c' = left c \<or> holds_lock (threads c i) \<and> left c' = (left c)(i := clock V' i)"
    and c': "messages c' = messages c" "views c' = (views c)(i := V')" "threads c' = (threads c)(i := t')"
  shows "clh_ar_inv n c' g x Q"
proof -
  note I = clh_ar_invD [OF inv]
  have same: "holds_lock t' = holds_lock (threads c i)"
    using line(1,6) by (auto simp: in_line_def holds_lock_def)
  have "clh_line n (newest (messages c') g, threads c') x Q"
    unfolding c'
  proof (rule clh_line_keep [OF I(2) i])
    show "node_locked (newest (messages c) g) a"
      if "in_line t' \<or> pc t' = InLock ExchangeTail" "node_of t' = Some a" for a
      using clh_line_parts(8) [OF I(2) i, of a] that line(1,2,5) by simp
    show "pc t' = InLock LoadPredLocked" if "i \<in> set (tl Q)"
      using clh_line_parts(9) [OF I(2) that] line(6) by simp
  qed (use line in simp_all)
  moreover have "nodes_known n c' g"
    unfolding nodes_known_def
  proof (intro allI impI conjI)
    fix j a
    assume j: "j < n" and a: "node_of (threads c' j) = Some a"
    then show "flag_top g a \<le> seen (views c' j) (Locked_of a)"
      using nodes_knownD(1) [OF I(4), of j a] order_trans [OF _ V(1)] line(2) by (auto simp: c')
  next
    fix j a
    assume j: "j < n" and a: "pc (threads c' j) = InLock LoadPredLocked" "myPred (tls (threads c' j)) = Some a"
    show "fresh (messages c') g (views c' j) a"
    proof (cases "j = i")
      case True
      with a have t': "pc t' = InLock LoadPredLocked" "myPred (tls t') = Some a" by (simp_all add: c')
      then have "pc (threads c i) = InLock LoadPredLocked" "myPred (tls (threads c i)) = Some a"
        using line(4,6) by simp_all
      from fresh_mono [OF nodes_knownD(2) [OF I(4) i this] V(1)] True show ?thesis by (simp add: c')
    next
      case False
      with nodes_knownD(2) [OF I(4) j] a show ?thesis by (simp add: c')
    qed
  qed
  moreover have "sections_known n c' g x"
    unfolding sections_known_def
  proof (intro conjI allI impI)
    fix j
    assume j: "j < n" "holds_lock (threads c' j)"
    then have h: "holds_lock (threads c j)" using same by (auto simp: c' split: if_splits)
    show "flag_top g x \<le> seen (views c' j) (Locked_of x)"
      using sections_knownD(1) [OF I(5) j(1) h] order_trans [OF _ V(1)] by (auto simp: c')
    fix k
    have le: "left c k \<le> clock (views c j) k" by (rule sections_knownD(2) [OF I(5) j(1) h])
    have le': "left c k \<le> clock (views c' j) k" using le V(2) [of k] by (cases "j = i") (simp_all add: c')
    from left show "left c' k \<le> clock (views c' j) k"
    proof
      assume "left c' = left c"
      with le' show ?thesis by simp
    next
      assume l: "holds_lock (threads c i) \<and> left c' = (left c)(i := clock V' i)"
      with clh_holder_unique [OF I(2) i _ j(1) h] have "j = i" by simp
      with l le' show ?thesis by (simp add: c')
    qed
  next
    assume none: "\<forall>j<n. \<not> holds_lock (threads c' j)"
    then have "\<not> holds_lock (threads c j)" if "j < n" for j
      using that same by (cases "j = i") (auto simp: c' dest: spec [of _ j])
    then obtain W where "messages c (Locked_of x) (flag_top g x) = Some (0, W)" "\<forall>j. left c j \<le> clock W j"
      using I(5) unfolding sections_known_def by blast
    moreover have "left c' = left c" using left \<open>\<And>j. j < n \<Longrightarrow> \<not> holds_lock (threads c j)\<close> i by blast
    ultimately show "\<exists>W. messages c' (Locked_of x) (flag_top g x) = Some (0, W) \<and> (\<forall>j. left c' j \<le> clock W j)"
      by (simp add: c')
  qed
  moreover have "\<forall>j\<ge>n. pc (threads c' j) = ForTest" using I(6) i by (auto simp: c')
  ultimately show ?thesis using I(1,3) by (simp add: clh_ar_inv_def c')
qed

text \<open>Messages to a flag that become its newest.\<close>

lemma tops_store:
  assumes "tops m g" and "flag_top g a < t"
  shows "tops (m(Locked_of a := (m (Locked_of a))(t \<mapsto> y))) (g\<lparr>flag_top := (flag_top g)(a := t)\<rparr>)"
  unfolding tops_def
proof (intro conjI allI impI)
  fix b s
  assume "(m(Locked_of a := (m (Locked_of a))(t \<mapsto> y))) (Locked_of b) s \<noteq> None"
  then show "s \<le> flag_top (g\<lparr>flag_top := (flag_top g)(a := t)\<rparr>) b"
    using assms(2) by (cases "b = a"; cases "s = t") (auto dest!: topsD(3) [OF assms(1)])
qed (use topsD(1,2) [OF assms(1)] in auto)

lemma newest_store:
  assumes "tops m g"
  shows "clh_tail (newest (m(Locked_of a := (m (Locked_of a))(t \<mapsto> (v, W)))) (g\<lparr>flag_top := (flag_top g)(a := t)\<rparr>)) = clh_tail (newest m g)"
    and "node_locked (newest (m(Locked_of a := (m (Locked_of a))(t \<mapsto> (v, W)))) (g\<lparr>flag_top := (flag_top g)(a := t)\<rparr>)) =
      (node_locked (newest m g))(a := v \<noteq> 0)"
  by (auto simp: newest_def fun_eq_iff)

lemma fresh_store_other:
  assumes "b \<noteq> a"
  shows "fresh (m(Locked_of a := (m (Locked_of a))(t \<mapsto> y))) (g\<lparr>flag_top := (flag_top g)(a := t)\<rparr>) V b = fresh m g V b"
  using assms by (simp add: fresh_def)

text \<open>\<open>lock()\<close> marks the own node as locked.\<close>

lemma clh_ar_mark:
  assumes inv: "clh_ar_inv n c g x Q" and i: "i < n" and pc: "pc (threads c i) = InLock StoreMyLocked"
    and step: "performs i (clh_ar_lock ord i (tls (threads c i)) StoreMyLocked) (messages c, views c i) (v', r) (m', V')"
  shows "\<exists>g. clh_ar_inv n (c\<lparr>messages := m', views := (views c)(i := V'),
    threads := (threads c)(i := (threads c i)\<lparr>tls := v', pc := after_lock r\<rparr>)\<rparr>) g x Q"
proof -
  note I = clh_ar_invD [OF inv]
  have node: "node_of (threads c i) = myNode (tls (threads c i))" using pc by (simp add: node_of_def)
  with clh_line_parts(3) [OF I(2) i] obtain a where a: "myNode (tls (threads c i)) = Some a" by auto
  from step a obtain t where t: "seen (views c i) (Locked_of a) < t" and V': "V' = observes (Locked_of a) t (tick i (views c i))"
    and m': "m' = (messages c)(Locked_of a := (messages c (Locked_of a))(t \<mapsto> (1, observes (Locked_of a) t nothing)))"
    and r: "v' = tls (threads c i)" "r = Goto ExchangeTail"
    by (auto elim!: performs_storeE simp: releases_def)
  let ?t = "(threads c i)\<lparr>tls := v', pc := after_lock r\<rparr>" and ?g = "g\<lparr>flag_top := (flag_top g)(a := t)\<rparr>"
  let ?c = "c\<lparr>messages := m', views := (views c)(i := V'), threads := (threads c)(i := ?t)\<rparr>"
  have out: "\<not> in_line (threads c i)" using pc by simp
  have own: "node_of (threads c i) = Some a" using node a by simp
  note foreign = not_own_node [OF I(2) i out own]
  have less: "flag_top g a < t" using nodes_knownD(1) [OF I(4) i own] t by simp
  have env: "clh_tail (newest m' ?g) = clh_tail (newest (messages c) g)"
    "node_locked (newest m' ?g) = (node_locked (newest (messages c) g))(a := True)"
    unfolding m' using newest_store [OF I(1)] by simp_all
  have "tops m' ?g" unfolding m' by (rule tops_store [OF I(1) less])
  moreover have "clh_line n (newest m' ?g, (threads c)(i := ?t)) x Q"
  proof (rule clh_line_keep [OF I(2) i])
    have "i \<notin> set Q" using clh_line_parts(2) [OF I(2)] out by simp
    then show "pc ?t = InLock LoadPredLocked" if "i \<in> set (tl Q)" using that by (cases Q) auto
  qed (use pc r own a in \<open>auto simp: env node_of_def\<close>)
  moreover have "tail_known m' ?g"
  proof -
    from I(3) obtain b W where b: "messages c Tail_ptr (drawn g) = Some (ptr_code (Some b), W)" "fresh (messages c) g W b"
      unfolding tail_known_def by blast
    then have "clh_tail (newest (messages c) g) = Some b" by (simp add: newest_def del: ptr_code.simps)
    with foreign(1) have "b \<noteq> a" by simp
    with b show ?thesis unfolding tail_known_def m' by (auto simp: fresh_store_other simp del: ptr_code.simps)
  qed
  moreover have "nodes_known n ?c ?g"
    unfolding nodes_known_def
  proof (intro allI impI conjI)
    fix j b
    assume j: "j < n" and b: "node_of (threads ?c j) = Some b"
    show "flag_top ?g b \<le> seen (views ?c j) (Locked_of b)"
    proof (cases "j = i")
      case True
      with b r a pc have "b = a" by (simp add: node_of_def)
      with True show ?thesis by (simp add: V')
    next
      case False
      with b own clh_line_node [OF I(2) j i] have "b \<noteq> a" by auto
      with False b nodes_knownD(1) [OF I(4) j] show ?thesis by simp
    qed
  next
    fix j b
    assume j: "j < n" "pc (threads ?c j) = InLock LoadPredLocked" "myPred (tls (threads ?c j)) = Some b"
    then have "j \<noteq> i" using r by auto
    with j foreign(3) [OF j(1)] have "b \<noteq> a" by auto
    with j \<open>j \<noteq> i\<close> nodes_knownD(2) [OF I(4) j(1)] show "fresh (messages ?c) ?g (views ?c j) b"
      by (simp add: m' fresh_store_other)
  qed
  moreover have "sections_known n ?c ?g x"
  proof -
    have h: "holds_lock (threads ?c j) \<longleftrightarrow> holds_lock (threads c j)" "holds_lock (threads c j) \<Longrightarrow> j \<noteq> i" for j
      using pc r by auto
    then have v: "holds_lock (threads c j) \<Longrightarrow> views ?c j = views c j" for j by simp
    show ?thesis using I(5) foreign(2) h(1) v unfolding sections_known_def m' by simp
  qed
  moreover have "\<forall>j\<ge>n. pc (threads ?c j) = ForTest" using I(6) i by auto
  ultimately have "clh_ar_inv n ?c ?g x Q" by (simp add: clh_ar_inv_def)
  then show ?thesis by blast
qed

text \<open>It swaps it into \<open>tail\<close>, and learns of the node found there what its last owner knew.\<close>

lemma clh_ar_arrive:
  assumes inv: "clh_ar_inv n c g x Q" and i: "i < n" and pc: "pc (threads c i) = InLock ExchangeTail"
    and step: "performs i (clh_ar_lock Acq_rel i (tls (threads c i)) ExchangeTail) (messages c, views c i) (v', r) (m', V')"
  shows "\<exists>g. clh_ar_inv n (c\<lparr>messages := m', views := (views c)(i := V'),
    threads := (threads c)(i := (threads c i)\<lparr>tls := v', pc := after_lock r\<rparr>)\<rparr>) g x (Q @ [i])"
proof -
  note I = clh_ar_invD [OF inv]
  have node: "node_of (threads c i) = myNode (tls (threads c i))" using pc by (simp add: node_of_def)
  with clh_line_parts(3) [OF I(2) i] obtain a where a: "myNode (tls (threads c i)) = Some a" by auto
  from I(3) obtain p W where p: "messages c Tail_ptr (drawn g) = Some (ptr_code (Some p), W)" "fresh (messages c) g W p"
    unfolding tail_known_def by blast
  have tail: "clh_tail (newest (messages c) g) = Some p" using p(1) by (simp add: newest_def del: ptr_code.simps)
  from step obtain t v U where tU: "messages c Tail_ptr t = Some (v, U)" "messages c Tail_ptr (Suc t) = None"
    and V': "V' = join (observes Tail_ptr (Suc t) (tick i (views c i))) U"
    and m': "m' = (messages c)(Tail_ptr := (messages c Tail_ptr)(Suc t \<mapsto>
      (ptr_code (myNode (tls (threads c i))), observes Tail_ptr (Suc t) (join U V'))))"
    and r: "v' = (tls (threads c i))\<lparr>myPred := ptr_at v\<rparr>" "r = Goto LoadPredLocked"
    by (auto elim!: performs_updateE simp: releases_def acquires_def)
  have "t \<le> drawn g" "\<not> Suc t \<le> drawn g" using topsD(1) [OF I(1), of t] topsD(1) [OF I(1), of "Suc t"] tU by simp_all
  then have t: "t = drawn g" by simp
  with tU(1) p(1) have vU: "v = ptr_code (Some p)" "U = W" by simp_all
  let ?t = "(threads c i)\<lparr>tls := v', pc := after_lock r\<rparr>" and ?g = "g\<lparr>drawn := Suc (drawn g)\<rparr>"
  let ?c = "c\<lparr>messages := m', views := (views c)(i := V'), threads := (threads c)(i := ?t)\<rparr>"
  have eq: "?t = (threads c i)\<lparr>tls := (tls (threads c i))\<lparr>myPred := clh_tail (newest (messages c) g)\<rparr>, pc := InLock LoadPredLocked\<rparr>"
    using r vU(1) tail by (simp del: ptr_code.simps)
  have env: "newest m' ?g = (newest (messages c) g)\<lparr>clh_tail := myNode (tls (threads c i))\<rparr>"
    by (simp add: newest_def m' t)
  have fr: "fresh m' ?g V b = fresh (messages c) g V b" for V b by (simp add: fresh_def m')
  have mono: "seen (views c i) y \<le> seen V' y" if "y \<noteq> Tail_ptr" for y using that by (simp add: V')
  have own: "flag_top g a \<le> seen (views c i) (Locked_of a)"
    using nodes_knownD(1) [OF I(4) i] node a by simp
  have "tops m' ?g"
    using topsD [OF I(1)] tU(2) unfolding tops_def by (auto simp: m' t le_Suc_eq)
  moreover have "clh_line n (newest m' ?g, (threads c)(i := ?t)) x (Q @ [i])"
    unfolding env eq by (rule clh_line_arrive [OF I(2) i pc])
  moreover have "tail_known m' ?g"
  proof -
    have "flag_top g a \<le> seen (observes Tail_ptr (Suc t) (join U V')) (Locked_of a)"
      using own mono [of "Locked_of a"] by simp
    from fresh_top [OF I(1) this] show ?thesis
      unfolding tail_known_def fr by (auto simp: m' t a simp del: ptr_code.simps)
  qed
  moreover have "nodes_known n ?c ?g"
    unfolding nodes_known_def
  proof (intro allI impI conjI)
    fix j b
    assume j: "j < n" and b: "node_of (threads ?c j) = Some b"
    show "flag_top ?g b \<le> seen (views ?c j) (Locked_of b)"
    proof (cases "j = i")
      case True
      with b r a pc have "b = a" by (simp add: node_of_def)
      with True own mono [of "Locked_of a"] show ?thesis by simp
    next
      case False
      with b nodes_knownD(1) [OF I(4) j] show ?thesis by simp
    qed
  next
    fix j b
    assume j: "j < n" "pc (threads ?c j) = InLock LoadPredLocked" "myPred (tls (threads ?c j)) = Some b"
    show "fresh (messages ?c) ?g (views ?c j) b"
    proof (cases "j = i")
      case True
      then have "b = p" using j(3) r vU(1) by (simp del: ptr_code.simps)
      moreover have "fresh (messages c) g V' p" using p(2) by (rule fresh_mono) (simp add: V' vU)
      ultimately show ?thesis using True by (simp add: fr)
    next
      case False
      with j nodes_knownD(2) [OF I(4) j(1)] show ?thesis by (simp add: fr)
    qed
  qed
  moreover have "sections_known n ?c ?g x"
  proof -
    have h: "holds_lock (threads ?c j) \<longleftrightarrow> holds_lock (threads c j)" "holds_lock (threads c j) \<Longrightarrow> j \<noteq> i" for j
      using pc r by auto
    then have v: "holds_lock (threads c j) \<Longrightarrow> views ?c j = views c j" for j by simp
    show ?thesis using I(5) h(1) v unfolding sections_known_def m' by simp
  qed
  moreover have "\<forall>j\<ge>n. pc (threads ?c j) = ForTest" using I(6) i by auto
  ultimately have "clh_ar_inv n ?c ?g x (Q @ [i])" by (simp add: clh_ar_inv_def)
  then show ?thesis by blast
qed

text \<open>It reads the flag of the predecessor: a release it finds is the newest message, that of the front node.\<close>

lemma clh_ar_spin:
  assumes inv: "clh_ar_inv n c g x Q" and i: "i < n" and pc: "pc (threads c i) = InLock LoadPredLocked"
    and step: "performs i (clh_ar_lock ord i (tls (threads c i)) LoadPredLocked) (messages c, views c i) (v', r) (m', V')"
  shows "clh_ar_inv n (c\<lparr>messages := m', views := (views c)(i := V'),
    threads := (threads c)(i := (threads c i)\<lparr>tls := v', pc := after_lock r\<rparr>)\<rparr>) g x Q"
proof -
  note I = clh_ar_invD [OF inv]
  obtain a where a: "myPred (tls (threads c i)) = Some a" "\<not> node_locked (newest (messages c) g) a \<longleftrightarrow> hd Q = i"
    by (rule clh_spin [OF I(2) i pc])
  from step a(1) obtain t b W where t: "messages c (Locked_of a) t = Some (b, W)" "seen (views c i) (Locked_of a) \<le> t"
    and V': "V' = join (observes (Locked_of a) t (tick i (views c i))) W" and m': "m' = messages c"
    and r: "v' = tls (threads c i)" "r = (if b \<noteq> 0 then Goto LoadPredLocked else Return)"
    by (auto elim!: performs_loadE simp: acquires_def)
  let ?t = "(threads c i)\<lparr>tls := v', pc := after_lock r\<rparr>"
  let ?c = "c\<lparr>messages := m', views := (views c)(i := V'), threads := (threads c)(i := ?t)\<rparr>"
  have mono: "seen (views c i) y \<le> seen V' y" "clock (views c i) j \<le> clock V' j" for y j
    using performs_seen_mono [OF step] performs_mono [OF step] by auto
  show ?thesis
  proof (cases "b = 0")
    case False
    show ?thesis
      by (rule clh_ar_quiet [OF inv i mono, where t' = ?t]) (use pc r False in \<open>simp_all add: m' node_of_def\<close>)
  next
    case True
    from nodes_knownD(2) [OF I(4) i pc a(1)] t True have top: "t = flag_top g a" by (simp add: fresh_def)
    with t(1) True have "\<not> node_locked (newest (messages c) g) a" by (simp add: newest_def)
    with a(2) have hd: "hd Q = i" by simp
    have iQ: "i \<in> set Q" using clh_line_parts(2) [OF I(2)] i pc by simp
    then obtain Q' where Q: "Q = i # Q'" using hd by (cases Q) auto
    have ax: "a = x" using clh_line_parts(5) [OF I(2)] a(1) by (simp add: Q)
    have nobody: "\<not> holds_lock (threads c j)" if j: "j < n" for j
    proof
      assume h: "holds_lock (threads c j)"
      obtain Q2 where "Q = j # Q2" by (rule clh_holder_first [OF I(2) j h])
      with Q pc h show False by simp
    qed
    with I(5) obtain U where "messages c (Locked_of x) (flag_top g x) = Some (0, U)" "\<forall>j. left c j \<le> clock U j"
      unfolding sections_known_def by blast
    with t(1) True top ax have left: "left c j \<le> clock V' j" for j by (simp add: V' le_max_iff_disj)
    have "clh_line n (newest m' g, (threads c)(i := ?t)) x Q"
      unfolding m'
    proof (rule clh_line_keep [OF I(2) i])
      show "pc ?t = InLock LoadPredLocked" if "i \<in> set (tl Q)"
        using clh_line_parts(1) [OF I(2)] that Q by simp
      show "node_locked (newest (messages c) g) d" if "in_line ?t \<or> pc ?t = InLock ExchangeTail" "node_of ?t = Some d" for d
        using clh_line_parts(8) [OF I(2) i, of d] that pc r True by (simp add: node_of_def)
    qed (use pc r True in \<open>simp_all add: node_of_def\<close>)
    moreover have "nodes_known n ?c g"
      unfolding nodes_known_def
    proof (intro allI impI conjI)
      fix j b
      assume j: "j < n" and b: "node_of (threads ?c j) = Some b"
      then have "node_of (threads c j) = Some b" using pc r True by (auto simp: node_of_def split: if_splits)
      with nodes_knownD(1) [OF I(4) j] mono(1) [of "Locked_of b"]
      show "flag_top g b \<le> seen (views ?c j) (Locked_of b)" by (cases "j = i") (auto intro: order_trans)
    next
      fix j b
      assume j: "j < n" "pc (threads ?c j) = InLock LoadPredLocked" "myPred (tls (threads ?c j)) = Some b"
      then have "j \<noteq> i" using r True by auto
      with j nodes_knownD(2) [OF I(4) j(1)] show "fresh (messages ?c) g (views ?c j) b" by (simp add: m')
    qed
    moreover have "sections_known n ?c g x"
    proof -
      have "flag_top g x \<le> seen V' (Locked_of x)" using top ax by (simp add: V')
      with nobody left i r True show ?thesis unfolding sections_known_def by (auto split: if_splits)
    qed
    moreover have "\<forall>j\<ge>n. pc (threads ?c j) = ForTest" using I(6) i by auto
    ultimately show ?thesis using I(1,3) by (simp add: clh_ar_inv_def m')
  qed
qed

text \<open>\<open>unlock()\<close> releases the own node, which becomes the front.\<close>

lemma clh_ar_release:
  assumes inv: "clh_ar_inv n c g x Q" and i: "i < n" and pc: "pc (threads c i) = InUnlock StoreMyUnlocked"
    and step: "performs i (clh_ar_unlock i (tls (threads c i)) StoreMyUnlocked) (messages c, views c i) (v', r) (m', V')"
  shows "\<exists>g x Q. clh_ar_inv n (c\<lparr>messages := m', views := (views c)(i := V'),
    threads := (threads c)(i := (threads c i)\<lparr>tls := v', pc := after_unlock r\<rparr>)\<rparr>) g x Q"
proof -
  note I = clh_ar_invD [OF inv]
  have held: "holds_lock (threads c i)" using pc by simp
  obtain Q' where Q: "Q = i # Q'" by (rule clh_holder_first [OF I(2) i held])
  have node: "node_of (threads c i) = myNode (tls (threads c i))" using pc by (simp add: node_of_def)
  with clh_line_parts(3) [OF I(2) i] obtain a where a: "myNode (tls (threads c i)) = Some a" by auto
  have own: "node_of (threads c i) = Some a" using node a by simp
  have pred: "myPred (tls (threads c i)) = Some x" using clh_line_parts(5) [OF I(2)] by (simp add: Q)
  have ax: "a \<noteq> x" using clh_line_parts(3) [OF I(2) i] own by auto
  from step a obtain t where t: "seen (views c i) (Locked_of a) < t" and V': "V' = observes (Locked_of a) t (tick i (views c i))"
    and m': "m' = (messages c)(Locked_of a := (messages c (Locked_of a))(t \<mapsto> (0, V')))"
    and r: "v' = tls (threads c i)" "r = Goto TakePred"
    by (auto elim!: performs_storeE simp: releases_def)
  let ?t = "(threads c i)\<lparr>tls := v', pc := after_unlock r\<rparr>" and ?g = "g\<lparr>flag_top := (flag_top g)(a := t)\<rparr>"
  let ?c = "c\<lparr>messages := m', views := (views c)(i := V'), threads := (threads c)(i := ?t)\<rparr>"
  have less: "flag_top g a < t" using nodes_knownD(1) [OF I(4) i own] t by simp
  have locked: "node_locked (newest (messages c) g) a"
    using clh_line_parts(8) [OF I(2) i _ own] pc by simp
  text \<open>No old release of the node was left to be taken; the new one is the newest.\<close>
  have fr: "fresh m' ?g V b" if "fresh (messages c) g V b" for V b
  proof (cases "b = a")
    case False
    with that show ?thesis by (simp add: m' fresh_store_other)
  next
    case True
    have "fst (the (messages c (Locked_of a) (flag_top g a))) \<noteq> 0" using locked by (simp add: newest_def)
    with that True show ?thesis unfolding fresh_def m' by (auto split: if_splits)
  qed
  have env: "newest m' ?g = (newest (messages c) g)\<lparr>node_locked := (node_locked (newest (messages c) g))(a := False)\<rparr>"
    unfolding m' using newest_store [OF I(1), of a t 0 V'] by (intro clh_env.equality) simp_all
  have "tops m' ?g" unfolding m' by (rule tops_store [OF I(1) less])
  moreover have "clh_line n (newest m' ?g, (threads c)(i := ?t)) a Q'"
    using clh_line_leave [OF I(2) [unfolded Q] pc a] by (simp add: env r)
  moreover have "tail_known m' ?g"
    using I(3) fr unfolding tail_known_def by (fastforce simp: m' simp del: ptr_code.simps)
  moreover have "nodes_known n ?c ?g"
    unfolding nodes_known_def
  proof (intro allI impI conjI)
    fix j b
    assume j: "j < n" and b: "node_of (threads ?c j) = Some b"
    show "flag_top ?g b \<le> seen (views ?c j) (Locked_of b)"
    proof (cases "j = i")
      case True
      with b r pred have "b = x" by (simp add: node_of_def)
      with True ax sections_knownD(1) [OF I(5) i held] show ?thesis by (simp add: V')
    next
      case False
      with b own clh_line_node [OF I(2) j i] have "b \<noteq> a" by auto
      with False b nodes_knownD(1) [OF I(4) j] show ?thesis by simp
    qed
  next
    fix j b
    assume j: "j < n" "pc (threads ?c j) = InLock LoadPredLocked" "myPred (tls (threads ?c j)) = Some b"
    then have "j \<noteq> i" using r by auto
    with j nodes_knownD(2) [OF I(4) j(1)] show "fresh (messages ?c) ?g (views ?c j) b" by (simp add: fr)
  qed
  moreover have "sections_known n ?c ?g a"
  proof -
    have "\<not> holds_lock (threads ?c j)" if "j < n" for j
      using clh_holder_unique [OF I(2) i held that] r by (cases "j = i") auto
    moreover have "left c j \<le> clock V' j" for j
      using sections_knownD(2) [OF I(5) i held, of j] by (cases "j = i") (simp_all add: V')
    ultimately show ?thesis unfolding sections_known_def by (auto simp: m')
  qed
  moreover have "\<forall>j\<ge>n. pc (threads ?c j) = ForTest" using I(6) i by auto
  ultimately have "clh_ar_inv n ?c ?g a Q'" by (simp add: clh_ar_inv_def)
  then show ?thesis by blast
qed

lemma clh_ar_step:
  assumes inv: "clh_ar_inv n c g x Q" and i: "i < n" and step: "ra_step (clhqueue_ar_sync Acq_rel) k i c c'"
  shows "\<exists>g x Q. clh_ar_inv n c' g x Q"
  using step
proof cases
  case ra_for_test
  let ?t = "(threads c i)\<lparr>pc := (if iter (threads c i) \<noteq> k i then InLock StoreMyLocked else Finished)\<rparr>"
  have "clh_ar_inv n c' g x Q"
    by (rule clh_ar_quiet [OF inv i order_refl order_refl, where t' = ?t])
      (use ra_for_test in \<open>auto simp: node_of_def clhqueue_ar_sync_def\<close>)
  then show ?thesis by blast
next
  case (ra_in_lock p v' r m' V')
  have step': "performs i (clh_ar_lock Acq_rel i (tls (threads c i)) p) (messages c, views c i) (v', r) (m', V')"
    using ra_in_lock(3) by (simp add: clhqueue_ar_sync_def)
  show ?thesis
  proof (cases p)
    case StoreMyLocked
    with clh_ar_mark [OF inv i] ra_in_lock(1,2) step' show ?thesis by blast
  next
    case ExchangeTail
    with clh_ar_arrive [OF inv i] ra_in_lock(1,2) step' show ?thesis by blast
  next
    case LoadPredLocked
    with clh_ar_spin [OF inv i] ra_in_lock(1,2) step' show ?thesis by blast
  qed
next
  case (ra_useful_in V')
  let ?t = "(threads c i)\<lparr>pc := InUnlock StoreMyUnlocked\<rparr>"
  have "clh_ar_inv n c' g x Q"
    by (rule clh_ar_quiet [OF inv i, where V' = V' and t' = ?t])
      (use ra_useful_in in \<open>auto simp: node_of_def clhqueue_ar_sync_def\<close>)
  then show ?thesis by blast
next
  case (ra_in_unlock q v' r m' V')
  show ?thesis
  proof (cases q)
    case StoreMyUnlocked
    with ra_in_unlock clh_ar_release [OF inv i] show ?thesis by (simp add: clhqueue_ar_sync_def)
  next
    case TakePred
    with ra_in_unlock have m': "m' = messages c" and V': "V' = tick i (views c i)"
      and r: "v' = (tls (threads c i))\<lparr>myNode := myPred (tls (threads c i))\<rparr>" "r = Return"
      by (auto simp: clhqueue_ar_sync_def elim!: performs_localE)
    have "clh_ar_inv n c' g x Q"
      by (rule clh_ar_quiet [OF inv i, where V' = V' and t' = "(threads c i)\<lparr>tls := v', pc := after_unlock r\<rparr>"])
        (use ra_in_unlock(1,2) TakePred r in \<open>auto simp: node_of_def m' V'\<close>)
    then show ?thesis by blast
  qed
next
  case ra_useful_out
  let ?t = "(threads c i)\<lparr>pc := ForTest, iter := iter (threads c i) + 1\<rparr>"
  have "clh_ar_inv n (c\<lparr>threads := (threads c)(i := ?t)\<rparr>) g x Q"
    by (rule clh_ar_quiet [OF inv i order_refl order_refl, where t' = ?t])
      (use ra_useful_out(2) in \<open>auto simp: node_of_def\<close>)
  then show ?thesis using ra_useful_out(1) by auto
qed

lemma clh_ar_reach:
  assumes "ra_reach (clhqueue_ar_sync Acq_rel) b (ra_init (clh_ar_vals h) clh_tls0) c"
  shows "\<exists>g x Q. clh_ar_inv (nr_threads b) c g x Q"
  using assms
proof (rule ra_invariant)
  show "\<exists>g x Q. clh_ar_inv (nr_threads b) (ra_init (clh_ar_vals h) clh_tls0) g x Q"
    using clh_ar_start by blast
qed (use clh_ar_step in blast)

section \<open>Runs\<close>

text \<open>Thread \<open>0\<close> has its turn; thread \<open>1\<close> waits for it, and follows.\<close>

lemma clh_ar_run:
  "map_option (\<lambda>c. (pc (threads c 0), pc (threads c 1), left c 0))
     (ra_exec (clhqueue_ar_sync Acq_rel) two_threads
       [(0, 0), (0, 1), (0, 0), (0, 0), (1, 0), (1, 1), (1, 1), (1, 1), (0, 0), (0, 2), (1, 2)]
       (ra_init (clh_ar_vals (\<lambda>_. False)) clh_tls0)) = Some (InUnlock TakePred, UsefulIn, 4)"
  by code_simp

text \<open>The same with a relaxed exchange: thread \<open>1\<close> reads the flag that the node of thread \<open>0\<close> had before its \<open>lock()\<close>.\<close>

lemma clh_ar_race_run:
  "map_option (\<lambda>c. (pc (threads c 0), pc (threads c 1)))
     (ra_exec (clhqueue_ar_sync Relaxed) two_threads
       [(0, 0), (0, 1), (0, 0), (0, 0), (1, 0), (1, 1), (1, 1), (1, 0)]
       (ra_init (clh_ar_vals (\<lambda>_. False)) clh_tls0)) = Some (UsefulIn, UsefulIn)"
  by code_simp

section \<open>Properties\<close>



end
