(* ===== verification/TAS_Lock.thy ===== *)
theory TAS_Lock
  imports Flag_Lock
begin

text \<open>
  The test-and-set lock (\<open>benchmark/blocking/TASLock/taslock_sc.cpp\<close>): one atomic flag;
  \<open>lock()\<close> repeats \<open>test_and_set\<close> until it returns false, \<open>unlock()\<close> clears the flag.
  \<open>thread_vars\<close> of \<open>ENV_VARS\<close> is never used by the source and has no field here.
\<close>

section \<open>The code\<close>

record tas_env =
  locked :: bool

text \<open>\<open>lock()\<close> and \<open>unlock()\<close> are one instruction each.\<close>

fun tas_lock :: "nat \<Rightarrow> tas_env \<Rightarrow> unit \<Rightarrow> unit \<Rightarrow> tas_env \<times> unit \<times> unit outcome" where
  "tas_lock tid env v _ =
     (let (flag, old) = atomic_exchange (locked env) True
      in (env\<lparr>locked := flag\<rparr>, v, if old then Goto () else Return))"

fun tas_unlock :: "nat \<Rightarrow> tas_env \<Rightarrow> unit \<Rightarrow> unit \<Rightarrow> tas_env \<times> unit \<times> unit outcome" where
  "tas_unlock tid env v _ = (env\<lparr>locked := False\<rparr>, v, Return)"

definition taslock_sync :: "(tas_env, unit, unit, unit) lock_code" where
  "taslock_sync =
     \<lparr>lock_entry = (), lock_instr = tas_lock, unlock_entry = (), unlock_instr = tas_unlock\<rparr>"

definition init_taslock :: "tas_env \<Rightarrow> tas_env" where
  "init_taslock env = env\<lparr>locked := False\<rparr>"

text \<open>The benchmark as \<open>main\<close> starts it: whatever the flag was, \<open>init_taslock\<close> has run.\<close>

definition tas_mem0 :: "tas_env" where
  "tas_mem0 = init_taslock \<lparr>locked = True\<rparr>"

section \<open>The lock meets the interface\<close>

interpretation tas: flag_lock taslock_sync tas_mem0 "\<lambda>_. ()" "\<lambda>s. \<not> locked s" "\<lambda>i. locked" 1 "\<lambda>_. 0"
  by unfold_locales
    (auto simp: taslock_sync_def tas_mem0_def init_taslock_def atomic_exchange_def)

lemma tas_executions:
  assumes "\<And>b. b \<in> set bs \<Longrightarrow> valid_bench b \<and> (\<Sum>i<nr_threads b. iters b i) = amount"
  shows "all_complete (\<lambda>_. taslock_sync) (each_with (\<lambda>m. m) bs) amount (tas_mem0, \<lambda>_. ())"
  by (rule tas.all_executions [OF _ no_tls assms]) (simp_all add: tas_mem0_def init_taslock_def)

section \<open>Properties\<close>

text \<open>
  The TAS lock benchmark: whatever instructions have run, in whatever order the scheduler chose,
  some continuation lets every thread finish; in the completed run the critical sections are
  serialised (no thread enters while another is inside) and each thread has executed
  \<open>useful_in\<close> exactly \<open>nr_iter\<close> times.
\<close>

theorem tas_contract:
  assumes "valid_bench b"
  shows "\<exists>more.
    all_finished (nr_threads b) (sync_run taslock_sync b tas_mem0 (\<lambda>_. ()) (sched @ more)) \<and>
    lock_spec None (cs_trace taslock_sync b tas_mem0 (\<lambda>_. ()) (sched @ more)) = Some None \<and>
    (\<forall>i<nr_threads b.
       int (entries i (cs_trace taslock_sync b tas_mem0 (\<lambda>_. ()) (sched @ more))) = iters b i)"
  using assms by (rule tas.completes_serialised)

theorem tas_contract_witness:
  "\<exists>more.
    all_finished 2 (sync_run taslock_sync two_threads tas_mem0 (\<lambda>_. ()) ([0, 1, 0, 1] @ more)) \<and>
    lock_spec None (cs_trace taslock_sync two_threads tas_mem0 (\<lambda>_. ()) ([0, 1, 0, 1] @ more)) = Some None \<and>
    (\<forall>i<2. int (entries i (cs_trace taslock_sync two_threads tas_mem0 (\<lambda>_. ()) ([0, 1, 0, 1] @ more))) = 1)"
  using tas_contract [of two_threads "[0, 1, 0, 1]"] by simp

end
