(* ===== verification/TATAS_Lock.thy ===== *)
theory TATAS_Lock
  imports Flag_Lock
begin

text \<open>
  The test-and-test-and-set lock (\<open>benchmark/blocking/TATASLock/tatas_lock_sc.cpp\<close>): \<open>lock()\<close>
  first spins on loads of \<open>locked\<close> and only then tries the exchange, starting over when the
  exchange finds the flag set.
\<close>

section \<open>The code\<close>

datatype tatas_label = Tatas_Load | Tatas_Exchange

text \<open>The shared state is the one variable \<open>locked\<close>.\<close>

fun tatas_lock ::
  "nat \<Rightarrow> bool \<Rightarrow> unit \<Rightarrow> tatas_label \<Rightarrow> bool \<times> unit \<times> tatas_label outcome" where
  "tatas_lock tid locked v Tatas_Load =
     (locked, v, if locked then Goto Tatas_Load else Goto Tatas_Exchange)"
| "tatas_lock tid locked v Tatas_Exchange =
     (let (locked', old) = atomic_exchange locked True
      in (locked', v, if \<not> old then Return else Goto Tatas_Load))"

fun tatas_unlock :: "nat \<Rightarrow> bool \<Rightarrow> unit \<Rightarrow> unit \<Rightarrow> bool \<times> unit \<times> unit outcome" where
  "tatas_unlock tid locked v _ = (False, v, Return)"

definition tatas_sync :: "(bool, unit, tatas_label, unit) lock_code" where
  "tatas_sync =
     \<lparr>lock_entry = Tatas_Load, lock_instr = tatas_lock,
      unlock_entry = (), unlock_instr = tatas_unlock\<rparr>"

text \<open>\<open>std::atomic<bool> locked(false)\<close>\<close>

definition tatas_mem0 :: bool where
  "tatas_mem0 = False"

section \<open>The lock meets the interface\<close>

fun tatas_rank :: "tatas_label \<Rightarrow> nat" where
  "tatas_rank Tatas_Load = 1"
| "tatas_rank Tatas_Exchange = 0"

lemma tatas_rank_less: "tatas_rank p < 2"
  by (cases p) simp_all

interpretation tatas: flag_lock tatas_sync tatas_mem0 "\<lambda>_. ()" "\<lambda>s. \<not> s" "\<lambda>i s. s" 2 tatas_rank
proof unfold_locales
  show "tatas_rank p < 2" for p by (rule tatas_rank_less)
next
  fix s p s' v' r i and v :: unit
  assume "\<not> s" "lock_instr tatas_sync i s v p = (s', v', r)"
  then show "r = Return \<and> s' \<or> (\<exists>p'. r = Goto p' \<and> tatas_rank p' < tatas_rank p \<and> \<not> s')"
    by (cases p) (auto simp: tatas_sync_def atomic_exchange_def)
next
  fix s p s' v' r i and j :: nat and v :: unit
  assume "s" "lock_instr tatas_sync i s v p = (s', v', r)"
  then show "(\<exists>p'. r = Goto p') \<and> s'"
    by (cases p) (auto simp: tatas_sync_def atomic_exchange_def)
qed (auto simp: tatas_sync_def tatas_mem0_def)

lemma tatas_executions:
  assumes "\<And>b. b \<in> set bs \<Longrightarrow> valid_bench b \<and> (\<Sum>i<nr_threads b. iters b i) = amount"
  shows "all_complete (\<lambda>_. tatas_sync) (each_with (\<lambda>m. m) bs) amount (tatas_mem0, \<lambda>_. ())"
  by (rule tatas.all_executions [OF _ no_tls assms]) (simp_all add: tatas_mem0_def)

section \<open>Properties\<close>

text \<open>
  The TATAS lock benchmark: whatever instructions have run, in whatever order the scheduler chose,
  some continuation lets every thread finish; in the completed run the critical sections are
  serialised (no thread enters while another is inside) and each thread has executed
  \<open>useful_in\<close> exactly \<open>nr_iter\<close> times.
\<close>

theorem tatas_contract:
  assumes "valid_bench b"
  shows "\<exists>more.
    all_finished (nr_threads b) (sync_run tatas_sync b tatas_mem0 (\<lambda>_. ()) (sched @ more)) \<and>
    lock_spec None (cs_trace tatas_sync b tatas_mem0 (\<lambda>_. ()) (sched @ more)) = Some None \<and>
    (\<forall>i<nr_threads b.
       int (entries i (cs_trace tatas_sync b tatas_mem0 (\<lambda>_. ()) (sched @ more))) = iters b i)"
  using assms by (rule tatas.completes_serialised)

theorem tatas_contract_witness:
  "\<exists>more.
    all_finished 2 (sync_run tatas_sync two_threads tatas_mem0 (\<lambda>_. ()) ([0, 1, 0, 1] @ more)) \<and>
    lock_spec None (cs_trace tatas_sync two_threads tatas_mem0 (\<lambda>_. ()) ([0, 1, 0, 1] @ more)) = Some None \<and>
    (\<forall>i<2. int (entries i (cs_trace tatas_sync two_threads tatas_mem0 (\<lambda>_. ()) ([0, 1, 0, 1] @ more))) = 1)"
  using tatas_contract [of two_threads "[0, 1, 0, 1]"] by simp

end
