(* ===== verification/Peterson_Lock.thy ===== *)
theory Peterson_Lock
  imports Lock_Executions
begin

text \<open>
  Peterson's lock (\<open>benchmark/blocking/PetersonLock/peterson_lock_sc.cpp\<close>): thread 0 uses
  \<open>flag0\<close>, every other thread uses \<open>flag1\<close>. The loop condition of \<open>lock()\<close> is two loads, the
  second one only when the first is not zero. For two threads it is a lock; the driver accepts
  more, and for three the model has a run with two threads in the critical section.
\<close>

section \<open>The code\<close>

record peterson_env =
  flag0 :: int
  flag1 :: int
  turn :: int

text \<open>The instructions of \<open>lock()\<close>; \<open>yield()\<close> touches no shared variable.\<close>

datatype peterson_label = StoreFlag | ExchangeTurn | LoadFlag | LoadTurn

fun peterson_lock_instr ::
  "nat \<Rightarrow> peterson_env \<Rightarrow> unit \<Rightarrow> peterson_label
    \<Rightarrow> peterson_env \<times> unit \<times> peterson_label outcome" where
  "peterson_lock_instr tid env v StoreFlag =
     (if tid = 0 then env\<lparr>flag0 := 1\<rparr> else env\<lparr>flag1 := 1\<rparr>, v, Goto ExchangeTurn)"
| "peterson_lock_instr tid env v ExchangeTurn =
     (env\<lparr>turn := (if tid = 0 then 1 else 0)\<rparr>, v, Goto LoadFlag)"
| "peterson_lock_instr tid env v LoadFlag =
     (env, v, if (if tid = 0 then flag1 env else flag0 env) \<noteq> 0 then Goto LoadTurn else Return)"
| "peterson_lock_instr tid env v LoadTurn =
     (env, v, if turn env = (if tid = 0 then 1 else 0) then Goto LoadFlag else Return)"

fun peterson_unlock_instr ::
  "nat \<Rightarrow> peterson_env \<Rightarrow> unit \<Rightarrow> unit \<Rightarrow> peterson_env \<times> unit \<times> unit outcome" where
  "peterson_unlock_instr tid env v _ =
     (if tid = 0 then env\<lparr>flag0 := 0\<rparr> else env\<lparr>flag1 := 0\<rparr>, v, Return)"

definition peterson_lock :: "(peterson_env, unit, peterson_label, unit) lock_code" where
  "peterson_lock =
     \<lparr>lock_entry = StoreFlag, lock_instr = peterson_lock_instr,
      unlock_entry = (), unlock_instr = peterson_unlock_instr\<rparr>"

definition reset_peterson_lock :: "peterson_env \<Rightarrow> peterson_env" where
  "reset_peterson_lock env = env\<lparr>flag0 := 0, flag1 := 0, turn := 0\<rparr>"

definition peterson_mem0 :: peterson_env where
  "peterson_mem0 = reset_peterson_lock \<lparr>flag0 = 0, flag1 = 0, turn = 0\<rparr>"

section \<open>Invariant for two threads\<close>

text \<open>The thread has announced itself; it has also given way (set \<open>turn\<close>).\<close>

definition announced :: "(unit, peterson_label, unit) sync_thread \<Rightarrow> bool" where
  "announced t \<longleftrightarrow> past_lock t \<or>
     (case pc t of InLock p \<Rightarrow> p \<noteq> StoreFlag | _ \<Rightarrow> False)"

definition gave_way :: "(unit, peterson_label, unit) sync_thread \<Rightarrow> bool" where
  "gave_way t \<longleftrightarrow> past_lock t \<or>
     (case pc t of InLock p \<Rightarrow> p \<in> {LoadFlag, LoadTurn} | _ \<Rightarrow> False)"

lemma announced_pc [simp]:
  "pc t = ForTest \<Longrightarrow> \<not> announced t"
  "pc t = InLock p \<Longrightarrow> announced t \<longleftrightarrow> p \<noteq> StoreFlag"
  "pc t = UsefulIn \<Longrightarrow> announced t"
  "pc t = InUnlock q \<Longrightarrow> announced t"
  "pc t = UsefulOut \<Longrightarrow> \<not> announced t"
  "pc t = Finished \<Longrightarrow> \<not> announced t"
  by (simp_all add: announced_def)

lemma gave_way_pc [simp]:
  "pc t = ForTest \<Longrightarrow> \<not> gave_way t"
  "pc t = InLock p \<Longrightarrow> gave_way t \<longleftrightarrow> p \<in> {LoadFlag, LoadTurn}"
  "pc t = UsefulIn \<Longrightarrow> gave_way t"
  "pc t = InUnlock q \<Longrightarrow> gave_way t"
  "pc t = UsefulOut \<Longrightarrow> \<not> gave_way t"
  "pc t = Finished \<Longrightarrow> \<not> gave_way t"
  by (simp_all add: gave_way_def)

text \<open>
  A thread that is not announced has no flag. As long as both threads are in the loop, the flags say who is
  announced, and when one thread is past its lock while the other has given way, the turn is with the first.
  A thread that has left the loop may have cleared all three variables.
\<close>

definition peterson_inv :: "(peterson_env, (unit, peterson_label, unit) sync_thread) cfg \<Rightarrow> bool" where
  "peterson_inv c \<longleftrightarrow>
     (\<not> announced (snd c 0) \<longrightarrow> flag0 (fst c) = 0) \<and>
     (\<not> announced (snd c 1) \<longrightarrow> flag1 (fst c) = 0) \<and>
     turn (fst c) \<in> {0, 1} \<and>
     (pc (snd c 0) \<noteq> Finished \<and> pc (snd c 1) \<noteq> Finished \<longrightarrow>
       (announced (snd c 0) \<longrightarrow> flag0 (fst c) = 1) \<and>
       (announced (snd c 1) \<longrightarrow> flag1 (fst c) = 1) \<and>
       (past_lock (snd c 0) \<and> gave_way (snd c 1) \<longrightarrow> turn (fst c) = 0) \<and>
       (past_lock (snd c 1) \<and> gave_way (snd c 0) \<longrightarrow> turn (fst c) = 1)) \<and>
     (\<forall>i. pc (snd c i) \<noteq> Crashed)"

lemma peterson_inv_start:
  assumes "flag0 s = 0" "flag1 s = 0" "turn s \<in> {0, 1}"
  shows "peterson_inv (sync_init s v)"
  using assms by (simp add: peterson_inv_def)

lemma peterson_inv_init: "peterson_inv (sync_init peterson_mem0 v)"
  by (simp add: peterson_inv_start peterson_mem0_def reset_peterson_lock_def)

lemma past_lock_gave_way: "past_lock t \<Longrightarrow> gave_way t"
  and gave_way_announced: "gave_way t \<Longrightarrow> announced t"
  by (auto simp: gave_way_def announced_def split: sync_pc.splits)

text \<open>Steps that touch no flag and keep the thread at its place.\<close>

lemma peterson_inv_keep:
  assumes inv: "peterson_inv (s, ls)"
    and same: "announced t' = announced (ls i)" "gave_way t' = gave_way (ls i)" "past_lock t' = past_lock (ls i)"
    and pc: "pc t' \<noteq> Crashed" "pc (ls i) \<noteq> Finished"
  shows "peterson_inv (s, ls(i := t'))"
proof -
  have "announced ((ls(i := t')) j) = announced (ls j)" "gave_way ((ls(i := t')) j) = gave_way (ls j)"
    "past_lock ((ls(i := t')) j) = past_lock (ls j)" "pc (ls j) \<noteq> Crashed \<Longrightarrow> pc ((ls(i := t')) j) \<noteq> Crashed"
    "pc ((ls(i := t')) j) \<noteq> Finished \<Longrightarrow> pc (ls j) \<noteq> Finished" for j
    using same pc by (simp_all split: if_splits)
  with inv show ?thesis by (simp only: peterson_inv_def fst_conv snd_conv) blast
qed

lemma peterson_inv_step:
  assumes inv: "peterson_inv (s, ls)" and i: "i = 0 \<or> i = 1"
    and step: "sync_step peterson_lock k i s (ls i) = Some (s', t')"
  shows "peterson_inv (s', ls(i := t'))"
  using step
proof (cases rule: sync_step_cases)
  case (lock p v' r)
  have s': "s' = fst (peterson_lock_instr i s (tls (ls i)) p)" and r: "r = snd (snd (peterson_lock_instr i s (tls (ls i)) p))"
    using lock by (simp_all add: peterson_lock_def)
  have gave: "past_lock (ls j) \<Longrightarrow> gave_way (ls j)" "gave_way (ls j) \<Longrightarrow> announced (ls j)" for j
    by (rule past_lock_gave_way gave_way_announced; assumption)+
  have pc: "pc (ls i) = InLock p" and t': "pc t' = after_lock r" using lock by simp_all
  show ?thesis
    using i
  proof
    assume i: "i = 0"
    show ?thesis
      using inv pc t' gave [of 1] unfolding s' r i
      by (cases p; cases "announced (ls 1)"; cases "gave_way (ls 1)"; cases "past_lock (ls 1)")
        (simp_all add: peterson_inv_def split: if_splits)
  next
    assume i: "i = 1"
    show ?thesis
      using inv pc t' gave [of 0] unfolding s' r i
      by (cases p; cases "announced (ls 0)"; cases "gave_way (ls 0)"; cases "past_lock (ls 0)")
        (simp_all add: peterson_inv_def split: if_splits)
  qed
next
  case (unlock q v' r)
  have s': "s' = (if i = 0 then s\<lparr>flag0 := 0\<rparr> else s\<lparr>flag1 := 0\<rparr>)" and pc: "pc t' = UsefulOut"
    using unlock by (auto simp: peterson_lock_def)
  have "pc (ls i) = InUnlock q" using unlock by simp
  with i show ?thesis
    using inv pc by (elim disjE) (simp_all add: peterson_inv_def s')
qed (use inv in \<open>simp_all add: peterson_inv_keep peterson_lock_def\<close>)

section \<open>The lock meets the interface for at most two threads\<close>

definition valid_peterson :: "bench \<Rightarrow> bool" where
  "valid_peterson b \<longleftrightarrow> valid_bench b \<and> nr_threads b \<le> 2"

lemma peterson_inv_reach:
  assumes "valid_peterson b" and "sync_reach peterson_lock b peterson_mem0 v c"
  shows "peterson_inv c"
  using assms(2)
proof (rule sync_reach_invariant)
  show "peterson_inv (sync_init peterson_mem0 v)" by (rule peterson_inv_init)
next
  fix s ls i s' t'
  assume "peterson_inv (s, ls)" "i < nr_threads b"
    "sync_step peterson_lock (iters b i) i s (ls i) = Some (s', t')"
  moreover from this have "i = 0 \<or> i = 1" using assms(1) by (auto simp: valid_peterson_def)
  ultimately show "peterson_inv (s', ls(i := t'))" using peterson_inv_step by blast
qed

fun peterson_rank :: "peterson_label \<Rightarrow> nat" where
  "peterson_rank StoreFlag = 3"
| "peterson_rank ExchangeTurn = 2"
| "peterson_rank LoadFlag = 1"
| "peterson_rank LoadTurn = 0"

lemma peterson_rank_less: "peterson_rank p < 4"
  by (cases p) simp_all

text \<open>A thread that spins: at its load of \<open>turn\<close>, which still is the value it set.\<close>

definition peterson_spins :: "nat \<Rightarrow> peterson_env \<Rightarrow> (unit, peterson_label, unit) sync_thread \<Rightarrow> bool" where
  "peterson_spins i s t \<longleftrightarrow> pc t = InLock LoadTurn \<and> turn s = (if i = 0 then 1 else 0)"

lemma peterson_advances:
  assumes "iter_inv b c" and "pc (snd c i) \<noteq> Finished" and "pc (snd c i) \<noteq> Crashed"
    and "\<not> peterson_spins i (fst c) (snd c i)"
  shows "advances peterson_lock 4 peterson_rank (\<lambda>_. 0) (iters b i) i (fst c) (snd c i)"
proof (cases "pc (snd c i)")
  case (InLock p)
  then show ?thesis
    using assms(4)
    by (cases p; cases "i = 0"; cases "flag0 (fst c) = 0"; cases "flag1 (fst c) = 0")
      (auto intro!: advances_lock peterson_rank_less simp: peterson_lock_def peterson_spins_def)
next
  case (InUnlock q)
  then show ?thesis by (auto intro!: advances_unlock simp: peterson_lock_def)
qed (use assms in \<open>auto intro!: advances_in_loop peterson_rank_less\<close>)

text \<open>A spinning thread whose competitor is not announced leaves the loop with its next two loads.\<close>

lemma peterson_spin_ends:
  assumes "peterson_spins i s t" and "(if i = 0 then flag1 s else flag0 s) = 0"
  shows "solo (sync_step peterson_lock k i) 2 s t = (s, t\<lparr>pc := UsefulIn\<rparr>)"
  using assms by (auto simp: numeral_2_eq_2 peterson_spins_def peterson_lock_def)

lemma peterson_gets_on:
  assumes valid: "valid_peterson b" and it: "iter_inv b c" and inv: "peterson_inv c"
    and idle: "\<forall>i\<ge>nr_threads b. pc (snd c i) = ForTest" and "\<not> all_finished (nr_threads b) c"
  shows "\<exists>i<nr_threads b. gets_on peterson_lock 4 peterson_rank (\<lambda>_. 0) (iters b i) i (fst c) (snd c i)"
proof -
  from assms(5) obtain i where i: "i < nr_threads b" "pc (snd c i) \<noteq> Finished"
    by (auto simp: all_finished_def)
  show ?thesis
  proof (cases "\<exists>j<nr_threads b. pc (snd c j) \<noteq> Finished \<and> \<not> peterson_spins j (fst c) (snd c j)")
    case True
    then obtain j where j: "j < nr_threads b" "pc (snd c j) \<noteq> Finished" "\<not> peterson_spins j (fst c) (snd c j)" by blast
    have "pc (snd c j) \<noteq> Crashed" using inv by (simp add: peterson_inv_def)
    from advances_gets_on [OF peterson_advances [OF it j(2) this j(3)]] j(1) show ?thesis by blast
  next
    case False
    with i have spin: "peterson_spins i (fst c) (snd c i)" by blast
    have i01: "i = 0 \<or> i = 1" using i valid by (auto simp: valid_peterson_def)
    have "pc (snd c (1 - i)) = Finished" if "1 - i < nr_threads b"
      using False that spin i01 by (auto simp: peterson_spins_def split: if_splits)
    moreover have "\<not> announced (snd c (1 - i))" if "\<not> 1 - i < nr_threads b"
      using idle that by simp
    ultimately have "\<not> announced (snd c (1 - i))" by fastforce
    with inv i01 have "(if i = 0 then flag1 (fst c) else flag0 (fst c)) = 0"
      by (auto simp: peterson_inv_def)
    note solo2 = peterson_spin_ends [OF spin this, of "iters b i"]
    have "thread_rank 4 peterson_rank (\<lambda>_. 0) (iters b i) (snd c i\<lparr>pc := UsefulIn\<rparr>)
        < thread_rank 4 peterson_rank (\<lambda>_. 0) (iters b i) (snd c i)"
      using spin by (simp add: thread_rank_def peterson_spins_def)
    from gets_on_alone [OF solo2 this i(2)] i(1) show ?thesis by auto
  qed
qed

lemma peterson_unstuck:
  assumes valid: "valid_peterson b" and reach: "sync_reach peterson_lock b peterson_mem0 v c"
    and "\<not> all_finished (nr_threads b) c"
  shows "\<exists>is. total_rank 4 peterson_rank (\<lambda>_. 0) b
      (run_sched (sync_prog peterson_lock b) (nr_threads b) is c)
    < total_rank 4 peterson_rank (\<lambda>_. 0) b c"
proof -
  have it: "iter_inv b c"
    using valid by (auto simp: valid_peterson_def intro: sync_reach_iter_inv [OF _ reach])
  from peterson_gets_on [OF valid it peterson_inv_reach [OF valid reach] _ assms(3)] sync_reach_idle [OF reach]
  show ?thesis using total_rank_gets_on by blast
qed

lemma peterson_inv_mutex:
  assumes "peterson_inv c" and "i = 0 \<or> i = 1" and "j = 0 \<or> j = 1" and "in_cs (snd c i)" "in_cs (snd c j)"
  shows "i = j"
  using assms by (auto simp: peterson_inv_def in_cs_def)

text \<open>
  The stores of \<open>reset_peterson_lock()\<close>, which a thread makes for the next execution as soon as it has left
  the loop. The other thread may be in its critical section, and loses its flag; but it is alone then.
\<close>

fun peterson_reset_store :: "nat \<Rightarrow> nat \<Rightarrow> peterson_env \<Rightarrow> peterson_env option" where
  "peterson_reset_store tid k env =
     Some (if k = 0 then env\<lparr>flag0 := 0\<rparr> else if k = 1 then env\<lparr>flag1 := 0\<rparr> else env\<lparr>turn := 0\<rparr>)"

lemma peterson_reset_stores:
  "Option.bind (Option.bind (peterson_reset_store tid 0 env) (peterson_reset_store tid 1)) (peterson_reset_store tid 2) =
     Some (reset_peterson_lock env)"
  by (simp add: reset_peterson_lock_def)

definition peterson_starts :: "peterson_env \<Rightarrow> bool" where
  "peterson_starts s \<longleftrightarrow> flag0 s = 0 \<and> flag1 s = 0 \<and> turn s \<in> {0, 1}"

interpretation peterson_resetting: resettable_lock valid_peterson "\<lambda>_. peterson_lock" peterson_reset_store 3
  "\<lambda>_. peterson_starts" "\<lambda>b s ls. peterson_inv (s, ls) \<and> (\<forall>i\<ge>nr_threads b. pc (ls i) = ForTest)"
  "\<lambda>_. 4" "\<lambda>_. peterson_rank" "\<lambda>_ _. 0"
proof unfold_locales
  fix b s ls i s' t'
  assume "valid_peterson b" "peterson_inv (s, ls) \<and> (\<forall>i\<ge>nr_threads b. pc (ls i) = ForTest)" "i < nr_threads b"
    "sync_step peterson_lock (iters b i) i s (ls i) = Some (s', t')"
  moreover from this have "i = 0 \<or> i = 1" by (auto simp: valid_peterson_def)
  ultimately show "peterson_inv (s', ls(i := t')) \<and> (\<forall>j\<ge>nr_threads b. pc ((ls(i := t')) j) = ForTest)"
    using peterson_inv_step by auto
next
  fix b s ls i and k :: nat
  assume "valid_peterson b" "peterson_inv (s, ls) \<and> (\<forall>i\<ge>nr_threads b. pc (ls i) = ForTest)" "i < nr_threads b"
    "pc (ls i) = Finished"
  moreover from this have "i = 0 \<or> i = 1" by (auto simp: valid_peterson_def)
  ultimately show "\<exists>s'. peterson_reset_store i k s = Some s' \<and>
      peterson_inv (s', ls) \<and> (\<forall>i\<ge>nr_threads b. pc (ls i) = ForTest)"
    by (auto simp: peterson_inv_def)
next
  fix b s ls
  assume v: "valid_peterson b" and i: "peterson_inv (s, ls) \<and> (\<forall>i\<ge>nr_threads b. pc (ls i) = ForTest)"
    and fin: "all_finished (nr_threads b) (s, ls)"
  have "\<not> announced (ls j)" for j
    using i fin by (cases "j < nr_threads b") (auto simp: all_finished_def)
  with i show "peterson_starts s" by (simp add: peterson_inv_def peterson_starts_def)
next
  fix b s ls i j
  assume "valid_peterson b" "peterson_inv (s, ls) \<and> (\<forall>i\<ge>nr_threads b. pc (ls i) = ForTest)"
    "i < nr_threads b" "j < nr_threads b" "in_cs (ls i)" "in_cs (ls j)"
  moreover from this have "i = 0 \<or> i = 1" "j = 0 \<or> j = 1" by (auto simp: valid_peterson_def)
  ultimately show "i = j" using peterson_inv_mutex [of "(s, ls)" i j] unfolding snd_conv by blast
next
  fix b s ls
  assume "valid_peterson b" "peterson_inv (s, ls) \<and> (\<forall>i\<ge>nr_threads b. pc (ls i) = ForTest)"
    "iter_inv b (s, ls)" "\<not> all_finished (nr_threads b) (s, ls)"
  then show "\<exists>i<nr_threads b. gets_on peterson_lock 4 peterson_rank (\<lambda>_. 0) (iters b i) i s (ls i)"
    using peterson_gets_on [of b "(s, ls)"] by simp
qed (auto simp: valid_peterson_def peterson_starts_def peterson_inv_def intro: peterson_inv_start)

interpretation peterson: live_lock valid_peterson "\<lambda>_. peterson_lock" "\<lambda>_. peterson_mem0" "\<lambda>_ _. ()"
  "\<lambda>_. 4" "\<lambda>_. peterson_rank" "\<lambda>_ _. 0"
proof unfold_locales
  fix b assume "valid_peterson b"
  then show "valid_bench b" by (simp add: valid_peterson_def)
next
  fix b c i j
  assume v: "valid_peterson b" and r: "sync_reach peterson_lock b peterson_mem0 (\<lambda>_. ()) c"
    and ij: "i < nr_threads b" "j < nr_threads b" "in_cs (snd c i)" "in_cs (snd c j)"
  then have "i = 0 \<or> i = 1" "j = 0 \<or> j = 1" by (auto simp: valid_peterson_def)
  from peterson_inv_mutex [OF peterson_inv_reach [OF v r] this ij(3,4)] show "i = j" .
next
  fix b c i
  assume "valid_peterson b" "sync_reach peterson_lock b peterson_mem0 (\<lambda>_. ()) c"
  then show "pc (snd c i) \<noteq> Crashed"
    using peterson_inv_reach by (auto simp: peterson_inv_def)
qed (rule peterson_unstuck)

section \<open>Properties\<close>

text \<open>
  Peterson's lock with at most two threads: whatever instructions have run, in whatever order the scheduler chose,
  some continuation lets every thread finish; in the completed run the critical sections are
  serialised (no thread enters while another is inside) and each thread has executed
  \<open>useful_in\<close> exactly \<open>nr_iter\<close> times.
\<close>

theorem peterson_contract:
  assumes "valid_peterson b"
  shows "\<exists>more.
    all_finished (nr_threads b) (sync_run peterson_lock b peterson_mem0 (\<lambda>_. ()) (sched @ more)) \<and>
    lock_spec None (cs_trace peterson_lock b peterson_mem0 (\<lambda>_. ()) (sched @ more)) = Some None \<and>
    (\<forall>i<nr_threads b.
       int (entries i (cs_trace peterson_lock b peterson_mem0 (\<lambda>_. ()) (sched @ more))) = iters b i)"
  using assms by (rule peterson.completes_serialised)

theorem peterson_contract_witness:
  "\<exists>more.
    all_finished 2 (sync_run peterson_lock two_threads peterson_mem0 (\<lambda>_. ()) ([0, 1, 0, 1] @ more)) \<and>
    lock_spec None (cs_trace peterson_lock two_threads peterson_mem0 (\<lambda>_. ()) ([0, 1, 0, 1] @ more)) = Some None \<and>
    (\<forall>i<2. int (entries i (cs_trace peterson_lock two_threads peterson_mem0 (\<lambda>_. ()) ([0, 1, 0, 1] @ more))) = 1)"
  using peterson_contract [of two_threads "[0, 1, 0, 1]"] by (simp add: valid_peterson_def)

text \<open>Three threads with one iteration each, which the driver accepts.\<close>

definition three_threads :: bench where
  "three_threads = \<lparr>nr_threads = 3, iters = \<lambda>_. 1\<rparr>"


end
