(* ===== verification/Filter_Lock.thy ===== *)
theory Filter_Lock
  imports Lock_Executions
begin

text \<open>
  The filter lock (\<open>benchmark/blocking/FilterLock/filter_lock_sc.cpp\<close>): \<open>thread_number - 1\<close> levels,
  each of which keeps one of the threads that try to pass it. A thread announces its level, makes
  itself the victim of the level, and waits while another thread is at its level or higher and it
  still is the victim. The test of the other threads is a loop of loads, not one atomic read.
\<close>

section \<open>The code\<close>

record filter_env =
  levels :: "int list"
  victims :: "int list"

text \<open>
  The instructions of \<open>lock()\<close>, with its loop variable \<open>level\<close>, and of \<open>higher_or_equal()\<close>, with its
  loop variable \<open>k\<close>.
\<close>

datatype filter_label =
    For_level nat
  | Store_level nat
  | Exchange_victim nat
  | Higher_or_equal nat nat
  | Load_victim nat

fun filter_lock_instr ::
  "nat \<Rightarrow> nat \<Rightarrow> filter_env \<Rightarrow> unit \<Rightarrow> filter_label \<Rightarrow> filter_env \<times> unit \<times> filter_label outcome" where
  "filter_lock_instr thread_number tid env _ (For_level level) =
     (env, (), if level < thread_number then Goto (Store_level level) else Return)"
| "filter_lock_instr thread_number tid env _ (Store_level level) =
     (case array_store (levels env) tid (int level) of
        None \<Rightarrow> (env, (), Crash)
      | Some a \<Rightarrow> (env\<lparr>levels := a\<rparr>, (), Goto (Exchange_victim level)))"
| "filter_lock_instr thread_number tid env _ (Exchange_victim level) =
     (case array_store (victims env) level (int tid) of
        None \<Rightarrow> (env, (), Crash)
      | Some a \<Rightarrow> (env\<lparr>victims := a\<rparr>, (), Goto (Higher_or_equal level 0)))"
| "filter_lock_instr thread_number tid env _ (Higher_or_equal level k) =
     (if \<not> k < thread_number then (env, (), Goto (For_level (level + 1)))
      else if k = tid then (env, (), Goto (Higher_or_equal level (k + 1)))
      else case array_load (levels env) k of
        None \<Rightarrow> (env, (), Crash)
      | Some level_k \<Rightarrow>
          (env, (), Goto (if level_k \<ge> int level then Load_victim level else Higher_or_equal level (k + 1))))"
| "filter_lock_instr thread_number tid env _ (Load_victim level) =
     (case array_load (victims env) level of
        None \<Rightarrow> (env, (), Crash)
      | Some victim \<Rightarrow>
          (env, (), Goto (if int tid = victim then Higher_or_equal level 0 else For_level (level + 1))))"

fun filter_unlock_instr :: "nat \<Rightarrow> filter_env \<Rightarrow> unit \<Rightarrow> unit \<Rightarrow> filter_env \<times> unit \<times> unit outcome" where
  "filter_unlock_instr tid env _ _ =
     (case array_store (levels env) tid 0 of
        None \<Rightarrow> (env, (), Crash)
      | Some a \<Rightarrow> (env\<lparr>levels := a\<rparr>, (), Return))"

definition filter_lock :: "nat \<Rightarrow> (filter_env, unit, filter_label, unit) lock_code" where
  "filter_lock thread_number =
     \<lparr>lock_entry = For_level 1, lock_instr = filter_lock_instr thread_number,
      unlock_entry = (), unlock_instr = filter_unlock_instr\<rparr>"

text \<open>
  \<open>init_filter_lock(thread_number)\<close>, given the return codes of the two \<open>posix_memalign\<close> calls and what
  the memory they return holds; a failure ends the process with status 1.
\<close>

definition init_filter_lock :: "nat \<Rightarrow> int \<Rightarrow> int \<Rightarrow> (nat \<Rightarrow> int) \<Rightarrow> (nat \<Rightarrow> int) \<Rightarrow> int + filter_env" where
  "init_filter_lock thread_number rc1 rc2 mem1 mem2 =
     (if 0 \<noteq> rc1 then Inl 1
      else if 0 \<noteq> rc2 then Inl 1
      else Inr \<lparr>levels = map mem1 [0..<thread_number], victims = map mem2 [0..<thread_number]\<rparr>)"

definition reset_filter_lock :: "nat \<Rightarrow> filter_env \<Rightarrow> filter_env option" where
  "reset_filter_lock tid env =
     (case (array_store (levels env) tid 0, array_store (victims env) tid 0) of
        (Some l, Some v) \<Rightarrow> Some (env\<lparr>levels := l, victims := v\<rparr>)
      | _ \<Rightarrow> None)"

text \<open>\<open>delete_filter_lock\<close>: no element of the freed arrays can be accessed any more.\<close>

definition delete_filter_lock :: "filter_env \<Rightarrow> filter_env" where
  "delete_filter_lock env = env\<lparr>levels := [], victims := []\<rparr>"

lemma deleted_filter_crashes:
  "snd (snd (filter_lock_instr n tid (delete_filter_lock env) v (Store_level l))) = Crash"
  "snd (snd (filter_unlock_instr tid (delete_filter_lock env) v q)) = Crash"
  by (simp_all add: delete_filter_lock_def array_store_def)

text \<open>The state after \<open>init_filter_lock\<close> and one \<open>reset_filter_lock\<close> of every thread.\<close>

fun reset_all :: "nat \<Rightarrow> filter_env \<Rightarrow> filter_env" where
  "reset_all 0 env = env"
| "reset_all (Suc k) env = (case reset_filter_lock k (reset_all k env) of None \<Rightarrow> env | Some e \<Rightarrow> e)"

definition filter_mem0 :: "(nat \<Rightarrow> int) \<Rightarrow> (nat \<Rightarrow> int) \<Rightarrow> nat \<Rightarrow> filter_env" where
  "filter_mem0 mem1 mem2 n =
     (case init_filter_lock n 0 0 mem1 mem2 of Inr env \<Rightarrow> reset_all n env)"

lemma reset_all_result:
  "k \<le> length (levels env) \<Longrightarrow> k \<le> length (victims env) \<Longrightarrow>
   reset_all k env = env\<lparr>levels := replicate k 0 @ drop k (levels env),
     victims := replicate k 0 @ drop k (victims env)\<rparr>"
proof (induction k)
  case (Suc k)
  then have "(replicate k 0 @ drop k xs)[k := 0] = replicate (Suc k) (0::int) @ drop (Suc k) xs"
    if "k < length xs" for xs
    using that by (simp add: list_update_append upd_conv_take_nth_drop replicate_app_Cons_same
        flip: Cons_nth_drop_Suc)
  with Suc show ?case
    by (simp add: reset_filter_lock_def array_simps)
qed simp

lemma filter_mem0_eq: "filter_mem0 mem1 mem2 n = \<lparr>levels = replicate n 0, victims = replicate n 0\<rparr>"
  by (simp add: filter_mem0_def init_filter_lock_def reset_all_result)

section \<open>Where a thread is among the levels\<close>

type_synonym filter_thread = "(unit, filter_label, unit) sync_thread"

text \<open>The level written to \<open>levels\<close>, the highest level whose victim the thread has set, levels passed.\<close>

fun label_written :: "filter_label \<Rightarrow> nat" where
  "label_written (For_level l) = l - 1"
| "label_written (Store_level l) = l - 1"
| "label_written (Exchange_victim l) = l"
| "label_written (Higher_or_equal l k) = l"
| "label_written (Load_victim l) = l"

fun label_entered :: "filter_label \<Rightarrow> nat" where
  "label_entered (For_level l) = l - 1"
| "label_entered (Store_level l) = l - 1"
| "label_entered (Exchange_victim l) = l - 1"
| "label_entered (Higher_or_equal l k) = l"
| "label_entered (Load_victim l) = l"

fun label_passed :: "filter_label \<Rightarrow> nat" where
  "label_passed (For_level l) = l - 1"
| "label_passed (Store_level l) = l - 1"
| "label_passed (Exchange_victim l) = l - 1"
| "label_passed (Higher_or_equal l k) = l - 1"
| "label_passed (Load_victim l) = l - 1"

definition on_level :: "(filter_label \<Rightarrow> nat) \<Rightarrow> nat \<Rightarrow> filter_thread \<Rightarrow> nat" where
  "on_level f n t = (case pc t of InLock p \<Rightarrow> f p | UsefulIn \<Rightarrow> n - 1 | InUnlock _ \<Rightarrow> n - 1 | _ \<Rightarrow> 0)"

abbreviation "written \<equiv> on_level label_written"
abbreviation "entered \<equiv> on_level label_entered"
abbreviation "passed_levels \<equiv> on_level label_passed"

lemma on_level_pc [simp]:
  "pc t = ForTest \<Longrightarrow> on_level f n t = 0"
  "pc t = InLock p \<Longrightarrow> on_level f n t = f p"
  "pc t = UsefulIn \<Longrightarrow> on_level f n t = n - 1"
  "pc t = InUnlock q \<Longrightarrow> on_level f n t = n - 1"
  "pc t = UsefulOut \<Longrightarrow> on_level f n t = 0"
  "pc t = Finished \<Longrightarrow> on_level f n t = 0"
  "pc t = Crashed \<Longrightarrow> on_level f n t = 0"
  by (simp_all add: on_level_def)

lemma label_order: "label_passed p \<le> label_entered p" "label_entered p \<le> label_written p"
  by (cases p; simp)+

lemma level_order: "passed_levels n t \<le> entered n t" "entered n t \<le> written n t"
  by (simp_all add: on_level_def label_order split: sync_pc.splits)

text \<open>The thread waits at the level.\<close>

definition waits :: "filter_thread \<Rightarrow> nat \<Rightarrow> bool" where
  "waits t l \<longleftrightarrow> (\<exists>k. pc t = InLock (Higher_or_equal l k)) \<or> pc t = InLock (Load_victim l)"

lemma waits_pc [simp]:
  "pc t = InLock (Higher_or_equal l k) \<Longrightarrow> waits t m \<longleftrightarrow> m = l"
  "pc t = InLock (Load_victim l) \<Longrightarrow> waits t m \<longleftrightarrow> m = l"
  "pc t = InLock (For_level l) \<Longrightarrow> \<not> waits t m"
  "pc t = InLock (Store_level l) \<Longrightarrow> \<not> waits t m"
  "pc t = InLock (Exchange_victim l) \<Longrightarrow> \<not> waits t m"
  "pc t = ForTest \<Longrightarrow> \<not> waits t m"
  "pc t = UsefulIn \<Longrightarrow> \<not> waits t m"
  "pc t = InUnlock q \<Longrightarrow> \<not> waits t m"
  "pc t = UsefulOut \<Longrightarrow> \<not> waits t m"
  "pc t = Finished \<Longrightarrow> \<not> waits t m"
  by (auto simp: waits_def)

lemma waits_level: "waits t l \<Longrightarrow> entered n t = l \<and> passed_levels n t = l - 1 \<and> written n t = l"
  by (auto simp: waits_def)

fun label_ok :: "nat \<Rightarrow> filter_label \<Rightarrow> bool" where
  "label_ok n (For_level l) \<longleftrightarrow> 0 < l \<and> l \<le> n"
| "label_ok n (Store_level l) \<longleftrightarrow> 0 < l \<and> l < n"
| "label_ok n (Exchange_victim l) \<longleftrightarrow> 0 < l \<and> l < n"
| "label_ok n (Higher_or_equal l k) \<longleftrightarrow> 0 < l \<and> l < n \<and> k \<le> n"
| "label_ok n (Load_victim l) \<longleftrightarrow> 0 < l \<and> l < n"

definition pc_ok :: "nat \<Rightarrow> filter_thread \<Rightarrow> bool" where
  "pc_ok n t \<longleftrightarrow> pc t \<noteq> Crashed \<and> (\<forall>p. pc t = InLock p \<longrightarrow> label_ok n p)"

text \<open>
  A thread that has left the loop may have reset the victim of the level with its own number: such a level
  keeps nobody back any more. A level is crowded when a thread waits at it, or two have entered it.
\<close>

definition broken :: "nat \<Rightarrow> (nat \<Rightarrow> filter_thread) \<Rightarrow> nat \<Rightarrow> bool" where
  "broken n ls l \<longleftrightarrow> l < n \<and> pc (ls l) = Finished"

definition crowded :: "nat \<Rightarrow> (nat \<Rightarrow> filter_thread) \<Rightarrow> nat \<Rightarrow> bool" where
  "crowded n ls l \<longleftrightarrow> (\<exists>i<n. waits (ls i) l) \<or>
     (\<exists>i<n. \<exists>j<n. i \<noteq> j \<and> l \<le> entered n (ls i) \<and> l \<le> entered n (ls j))"

text \<open>
  The invariant: the array shows the levels; at a level that is not broken, a thread that scans as the
  victim has seen, and still would see, that the threads scanned so far are below its level, and while
  the level is crowded its victim waits there.
\<close>

definition scan_ok :: "nat \<Rightarrow> filter_env \<Rightarrow> (nat \<Rightarrow> filter_thread) \<Rightarrow> nat \<Rightarrow> filter_thread \<Rightarrow> bool" where
  "scan_ok n s ls i t \<longleftrightarrow> (\<forall>l k. pc t = InLock (Higher_or_equal l k) \<longrightarrow> \<not> broken n ls l \<longrightarrow>
     victims s ! l = int i \<longrightarrow> (\<forall>j<k. j < n \<longrightarrow> j \<noteq> i \<longrightarrow> entered n (ls j) < l))"

definition filter_inv :: "nat \<Rightarrow> (filter_env, filter_thread) cfg \<Rightarrow> bool" where
  "filter_inv n c \<longleftrightarrow>
     length (levels (fst c)) = n \<and> length (victims (fst c)) = n \<and>
     (\<forall>i<n. pc_ok n (snd c i) \<and> levels (fst c) ! i = int (written n (snd c i)) \<and>
        scan_ok n (fst c) (snd c) i (snd c i)) \<and>
     (\<forall>l. 0 < l \<longrightarrow> l < n \<longrightarrow> \<not> broken n (snd c) l \<longrightarrow> crowded n (snd c) l \<longrightarrow>
        (\<exists>v<n. victims (fst c) ! l = int v \<and> waits (snd c v) l))"

lemma filter_inv_parts:
  assumes "filter_inv n (s, ls)"
  shows "length (levels s) = n" and "length (victims s) = n"
    and "i < n \<Longrightarrow> pc_ok n (ls i)"
    and "i < n \<Longrightarrow> levels s ! i = int (written n (ls i))"
    and "i < n \<Longrightarrow> scan_ok n s ls i (ls i)"
    and "0 < l \<Longrightarrow> l < n \<Longrightarrow> \<not> broken n ls l \<Longrightarrow> crowded n ls l \<Longrightarrow> \<exists>v<n. victims s ! l = int v \<and> waits (ls v) l"
  using assms unfolding filter_inv_def fst_conv snd_conv by blast+

text \<open>The memory an execution starts with: no thread at a level, and any victims.\<close>

definition filter_starts :: "nat \<Rightarrow> filter_env \<Rightarrow> bool" where
  "filter_starts n s \<longleftrightarrow> levels s = replicate n 0 \<and> length (victims s) = n"

lemma filter_inv_start:
  assumes "filter_starts n s"
  shows "filter_inv n (sync_init s v)"
proof -
  have "\<not> waits (snd (sync_init s v) i) l" for i l by (simp add: sync_init_def)
  then have "\<not> crowded n (snd (sync_init s v)) l" if "0 < l" for l
    using that by (auto simp: crowded_def)
  with assms show ?thesis
    by (auto simp: filter_inv_def filter_starts_def pc_ok_def scan_ok_def)
qed

lemma filter_mem0_starts: "filter_starts n (filter_mem0 mem1 mem2 n)"
  by (simp add: filter_starts_def filter_mem0_eq)

lemma filter_inv_init: "filter_inv n (sync_init (filter_mem0 mem1 mem2 n) v)"
  by (rule filter_inv_start [OF filter_mem0_starts])

lemma broken_update: "\<not> broken n (ls(i := t')) l \<Longrightarrow> pc (ls i) \<noteq> Finished \<Longrightarrow> \<not> broken n ls l"
  by (auto simp: broken_def split: if_splits)

text \<open>Steps that enter no level and pass none.\<close>

lemma filter_inv_keep:
  assumes inv: "filter_inv n (s, ls)" and i: "i < n" "pc (ls i) \<noteq> Finished"
    and env: "levels s' = (levels s)[i := int (written n t')]" "victims s' = victims s"
    and t': "pc_ok n t'" "entered n t' \<le> entered n (ls i)" "\<And>l. waits t' l = waits (ls i) l" "scan_ok n s ls i t'"
  shows "filter_inv n (s', ls(i := t'))"
proof -
  note p = filter_inv_parts [OF inv]
  have ent: "entered n ((ls(i := t')) j) \<le> entered n (ls j)" for j using t'(2) by simp
  have wait: "waits ((ls(i := t')) j) l = waits (ls j) l" for j l using t'(3) by simp
  have crowd: "crowded n ls l" if "crowded n (ls(i := t')) l" for l
    using that ent le_trans unfolding crowded_def wait by blast
  show ?thesis
    unfolding filter_inv_def fst_conv snd_conv
  proof (intro conjI allI impI)
    show "length (levels s') = n" "length (victims s') = n" using p(1,2) env by simp_all
  next
    fix j assume j: "j < n"
    show "pc_ok n ((ls(i := t')) j)" using p(3) [OF j] t'(1) by simp
    show "levels s' ! j = int (written n ((ls(i := t')) j))"
      using env(1) p(1) p(4) [OF j] i by (cases "j = i") simp_all
    have "scan_ok n s ls j ((ls(i := t')) j)" using p(5) [OF j] t'(4) by simp
    then show "scan_ok n s' (ls(i := t')) j ((ls(i := t')) j)"
      unfolding scan_ok_def env(2) using ent le_less_trans broken_update [where ls = ls and i = i and t' = t', OF _ i(2)] by blast
  next
    fix l assume l: "0 < l" "l < n" "\<not> broken n (ls(i := t')) l" "crowded n (ls(i := t')) l"
    from p(6) [OF l(1,2) broken_update [where ls = ls, OF l(3) i(2)] crowd [OF l(4)]]
    show "\<exists>v<n. victims s' ! l = int v \<and> waits ((ls(i := t')) v) l" by (simp only: wait env(2))
  qed
qed

text \<open>Entering a level: the thread becomes its victim and starts to scan.\<close>

lemma filter_inv_enter:
  assumes inv: "filter_inv n (s, ls)" and i: "i < n" and pc: "pc (ls i) = InLock (Exchange_victim l)"
    and t': "pc t' = InLock (Higher_or_equal l 0)"
  shows "filter_inv n (s\<lparr>victims := (victims s)[l := int i]\<rparr>, ls(i := t'))"
    (is "filter_inv n (?s, _)")
proof -
  note p = filter_inv_parts [OF inv]
  have l: "0 < l" "l < n" using p(3) [OF i] pc by (simp_all add: pc_ok_def)
  have wait: "waits ((ls(i := t')) j) m \<longleftrightarrow> waits (ls j) m \<or> j = i \<and> m = l" for j m
    using pc t' by simp
  have unfinished: "pc (ls i) \<noteq> Finished" using pc by simp
  have same: "m \<le> entered n ((ls(i := t')) j) \<longleftrightarrow> m \<le> entered n (ls j)" if "m \<noteq> l" for m j
    using pc t' that l by auto
  show ?thesis
    unfolding filter_inv_def fst_conv snd_conv
  proof (intro conjI allI impI)
    show "length (levels ?s) = n" "length (victims ?s) = n" using p(1,2) by simp_all
  next
    fix j assume j: "j < n"
    show "pc_ok n ((ls(i := t')) j)" using p(3) [OF j] t' l by (simp add: pc_ok_def)
    show "levels ?s ! j = int (written n ((ls(i := t')) j))" using p(4) [OF j] pc t' by simp
    show "scan_ok n ?s (ls(i := t')) j ((ls(i := t')) j)"
      unfolding scan_ok_def
    proof (intro allI impI)
      fix m k r
      assume j2: "pc ((ls(i := t')) j) = InLock (Higher_or_equal m k)" "\<not> broken n (ls(i := t')) m"
        "victims ?s ! m = int j" "r < k" "r < n" "r \<noteq> j"
      then have "j \<noteq> i" using t' by auto
      with j2 have "m \<noteq> l" "victims s ! m = int j" using p(2) l by (cases "m = l"; simp)+
      with p(5) [OF j] j2 \<open>j \<noteq> i\<close> broken_update [where ls = ls, OF j2(2) unfinished]
      have old: "entered n (ls r) < m" by (simp add: scan_ok_def)
      with same [OF \<open>m \<noteq> l\<close>, of r] show "entered n ((ls(i := t')) r) < m" by linarith
    qed
  next
    fix m assume m: "0 < m" "m < n" "\<not> broken n (ls(i := t')) m" "crowded n (ls(i := t')) m"
    show "\<exists>v<n. victims ?s ! m = int v \<and> waits ((ls(i := t')) v) m"
    proof (cases "m = l")
      case True
      with p(2) l i t' show ?thesis by (intro exI [of _ i]) simp
    next
      case False
      then have "crowded n ls m" using m(4) unfolding crowded_def wait same [OF False] by blast
      with p(6) [OF m(1,2) broken_update [where ls = ls, OF m(3) unfinished]] False wait show ?thesis by auto
    qed
  qed
qed

text \<open>
  Passing a level: the thread is not its victim any more, or it is and everybody else is below. In
  the first case the victim stays behind; in the second there is nobody else.
\<close>

lemma filter_inv_pass:
  assumes inv: "filter_inv n (s, ls)" and i: "i < n" and w: "waits (ls i) l"
    and t': "pc t' = InLock (For_level (l + 1))"
    and alone: "\<not> broken n ls l \<Longrightarrow> victims s ! l = int i \<Longrightarrow> \<forall>j<n. j \<noteq> i \<longrightarrow> entered n (ls j) < l"
  shows "filter_inv n (s, ls(i := t'))"
proof -
  note p = filter_inv_parts [OF inv]
  note lev = waits_level [OF w, of n]
  have l: "0 < l" "l < n" using p(3) [OF i] w by (auto simp: pc_ok_def waits_def)
  have ent: "entered n ((ls(i := t')) j) = entered n (ls j)" for j using t' lev by simp
  have wait: "waits ((ls(i := t')) j) m \<longleftrightarrow> waits (ls j) m \<and> j \<noteq> i" for j m using t' by simp
  have unfinished: "pc (ls i) \<noteq> Finished" using w by (auto simp: waits_def)
  show ?thesis
    unfolding filter_inv_def fst_conv snd_conv
  proof (intro conjI allI impI)
    fix j assume j: "j < n"
    show "pc_ok n ((ls(i := t')) j)" using p(3) [OF j] t' l by (simp add: pc_ok_def)
    show "levels s ! j = int (written n ((ls(i := t')) j))" using p(4) [OF j] t' lev by simp
    show "scan_ok n s (ls(i := t')) j ((ls(i := t')) j)"
      using p(5) [OF j] t' broken_update [where ls = ls and i = i and t' = t', OF _ unfinished] unfolding scan_ok_def ent by (cases "j = i") simp_all
  next
    fix m assume m: "0 < m" "m < n" "\<not> broken n (ls(i := t')) m" "crowded n (ls(i := t')) m"
    note intact = broken_update [where ls = ls, OF m(3) unfinished]
    have "crowded n ls m" using m(4) unfolding crowded_def wait ent by blast
    from p(6) [OF m(1,2) intact this] obtain v where v: "v < n" "victims s ! m = int v" "waits (ls v) m" by blast
    have "v \<noteq> i"
    proof
      assume "v = i"
      then have "m = l" using w v(3) waits_level [OF v(3), of n] lev by simp
      then have low: "entered n (ls j) < m" if "j < n" "j \<noteq> i" for j
        using alone intact v(2) \<open>v = i\<close> that by blast
      from m(4) consider j where "j < n" "waits (ls j) m" "j \<noteq> i"
        | j k where "j < n" "k < n" "j \<noteq> k" "m \<le> entered n (ls j)" "m \<le> entered n (ls k)"
        unfolding crowded_def wait ent by blast
      then show False
      proof cases
        case (1 j)
        with low [of j] waits_level [OF 1(2), of n] show False by simp
      next
        case (2 j k)
        with low [of j] low [of k] show False by (cases "j = i") auto
      qed
    qed
    with v wait show "\<exists>v<n. victims s ! m = int v \<and> waits ((ls(i := t')) v) m" by blast
  qed (use p(1,2) in simp_all)
qed

lemma filter_inv_step:
  assumes inv: "filter_inv n (s, ls)" and i: "i < n"
    and step: "sync_step (filter_lock n) k i s (ls i) = Some (s', t')"
  shows "filter_inv n (s', ls(i := t'))"
proof -
  note p = filter_inv_parts [OF inv]
  have unfinished: "pc (ls i) \<noteq> Finished" using step by auto
  note keep = filter_inv_keep [OF inv i unfinished]
  have ok: "pc_ok n (ls i)" by (rule p(3) [OF i])
  have keep_same: ?thesis
    if "s' = s" "written n t' = written n (ls i)" "pc_ok n t'" "entered n t' \<le> entered n (ls i)"
      "\<And>l. waits t' l = waits (ls i) l" "scan_ok n s ls i t'"
    using that by (intro keep) (simp_all add: p(4) [OF i, symmetric])
  from step show ?thesis
  proof (cases rule: sync_step_cases)
    case (lock q v' r)
    then have instr: "filter_lock_instr n i s () q = (s', v', r)" by (simp add: filter_lock_def)
    show ?thesis
    proof (cases q)
      case (For_level l)
      with lock instr have "s' = s" "pc t' = (if l < n then InLock (Store_level l) else UsefulIn)"
        by auto
      with ok lock For_level show ?thesis
        by (intro keep_same) (auto simp: pc_ok_def scan_ok_def split: if_splits)
    next
      case (Store_level l)
      with lock instr i p(1) have "s' = s\<lparr>levels := (levels s)[i := int l]\<rparr>"
        "pc t' = InLock (Exchange_victim l)"
        by (auto simp: array_simps)
      with ok lock Store_level show ?thesis
        by (intro keep) (auto simp: pc_ok_def scan_ok_def)
    next
      case (Exchange_victim l)
      with ok lock have "l < n" by (simp add: pc_ok_def)
      with Exchange_victim lock instr p(2) have "s' = s\<lparr>victims := (victims s)[l := int i]\<rparr>"
        "pc t' = InLock (Higher_or_equal l 0)"
        by (auto simp: array_simps)
      with filter_inv_enter [OF inv i] lock Exchange_victim show ?thesis by simp
    next
      case (Higher_or_equal l m)
      with lock have pc: "pc (ls i) = InLock (Higher_or_equal l m)" by simp
      have scan: "scan_ok n s ls i (ls i)" by (rule p(5) [OF i])
      have lm: "0 < l" "l < n" "m \<le> n" using ok pc by (simp_all add: pc_ok_def)
      consider (scanned) "\<not> m < n" | (self) "m < n" "m = i" | (high) "m < n" "m \<noteq> i" "int l \<le> levels s ! m"
        | (low) "m < n" "m \<noteq> i" "levels s ! m < int l"
        by linarith
      then show ?thesis
      proof cases
        case scanned
        with lock instr Higher_or_equal have "s' = s" "pc t' = InLock (For_level (l + 1))" by auto
        moreover have "\<forall>j<n. j \<noteq> i \<longrightarrow> entered n (ls j) < l" if "\<not> broken n ls l" "victims s ! l = int i"
          using scan pc that scanned lm by (auto simp: scan_ok_def)
        ultimately show ?thesis using filter_inv_pass [OF inv i] pc by simp
      next
        case self
        with lock instr Higher_or_equal have "s' = s" "pc t' = InLock (Higher_or_equal l (m + 1))"
          by auto
        with pc lm self scan show ?thesis
          by (intro keep_same) (auto simp: pc_ok_def scan_ok_def less_Suc_eq)
      next
        case high
        with lock instr Higher_or_equal p(1) have "s' = s" "pc t' = InLock (Load_victim l)"
          by (auto simp: array_simps)
        with pc lm show ?thesis by (intro keep_same) (auto simp: pc_ok_def scan_ok_def)
      next
        case low
        with lock instr Higher_or_equal p(1) have eq: "s' = s" "pc t' = InLock (Higher_or_equal l (m + 1))"
          by (auto simp: array_simps)
        have "entered n (ls m) < l"
          using low p(4) [of m] level_order(2) [of n "ls m"] by simp
        with pc scan eq have "scan_ok n s ls i t'" by (auto simp: scan_ok_def less_Suc_eq)
        with eq pc lm low show ?thesis by (intro keep_same) (auto simp: pc_ok_def)
      qed
    next
      case (Load_victim l)
      with lock have pc: "pc (ls i) = InLock (Load_victim l)" by simp
      have l: "0 < l" "l < n" using ok pc by (simp_all add: pc_ok_def)
      show ?thesis
      proof (cases "victims s ! l = int i")
        case True
        with lock instr Load_victim p(2) l have "s' = s" "pc t' = InLock (Higher_or_equal l 0)"
          by (auto simp: array_simps)
        with pc l show ?thesis by (intro keep_same) (auto simp: pc_ok_def scan_ok_def)
      next
        case False
        with lock instr Load_victim p(2) l have "s' = s" "pc t' = InLock (For_level (l + 1))"
          by (auto simp: array_simps)
        with filter_inv_pass [OF inv i, of l t'] pc False show ?thesis by simp
      qed
    qed
  next
    case (unlock q v' r)
    with i p(1) have "s' = s\<lparr>levels := (levels s)[i := 0]\<rparr>" "pc t' = UsefulOut"
      by (auto simp: filter_lock_def array_simps)
    with unlock show ?thesis by (intro keep) (auto simp: pc_ok_def scan_ok_def)
  next
    case test
    then show ?thesis by (intro keep_same) (auto simp: pc_ok_def scan_ok_def)
  next
    case enter
    with i show ?thesis by (intro keep_same) (auto simp: pc_ok_def scan_ok_def filter_lock_def)
  next
    case crit
    then show ?thesis by (intro keep_same) (auto simp: pc_ok_def scan_ok_def)
  next
    case out
    then show ?thesis by (intro keep_same) (auto simp: pc_ok_def scan_ok_def)
  qed
qed

lemma filter_inv_reach:
  assumes "sync_reach (filter_lock (nr_threads b)) b (filter_mem0 mem1 mem2 (nr_threads b)) v c"
  shows "filter_inv (nr_threads b) c"
  using assms
proof (rule sync_reach_invariant)
  show "filter_inv (nr_threads b) (sync_init (filter_mem0 mem1 mem2 (nr_threads b)) v)"
    by (rule filter_inv_init)
qed (rule filter_inv_step)

text \<open>
  At an intact level that two threads have passed a third one waits. So every intact level keeps one thread
  back, and there are at least as many intact levels as threads in the loop, less one.
\<close>

definition passers :: "nat \<Rightarrow> (nat \<Rightarrow> filter_thread) \<Rightarrow> nat \<Rightarrow> nat set" where
  "passers n ls l = {i. i < n \<and> pc (ls i) \<noteq> Finished \<and> l \<le> passed_levels n (ls i)}"

lemma finite_passers [simp]: "finite (passers n ls l)"
  by (simp add: passers_def)

lemma entered_passed: "entered n t \<le> Suc (passed_levels n t)"
proof -
  have "label_entered p \<le> Suc (label_passed p)" for p by (cases p) simp_all
  then show ?thesis by (cases "pc t") simp_all
qed

lemma passers_behind:
  assumes inv: "filter_inv n (s, ls)" and l: "Suc l < n" "\<not> broken n ls (Suc l)"
    and "i \<in> passers n ls (Suc l)" "j \<in> passers n ls (Suc l)" "i \<noteq> j"
  shows "card (passers n ls (Suc l)) < card (passers n ls l)"
proof -
  have "crowded n ls (Suc l)"
    using assms(4-6) level_order(1) le_trans unfolding crowded_def passers_def by blast
  from filter_inv_parts(6) [OF inv _ l this] obtain v where v: "v < n" "waits (ls v) (Suc l)" by blast
  have "v \<in> passers n ls l" "v \<notin> passers n ls (Suc l)"
    using v waits_level [OF v(2), of n] by (auto simp: passers_def waits_def)
  moreover have "passers n ls (Suc l) \<subseteq> passers n ls l" by (auto simp: passers_def)
  ultimately show ?thesis by (intro psubset_card_mono) auto
qed

lemma passers_bound:
  assumes inv: "filter_inv n (s, ls)" and "l < n"
  shows "card (passers n ls l) \<le> 1 \<or>
    card (passers n ls l) + card {i. i < n \<and> pc (ls i) = Finished} + card {m. 0 < m \<and> m \<le> l \<and> \<not> broken n ls m} \<le> n"
  using assms(2)
proof (induction l)
  case 0
  have "card (passers n ls 0) + card {i. i < n \<and> pc (ls i) = Finished} =
      card (passers n ls 0 \<union> {i. i < n \<and> pc (ls i) = Finished})"
    by (intro card_Un_disjoint [symmetric]) (auto simp: passers_def)
  also have "\<dots> \<le> card {..<n}" by (intro card_mono) (auto simp: passers_def)
  finally have "card (passers n ls 0) + card {i. i < n \<and> pc (ls i) = Finished} \<le> n" by simp
  moreover have none: "{m. 0 < m \<and> m \<le> 0 \<and> \<not> broken n ls m} = {}" by auto
  ultimately show ?case unfolding none by simp
next
  case (Suc l)
  let ?F = "{i. i < n \<and> pc (ls i) = Finished}" and ?L = "\<lambda>l. {m. 0 < m \<and> m \<le> l \<and> \<not> broken n ls m}"
  have mono: "card (passers n ls (Suc l)) \<le> card (passers n ls l)"
    by (intro card_mono) (auto simp: passers_def)
  show ?case
  proof (cases "card (passers n ls (Suc l)) \<le> 1")
    case False
    with mono Suc have IH: "card (passers n ls l) + card ?F + card (?L l) \<le> n" by linarith
    show ?thesis
    proof (cases "broken n ls (Suc l)")
      case True
      then have "?L (Suc l) = ?L l" by (auto simp: le_Suc_eq)
      with IH mono show ?thesis by simp
    next
      case intact: False
      have "?L (Suc l) = insert (Suc l) (?L l)" using intact by (auto simp: le_Suc_eq)
      moreover have "card (insert (Suc l) (?L l)) \<le> Suc (card (?L l))" by (rule card_insert_le_m1) simp_all
      moreover from False obtain i j where "i \<in> passers n ls (Suc l)" "j \<in> passers n ls (Suc l)" "i \<noteq> j"
        using card_le_Suc0_iff_eq [OF finite_passers, of n ls "Suc l"] by auto
      note passers_behind [OF inv Suc.prems intact this]
      ultimately show ?thesis using IH by simp
    qed
  qed simp
qed

text \<open>At most one thread has passed the last level.\<close>

lemma filter_inv_mutex:
  assumes inv: "filter_inv n c" and i: "i < n" "past_lock (snd c i)" and j: "j < n" "past_lock (snd c j)"
  shows "i = j"
proof (rule ccontr)
  assume "i \<noteq> j"
  let ?ls = "snd c" and ?A = "passers n (snd c) (n - 1)"
  have in_A: "{i, j} \<subseteq> ?A" using i j by (auto simp: past_lock_def passers_def on_level_def split: sync_pc.splits)
  then have "card {i, j} \<le> card ?A" by (intro card_mono) auto
  then have two: "2 \<le> card ?A" using \<open>i \<noteq> j\<close> by simp
  have "filter_inv n (fst c, ?ls)" using inv by simp
  from passers_bound [OF this, of "n - 1"] two i(1)
  have bound: "card ?A + card {i. i < n \<and> pc (?ls i) = Finished} + card {m. 0 < m \<and> m \<le> n - 1 \<and> \<not> broken n ?ls m} \<le> n"
    by auto
  have "{1..n - 1} \<subseteq> {i. i < n \<and> pc (?ls i) = Finished} \<union> {m. 0 < m \<and> m \<le> n - 1 \<and> \<not> broken n ?ls m}"
    by (auto simp: broken_def)
  then have "card {1..n - 1} \<le> card ({i. i < n \<and> pc (?ls i) = Finished} \<union> {m. 0 < m \<and> m \<le> n - 1 \<and> \<not> broken n ?ls m})"
    by (intro card_mono) auto
  also have "\<dots> \<le> card {i. i < n \<and> pc (?ls i) = Finished} + card {m. 0 < m \<and> m \<le> n - 1 \<and> \<not> broken n ?ls m}"
    by (rule card_Un_le)
  finally show False using bound two i(1) by simp
qed

section \<open>Somebody can always pass\<close>

fun filter_rank :: "nat \<Rightarrow> filter_label \<Rightarrow> nat" where
  "filter_rank n (For_level l) = 4 * (n - l) + 3"
| "filter_rank n (Store_level l) = 4 * (n - l) + 2"
| "filter_rank n (Exchange_victim l) = 4 * (n - l) + 1"
| "filter_rank n (Higher_or_equal l k) = 4 * (n - l)"
| "filter_rank n (Load_victim l) = 4 * (n - l)"

lemma filter_rank_less: "filter_rank n p < 4 * n + 4"
  by (cases p) auto

text \<open>Only waiting threads spin.\<close>

lemma filter_advances:
  assumes it: "iter_inv b c" and inv: "filter_inv n c" and i: "i < n" "pc (snd c i) \<noteq> Finished"
    and free: "\<And>l. \<not> waits (snd c i) l"
  shows "advances (filter_lock n) (4 * n + 4) (filter_rank n) (\<lambda>_. 0) (iters b i) i (fst c) (snd c i)"
proof -
  have ok: "pc_ok n (snd c i)" and len: "length (levels (fst c)) = n" "length (victims (fst c)) = n"
    using inv i by (auto simp: filter_inv_def)
  show ?thesis
  proof (cases "pc (snd c i)")
    case (InLock p)
    with ok have "label_ok n p" by (simp add: pc_ok_def)
    then obtain s' r where "filter_lock_instr n i (fst c) () p = (s', (), r)"
      "r = Return \<or> (\<exists>p'. r = Goto p' \<and> filter_rank n p' < filter_rank n p)"
      using InLock free len i(1) by (cases p) (auto simp: array_simps waits_def split: if_splits)
    with InLock show ?thesis
      by (intro advances_lock [OF filter_rank_less InLock]) (simp_all add: filter_lock_def)
  next
    case (InUnlock q)
    with len i(1) show ?thesis
      by (auto intro!: advances_unlock simp: filter_lock_def array_simps)
  qed (use ok i it in \<open>auto intro!: advances_in_loop filter_rank_less simp: pc_ok_def\<close>)
qed

text \<open>A waiting thread that runs alone passes its level if it is not the victim or the highest.\<close>

definition can_pass :: "nat \<Rightarrow> filter_env \<Rightarrow> nat \<Rightarrow> nat \<Rightarrow> bool" where
  "can_pass n s i l \<longleftrightarrow> length (levels s) = n \<and> length (victims s) = n \<and> l < n \<and>
     (victims s ! l \<noteq> int i \<or> (\<forall>j<n. j \<noteq> i \<longrightarrow> levels s ! j < int l))"

lemma solo_instr:
  assumes "pc t = InLock p" and "filter_lock_instr n i s () p = (s, (), Goto p')"
  shows "solo (sync_step (filter_lock n) k i) (Suc m) s t =
    solo (sync_step (filter_lock n) k i) m s (t\<lparr>pc := InLock p'\<rparr>)"
  using assms by (cases t) (simp add: filter_lock_def)

lemma filter_scan_passes:
  assumes "can_pass n s i l" and "pc t = InLock (Higher_or_equal l j)"
  shows "\<exists>m. solo (sync_step (filter_lock n) k i) m s t = (s, t\<lparr>pc := InLock (For_level (l + 1))\<rparr>)"
  using assms(2)
proof (induction "n - j" arbitrary: j t)
  case 0
  then have "filter_lock_instr n i s () (Higher_or_equal l j) = (s, (), Goto (For_level (l + 1)))"
    by simp
  from solo_instr [where m = 0, OF 0(2) this] show ?case by (metis solo.simps(1))
next
  case (Suc d)
  then have j: "j < n" by simp
  consider (on) "filter_lock_instr n i s () (Higher_or_equal l j) = (s, (), Goto (Higher_or_equal l (j + 1)))"
    | (high) "j \<noteq> i" "int l \<le> levels s ! j"
      "filter_lock_instr n i s () (Higher_or_equal l j) = (s, (), Goto (Load_victim l))"
    using j assms(1) by (cases "j = i"; cases "int l \<le> levels s ! j") (auto simp: can_pass_def array_simps)
  then show ?case
  proof cases
    case on
    have "d = n - (j + 1)" using Suc.hyps(2) by simp
    from Suc.hyps(1) [OF this, of "t\<lparr>pc := InLock (Higher_or_equal l (j + 1))\<rparr>"]
    obtain m where "solo (sync_step (filter_lock n) k i) m s (t\<lparr>pc := InLock (Higher_or_equal l (j + 1))\<rparr>) =
        (s, t\<lparr>pc := InLock (For_level (l + 1))\<rparr>)"
      by auto
    with solo_instr [where m = m, OF Suc.prems on] show ?thesis by metis
  next
    case high
    then have victim: "victims s ! l \<noteq> int i" using assms(1) j by (auto simp: can_pass_def)
    let ?t = "t\<lparr>pc := InLock (Load_victim l)\<rparr>"
    have "filter_lock_instr n i s () (Load_victim l) = (s, (), Goto (For_level (l + 1)))"
      using victim assms(1) by (auto simp: can_pass_def array_simps)
    from solo_instr [where t = ?t and m = 0 and k = k, OF _ this]
    have "solo (sync_step (filter_lock n) k i) (Suc 0) s ?t = (s, t\<lparr>pc := InLock (For_level (l + 1))\<rparr>)"
      by simp
    with solo_instr [where m = "Suc 0" and k = k, OF Suc.prems high(3)] show ?thesis by metis
  qed
qed

lemma filter_waiting_passes:
  assumes "can_pass n s i l" and w: "waits t l"
  shows "\<exists>m. solo (sync_step (filter_lock n) k i) m s t = (s, t\<lparr>pc := InLock (For_level (l + 1))\<rparr>)"
proof -
  from w consider j where "pc t = InLock (Higher_or_equal l j)" | (load) "pc t = InLock (Load_victim l)"
    by (auto simp: waits_def)
  then show ?thesis
  proof cases
    case 1
    with filter_scan_passes [OF assms(1)] show ?thesis by blast
  next
    case load
    show ?thesis
    proof (cases "victims s ! l = int i")
      case True
      then have "filter_lock_instr n i s () (Load_victim l) = (s, (), Goto (Higher_or_equal l 0))"
        using assms(1) by (auto simp: can_pass_def array_simps)
      note one = solo_instr [OF load this]
      let ?t = "t\<lparr>pc := InLock (Higher_or_equal l 0)\<rparr>"
      from filter_scan_passes [OF assms(1), of ?t 0 k] obtain m where
        "solo (sync_step (filter_lock n) k i) m s ?t = (s, t\<lparr>pc := InLock (For_level (l + 1))\<rparr>)"
        by auto
      with one [where m = m and k = k] show ?thesis by metis
    next
      case False
      then have "filter_lock_instr n i s () (Load_victim l) = (s, (), Goto (For_level (l + 1)))"
        using assms(1) by (auto simp: can_pass_def array_simps)
      from solo_instr [where m = 0 and k = k, OF load this] show ?thesis by (metis solo.simps(1))
    qed
  qed
qed

text \<open>Among threads that all wait, one at the highest level can pass.\<close>

lemma filter_highest_passes:
  assumes inv: "filter_inv n (s, ls)" and k: "k < n" "waits (ls k) l"
    and all: "\<And>j. j < n \<Longrightarrow> pc (ls j) = Finished \<or> (\<exists>l. waits (ls j) l)"
  shows "\<exists>i<n. \<exists>l. waits (ls i) l \<and> can_pass n s i l"
proof -
  note p = filter_inv_parts [OF inv]
  define W where "W = {l. \<exists>j<n. waits (ls j) l}"
  have "finite W"
  proof (rule finite_subset)
    show "W \<subseteq> (\<lambda>j. entered n (ls j)) ` {..<n}"
    proof
      fix l assume "l \<in> W"
      then obtain j where "j < n" "waits (ls j) l" by (auto simp: W_def)
      moreover from waits_level [OF this(2), of n] have "l = entered n (ls j)" by simp
      ultimately show "l \<in> (\<lambda>j. entered n (ls j)) ` {..<n}" by blast
    qed
  qed simp
  moreover have "W \<noteq> {}" using k by (auto simp: W_def)
  ultimately have "Max W \<in> W" by (rule Max_in)
  then obtain j where j: "j < n" "waits (ls j) (Max W)" by (auto simp: W_def)
  define m where "m = Max W"
  have top: "l \<le> m" if "j < n" "waits (ls j) l" for j l
    unfolding m_def using \<open>finite W\<close> that by (intro Max_ge) (auto simp: W_def)
  have len: "length (levels s) = n" "length (victims s) = n" "m < n" "0 < m"
    using p(1,2) p(3) [OF j(1)] j(2) by (auto simp: pc_ok_def waits_def m_def)
  show ?thesis
  proof (cases "\<exists>i<n. victims s ! m \<noteq> int i \<and> waits (ls i) m")
    case True
    then obtain i where "i < n" "victims s ! m \<noteq> int i" "waits (ls i) m" by blast
    with len show ?thesis by (intro exI [of _ i] conjI exI [of _ m]) (auto simp: can_pass_def)
  next
    case False
    then have only: "victims s ! m = int i" if "i < n" "waits (ls i) m" for i using that by blast
    have "levels s ! i < int m" if "i < n" "i \<noteq> j" for i
    proof (cases "\<exists>l. waits (ls i) l")
      case True
      then obtain l where l: "waits (ls i) l" by blast
      have "l \<noteq> m" using only [of i] only [of j] that j l by (auto simp: m_def)
      moreover have "l \<le> m" using top [OF that(1) l] .
      ultimately show ?thesis using p(4) [OF that(1)] waits_level [OF l, of n] by simp
    next
      case none: False
      then have "pc (ls i) = Finished" using all [OF that(1)] by blast
      with len(4) show ?thesis using p(4) [OF that(1)] by simp
    qed
    with j len show ?thesis by (intro exI [of _ j] conjI exI [of _ m]) (auto simp: can_pass_def m_def)
  qed
qed

lemma filter_gets_on:
  assumes it: "iter_inv b c" and inv0: "filter_inv (nr_threads b) c" and unfinished: "\<not> all_finished (nr_threads b) c"
  shows "\<exists>i<nr_threads b. gets_on (filter_lock (nr_threads b)) (4 * nr_threads b + 4) (filter_rank (nr_threads b)) (\<lambda>_. 0)
    (iters b i) i (fst c) (snd c i)"
proof -
  let ?n = "nr_threads b"
  have inv: "filter_inv ?n (fst c, snd c)" using inv0 by simp
  show ?thesis
  proof (cases "\<exists>i<?n. pc (snd c i) \<noteq> Finished \<and> (\<forall>l. \<not> waits (snd c i) l)")
    case True
    then obtain i where i: "i < ?n" "pc (snd c i) \<noteq> Finished" "\<And>l. \<not> waits (snd c i) l" by blast
    from advances_gets_on [OF filter_advances [OF it inv0 i]] i(1) show ?thesis by blast
  next
    case False
    from unfinished obtain k where "k < ?n" "pc (snd c k) \<noteq> Finished" by (auto simp: all_finished_def)
    with False obtain l where "waits (snd c k) l" by blast
    with filter_highest_passes [OF inv \<open>k < ?n\<close>] False
    obtain i m where i: "i < ?n" "waits (snd c i) m" "can_pass ?n (fst c) i m" by blast
    from filter_waiting_passes [OF i(3,2)] obtain d where d: "solo (sync_step (filter_lock ?n) (iters b i) i) d
        (fst c) (snd c i) = (fst c, (snd c i)\<lparr>pc := InLock (For_level (m + 1))\<rparr>)"
      by blast
    have "m < ?n" using i(3) by (simp add: can_pass_def)
    then have "thread_rank (4 * ?n + 4) (filter_rank ?n) (\<lambda>_. 0) (iters b i)
        ((snd c i)\<lparr>pc := InLock (For_level (m + 1))\<rparr>)
      < thread_rank (4 * ?n + 4) (filter_rank ?n) (\<lambda>_. 0) (iters b i) (snd c i)"
      using i(2) by (auto simp: thread_rank_def waits_def)
    from gets_on_alone [OF d this] i(1,2) show ?thesis by (auto simp: waits_def)
  qed
qed

lemma filter_unstuck:
  assumes valid: "valid_bench b"
    and reach: "sync_reach (filter_lock (nr_threads b)) b (filter_mem0 mem1 mem2 (nr_threads b)) v c"
    and unfinished: "\<not> all_finished (nr_threads b) c"
  shows "\<exists>is. total_rank (4 * nr_threads b + 4) (filter_rank (nr_threads b)) (\<lambda>_. 0) b
      (run_sched (sync_prog (filter_lock (nr_threads b)) b) (nr_threads b) is c)
    < total_rank (4 * nr_threads b + 4) (filter_rank (nr_threads b)) (\<lambda>_. 0) b c"
  using filter_gets_on [OF sync_reach_iter_inv [OF valid reach] filter_inv_reach [OF reach] unfinished] total_rank_gets_on
  by blast

text \<open>
  The stores of \<open>reset_filter_lock(tid)\<close>, which a thread makes for the next execution as soon as it has left
  the loop: the level is zero already, and the level whose victim is overwritten keeps nobody back any more.
\<close>

fun filter_reset_store :: "nat \<Rightarrow> nat \<Rightarrow> filter_env \<Rightarrow> filter_env option" where
  "filter_reset_store tid k env =
     (if k = 0 then map_option (\<lambda>a. env\<lparr>levels := a\<rparr>) (array_store (levels env) tid 0)
      else map_option (\<lambda>a. env\<lparr>victims := a\<rparr>) (array_store (victims env) tid 0))"

lemma filter_reset_stores:
  "Option.bind (filter_reset_store tid 0 env) (filter_reset_store tid 1) = reset_filter_lock tid env"
  by (simp add: reset_filter_lock_def split: option.splits)

lemma filter_inv_reset_level:
  assumes inv: "filter_inv n (s, ls)" and i: "i < n" "pc (ls i) = Finished"
  shows "(levels s)[i := 0] = levels s"
proof -
  have "levels s ! i = 0" using filter_inv_parts(4) [OF inv i(1)] i(2) by simp
  then show ?thesis by (metis list_update_id)
qed

lemma filter_inv_reset_victim:
  assumes inv: "filter_inv n (s, ls)" and i: "i < n" "pc (ls i) = Finished"
  shows "filter_inv n (s\<lparr>victims := (victims s)[i := 0]\<rparr>, ls)"
proof -
  note p = filter_inv_parts [OF inv]
  have other: "(victims s)[i := 0] ! l = victims s ! l" if "\<not> broken n ls l" for l
    using that i by (cases "l = i") (auto simp: broken_def)
  show ?thesis
    unfolding filter_inv_def fst_conv snd_conv
  proof (intro conjI allI impI)
    fix j assume "j < n"
    with p(5) show "scan_ok n (s\<lparr>victims := (victims s)[i := 0]\<rparr>) ls j (ls j)" by (simp add: scan_ok_def other)
  next
    fix l assume "0 < l" "l < n" "\<not> broken n ls l" "crowded n ls l"
    with p(6) other show "\<exists>v<n. victims (s\<lparr>victims := (victims s)[i := 0]\<rparr>) ! l = int v \<and> waits (ls v) l" by simp
  qed (use p in simp_all)
qed

interpretation filter_resetting: resettable_lock valid_bench "\<lambda>b. filter_lock (nr_threads b)" filter_reset_store 2
  "\<lambda>b. filter_starts (nr_threads b)" "\<lambda>b s ls. filter_inv (nr_threads b) (s, ls)"
  "\<lambda>b. 4 * nr_threads b + 4" "\<lambda>b. filter_rank (nr_threads b)" "\<lambda>_ _. 0"
proof unfold_locales
  fix b s and v :: unit
  assume "filter_starts (nr_threads b) s"
  from filter_inv_start [OF this, of "\<lambda>_. v"]
  show "filter_inv (nr_threads b) (s, snd (sync_init s (\<lambda>_. v)))" by (simp add: sync_init_def)
next
  fix b s ls i k
  assume inv: "filter_inv (nr_threads b) (s, ls)" and i: "i < nr_threads b" "pc (ls i) = Finished" and "k < (2 :: nat)"
  have "filter_reset_store i 0 s = Some s"
    using i(1) filter_inv_parts(1) [OF inv] filter_inv_reset_level [OF inv i] by (simp add: array_simps)
  moreover have "filter_reset_store i 1 s = Some (s\<lparr>victims := (victims s)[i := 0]\<rparr>)"
    using i(1) filter_inv_parts(2) [OF inv] by (simp add: array_simps)
  moreover have "k = 0 \<or> k = 1" using \<open>k < 2\<close> by auto
  ultimately show "\<exists>s'. filter_reset_store i k s = Some s' \<and> filter_inv (nr_threads b) (s', ls)"
    using inv filter_inv_reset_victim [OF inv i] by blast
next
  fix b s ls i j
  assume "filter_inv (nr_threads b) (s, ls)" "i < nr_threads b" "j < nr_threads b" "in_cs (ls i)" "in_cs (ls j)"
  then show "i = j"
    using filter_inv_mutex [of "nr_threads b" "(s, ls)" i j] by (auto dest: in_cs_past_lock)
next
  fix b s ls
  assume "filter_inv (nr_threads b) (s, ls)" "iter_inv b (s, ls)" "\<not> all_finished (nr_threads b) (s, ls)"
  then show "\<exists>i<nr_threads b. gets_on (filter_lock (nr_threads b)) (4 * nr_threads b + 4) (filter_rank (nr_threads b)) (\<lambda>_. 0)
      (iters b i) i s (ls i)"
    using filter_gets_on [of b "(s, ls)"] by simp
next
  fix b s ls
  assume inv: "filter_inv (nr_threads b) (s, ls)" and "all_finished (nr_threads b) (s, ls)"
  then have "levels s ! i = 0" if "i < nr_threads b" for i
    using filter_inv_parts(4) [OF inv that] that by (simp add: all_finished_def)
  then have "levels s = replicate (nr_threads b) 0"
    using filter_inv_parts(1) [OF inv] by (intro nth_equalityI) simp_all
  then show "filter_starts (nr_threads b) s" using filter_inv_parts(2) [OF inv] by (simp add: filter_starts_def)
qed (auto simp: filter_inv_parts pc_ok_def dest: filter_inv_step filter_inv_parts(3))

interpretation filter_lk: live_lock valid_bench "\<lambda>b. filter_lock (nr_threads b)"
  "\<lambda>b. filter_mem0 mem1 mem2 (nr_threads b)" "\<lambda>_ _. ()"
  "\<lambda>b. 4 * nr_threads b + 4" "\<lambda>b. filter_rank (nr_threads b)" "\<lambda>_ _. 0" for mem1 mem2
proof unfold_locales
  fix b c i j
  assume "sync_reach (filter_lock (nr_threads b)) b (filter_mem0 mem1 mem2 (nr_threads b)) (\<lambda>_. ()) c"
    "i < nr_threads b" "j < nr_threads b" "in_cs (snd c i)" "in_cs (snd c j)"
  then show "i = j"
    using filter_inv_mutex [OF filter_inv_reach, of b mem1 mem2 "\<lambda>_. ()" c i j]
    by (auto dest: in_cs_past_lock)
next
  fix b c i
  assume r: "sync_reach (filter_lock (nr_threads b)) b (filter_mem0 mem1 mem2 (nr_threads b)) (\<lambda>_. ()) c"
  show "pc (snd c i) \<noteq> Crashed"
  proof (cases "i < nr_threads b")
    case True
    with filter_inv_reach [OF r] show ?thesis by (auto simp: filter_inv_def pc_ok_def)
  next
    case False
    then show ?thesis using sync_reach_idle [OF r, of i] by simp
  qed
qed (assumption, rule filter_unstuck)

section \<open>Properties\<close>

text \<open>
  The filter lock benchmark, for any number of threads and whatever the allocated memory held:
  whatever instructions have run, in whatever order the scheduler chose, some continuation lets
  every thread finish; in the completed run the critical sections are serialised (no thread enters
  while another is inside), each thread has executed \<open>useful_in\<close> exactly \<open>nr_iter\<close> times, and no
  access was outside the arrays.
\<close>

theorem filter_contract:
  assumes "valid_bench b"
  shows "\<exists>more.
    all_finished (nr_threads b) (sync_run (filter_lock (nr_threads b)) b
      (filter_mem0 mem1 mem2 (nr_threads b)) (\<lambda>_. ()) (sched @ more)) \<and>
    lock_spec None (cs_trace (filter_lock (nr_threads b)) b
      (filter_mem0 mem1 mem2 (nr_threads b)) (\<lambda>_. ()) (sched @ more)) = Some None \<and>
    (\<forall>i<nr_threads b. int (entries i (cs_trace (filter_lock (nr_threads b)) b
      (filter_mem0 mem1 mem2 (nr_threads b)) (\<lambda>_. ()) (sched @ more))) = iters b i)"
  using assms by (rule filter_lk.completes_serialised)

theorem filter_contract_witness:
  "\<exists>more.
    all_finished 2 (sync_run (filter_lock 2) two_threads
      (filter_mem0 (\<lambda>_. 7) (\<lambda>_. 7) 2) (\<lambda>_. ()) ([0, 1, 0, 1] @ more)) \<and>
    lock_spec None (cs_trace (filter_lock 2) two_threads
      (filter_mem0 (\<lambda>_. 7) (\<lambda>_. 7) 2) (\<lambda>_. ()) ([0, 1, 0, 1] @ more)) = Some None \<and>
    (\<forall>i<2. int (entries i (cs_trace (filter_lock 2) two_threads
      (filter_mem0 (\<lambda>_. 7) (\<lambda>_. 7) 2) (\<lambda>_. ()) ([0, 1, 0, 1] @ more))) = 1)"
  using filter_contract [of two_threads "\<lambda>_. 7" "\<lambda>_. 7" "[0, 1, 0, 1]"] by simp

end
