(* ===== verification/Fair_Lock.thy ===== *)
theory Fair_Lock
  imports Lock_Executions
begin

text \<open>
  Taubenfeld's fair synchronisation around a test-and-test-and-set lock
  (\<open>benchmark/blocking/Taubenfeld/fair_lock_sc.cpp\<close>). \<open>entry_section\<close> puts a thread into the current
  group and lets it wait for the threads of the other group; \<open>exit_section\<close> changes the group. The
  model splits every condition of the source into its loads, from left to right.
\<close>

section \<open>The code\<close>

record fair_env =
  group :: int
  state :: "int list"
  fair_locked :: bool

text \<open>
  \<open>entry_section\<close> followed by \<open>lock\<close>. Arguments are the loop variable \<open>j\<close> and values loaded so far:
  lines 4 to 7 of the algorithm are \<open>Test_own\<close>, \<open>Test_group\<close> (line 4), \<open>Await_door\<close> (line 5),
  \<open>If_other\<close>, \<open>If_own\<close> (line 6) and \<open>Await_other\<close>, \<open>Await_mine\<close>, \<open>Await_own\<close>, \<open>Await_group\<close> (line 7).
\<close>

datatype fair_label =
    Begin_doorway
  | Load_group
  | End_doorway int
  | For_thread nat
  | Test_own nat
  | Test_group nat int
  | Await_door nat
  | If_other nat
  | If_own nat int
  | Await_other nat
  | Await_mine nat int
  | Await_own nat
  | Await_group nat int
  | Load_locked
  | Exchange_locked

text \<open>\<open>unlock\<close> followed by \<open>exit_section\<close>.\<close>

datatype fair_exit_label = Clear_locked | Load_own | Store_group int | Store_inactive

fun load_state :: "fair_env \<Rightarrow> nat \<Rightarrow> (int \<Rightarrow> 'p outcome) \<Rightarrow> fair_env \<times> unit \<times> 'p outcome" where
  "load_state env i f =
     (case array_load (state env) i of None \<Rightarrow> (env, (), Crash) | Some x \<Rightarrow> (env, (), f x))"

fun store_state :: "fair_env \<Rightarrow> nat \<Rightarrow> int \<Rightarrow> 'p outcome \<Rightarrow> fair_env \<times> unit \<times> 'p outcome" where
  "store_state env i x r =
     (case array_store (state env) i x of
        None \<Rightarrow> (env, (), Crash) | Some a \<Rightarrow> (env\<lparr>state := a\<rparr>, (), r))"

fun fair_lock_instr ::
  "nat \<Rightarrow> nat \<Rightarrow> fair_env \<Rightarrow> unit \<Rightarrow> fair_label \<Rightarrow> fair_env \<times> unit \<times> fair_label outcome" where
  "fair_lock_instr n tid env _ Begin_doorway = store_state env tid 2 (Goto Load_group)"
| "fair_lock_instr n tid env _ Load_group = (env, (), Goto (End_doorway (group env)))"
| "fair_lock_instr n tid env _ (End_doorway g) = store_state env tid g (Goto (For_thread 0))"
| "fair_lock_instr n tid env _ (For_thread j) =
     (env, (), Goto (if j < n then Test_own j else Load_locked))"
| "fair_lock_instr n tid env _ (Test_own j) = load_state env tid (\<lambda>own. Goto (Test_group j own))"
| "fair_lock_instr n tid env _ (Test_group j own) =
     (env, (), Goto (if own \<noteq> group env then Load_locked else Await_door j))"
| "fair_lock_instr n tid env _ (Await_door j) =
     load_state env j (\<lambda>x. Goto (if x = 2 then Await_door j else If_other j))"
| "fair_lock_instr n tid env _ (If_other j) = load_state env j (\<lambda>x. Goto (If_own j x))"
| "fair_lock_instr n tid env _ (If_own j x) =
     load_state env tid (\<lambda>own. Goto (if x = 1 - own then Await_other j else For_thread (j + 1)))"
| "fair_lock_instr n tid env _ (Await_other j) = load_state env j (\<lambda>x. Goto (Await_mine j x))"
| "fair_lock_instr n tid env _ (Await_mine j x) =
     load_state env tid (\<lambda>own. Goto (if x = 1 - own then Await_own j else For_thread (j + 1)))"
| "fair_lock_instr n tid env _ (Await_own j) = load_state env tid (\<lambda>own. Goto (Await_group j own))"
| "fair_lock_instr n tid env _ (Await_group j own) =
     (env, (), Goto (if own = group env then Await_other j else For_thread (j + 1)))"
| "fair_lock_instr n tid env _ Load_locked =
     (env, (), Goto (if fair_locked env then Load_locked else Exchange_locked))"
| "fair_lock_instr n tid env _ Exchange_locked =
     (let (l, old) = atomic_exchange (fair_locked env) True
      in (env\<lparr>fair_locked := l\<rparr>, (), if \<not> old then Return else Goto Load_locked))"

fun fair_exit_instr ::
  "nat \<Rightarrow> fair_env \<Rightarrow> unit \<Rightarrow> fair_exit_label \<Rightarrow> fair_env \<times> unit \<times> fair_exit_label outcome" where
  "fair_exit_instr tid env _ Clear_locked = (env\<lparr>fair_locked := False\<rparr>, (), Goto Load_own)"
| "fair_exit_instr tid env _ Load_own = load_state env tid (\<lambda>own. Goto (Store_group own))"
| "fair_exit_instr tid env _ (Store_group own) = (env\<lparr>group := 1 - own\<rparr>, (), Goto Store_inactive)"
| "fair_exit_instr tid env _ Store_inactive = store_state env tid 3 Return"

definition fair_sync :: "nat \<Rightarrow> (fair_env, unit, fair_label, fair_exit_label) lock_code" where
  "fair_sync nr_thrds =
     \<lparr>lock_entry = Begin_doorway, lock_instr = fair_lock_instr nr_thrds,
      unlock_entry = Clear_locked, unlock_instr = fair_exit_instr\<rparr>"

text \<open>
  \<open>init_fair_lock(nr_threads)\<close>: allocation (\<open>None\<close> when it fails, else what the memory held), then
  every thread is marked inactive. Exit status 1 without memory.
\<close>

definition init_fair_lock :: "nat \<Rightarrow> (nat \<Rightarrow> int) option \<Rightarrow> fair_env \<Rightarrow> int + fair_env" where
  "init_fair_lock nr_thrds mem env =
     (case mem of
        None \<Rightarrow> Inl 1
      | Some m \<Rightarrow>
          Inr (env\<lparr>state := fold (\<lambda>tid a. a[tid := 3]) [0..<nr_thrds] (map m [0..<nr_thrds])\<rparr>))"

text \<open>\<open>delete_fair_lock\<close>: no element of the freed array can be accessed any more.\<close>

definition delete_fair_lock :: "fair_env \<Rightarrow> fair_env" where
  "delete_fair_lock env = env\<lparr>state := []\<rparr>"

lemma deleted_fair_crashes: "snd (snd (fair_lock_instr n tid (delete_fair_lock env) v Begin_doorway)) = Crash"
  by (simp add: delete_fair_lock_def array_store_def)

text \<open>
  The state the threads start in. Initially \<open>group\<close> is 0; a later execution of the benchmark starts
  with the value the one before left, 0 or 1.
\<close>

definition fair_mem0 :: "(nat \<Rightarrow> int) \<Rightarrow> bool \<Rightarrow> nat \<Rightarrow> fair_env" where
  "fair_mem0 mem g n =
     (case init_fair_lock n (Some mem) \<lparr>group = (if g then 1 else 0), state = [], fair_locked = False\<rparr> of
        Inr env \<Rightarrow> env)"

lemma fold_all_inactive:
  "n \<le> length a \<Longrightarrow> fold (\<lambda>tid a. a[tid := x]) [0..<n] a = replicate n x @ drop n a"
proof (induction n)
  case (Suc n)
  then show ?case
    by (simp add: list_update_append upd_conv_take_nth_drop replicate_app_Cons_same
        flip: Cons_nth_drop_Suc)
qed simp

lemma fair_mem0_eq:
  "fair_mem0 mem g n = \<lparr>group = (if g then 1 else 0), state = replicate n 3, fair_locked = False\<rparr>"
  by (simp add: fair_mem0_def init_fair_lock_def fold_all_inactive)

section \<open>Invariant\<close>

type_synonym fair_thread = "(unit, fair_label, fair_exit_label) sync_thread"

text \<open>The values \<open>state[tid]\<close> can have at each place of the code.\<close>

definition state_fits :: "fair_thread \<Rightarrow> int \<Rightarrow> bool" where
  "state_fits t x \<longleftrightarrow> (case pc t of
     InLock p \<Rightarrow> (case p of Begin_doorway \<Rightarrow> x = 3 | Load_group \<Rightarrow> x = 2 | End_doorway _ \<Rightarrow> x = 2
       | _ \<Rightarrow> x \<in> {0, 1})
   | UsefulIn \<Rightarrow> x \<in> {0, 1}
   | InUnlock _ \<Rightarrow> x \<in> {0, 1}
   | _ \<Rightarrow> x = 3)"

text \<open>Values loaded from \<open>group\<close> and from the own state; loop variables.\<close>

fun label_fits :: "nat \<Rightarrow> int \<Rightarrow> fair_label \<Rightarrow> bool" where
  "label_fits n x (End_doorway g) \<longleftrightarrow> g \<in> {0, 1}"
| "label_fits n x (For_thread j) \<longleftrightarrow> j \<le> n"
| "label_fits n x (Test_own j) \<longleftrightarrow> j < n"
| "label_fits n x (Test_group j own) \<longleftrightarrow> j < n \<and> own = x"
| "label_fits n x (Await_door j) \<longleftrightarrow> j < n"
| "label_fits n x (If_other j) \<longleftrightarrow> j < n"
| "label_fits n x (If_own j y) \<longleftrightarrow> j < n"
| "label_fits n x (Await_other j) \<longleftrightarrow> j < n"
| "label_fits n x (Await_mine j y) \<longleftrightarrow> j < n"
| "label_fits n x (Await_own j) \<longleftrightarrow> j < n"
| "label_fits n x (Await_group j own) \<longleftrightarrow> j < n \<and> own = x"
| "label_fits n x _ \<longleftrightarrow> True"

definition thread_fits :: "nat \<Rightarrow> fair_thread \<Rightarrow> int \<Rightarrow> bool" where
  "thread_fits n t x \<longleftrightarrow> state_fits t x \<and> pc t \<noteq> Crashed \<and>
     (\<forall>p. pc t = InLock p \<longrightarrow> label_fits n x p) \<and>
     (\<forall>own. pc t = InUnlock (Store_group own) \<longrightarrow> own = x)"

text \<open>The thread has the test-and-set lock.\<close>

definition has_flag :: "fair_thread \<Rightarrow> bool" where
  "has_flag t \<longleftrightarrow> pc t \<in> {UsefulIn, InUnlock Clear_locked}"

definition fair_inv :: "nat \<Rightarrow> (fair_env, fair_thread) cfg \<Rightarrow> bool" where
  "fair_inv n c \<longleftrightarrow>
     length (state (fst c)) = n \<and> group (fst c) \<in> {0, 1} \<and>
     (\<forall>i<n. thread_fits n (snd c i) (state (fst c) ! i)) \<and>
     (\<exists>h. owned_by has_flag (snd c) h \<and> (fair_locked (fst c) \<longleftrightarrow> h \<noteq> None) \<and> (\<forall>i. h = Some i \<longrightarrow> i < n))"

lemma fair_invI:
  assumes "length (state s) = n" "group s \<in> {0, 1}"
    and "\<And>i. i < n \<Longrightarrow> thread_fits n (ls i) (state s ! i)"
    and "owned_by has_flag ls h" "fair_locked s \<longleftrightarrow> h \<noteq> None" "\<And>i. h = Some i \<Longrightarrow> i < n"
  shows "fair_inv n (s, ls)"
  using assms by (auto simp: fair_inv_def)

lemma fair_inv_init: "fair_inv n (sync_init (fair_mem0 mem g n) v)"
  by (auto simp: fair_inv_def fair_mem0_eq thread_fits_def state_fits_def has_flag_def owned_by_def
      sync_init_def intro!: exI [of _ None])

text \<open>A step that stores only to the own state and keeps the owner of the flag.\<close>

lemma fair_inv_keep:
  assumes inv: "fair_inv n (s, ls)" and i: "i < n"
    and s': "state s' = (state s)[i := x]" "group s' \<in> {0, 1}" "fair_locked s' = fair_locked s"
    and t': "thread_fits n t' x" "has_flag t' = has_flag (ls i)"
  shows "fair_inv n (s', ls(i := t'))"
proof -
  from inv obtain h where h: "owned_by has_flag ls h" "fair_locked s \<longleftrightarrow> h \<noteq> None" "\<And>i. h = Some i \<Longrightarrow> i < n"
    and p: "length (state s) = n" "\<And>i. i < n \<Longrightarrow> thread_fits n (ls i) (state s ! i)"
    by (auto simp: fair_inv_def)
  have "owned_by has_flag (ls(i := t')) h" by (rule owned_by_keep [OF h(1) t'(2)])
  moreover have "thread_fits n ((ls(i := t')) j) (state s' ! j)" if "j < n" for j
    using p that t'(1) s'(1) by (cases "j = i") simp_all
  ultimately show ?thesis using h p s' by (intro fair_invI [where h = h]) auto
qed

text \<open>Taking the free flag, and clearing it.\<close>

lemma fair_inv_take:
  assumes inv: "fair_inv n (s, ls)" and i: "i < n" and free: "\<not> fair_locked s"
    and s': "state s' = state s" "group s' = group s" "fair_locked s'"
    and t': "thread_fits n t' (state s ! i)" "has_flag t'"
  shows "fair_inv n (s', ls(i := t'))"
proof -
  from inv free have h: "owned_by has_flag ls None"
    and p: "length (state s) = n" "group s \<in> {0, 1}" "\<And>i. i < n \<Longrightarrow> thread_fits n (ls i) (state s ! i)"
    by (auto simp: fair_inv_def)
  have "owned_by has_flag (ls(i := t')) (Some i)" by (rule owned_by_take [OF h t'(2)])
  with p s' t' i show ?thesis by (intro fair_invI [where h = "Some i"]) auto
qed

lemma fair_inv_clear:
  assumes inv: "fair_inv n (s, ls)" and i: "i < n" "has_flag (ls i)"
    and s': "state s' = state s" "group s' = group s" "\<not> fair_locked s'"
    and t': "thread_fits n t' (state s ! i)" "\<not> has_flag t'"
  shows "fair_inv n (s', ls(i := t'))"
proof -
  from inv obtain h where h: "owned_by has_flag ls h"
    and p: "length (state s) = n" "group s \<in> {0, 1}" "\<And>i. i < n \<Longrightarrow> thread_fits n (ls i) (state s ! i)"
    by (auto simp: fair_inv_def)
  have "owned_by has_flag (ls(i := t')) None" by (rule owned_by_drop [OF h i(2) t'(2)])
  with p s' t' i show ?thesis by (intro fair_invI [where h = None]) auto
qed

lemma fair_inv_step_lock:
  assumes inv: "fair_inv n (s, ls)" and i: "i < n"
    and pc: "pc (ls i) = InLock p" and instr: "fair_lock_instr n i s () p = (s', v', r)"
    and t': "pc t' = after_lock r"
  shows "fair_inv n (s', ls(i := t'))"
proof -
  have len: "length (state s) = n" and grp: "group s \<in> {0, 1}"
    and fits: "thread_fits n (ls i) (state s ! i)"
    using inv i by (auto simp: fair_inv_def)
  have load: "load_state s j f = (s, (), f (state s ! j))" if "j < n" for j and f :: "int \<Rightarrow> fair_label outcome"
    using that len by (simp add: array_simps)
  have store: "store_state s i x f = (s\<lparr>state := (state s)[i := x]\<rparr>, (), f)" for x and f :: "fair_label outcome"
    using i len by (simp add: array_simps)
  note keep = fair_inv_keep [OF inv i]
  have keep_same: ?thesis
    if "s' = s" "thread_fits n t' (state s ! i)" "has_flag t' = has_flag (ls i)"
    using that grp by (intro keep [where x = "state s ! i"]) simp_all
  note defs = thread_fits_def state_fits_def has_flag_def
  show ?thesis
  proof (cases p)
    case Begin_doorway
    with instr t' pc fits grp show ?thesis
      by (intro keep [where x = 2]) (auto simp: store defs simp del: store_state.simps)
  next
    case (End_doorway g)
    with instr t' pc fits grp show ?thesis
      by (intro keep [where x = g]) (auto simp: store defs simp del: store_state.simps)
  next
    case Exchange_locked
    show ?thesis
    proof (cases "fair_locked s")
      case True
      with Exchange_locked instr t' pc fits grp show ?thesis
        by (intro keep [where x = "state s ! i"]) (auto simp: atomic_exchange_def defs)
    next
      case False
      with Exchange_locked instr t' pc fits show ?thesis
        by (intro fair_inv_take [OF inv i False]) (auto simp: atomic_exchange_def defs)
    qed
  qed (use instr t' pc fits grp i in
      \<open>auto intro!: keep_same simp: load defs simp del: load_state.simps split: if_splits\<close>)
qed

lemma fair_inv_step:
  assumes inv: "fair_inv n (s, ls)" and i: "i < n"
    and step: "sync_step (fair_sync n) k i s (ls i) = Some (s', t')"
  shows "fair_inv n (s', ls(i := t'))"
proof -
  have len: "length (state s) = n" and grp: "group s \<in> {0, 1}"
    and fits: "thread_fits n (ls i) (state s ! i)"
    using inv i by (auto simp: fair_inv_def)
  note keep = fair_inv_keep [OF inv i]
  have keep_same: ?thesis
    if "s' = s" "thread_fits n t' (state s ! i)" "has_flag t' = has_flag (ls i)"
    using that grp by (intro keep [where x = "state s ! i"]) simp_all
  note defs = thread_fits_def state_fits_def has_flag_def
  from step show ?thesis
  proof (cases rule: sync_step_cases)
    case (lock p v' r)
    then have "fair_lock_instr n i s () p = (s', v', r)" by (simp add: fair_sync_def)
    from fair_inv_step_lock [OF inv i lock(1) this] lock(3) show ?thesis by simp
  next
    case (unlock q v' r)
    then have instr: "fair_exit_instr i s () q = (s', v', r)" by (simp add: fair_sync_def)
    show ?thesis
    proof (cases q)
      case Clear_locked
      with instr unlock fits show ?thesis
        by (intro fair_inv_clear [OF inv i]) (auto simp: defs)
    next
      case Load_own
      with instr unlock fits i len show ?thesis by (intro keep_same) (auto simp: defs array_simps)
    next
      case (Store_group own)
      with instr unlock fits show ?thesis
        by (intro keep [where x = "state s ! i"]) (auto simp: defs)
    next
      case Store_inactive
      with instr unlock fits i len grp show ?thesis
        by (intro keep [where x = 3]) (auto simp: defs array_simps)
    qed
  next
    case test
    with fits show ?thesis by (intro keep_same) (auto simp: defs)
  next
    case enter
    with fits show ?thesis by (intro keep_same) (auto simp: defs fair_sync_def)
  next
    case crit
    with fits show ?thesis by (intro keep_same) (auto simp: defs fair_sync_def)
  next
    case out
    with fits show ?thesis by (intro keep_same) (auto simp: defs)
  qed
qed

lemma fair_inv_reach:
  assumes "sync_reach (fair_sync (nr_threads b)) b (fair_mem0 mem g (nr_threads b)) v c"
  shows "fair_inv (nr_threads b) c"
  using assms
proof (rule sync_reach_invariant)
  show "fair_inv (nr_threads b) (sync_init (fair_mem0 mem g (nr_threads b)) v)"
    by (rule fair_inv_init)
qed (rule fair_inv_step)

section \<open>Somebody can always go on\<close>

fun fair_rank :: "nat \<Rightarrow> fair_label \<Rightarrow> nat" where
  "fair_rank n Begin_doorway = 10 * n + 15"
| "fair_rank n Load_group = 10 * n + 14"
| "fair_rank n (End_doorway g) = 10 * n + 13"
| "fair_rank n (For_thread j) = 10 * (n - j) + 11"
| "fair_rank n (Test_own j) = 10 * (n - j) + 10"
| "fair_rank n (Test_group j own) = 10 * (n - j) + 9"
| "fair_rank n (Await_door j) = 10 * (n - j) + 8"
| "fair_rank n (If_other j) = 10 * (n - j) + 7"
| "fair_rank n (If_own j x) = 10 * (n - j) + 6"
| "fair_rank n (Await_other j) = 10 * (n - j) + 5"
| "fair_rank n (Await_mine j x) = 10 * (n - j) + 5"
| "fair_rank n (Await_own j) = 10 * (n - j) + 5"
| "fair_rank n (Await_group j own) = 10 * (n - j) + 5"
| "fair_rank n Load_locked = 1"
| "fair_rank n Exchange_locked = 0"

fun fair_urank :: "fair_exit_label \<Rightarrow> nat" where
  "fair_urank Clear_locked = 3"
| "fair_urank Load_own = 2"
| "fair_urank (Store_group own) = 1"
| "fair_urank Store_inactive = 0"

lemma fair_rank_less: "fair_rank n p < 10 * n + 16" "fair_urank q < 10 * n + 16"
  by (cases p; simp) (cases q; simp)

text \<open>The loop of line 7, in which a thread waits for the other group.\<close>

fun await_at :: "fair_label \<Rightarrow> nat option" where
  "await_at (Await_other j) = Some j"
| "await_at (Await_mine j x) = Some j"
| "await_at (Await_own j) = Some j"
| "await_at (Await_group j own) = Some j"
| "await_at _ = None"

text \<open>All other instructions make progress if nobody is in the doorway and the flag is free.\<close>

lemma fair_advances:
  assumes it: "iter_inv b c" and inv: "fair_inv n c" and i: "i < n" "pc (snd c i) \<noteq> Finished"
    and lock: "\<And>p. pc (snd c i) = InLock p \<Longrightarrow> await_at p = None \<and>
      (\<forall>j. p = Await_door j \<longrightarrow> state (fst c) ! j \<noteq> 2) \<and>
      (p \<in> {Load_locked, Exchange_locked} \<longrightarrow> \<not> fair_locked (fst c))"
  shows "advances (fair_sync n) (10 * n + 16) (fair_rank n) fair_urank (iters b i) i (fst c) (snd c i)"
proof -
  have len: "length (state (fst c)) = n" and fits: "thread_fits n (snd c i) (state (fst c) ! i)"
    using inv i by (auto simp: fair_inv_def)
  show ?thesis
  proof (cases "pc (snd c i)")
    case (InLock p)
    with fits have "label_fits n (state (fst c) ! i) p" by (simp add: thread_fits_def)
    then have "\<exists>s' r. fair_lock_instr n i (fst c) () p = (s', (), r) \<and>
        (r = Return \<or> (\<exists>p'. r = Goto p' \<and> fair_rank n p' < fair_rank n p))"
      using lock [OF InLock] len i(1)
      by (cases p) (auto simp: array_simps atomic_exchange_def)
    then obtain s' r where "fair_lock_instr n i (fst c) () p = (s', (), r)"
      "r = Return \<or> (\<exists>p'. r = Goto p' \<and> fair_rank n p' < fair_rank n p)"
      by blast
    with InLock show ?thesis
      by (intro advances_lock [OF fair_rank_less(1) InLock]) (simp_all add: fair_sync_def)
  next
    case (InUnlock q)
    obtain s' r where "fair_exit_instr i (fst c) () q = (s', (), r)"
      "r = Return \<or> (\<exists>q'. r = Goto q' \<and> fair_urank q' < fair_urank q)"
      using len i(1) by (cases q) (auto simp: array_simps)
    with InUnlock show ?thesis
      by (intro advances_unlock [OF fair_rank_less(2) InUnlock]) (simp_all add: fair_sync_def)
  qed (use fits i it in \<open>auto intro!: advances_in_loop fair_rank_less simp: thread_fits_def\<close>)
qed

text \<open>
  A thread alone in the loop of line 7 leaves it when it is not in the current group, or when the
  other thread is not in the other group.
\<close>

lemma solo_fair:
  assumes "pc t = InLock p" and "fair_lock_instr n i s () p = (s, (), Goto p')"
  shows "solo (sync_step (fair_sync n) k i) (Suc m) s t =
    solo (sync_step (fair_sync n) k i) m s (t\<lparr>pc := InLock p'\<rparr>)"
  using assms by (cases t) (simp add: fair_sync_def)

lemma await_ends:
  assumes len: "length (state s) = n" "i < n" and fits: "thread_fits n t (state s ! i)"
    and p: "pc t = InLock p" "await_at p = Some j"
    and free: "state s ! i \<noteq> group s \<or> state s ! j \<noteq> 1 - state s ! i"
  shows "\<exists>m. solo (sync_step (fair_sync n) k i) m s t = (s, t\<lparr>pc := InLock (For_thread (j + 1))\<rparr>)"
proof -
  let ?goal = "\<lambda>t'. \<exists>m. solo (sync_step (fair_sync n) k i) m s t' = (s, t\<lparr>pc := InLock (For_thread (j + 1))\<rparr>)"
  have j: "j < n" using fits p by (cases p) (auto simp: thread_fits_def)
  have go: "?goal (t\<lparr>pc := InLock q\<rparr>)"
    if "fair_lock_instr n i s () q = (s, (), Goto q')" "?goal (t\<lparr>pc := InLock q'\<rparr>)" for q q'
  proof -
    from that(2) obtain m where "solo (sync_step (fair_sync n) k i) m s (t\<lparr>pc := InLock q'\<rparr>) =
        (s, t\<lparr>pc := InLock (For_thread (j + 1))\<rparr>)"
      by blast
    with solo_fair [of "t\<lparr>pc := InLock q\<rparr>", OF _ that(1), of k m] show ?thesis
      by (intro exI [of _ "Suc m"]) simp
  qed
  have out: "?goal (t\<lparr>pc := InLock (For_thread (j + 1))\<rparr>)" by (rule exI [of _ 0]) simp
  have own: "state s ! i \<noteq> group s \<Longrightarrow> ?goal (t\<lparr>pc := InLock (Await_own j)\<rparr>)"
    by (rule go [of _ "Await_group j (state s ! i)"], use len in \<open>simp add: array_simps\<close>,
        rule go [OF _ out], simp)
  have other: "?goal (t\<lparr>pc := InLock (Await_other j)\<rparr>)"
  proof (cases "state s ! j = 1 - state s ! i")
    case True
    with free have "state s ! i \<noteq> group s" by blast
    from own [OF this] show ?thesis
      by (intro go [of "Await_other j" "Await_mine j (state s ! j)"] go [of "Await_mine j (state s ! j)" "Await_own j"])
        (use True len j in \<open>simp_all add: array_simps\<close>)
  next
    case False
    show ?thesis
      by (intro go [of "Await_other j" "Await_mine j (state s ! j)"]
          go [of "Await_mine j (state s ! j)" "For_thread (j + 1)"] out)
        (use False len j in \<open>simp_all add: array_simps\<close>)
  qed
  have grp: "?goal (t\<lparr>pc := InLock (Await_group j (state s ! i))\<rparr>)"
    by (cases "state s ! i = group s") (intro go [OF _ other] go [OF _ out], simp)+
  have mine: "?goal (t\<lparr>pc := InLock (Await_own j)\<rparr>)"
    by (rule go [OF _ grp]) (use len in \<open>simp add: array_simps\<close>)
  have "t\<lparr>pc := InLock p\<rparr> = t" using p(1) by (cases t) simp
  then have at_p: ?thesis if "?goal (t\<lparr>pc := InLock p\<rparr>)" using that by simp
  show ?thesis
  proof (rule at_p, cases p)
    case (Await_mine l x)
    with p have "l = j" by simp
    have "?goal (t\<lparr>pc := InLock (Await_mine j x)\<rparr>)"
      by (cases "x = 1 - state s ! i") (intro go [OF _ mine] go [OF _ out], use len in \<open>simp add: array_simps\<close>)+
    with Await_mine \<open>l = j\<close> show "?goal (t\<lparr>pc := InLock p\<rparr>)" by simp
  next
    case (Await_group l own)
    with p fits have "l = j" "own = state s ! i" by (auto simp: thread_fits_def)
    with Await_group grp show "?goal (t\<lparr>pc := InLock p\<rparr>)" by simp
  qed (use p other mine in auto)
qed

text \<open>Some thread can always lower its rank.\<close>

lemma fair_somebody:
  assumes it: "iter_inv b c" and inv: "fair_inv n c" and k: "k < n" "pc (snd c k) \<noteq> Finished"
  shows "\<exists>i<n. advances (fair_sync n) (10 * n + 16) (fair_rank n) fair_urank (iters b i) i (fst c) (snd c i) \<or>
    (\<exists>p j m. pc (snd c i) = InLock p \<and> await_at p = Some j \<and>
      solo (sync_step (fair_sync n) (iters b i) i) m (fst c) (snd c i) =
        (fst c, (snd c i)\<lparr>pc := InLock (For_thread (j + 1))\<rparr>))"
proof -
  obtain s ls where c: "c = (s, ls)" by (cases c)
  from inv obtain h where h: "owned_by has_flag ls h" "fair_locked s \<longleftrightarrow> h \<noteq> None" "\<And>i. h = Some i \<Longrightarrow> i < n"
    and len: "length (state s) = n" and grp: "group s \<in> {0, 1}"
    and fits: "\<And>i. i < n \<Longrightarrow> thread_fits n (ls i) (state s ! i)"
    by (auto simp: fair_inv_def c)
  note adv = fair_advances [OF it inv, unfolded c fst_conv snd_conv]
  define door where "door i \<longleftrightarrow> (\<exists>p. pc (ls i) = InLock p \<and> (p = Load_group \<or> (\<exists>g. p = End_doorway g)))" for i
  have in_door: "door j" if "j < n" "state s ! j = 2" for j
    using fits [OF that(1)] that(2)
    by (auto simp: door_def thread_fits_def state_fits_def split: sync_pc.splits fair_label.splits)
  consider (holder) i where "h = Some i" | (door) i where "h = None" "i < n" "door i"
    | (calm) "h = None" "\<And>j. j < n \<Longrightarrow> state s ! j \<noteq> 2"
    using in_door by (cases h) auto
  then show ?thesis
    unfolding c fst_conv snd_conv
  proof cases
    case holder
    then have "i < n" "has_flag (ls i)" using h by (auto simp: owned_by_def)
    then show "\<exists>i<n. advances (fair_sync n) (10 * n + 16) (fair_rank n) fair_urank (iters b i) i s (ls i) \<or>
      (\<exists>p j m. pc (ls i) = InLock p \<and> await_at p = Some j \<and>
        solo (sync_step (fair_sync n) (iters b i) i) m s (ls i) =
          (s, (ls i)\<lparr>pc := InLock (For_thread (j + 1))\<rparr>))"
      using adv [of i] by (auto simp: has_flag_def)
  next
    case door
    then show "\<exists>i<n. advances (fair_sync n) (10 * n + 16) (fair_rank n) fair_urank (iters b i) i s (ls i) \<or>
      (\<exists>p j m. pc (ls i) = InLock p \<and> await_at p = Some j \<and>
        solo (sync_step (fair_sync n) (iters b i) i) m s (ls i) =
          (s, (ls i)\<lparr>pc := InLock (For_thread (j + 1))\<rparr>))"
      using adv [of i] by (auto simp: door_def)
  next
    case calm
    then have free: "\<not> fair_locked s" using h(2) by simp
    define awaits where "awaits i \<longleftrightarrow> (\<exists>p j. pc (ls i) = InLock p \<and> await_at p = Some j)" for i
    have run: "advances (fair_sync n) (10 * n + 16) (fair_rank n) fair_urank (iters b i) i s (ls i)"
      if "i < n" "pc (ls i) \<noteq> Finished" "\<not> awaits i" for i
    proof (rule adv [OF that(1,2)])
      fix p assume p: "pc (ls i) = InLock p"
      have "j < n" if "p = Await_door j" for j
        using fits [OF \<open>i < n\<close>] p that by (simp add: thread_fits_def)
      with calm(2) free p that(3) show "await_at p = None \<and>
        (\<forall>j. p = Await_door j \<longrightarrow> state s ! j \<noteq> 2) \<and>
        (p \<in> {Load_locked, Exchange_locked} \<longrightarrow> \<not> fair_locked s)"
        by (auto simp: awaits_def)
    qed
    show "\<exists>i<n. advances (fair_sync n) (10 * n + 16) (fair_rank n) fair_urank (iters b i) i s (ls i) \<or>
      (\<exists>p j m. pc (ls i) = InLock p \<and> await_at p = Some j \<and>
        solo (sync_step (fair_sync n) (iters b i) i) m s (ls i) =
          (s, (ls i)\<lparr>pc := InLock (For_thread (j + 1))\<rparr>))"
    proof (cases "\<exists>i<n. pc (ls i) \<noteq> Finished \<and> \<not> awaits i")
      case True
      with run show ?thesis by blast
    next
      case False
      then have all: "pc (ls i) = Finished \<or> awaits i" if "i < n" for i using that by blast
      have "awaits k" using all [OF k(1)] k(2) c by simp
      have "\<exists>i p j. i < n \<and> pc (ls i) = InLock p \<and> await_at p = Some j \<and>
          (state s ! i \<noteq> group s \<or> state s ! j \<noteq> 1 - state s ! i)"
      proof (cases "\<exists>i<n. awaits i \<and> state s ! i \<noteq> group s")
        case True
        then show ?thesis by (auto simp: awaits_def)
      next
        case False
        from \<open>awaits k\<close> obtain p j where p: "pc (ls k) = InLock p" "await_at p = Some j"
          by (auto simp: awaits_def)
        have "j < n" using fits [OF k(1)] p by (cases p) (auto simp: thread_fits_def)
        have "state s ! j = group s \<or> state s ! j = 3"
          using all [OF \<open>j < n\<close>] False fits [OF \<open>j < n\<close>] \<open>j < n\<close>
          by (auto simp: thread_fits_def state_fits_def)
        moreover have "state s ! k = group s" using False k(1) \<open>awaits k\<close> by blast
        ultimately have "state s ! j \<noteq> 1 - state s ! k" using grp by auto
        with k(1) p show ?thesis by blast
      qed
      then obtain i p j where i: "i < n" "pc (ls i) = InLock p" "await_at p = Some j"
        "state s ! i \<noteq> group s \<or> state s ! j \<noteq> 1 - state s ! i"
        by blast
      from await_ends [OF len i(1) fits [OF i(1)] i(2-4)] i show ?thesis by blast
    qed
  qed
qed

lemma fair_unstuck:
  assumes valid: "valid_bench b"
    and reach: "sync_reach (fair_sync (nr_threads b)) b (fair_mem0 mem g (nr_threads b)) v c"
    and unfinished: "\<not> all_finished (nr_threads b) c"
  shows "\<exists>is. total_rank (10 * nr_threads b + 16) (fair_rank (nr_threads b)) fair_urank b
      (run_sched (sync_prog (fair_sync (nr_threads b)) b) (nr_threads b) is c)
    < total_rank (10 * nr_threads b + 16) (fair_rank (nr_threads b)) fair_urank b c"
proof -
  let ?n = "nr_threads b"
  have it: "iter_inv b c" by (rule sync_reach_iter_inv [OF valid reach])
  have inv: "fair_inv ?n c" by (rule fair_inv_reach [OF reach])
  from unfinished obtain k where "k < ?n" "pc (snd c k) \<noteq> Finished" by (auto simp: all_finished_def)
  from fair_somebody [OF it inv this] obtain i where i: "i < ?n"
    and "advances (fair_sync ?n) (10 * ?n + 16) (fair_rank ?n) fair_urank (iters b i) i (fst c) (snd c i) \<or>
    (\<exists>p j m. pc (snd c i) = InLock p \<and> await_at p = Some j \<and>
      solo (sync_step (fair_sync ?n) (iters b i) i) m (fst c) (snd c i) =
        (fst c, (snd c i)\<lparr>pc := InLock (For_thread (j + 1))\<rparr>))"
    by blast
  then consider (one) "advances (fair_sync ?n) (10 * ?n + 16) (fair_rank ?n) fair_urank (iters b i) i (fst c) (snd c i)"
    | (many) p j m where "pc (snd c i) = InLock p" "await_at p = Some j"
      "solo (sync_step (fair_sync ?n) (iters b i) i) m (fst c) (snd c i) =
        (fst c, (snd c i)\<lparr>pc := InLock (For_thread (j + 1))\<rparr>)"
    by blast
  then show ?thesis
  proof cases
    case one
    from total_rank_advances [OF i this] show ?thesis by blast
  next
    case many
    have "j < ?n"
    proof -
      have "thread_fits ?n (snd c i) (state (fst c) ! i)" using inv i by (auto simp: fair_inv_def)
      with many(1,2) show ?thesis by (cases p) (auto simp: thread_fits_def)
    qed
    then have "fair_rank ?n (For_thread (j + 1)) < fair_rank ?n p"
      using many(2) by (cases p) auto
    with many(1) have "thread_rank (10 * ?n + 16) (fair_rank ?n) fair_urank (iters b i)
        ((snd c i)\<lparr>pc := InLock (For_thread (j + 1))\<rparr>)
      < thread_rank (10 * ?n + 16) (fair_rank ?n) fair_urank (iters b i) (snd c i)"
      by (simp add: thread_rank_def)
    from total_rank_solo [OF i many(3) this] show ?thesis by blast
  qed
qed

interpretation fair: live_lock valid_bench "\<lambda>b. fair_sync (nr_threads b)"
  "\<lambda>b. fair_mem0 mem g (nr_threads b)" "\<lambda>_ _. ()"
  "\<lambda>b. 10 * nr_threads b + 16" "\<lambda>b. fair_rank (nr_threads b)" "\<lambda>_. fair_urank" for mem g
proof unfold_locales
  fix b c i j
  assume r: "sync_reach (fair_sync (nr_threads b)) b (fair_mem0 mem g (nr_threads b)) (\<lambda>_. ()) c"
    and cs: "in_cs (snd c i)" "in_cs (snd c j)"
  from fair_inv_reach [OF r] obtain h where "owned_by has_flag (snd c) h" by (auto simp: fair_inv_def)
  then show "i = j" by (rule owned_by_unique) (use cs in \<open>simp_all add: has_flag_def in_cs_def\<close>)
next
  fix b c i
  assume r: "sync_reach (fair_sync (nr_threads b)) b (fair_mem0 mem g (nr_threads b)) (\<lambda>_. ()) c"
  show "pc (snd c i) \<noteq> Crashed"
  proof (cases "i < nr_threads b")
    case True
    with fair_inv_reach [OF r] show ?thesis by (auto simp: fair_inv_def thread_fits_def)
  next
    case False
    then show ?thesis using sync_reach_idle [OF r, of i] by simp
  qed
qed (assumption, rule fair_unstuck)

text \<open>
  Nothing is initialised between the executions of a benchmark: at rest every thread is inactive again and
  the lock is free, and only the group may have changed.
\<close>

lemma fair_inv_rest:
  assumes "fair_inv (nr_threads b) c" and "all_finished (nr_threads b) c"
  shows "\<exists>g. fst c = fair_mem0 mem g (nr_threads b)"
proof -
  from assms obtain h where h: "owned_by has_flag (snd c) h" "fair_locked (fst c) \<longleftrightarrow> h \<noteq> None" "\<And>i. h = Some i \<Longrightarrow> i < nr_threads b"
    and p: "length (state (fst c)) = nr_threads b" "group (fst c) \<in> {0, 1}"
      "\<And>i. i < nr_threads b \<Longrightarrow> thread_fits (nr_threads b) (snd c i) (state (fst c) ! i)"
    and fin: "\<And>i. i < nr_threads b \<Longrightarrow> pc (snd c i) = Finished"
    by (auto simp: fair_inv_def all_finished_def)
  have "\<not> has_flag (snd c i)" if "i < nr_threads b" for i
    using fin [OF that] by (simp add: has_flag_def)
  then have "h = None"
    using h(1,3) by (cases h) (auto simp: owned_by_def)
  moreover have "state (fst c) = replicate (nr_threads b) 3"
    using p(1,3) fin by (intro nth_equalityI) (auto simp: thread_fits_def state_fits_def)
  ultimately show ?thesis
    using h(2) p(2) by (intro exI [of _ "group (fst c) = 1"], cases "fst c") (auto simp: fair_mem0_eq)
qed

lemma fair_all_executions:
  assumes "\<And>b. b \<in> set bs \<Longrightarrow> valid_bench b \<and> nr_threads b = n \<and> (\<Sum>i<nr_threads b. iters b i) = amount"
  shows "all_complete (\<lambda>b. fair_sync (nr_threads b)) (each_with (\<lambda>m. m) bs) amount (fair_mem0 mem g n, \<lambda>_. ())"
proof (rule all_completeI [where left = "\<lambda>m. \<exists>g. fst m = fair_mem0 mem g n"])
  fix b and p :: "fair_env \<times> (nat \<Rightarrow> unit) \<Rightarrow> fair_env \<times> (nat \<Rightarrow> unit)" and m :: "fair_env \<times> (nat \<Rightarrow> unit)" and sched
  assume "(b, p) \<in> set (each_with (\<lambda>m. m) bs)" "\<exists>g. fst m = fair_mem0 mem g n"
  then obtain g where p: "p = (\<lambda>m. m)" and g: "fst m = fair_mem0 mem g n" and b: "b \<in> set bs"
    by (auto simp: each_with_set)
  have v: "snd m = (\<lambda>_. ())" by (rule ext) simp
  show "completes_with (fair_sync (nr_threads b)) b (p m) sched amount"
    unfolding p using fair.completes_serialised [of b mem g sched] assms [OF b] g v by (intro completes_withI) auto
next
  fix b and p :: "fair_env \<times> (nat \<Rightarrow> unit) \<Rightarrow> fair_env \<times> (nat \<Rightarrow> unit)" and m m' :: "fair_env \<times> (nat \<Rightarrow> unit)" and c
  assume "(b, p) \<in> set (each_with (\<lambda>m. m) bs)" "\<exists>g. fst m = fair_mem0 mem g n"
    and r: "sync_reach (fair_sync (nr_threads b)) b (fst (p m)) (snd (p m)) c"
    and fin: "all_finished (nr_threads b) c" and m': "fst m' = fst c"
  then obtain g where "p = (\<lambda>m. m)" "nr_threads b = n" "fst m = fair_mem0 mem g n"
    using assms by (auto simp: each_with_set)
  with r have "fair_inv (nr_threads b) c" by (auto intro: fair_inv_reach)
  from fair_inv_rest [OF this fin, of mem] m' \<open>nr_threads b = n\<close> show "\<exists>g. fst m' = fair_mem0 mem g n" by simp
qed auto

section \<open>Properties\<close>

text \<open>
  The fair-synchronisation benchmark, for any number of threads, either initial group and
  whatever the allocated memory held: whatever instructions have run, in whatever order the
  scheduler chose, some continuation lets every thread finish, so the waiting for the other group
  cannot deadlock; in the completed run the critical sections are serialised (no thread enters
  while another is inside), each thread has executed \<open>useful_in\<close> exactly \<open>nr_iter\<close> times, and no
  access was outside \<open>state\<close>.
\<close>

theorem fair_contract:
  assumes "valid_bench b"
  shows "\<exists>more.
    all_finished (nr_threads b) (sync_run (fair_sync (nr_threads b)) b
      (fair_mem0 mem g (nr_threads b)) (\<lambda>_. ()) (sched @ more)) \<and>
    lock_spec None (cs_trace (fair_sync (nr_threads b)) b
      (fair_mem0 mem g (nr_threads b)) (\<lambda>_. ()) (sched @ more)) = Some None \<and>
    (\<forall>i<nr_threads b. int (entries i (cs_trace (fair_sync (nr_threads b)) b
      (fair_mem0 mem g (nr_threads b)) (\<lambda>_. ()) (sched @ more))) = iters b i)"
  using assms by (rule fair.completes_serialised)

theorem fair_contract_witness:
  "\<exists>more.
    all_finished 2 (sync_run (fair_sync 2) two_threads
      (fair_mem0 (\<lambda>_. 7) True 2) (\<lambda>_. ()) ([0, 1, 0, 1] @ more)) \<and>
    lock_spec None (cs_trace (fair_sync 2) two_threads
      (fair_mem0 (\<lambda>_. 7) True 2) (\<lambda>_. ()) ([0, 1, 0, 1] @ more)) = Some None \<and>
    (\<forall>i<2. int (entries i (cs_trace (fair_sync 2) two_threads
      (fair_mem0 (\<lambda>_. 7) True 2) (\<lambda>_. ()) ([0, 1, 0, 1] @ more))) = 1)"
  using fair_contract [of two_threads "\<lambda>_. 7" True "[0, 1, 0, 1]"] by simp

end
