(* ===== verification/Lock_Drivers.thy ===== *)
theory Lock_Drivers
  imports Driver
begin

text \<open>
  The drivers of the nine lock benchmarks (\<open>benchmark/blocking/*Lock/driver.cpp\<close> and
  \<open>benchmark/blocking/Taubenfeld/driver.cpp\<close>): \<open>thread_f\<close>, \<open>main\<close> and \<open>Decision\<close> of each. They differ
  in the program name, in what initialises and removes the lock, and in what surrounds the measured
  call in \<open>thread_f\<close>.
\<close>

section \<open>The calls into the locks\<close>

text \<open>
  Arguments as in the source, less the delay functions and their arguments, which every
  \<open>*_sync\<close> call gets from \<open>thread_f\<close>'s own parameters.
\<close>

datatype lock_call =
    Taslock_sync int int int
  | Tatas_sync int
  | Arraylock_sync int int int
  | Cpp11_mutex_sync int
  | Posix_sync int int int
  | Peterson_lock int int
  | Clhqueue_sync int
  | Filter_lock int int int
  | Fair_sync int int int
  | Init_arraylock int
  | Reset_peterson_lock
  | Init_per_exec_global
  | Init_per_exec_per_thread
  | Delete_per_thread
  | Reset_filter_lock int

text \<open>The \<open>nr_iter\<close> argument of a measured call.\<close>

fun nr_iter_of :: "lock_call \<Rightarrow> int" where
  "nr_iter_of (Taslock_sync tid n k) = k"
| "nr_iter_of (Tatas_sync k) = k"
| "nr_iter_of (Arraylock_sync tid n k) = k"
| "nr_iter_of (Cpp11_mutex_sync k) = k"
| "nr_iter_of (Posix_sync tid n k) = k"
| "nr_iter_of (Peterson_lock tid k) = k"
| "nr_iter_of (Clhqueue_sync k) = k"
| "nr_iter_of (Filter_lock tid n k) = k"
| "nr_iter_of (Fair_sync tid n k) = k"
| "nr_iter_of _ = 0"

section \<open>\<open>thread_f\<close>\<close>

text \<open>
  The text the nine copies share; \<open>papi_ok\<close>: \<open>PAPI_thread_init\<close> returned \<open>PAPI_OK\<close>. With scaling
  runs (\<open>sc_runs\<close>) run \<open>run\<close> has the threads \<open>0..run\<close>, otherwise the only run has all threads.
\<close>

definition lock_thread_f ::
  "lock_call thread_action list \<Rightarrow> (int \<Rightarrow> lock_call) \<Rightarrow> lock_call thread_action list
    \<Rightarrow> bool \<Rightarrow> int \<Rightarrow> int \<Rightarrow> int \<Rightarrow> int \<Rightarrow> bool \<Rightarrow> lock_call thread_action list" where
  "lock_thread_f before sync after papi_ok tid nr_thrds nr_iter nr_exec sc_runs =
     (if \<not> papi_ok then [Thread_init_failed tid, Exit_failure]
      else
        let nr_thrds_lower_bound = (if \<not> sc_runs then nr_thrds else 1)
        in measured_loop tid (nr_thrds - nr_thrds_lower_bound) nr_exec
             (\<lambda>run. \<not> sc_runs \<or> tid \<le> run)
             before
             (\<lambda>run. sync (if sc_runs then split_iters nr_iter (run + 1) tid
                          else split_iters nr_iter nr_thrds tid))
             after)"

definition tas_thread_f :: "bool \<Rightarrow> int \<Rightarrow> int \<Rightarrow> int \<Rightarrow> int \<Rightarrow> bool \<Rightarrow> lock_call thread_action list" where
  "tas_thread_f papi_ok tid nr_thrds =
     lock_thread_f [Barrier_wait tid] (Taslock_sync tid nr_thrds) [] papi_ok tid nr_thrds"

definition tatas_thread_f :: "bool \<Rightarrow> int \<Rightarrow> int \<Rightarrow> int \<Rightarrow> int \<Rightarrow> bool \<Rightarrow> lock_call thread_action list" where
  "tatas_thread_f papi_ok tid nr_thrds =
     lock_thread_f [Barrier_wait tid] Tatas_sync [] papi_ok tid nr_thrds"

definition array_thread_f :: "bool \<Rightarrow> int \<Rightarrow> int \<Rightarrow> int \<Rightarrow> int \<Rightarrow> bool \<Rightarrow> lock_call thread_action list" where
  "array_thread_f papi_ok tid nr_thrds =
     lock_thread_f
       ([Barrier_wait tid] @
        (if tid = 0 then [Call (Init_arraylock nr_thrds)] else []) @
        [Barrier_wait tid])
       (Arraylock_sync tid nr_thrds) [] papi_ok tid nr_thrds"

definition cpp11_thread_f :: "bool \<Rightarrow> int \<Rightarrow> int \<Rightarrow> int \<Rightarrow> int \<Rightarrow> bool \<Rightarrow> lock_call thread_action list" where
  "cpp11_thread_f papi_ok tid nr_thrds =
     lock_thread_f [Barrier_wait tid] Cpp11_mutex_sync [] papi_ok tid nr_thrds"

definition posix_thread_f :: "bool \<Rightarrow> int \<Rightarrow> int \<Rightarrow> int \<Rightarrow> int \<Rightarrow> bool \<Rightarrow> lock_call thread_action list" where
  "posix_thread_f papi_ok tid nr_thrds =
     lock_thread_f [Barrier_wait tid] (Posix_sync tid nr_thrds) [] papi_ok tid nr_thrds"

definition peterson_thread_f :: "bool \<Rightarrow> int \<Rightarrow> int \<Rightarrow> int \<Rightarrow> int \<Rightarrow> bool \<Rightarrow> lock_call thread_action list" where
  "peterson_thread_f papi_ok tid nr_thrds =
     lock_thread_f [Call Reset_peterson_lock, Barrier_wait tid] (Peterson_lock tid) []
       papi_ok tid nr_thrds"

definition clhqueue_thread_f :: "bool \<Rightarrow> int \<Rightarrow> int \<Rightarrow> int \<Rightarrow> int \<Rightarrow> bool \<Rightarrow> lock_call thread_action list" where
  "clhqueue_thread_f papi_ok tid nr_thrds =
     lock_thread_f
       ([Barrier_wait tid] @
        (if tid = 0 then [Call Init_per_exec_global] else []) @
        [Call Init_per_exec_per_thread, Barrier_wait tid])
       Clhqueue_sync
       [Barrier_wait tid, Call Delete_per_thread]
       papi_ok tid nr_thrds"

definition filter_thread_f :: "bool \<Rightarrow> int \<Rightarrow> int \<Rightarrow> int \<Rightarrow> int \<Rightarrow> bool \<Rightarrow> lock_call thread_action list" where
  "filter_thread_f papi_ok tid nr_thrds =
     lock_thread_f [Call (Reset_filter_lock tid), Barrier_wait tid] (Filter_lock tid nr_thrds) []
       papi_ok tid nr_thrds"

definition fair_thread_f :: "bool \<Rightarrow> int \<Rightarrow> int \<Rightarrow> int \<Rightarrow> int \<Rightarrow> bool \<Rightarrow> lock_call thread_action list" where
  "fair_thread_f papi_ok tid nr_thrds =
     lock_thread_f [Barrier_wait tid] (Fair_sync tid nr_thrds) [] papi_ok tid nr_thrds"

section \<open>\<open>main\<close>\<close>

text \<open>The variables bound to command-line options, with their initial values.\<close>

record lock_options =
  opt_exec :: int
  opt_iter :: int
  opt_threads :: int
  opt_sc_runs :: bool
  opt_ovw :: bool
  opt_uin :: "64 word"
  opt_uout :: "64 word"

definition lock_defaults :: lock_options where
  "lock_defaults = \<lparr>opt_exec = 1, opt_iter = 10000000, opt_threads = 1, opt_sc_runs = False,
     opt_ovw = False, opt_uin = 0, opt_uout = 0\<rparr>"

datatype lock_option = Opt_exec | Opt_iter | Opt_threads | Opt_runs | Opt_uin | Opt_uout | Opt_ovw | Opt_help | Opt_positional

definition lock_option_table :: "(string \<times> lock_option) list" where
  "lock_option_table =
     [(''e,executions'', Opt_exec), (''i,iterations'', Opt_iter), (''t,threads'', Opt_threads),
      (''r,runs'', Opt_runs), (''u,uin'', Opt_uin), (''y,uout'', Opt_uout), (''o,ovw'', Opt_ovw),
      (''h,help'', Opt_help), (''positional'', Opt_positional)]"

text \<open>
  What the library cxxopts makes of the command line, given the program name, the option table and
  the initial values: the values afterwards and how often help and positional arguments occurred;
  \<open>None\<close> when it throws.
\<close>

type_synonym lock_parser =
  "string \<Rightarrow> (string \<times> lock_option) list \<Rightarrow> lock_options \<Rightarrow> (lock_options \<times> nat \<times> nat) option"

text \<open>\<open>Decision(useful_work_ns, sec)\<close>: no delay function for a zero delay.\<close>

datatype delay_func = Useful_work_ns | No_work

definition Decision :: "delay_func \<Rightarrow> 64 word \<Rightarrow> delay_func" where
  "Decision delay sec = (if sec > 0 then delay else No_work)"

datatype lock_setup =
    Init_taslock | Init_tatas_lock | Init_arraylock_main int | Init_cpp11_mutex_lock | Init_posix
  | Init_clhqueue_lock | Init_filter_lock int | Init_fair_lock int | Calibrate_delay
  | Delete_taslock | Delete_tatas_lock | Delete_arraylock | Delete_cpp11_mutex_lock | Delete_posix
  | Delete_clhqueue_lock | Delete_filter_lock | Delete_fair_lock

text \<open>
  \<open>thread_f\<close> on the arguments \<open>nr_threads nr_iter nr_exec sc_runs uin uout uin_func uout_func\<close>
  after the thread number.
\<close>

datatype lock_thread =
  Thread_f int int int bool "64 word" "64 word" delay_func delay_func

type_synonym lock_main_action = "(lock_thread, lock_setup) main_action"

text \<open>
  The text the nine \<open>main\<close> functions share; \<open>papi_ok\<close>: \<open>PAPI_library_init\<close> returned the version
  it was asked for.
\<close>

definition lock_main ::
  "string \<Rightarrow> (int \<Rightarrow> lock_setup list) \<Rightarrow> lock_setup list \<Rightarrow> lock_parser \<Rightarrow> bool \<Rightarrow> lock_main_action list" where
  "lock_main program setup cleanup parse papi_ok =
     (case parse program lock_option_table lock_defaults of
        None \<Rightarrow> [Uncaught_exception]
      | Some (opt, help, positional) \<Rightarrow>
          if help \<noteq> 0 \<or> positional \<noteq> 0 then [Print_usage, Exit_with_failure]
          else if opt_threads opt > int MAX_ALLOC_NR_THREADS
            then [Print_too_many_threads, Exit_with_failure]
          else if \<not> papi_ok then [Print_papi_failed, Exit_with_failure]
          else
            let n = opt_threads opt;
                uin_func = Decision Useful_work_ns (opt_uin opt);
                uout_func = Decision Useful_work_ns (opt_uout opt)
            in [Barrier_init n,
                Init_stats n (opt_exec opt) (if opt_sc_runs opt then n else 1)] @
               map Component_call (setup n) @
               (if n \<le> 0 then [Undefined]
                else map (\<lambda>tid. Create tid (Thread_f n (opt_iter opt) (opt_exec opt) (opt_sc_runs opt)
                            (opt_uin opt) (opt_uout opt) uin_func uout_func)) [0..n - 1] @
                     map Join [0..n - 1] @
                     [Dump_data (opt_ovw opt) None] @
                     map Component_call cleanup @
                     [Return_0]))"

definition tas_main :: "lock_parser \<Rightarrow> bool \<Rightarrow> lock_main_action list" where
  "tas_main = lock_main ''taslock_{sc,ar}'' (\<lambda>n. [Init_taslock, Calibrate_delay]) [Delete_taslock]"

definition tatas_main :: "lock_parser \<Rightarrow> bool \<Rightarrow> lock_main_action list" where
  "tatas_main = lock_main ''tatas_lock_{sc,ar}'' (\<lambda>n. [Init_tatas_lock, Calibrate_delay]) [Delete_tatas_lock]"

definition array_main :: "lock_parser \<Rightarrow> bool \<Rightarrow> lock_main_action list" where
  "array_main = lock_main ''arraylock_{sc,ar}''
     (\<lambda>n. [Init_arraylock_main n, Calibrate_delay]) [Delete_arraylock]"

definition cpp11_main :: "lock_parser \<Rightarrow> bool \<Rightarrow> lock_main_action list" where
  "cpp11_main = lock_main ''cpp11_mutex_lock''
     (\<lambda>n. [Calibrate_delay, Init_cpp11_mutex_lock]) [Delete_cpp11_mutex_lock]"

definition posix_main :: "lock_parser \<Rightarrow> bool \<Rightarrow> lock_main_action list" where
  "posix_main = lock_main ''POSIX_mutexlock'' (\<lambda>n. [Init_posix, Calibrate_delay]) [Delete_posix]"

definition peterson_main :: "lock_parser \<Rightarrow> bool \<Rightarrow> lock_main_action list" where
  "peterson_main = lock_main ''PetersonLock'' (\<lambda>n. [Calibrate_delay]) []"

definition clhqueue_main :: "lock_parser \<Rightarrow> bool \<Rightarrow> lock_main_action list" where
  "clhqueue_main = lock_main ''clhqueue_lock_{sc,ar}''
     (\<lambda>n. [Init_clhqueue_lock, Calibrate_delay]) [Delete_clhqueue_lock]"

definition filter_main :: "lock_parser \<Rightarrow> bool \<Rightarrow> lock_main_action list" where
  "filter_main = lock_main ''FilterLock''
     (\<lambda>n. [Init_filter_lock n, Calibrate_delay]) [Delete_filter_lock]"

definition fair_main :: "lock_parser \<Rightarrow> bool \<Rightarrow> lock_main_action list" where
  "fair_main = lock_main ''fair_lock_{sc,ar}'' (\<lambda>n. [Init_fair_lock n]) [Delete_fair_lock]"

section \<open>The nine drivers as one family\<close>

datatype lock_name =
  TAS | TATAS | Array_based | Cpp11 | Posix | Peterson | CLH | Filter_based | Fair

fun thread_f_of :: "lock_name \<Rightarrow> bool \<Rightarrow> int \<Rightarrow> int \<Rightarrow> int \<Rightarrow> int \<Rightarrow> bool \<Rightarrow> lock_call thread_action list" where
  "thread_f_of TAS = tas_thread_f"
| "thread_f_of TATAS = tatas_thread_f"
| "thread_f_of Array_based = array_thread_f"
| "thread_f_of Cpp11 = cpp11_thread_f"
| "thread_f_of Posix = posix_thread_f"
| "thread_f_of Peterson = peterson_thread_f"
| "thread_f_of CLH = clhqueue_thread_f"
| "thread_f_of Filter_based = filter_thread_f"
| "thread_f_of Fair = fair_thread_f"

fun main_of :: "lock_name \<Rightarrow> lock_parser \<Rightarrow> bool \<Rightarrow> lock_main_action list" where
  "main_of TAS = tas_main"
| "main_of TATAS = tatas_main"
| "main_of Array_based = array_main"
| "main_of Cpp11 = cpp11_main"
| "main_of Posix = posix_main"
| "main_of Peterson = peterson_main"
| "main_of CLH = clhqueue_main"
| "main_of Filter_based = filter_main"
| "main_of Fair = fair_main"

text \<open>
  A benchmark that \<open>main\<close> starts: which lock and the option values that reach \<open>thread_f\<close>. The
  counts are C \<open>int\<close> values, hence the bound on the executions.
\<close>

record lock_bench =
  p_lock :: lock_name
  p_threads :: nat
  p_iter :: int
  p_exec :: int
  p_scaling :: bool

definition valid_lock_bench :: "lock_bench \<Rightarrow> bool" where
  "valid_lock_bench p \<longleftrightarrow> 0 < p_threads p \<and> p_threads p \<le> MAX_ALLOC_NR_THREADS \<and>
     0 \<le> p_iter p \<and> 0 \<le> p_exec p \<and> p_exec p < 2 ^ 31"

definition lock_bench_runs :: "lock_bench \<Rightarrow> int" where
  "lock_bench_runs p = (if p_scaling p then int (p_threads p) else 1)"

definition lock_bench_actions :: "lock_bench \<Rightarrow> nat \<Rightarrow> lock_call thread_action list" where
  "lock_bench_actions p i =
     thread_f_of (p_lock p) True (int i) (int (p_threads p)) (p_iter p) (p_exec p) (p_scaling p)"

lemmas thread_f_defs =
  tas_thread_f_def tatas_thread_f_def array_thread_f_def cpp11_thread_f_def posix_thread_f_def
  peterson_thread_f_def clhqueue_thread_f_def filter_thread_f_def fair_thread_f_def

lemmas main_defs =
  tas_main_def tatas_main_def array_main_def cpp11_main_def posix_main_def
  peterson_main_def clhqueue_main_def filter_main_def fair_main_def

text \<open>All nine are a measured loop; what they do around the call enters no sample.\<close>

definition calls_per_exec :: "lock_name \<Rightarrow> nat" where
  "calls_per_exec d = (case d of Array_based \<Rightarrow> 2 | CLH \<Rightarrow> 3 | _ \<Rightarrow> 1)"

lemma lock_bench_loop:
  obtains before sync after where
    "lock_bench_actions p i = measured_loop (int i) (lock_bench_runs p - 1) (p_exec p)
       (\<lambda>run. \<not> p_scaling p \<or> int i \<le> run) before
       (\<lambda>run. sync (if p_scaling p then split_iters (p_iter p) (run + 1) (int i)
                    else split_iters (p_iter p) (int (p_threads p)) (int i)))
       after"
    and "samples before = []" and "samples after = []"
    and "barrier_calls before + barrier_calls after = calls_per_exec (p_lock p)"
    and "\<And>k. nr_iter_of (sync k) = k"
proof (cases "p_lock p")
  case Array_based
  then show ?thesis
    by (cases "i = 0") (rule that, auto simp: lock_bench_actions_def lock_bench_runs_def
      lock_thread_f_def thread_f_defs calls_per_exec_def)+
next
  case CLH
  then show ?thesis
    by (cases "i = 0") (rule that, auto simp: lock_bench_actions_def lock_bench_runs_def
      lock_thread_f_def thread_f_defs calls_per_exec_def)+
qed (auto intro: that simp: lock_bench_actions_def lock_bench_runs_def lock_thread_f_def
      thread_f_defs calls_per_exec_def)

lemma lock_bench_barriers:
  assumes "valid_lock_bench p"
  shows "barrier_calls (lock_bench_actions p i) =
    nat (lock_bench_runs p) * (nat (p_exec p) * calls_per_exec (p_lock p))"
proof (rule lock_bench_loop [of p i], goal_cases)
  case (1 before sync after)
  have "0 \<le> lock_bench_runs p - 1" "0 \<le> p_exec p"
    using assms by (auto simp: valid_lock_bench_def lock_bench_runs_def)
  then show ?case using 1 by (simp add: barrier_calls_measured_loop)
qed

lemma lock_bench_barriers_bound:
  assumes "valid_lock_bench p"
  shows "barrier_calls (lock_bench_actions p i) < 2 ^ 64"
proof -
  have "nat (lock_bench_runs p) \<le> 4096"
    using assms by (auto simp: valid_lock_bench_def lock_bench_runs_def MAX_ALLOC_NR_THREADS_def)
  moreover have "nat (p_exec p) * calls_per_exec (p_lock p) \<le> 2 ^ 31 * 3"
    using assms by (intro mult_le_mono) (auto simp: valid_lock_bench_def calls_per_exec_def split: lock_name.splits)
  ultimately have "barrier_calls (lock_bench_actions p i) \<le> 4096 * (2 ^ 31 * 3)"
    unfolding lock_bench_barriers [OF assms] by (rule mult_le_mono)
  also have "\<dots> < 2 ^ 64" by simp
  finally show ?thesis .
qed

lemma lock_bench_samples:
  "set (samples (lock_bench_actions p i)) = {(t, e, r). t = int i \<and> 0 \<le> e \<and> e < p_exec p \<and>
     0 \<le> r \<and> r < lock_bench_runs p \<and> (\<not> p_scaling p \<or> int i \<le> r)}"
  "distinct (samples (lock_bench_actions p i))"
  by (rule lock_bench_loop [of p i]; simp add: set_measured_samples distinct_measured_samples)+

interpretation lock_driver: sampling_driver valid_lock_bench p_threads lock_bench_actions p_exec lock_bench_runs
proof unfold_locales
  fix p i j
  assume p: "valid_lock_bench p"
  show "barrier_calls (lock_bench_actions p i) = barrier_calls (lock_bench_actions p j)"
    by (simp add: lock_bench_barriers [OF p])
next
  fix p i x
  assume "x \<in> set (samples (lock_bench_actions p i))"
  then show "\<exists>e r. x = (int i, e, r) \<and> 0 \<le> e \<and> e < p_exec p \<and> 0 \<le> r \<and> r < lock_bench_runs p"
    unfolding lock_bench_samples by auto
next
  fix p i
  assume "valid_lock_bench p"
  then show "barrier_calls (lock_bench_actions p i) < 2 ^ 64" by (rule lock_bench_barriers_bound)
next
  fix p
  assume "valid_lock_bench p"
  then show "p_threads p \<le> MAX_ALLOC_NR_THREADS" by (simp add: valid_lock_bench_def)
qed (rule lock_bench_samples)

text \<open>The iterations each thread performs in one execution of one run.\<close>

lemma lock_bench_work:
  assumes "valid_lock_bench p" and "0 \<le> exec" "exec < p_exec p" and "0 \<le> run" "run < lock_bench_runs p"
  shows "work nr_iter_of exec run (lock_bench_actions p i) =
    (if p_scaling p then (if int i \<le> run then split_iters (p_iter p) (run + 1) (int i) else 0)
     else split_iters (p_iter p) (int (p_threads p)) (int i))"
  by (rule lock_bench_loop [of p i]) (use assms in \<open>simp add: work_measured_loop\<close>)

lemma lock_bench_work_sum:
  assumes p: "valid_lock_bench p" and e: "0 \<le> exec" "exec < p_exec p"
    and r: "0 \<le> run" "run < lock_bench_runs p"
  shows "(\<Sum>i<p_threads p. work nr_iter_of exec run (lock_bench_actions p i)) = p_iter p"
proof (cases "p_scaling p")
  case True
  define m where "m = Suc (nat run)"
  have m: "int m = run + 1" "m \<le> p_threads p"
    using True r by (auto simp: m_def lock_bench_runs_def)
  have "(\<Sum>i<p_threads p. work nr_iter_of exec run (lock_bench_actions p i)) =
      (\<Sum>i<p_threads p. if i < m then split_iters (p_iter p) (int m) (int i) else 0)"
    using True m by (intro sum.cong refl) (auto simp: lock_bench_work [OF p e r])
  also have "\<dots> = (\<Sum>i<m. split_iters (p_iter p) (int m) (int i))"
    using m(2) by (intro sum.mono_neutral_cong_right) auto
  also have "\<dots> = p_iter p"
    using p by (intro sum_split_iters) (auto simp: m_def valid_lock_bench_def)
  finally show ?thesis .
next
  case False
  then show ?thesis
    using sum_split_iters [of "p_iter p" "p_threads p"] p
    by (simp add: lock_bench_work [OF p e r] valid_lock_bench_def)
qed

section \<open>Properties\<close>

text \<open>A benchmark with scaling runs, for the witnesses.\<close>

definition example_lock_bench :: lock_bench where
  "example_lock_bench =
     \<lparr>p_lock = CLH, p_threads = 3, p_iter = 10, p_exec = 2, p_scaling = True\<rparr>"

lemma example_lock_bench_valid: "valid_lock_bench example_lock_bench"
  by (simp add: valid_lock_bench_def example_lock_bench_def MAX_ALLOC_NR_THREADS_def)

text \<open>
  In each of the nine lock drivers, the iterations the threads perform in any execution of any
  run add up to \<open>nr_iter\<close>: with scaling runs run \<open>run\<close> splits them among its \<open>run + 1\<close> threads,
  otherwise all threads share them.
\<close>

theorem lock_driver_work:
  assumes "valid_lock_bench p" and "0 \<le> exec" "exec < p_exec p" and "0 \<le> run" "run < lock_bench_runs p"
  shows "(\<Sum>i<p_threads p. work nr_iter_of exec run (lock_bench_actions p i)) = p_iter p"
  using assms by (rule lock_bench_work_sum)

theorem lock_driver_work_witness:
  "(\<Sum>i<3. work nr_iter_of 1 2 (lock_bench_actions example_lock_bench i)) = 10"
  using lock_driver_work [OF example_lock_bench_valid, of 1 2]
  by (simp add: example_lock_bench_def lock_bench_runs_def)

text \<open>
  C37: In each of the nine lock drivers the threads call the barrier equally often, so they never
  wait for each other at it for ever: any interleaving can be continued until all have returned
  from all their \<open>barrier_wait\<close> calls.
\<close>

theorem lock_driver_no_deadlock:
  assumes "valid_lock_bench p"
  shows "\<exists>more. all_left (p_threads p)
    (meet_run (p_threads p) (\<lambda>i. barrier_calls (lock_bench_actions p i)) (sched @ more))"
  using assms by (rule lock_driver.no_deadlock)

theorem lock_driver_no_deadlock_witness:
  "\<exists>more. all_left 3
    (meet_run 3 (\<lambda>i. barrier_calls (lock_bench_actions example_lock_bench i)) ([2, 2, 0, 1] @ more))"
  using lock_driver_no_deadlock [OF example_lock_bench_valid, of "[2, 2, 0, 1]"]
  by (simp add: example_lock_bench_def)

text \<open>
  Over all threads of a lock driver, every sample is entered for a slot
  (thread, execution, run) inside the ranges that \<open>main\<close> passed to \<open>initStats\<close>, and no slot is
  written twice.
\<close>

theorem lock_driver_samples:
  assumes "valid_lock_bench p"
  shows "distinct (concat (map (\<lambda>i. samples (lock_bench_actions p i)) [0..<p_threads p])) \<and>
    (\<forall>(t, e, r) \<in> set (concat (map (\<lambda>i. samples (lock_bench_actions p i)) [0..<p_threads p])).
       0 \<le> t \<and> t < int (p_threads p) \<and> 0 \<le> e \<and> e < p_exec p \<and> 0 \<le> r \<and> r < lock_bench_runs p)"
  using lock_driver.slots_distinct [OF assms] lock_driver.slots_in_store [OF assms]
  unfolding lock_driver.all_samples_def by auto

theorem lock_driver_samples_witness:
  "distinct (concat (map (\<lambda>i. samples (lock_bench_actions example_lock_bench i)) [0..<3])) \<and>
    list_all (\<lambda>(t, e, r). 0 \<le> t \<and> t < 3 \<and> 0 \<le> e \<and> e < 2 \<and> 0 \<le> r \<and> r < 3)
      (concat (map (\<lambda>i. samples (lock_bench_actions example_lock_bench i)) [0..<3]))"
  using lock_driver_samples [OF example_lock_bench_valid]
  by (simp add: example_lock_bench_def lock_bench_runs_def list_all_iff)



end
