(* ===== verification/Store_Calls.thy ===== *)
theory Store_Calls
  imports Collector
begin

text \<open>
  Calls of the sample store in any order (\<open>common/stats/stats.cpp\<close>): \<open>enterSample\<close> and \<open>deleteSamples\<close>, as the threads
  of a benchmark make them after \<open>initStats\<close>, whose arguments are well typed for the store.
\<close>

section \<open>Calls\<close>

datatype store_call = Enter int "32 word" "32 word" "32 word" | Delete

fun call_store :: "store_call \<Rightarrow> stats_env \<Rightarrow> stats_env call_result" where
  "call_store (Enter s tid exec run) env = enterSample s tid exec run env"
| "call_store Delete env = deleteSamples env"

section \<open>Types\<close>

text \<open>A value of the type \<open>long long\<close>.\<close>

definition long_long :: "int \<Rightarrow> bool" where
  "long_long v \<longleftrightarrow> - (2 ^ 63) \<le> v \<and> v < 2 ^ 63"

text \<open>
  The type of the store: what \<open>sample\<close> points to has a place for every sample, and each holds a \<open>long long\<close>.
\<close>

definition store_typed :: "stats_env \<Rightarrow> bool" where
  "store_typed env \<longleftrightarrow>
     (case sample env of
        Null \<Rightarrow> True
      | Freed \<Rightarrow> True
      | Allocated_samples xs \<Rightarrow> store_ok env xs \<and> (\<forall>v\<in>set xs. long_long v))"

fun call_typed :: "stats_env \<Rightarrow> store_call \<Rightarrow> bool" where
  "call_typed env (Enter s tid exec run) \<longleftrightarrow>
     long_long s \<and> tid < st_threads env \<and> exec < st_executions env \<and> run < st_runs env"
| "call_typed env Delete \<longleftrightarrow> True"

definition same_counts :: "stats_env \<Rightarrow> stats_env \<Rightarrow> bool" where
  "same_counts env env' \<longleftrightarrow>
     st_threads env' = st_threads env \<and> st_executions env' = st_executions env \<and> st_runs env' = st_runs env"

lemma same_counts_typed: "same_counts env env' \<Longrightarrow> call_typed env' c = call_typed env c"
  by (cases c) (simp_all add: same_counts_def)

lemma initStats_typed:
  assumes "no_wrap n e r" and "0 < r" and "initStats alloc_ok n e r env0 = Returns env"
  shows "store_typed env"
proof -
  have "alloc_ok" using assms(3) by (cases alloc_ok) (simp_all add: initStats_def Let_def)
  with assms(3) initStats_size [OF assms(1,2), of env0]
  have "env = env0\<lparr>st_threads := n, st_executions := e, st_runs := r,
    sample := Allocated_samples (replicate (unat n * unat e * unat r) 0)\<rparr>" by simp
  with assms(1) show ?thesis by (simp add: store_typed_def store_ok_def long_long_def)
qed

text \<open>One call: it returns and keeps the type, unless the store was never allocated or is gone.\<close>

lemma call_store_typed:
  assumes "store_typed env" and "call_typed env c" and "sample env = Allocated_samples xs"
  shows "\<exists>env'. call_store c env = Returns env' \<and> store_typed env' \<and> same_counts env env' \<and>
    sample env' \<noteq> Null \<and> (c \<noteq> Delete \<longrightarrow> sample env' \<noteq> Freed)"
proof (cases c)
  case (Enter s tid exec run)
  have ok: "store_ok env xs" "\<forall>v\<in>set xs. long_long v" using assms(1,3) by (simp_all add: store_typed_def)
  let ?env = "env\<lparr>sample := Allocated_samples (xs[slot (unat (st_threads env)) (unat (st_executions env))
    (unat tid) (unat exec) (unat run) := s])\<rparr>"
  have "call_store c env = Returns ?env" using enterSample_ok [OF ok(1)] assms(2) Enter by simp
  moreover have "store_typed ?env"
    using ok assms(2) Enter set_update_subset_insert by (fastforce simp: store_typed_def store_ok_def)
  ultimately show ?thesis using Enter by (simp add: same_counts_def)
next
  case Delete
  then show ?thesis using assms(3) by (simp add: deleteSamples_def store_typed_def same_counts_def)
qed

lemma call_store_gone:
  assumes "call_typed env c"
  shows "sample env = Null \<Longrightarrow> call_store c env = (if c = Delete then Returns env else Assertion_fails)"
    and "sample env = Freed \<Longrightarrow> call_store c env = Undefined_behaviour"
  using assms by (cases c; simp add: enterSample_def deleteSamples_def)+

section \<open>Properties\<close>

text \<open>
  C34: type safety of the sample store: any sequence of calls with well-typed arguments keeps the type of
  the store, which has a place for every sample of the three counts, each a \<open>long long\<close>. It does not return
  in two cases only: an assertion fails when there never was a store, and the behaviour is undefined when a
  call follows the one that freed it. It never exits.
\<close>

theorem store_type_safe:
  assumes "store_typed env" and "\<forall>c\<in>set calls. call_typed env c"
  shows "case for_each call_store calls env of
      Returns env' \<Rightarrow> store_typed env' \<and> same_counts env env'
    | Assertion_fails \<Rightarrow> sample env = Null
    | Undefined_behaviour \<Rightarrow> calls \<noteq> [] \<and> sample env = Freed \<or> (\<exists>pre c post. calls = pre @ Delete # c # post)
    | Exits _ \<Rightarrow> False"
  using assms
proof (induction calls arbitrary: env)
  case Nil
  then show ?case by (simp add: same_counts_def)
next
  case (Cons c calls)
  note later = Cons.prems(2) [THEN bspec]
  show ?case
  proof (cases "sample env")
    case Null
    have first: "call_store c env = (if c = Delete then Returns env else Assertion_fails)"
      using call_store_gone(1) [OF later Null] by simp
    show ?thesis
    proof (cases "c = Delete")
      case True
      with first Cons.IH [OF Cons.prems(1)] Cons.prems(2) Null show ?thesis
        by (auto split: call_result.splits) (metis append_Cons)
    qed (use first Null in simp)
  next
    case Freed
    then show ?thesis using call_store_gone(2) [OF later Freed] by simp
  next
    case (Allocated_samples xs)
    from call_store_typed [OF Cons.prems(1) later Allocated_samples] obtain env1 where
      e: "call_store c env = Returns env1" "store_typed env1" "same_counts env env1" "sample env1 \<noteq> Null"
      "c \<noteq> Delete \<Longrightarrow> sample env1 \<noteq> Freed" by auto
    have "\<forall>c\<in>set calls. call_typed env1 c" using Cons.prems(2) same_counts_typed [OF e(3)] by simp
    note IH = Cons.IH [OF e(2) this]
    have "\<exists>pre c' post. c # calls = pre @ Delete # c' # post"
      if "calls \<noteq> [] \<and> sample env1 = Freed \<or> (\<exists>pre c' post. calls = pre @ Delete # c' # post)"
      using that e(5) by (metis append_Cons append_Nil list.exhaust)
    with IH e show ?thesis by (auto simp: same_counts_def split: call_result.splits)
  qed
qed

lemma store_type_safe_witness:
  "\<exists>env env'. initStats True 2 3 2 stats0 = Returns env \<and>
     for_each call_store [Enter 7 1 2 1, Enter (- 3) 0 0 0, Delete] env = Returns env' \<and> store_typed env'"
proof -
  have typed: "store_typed env" if "initStats True 2 3 2 stats0 = Returns env" for env
    by (rule initStats_typed [OF _ _ that]) (simp_all add: no_wrap_def)
  define env where "env = stats0\<lparr>st_threads := 2, st_executions := 3, st_runs := 2,
    sample := Allocated_samples (replicate 12 0)\<rparr>"
  have env: "initStats True 2 3 2 stats0 = Returns env"
    using initStats_size [of 2 3 2 stats0] by (simp add: no_wrap_def env_def)
  have counts: "st_threads env = 2" "st_executions env = 3" "st_runs env = 2" "sample env = Allocated_samples (replicate 12 0)"
    by (simp_all add: env_def)
  let ?calls = "[Enter 7 1 2 1, Enter (- 3) 0 0 0, Delete]"
  have "\<exists>env'. for_each call_store ?calls env = Returns env'"
    using counts by (simp add: enterSample_def deleteSamples_def sample_index_def Let_def array_store_def)
  moreover have "\<forall>c\<in>set ?calls. call_typed env c" using counts by (simp add: long_long_def)
  ultimately show ?thesis using store_type_safe [OF typed [OF env], of ?calls] env by auto
qed

end
