(* ===== verification/Aggregate.thy ===== *)
theory Aggregate
  imports Collector Complex_Main
begin

text \<open>
  The statistics computed from the samples (\<open>doStats\<close> and \<open>aggregateStatistics\<close> of
  \<open>common/stats/stats.cpp\<close>): per execution over the collected threads, and per run over the maxima
  of its executions. Machine arithmetic on \<open>long long\<close> and \<open>uint64_t\<close> is written out; the
  operations on \<open>double\<close> are the fields of a record, since the theorems need none of their laws.
\<close>

section \<open>Results\<close>

record 'd double_ops =
  of_ll :: "int \<Rightarrow> 'd"
  to_ll :: "'d \<Rightarrow> int"
  dadd :: "'d \<Rightarrow> 'd \<Rightarrow> 'd"
  dmul :: "'d \<Rightarrow> 'd \<Rightarrow> 'd"
  ddiv :: "'d \<Rightarrow> 'd \<Rightarrow> 'd"
  dsqrt :: "'d \<Rightarrow> 'd"

record 'd result_t =
  r_max :: int
  r_mean :: int
  r_stdev :: int
  r_cv :: 'd
  r_median :: int

definition new_result :: "'d double_ops \<Rightarrow> 'd result_t" where
  "new_result fp = \<lparr>r_max = 0, r_mean = 0, r_stdev = 0, r_cv = of_ll fp 0, r_median = 0\<rparr>"

text \<open>The result of a signed 64-bit operation: overflow is undefined behaviour.\<close>

definition long_long :: "int \<Rightarrow> int call_result" where
  "long_long k = (if - (2 ^ 63) \<le> k \<and> k < 2 ^ 63 then Returns k else Undefined_behaviour)"

section \<open>Statistics of one row\<close>

fun accumulate :: "int list \<Rightarrow> int \<Rightarrow> int call_result" where
  "accumulate [] s = Returns s"
| "accumulate (x # xs) s = and_then (long_long (s + x)) (accumulate xs)"

fun transform_diff :: "'d double_ops \<Rightarrow> int \<Rightarrow> int list \<Rightarrow> 'd list call_result" where
  "transform_diff fp mean [] = Returns []"
| "transform_diff fp mean (x # xs) =
     and_then (long_long (x - mean)) (\<lambda>d.
     and_then (transform_diff fp mean xs) (\<lambda>ds. Returns (of_ll fp d # ds)))"

definition inner_product :: "'d double_ops \<Rightarrow> 'd list \<Rightarrow> 'd" where
  "inner_product fp ds = foldl (\<lambda>a d. dadd fp a (dmul fp d d)) (of_ll fp 0) ds"

definition max_element :: "int list \<Rightarrow> int" where
  "max_element xs = foldl (\<lambda>m x. if m < x then x else m) (hd xs) (tl xs)"

text \<open>
  \<open>doStats\<close>; \<open>nsec\<close> is the memory its pointer refers to, \<open>None\<close> where it is not initialised. For no
  elements the source divides by zero.
\<close>

definition doStats :: "'d double_ops \<Rightarrow> int option list \<Rightarrow> int \<Rightarrow> 'd result_t \<Rightarrow> 'd result_t call_result" where
  "doStats fp nsec nr_elements r =
     (if nr_elements \<le> 0 \<or> int (length nsec) < nr_elements then Undefined_behaviour
      else (case those (take (nat nr_elements) nsec) of
         None \<Rightarrow> Undefined_behaviour
       | Some xs \<Rightarrow>
           and_then (accumulate xs 0) (\<lambda>s.
           let sum = (word_of_int s :: 64 word);
               mean = sint (sum div word_of_int nr_elements)
           in and_then (transform_diff fp mean xs) (\<lambda>diff.
              let sq_sum = inner_product fp diff;
                  stdev = to_ll fp (dsqrt fp (ddiv fp sq_sum (of_ll fp nr_elements)));
                  cv = ddiv fp (dmul fp (of_ll fp 1) (of_ll fp stdev)) (of_ll fp mean)
              in Returns (r\<lparr>r_mean := mean, r_stdev := stdev, r_cv := cv, r_max := max_element xs\<rparr>)))))"

text \<open>What it computes, over the integers.\<close>

definition stats_of :: "'d double_ops \<Rightarrow> int list \<Rightarrow> 'd result_t \<Rightarrow> 'd result_t" where
  "stats_of fp xs r =
     (let mean = sum_list xs div int (length xs);
          sq_sum = inner_product fp (map (\<lambda>x. of_ll fp (x - mean)) xs);
          stdev = to_ll fp (dsqrt fp (ddiv fp sq_sum (of_ll fp (int (length xs)))))
      in r\<lparr>r_mean := mean, r_stdev := stdev,
           r_cv := ddiv fp (dmul fp (of_ll fp 1) (of_ll fp stdev)) (of_ll fp mean),
           r_max := Max (set xs)\<rparr>)"

lemma max_element_Max: "xs \<noteq> [] \<Longrightarrow> max_element xs = Max (set xs)"
proof -
  have f: "foldl (\<lambda>m x. if m < x then x else m) a ys = Max (insert a (set ys))" for a :: int and ys
  proof (induction ys arbitrary: a)
    case (Cons y ys)
    have "(if a < y then y else a) = max a y" by auto
    with Cons [of "max a y"] show ?case
      by (cases "ys = []") (simp_all add: max.assoc)
  qed simp
  assume "xs \<noteq> []"
  then obtain a ys where "xs = a # ys" by (cases xs) auto
  then show ?thesis by (simp add: max_element_def f)
qed

lemma accumulate_ok:
  assumes "\<forall>x \<in> set xs. 0 \<le> x" "0 \<le> s" "s + sum_list xs < 2 ^ 63"
  shows "accumulate xs s = Returns (s + sum_list xs)"
  using assms
proof (induction xs arbitrary: s)
  case (Cons x xs)
  have "0 \<le> sum_list xs" using Cons.prems(1) by (intro sum_list_nonneg) simp
  with Cons.prems have "long_long (s + x) = Returns (s + x)" by (simp add: long_long_def)
  with Cons.IH [of "s + x"] Cons.prems show ?case by (simp add: add.assoc)
qed simp

lemma transform_diff_ok:
  assumes "\<forall>x \<in> set xs. 0 \<le> x \<and> x < 2 ^ 63" "0 \<le> m" "m < 2 ^ 63"
  shows "transform_diff fp m xs = Returns (map (\<lambda>x. of_ll fp (x - m)) xs)"
  using assms
proof (induction xs)
  case (Cons x xs)
  then have "long_long (x - m) = Returns (x - m)" by (simp add: long_long_def)
  with Cons show ?case by simp
qed simp

lemma those_map_Some [simp]: "those (map Some xs) = Some xs"
  by (induction xs) simp_all

lemma sint_small:
  fixes k :: "32 word"
  assumes "unat k < 2 ^ 31"
  shows "sint k = int (unat k)"
proof -
  have "sint (of_nat (unat k) :: 32 word) = int (unat k)"
    using sint_small_nat [OF assms] .
  then show ?thesis by simp
qed

lemma mean_word:
  assumes "0 \<le> s" "s < 2 ^ 63" "0 < n" "n < 2 ^ 63"
  shows "sint ((word_of_int s :: 64 word) div word_of_int n) = s div n"
proof -
  have q: "0 \<le> s div n" "s div n < 2 ^ 63"
    using assms zdiv_mono2 [of s 1 n] by (simp_all add: pos_imp_zdiv_nonneg_iff)
  have "uint ((word_of_int s :: 64 word) div word_of_int n) = s div n"
    using assms by (simp add: uint_div uint_word_of_int)
  then have "(word_of_int s :: 64 word) div word_of_int n = word_of_int (s div n)"
    by (metis word_of_int_uint)
  then show ?thesis using q by (simp add: sint_sbintrunc' signed_take_bit_int_eq_self)
qed


lemma doStats_ok:
  assumes "take (nat n) nsec = map Some xs" "int (length xs) = n" "0 < n" "n < 2 ^ 63"
    and "\<forall>x \<in> set xs. 0 \<le> x" "sum_list xs < 2 ^ 63"
  shows "doStats fp nsec n r = Returns (stats_of fp xs r)"
proof -
  have ne: "xs \<noteq> []" using assms(2,3) by auto
  have "length (take (nat n) nsec) = nat n" using assms(1,2) by simp
  then have len: "\<not> int (length nsec) < n" using assms(3) by simp
  have s0: "0 \<le> sum_list xs" using assms(5) by (intro sum_list_nonneg) simp
  have x63: "\<forall>x \<in> set xs. 0 \<le> x \<and> x < 2 ^ 63"
  proof
    fix x assume x: "x \<in> set xs"
    then have "x \<le> sum_list xs" using assms(5) by (intro member_le_sum_list) auto
    with assms(5,6) x show "0 \<le> x \<and> x < 2 ^ 63" by auto
  qed
  define mean where "mean = sum_list xs div n"
  have mean: "sint ((word_of_int (sum_list xs) :: 64 word) div word_of_int n) = mean"
    unfolding mean_def using s0 assms(3,4,6) by (intro mean_word)
  have m63: "0 \<le> mean" "mean < 2 ^ 63"
    using s0 assms(3,6) zdiv_mono2 [of "sum_list xs" 1 n] by (simp_all add: mean_def pos_imp_zdiv_nonneg_iff)
  show ?thesis
    using assms(3) len accumulate_ok [OF assms(5), of 0] assms(6)
      transform_diff_ok [OF x63 m63, of fp] max_element_Max [OF ne]
    by (simp add: doStats_def assms(1) mean Let_def stats_of_def assms(2) mean_def [symmetric])
qed

lemma doStats_whole:
  assumes "length xs = k" "0 < k" "k < 2 ^ 31" "\<forall>x \<in> set xs. 0 \<le> x" "sum_list xs < 2 ^ 63"
  shows "doStats fp (map Some xs) (int k) r = Returns (stats_of fp xs r)"
  using assms by (intro doStats_ok) auto

section \<open>Aggregation over executions and runs\<close>

text \<open>The global vectors of results.\<close>

record 'd results =
  res_exec :: "'d result_t list list"
  res_run :: "'d result_t list"

text \<open>The body of the loop over the executions of a run; its state is the collector and the vector
  \<open>v\<close>.\<close>

definition aggregate_exec ::
  "'d double_ops \<Rightarrow> stats_env \<Rightarrow> 32 word \<Rightarrow> 32 word \<Rightarrow> range_smpl_collector \<times> 'd result_t list
    \<Rightarrow> (range_smpl_collector \<times> 'd result_t list) call_result" where
  "aggregate_exec fp env run exec = (\<lambda>(col, v).
     case sample env of
       Allocated_samples xs \<Rightarrow>
         if length xs < unat (exec_offset env exec run) then Undefined_behaviour
         else and_then (get_samples run (drop (unat (exec_offset env exec run)) xs) col) (\<lambda>(col', samples).
              and_then (get_nr_samples run col') (\<lambda>nr_smpls.
                if 0 < nr_smpls
                then and_then (doStats fp samples (sint nr_smpls) (new_result fp)) (\<lambda>res_p.
                       Returns (col', v @ [res_p]))
                else Returns (col', v @ [new_result fp])))
     | _ \<Rightarrow> Undefined_behaviour)"

text \<open>The median of the sorted maxima; \<open>all_max[n/2-1] + all_max[n/2]\<close> is a \<open>long long\<close> addition.\<close>

definition median_of :: "'d double_ops \<Rightarrow> int list \<Rightarrow> int call_result" where
  "median_of fp all_max =
     (let nr_exec = length all_max
      in if nr_exec mod 2 = 0
         then and_then (long_long (all_max ! (nr_exec div 2 - 1) + all_max ! (nr_exec div 2))) (\<lambda>s.
                let temp = of_ll fp s in Returns (to_ll fp (ddiv fp temp (of_ll fp 2))))
         else Returns (all_max ! (nr_exec div 2)))"

definition aggregate_run ::
  "'d double_ops \<Rightarrow> stats_env \<Rightarrow> 32 word \<Rightarrow> range_smpl_collector \<times> 'd results
    \<Rightarrow> (range_smpl_collector \<times> 'd results) call_result" where
  "aggregate_run fp env run = (\<lambda>(col, res).
     and_then (for_each (aggregate_exec fp env run) (below (st_executions env)) (col, [])) (\<lambda>(col', v).
     let all_max = map r_max v
     in and_then (doStats fp (map Some all_max) (sint (st_executions env)) (new_result fp)) (\<lambda>overall.
        and_then (median_of fp (sort all_max)) (\<lambda>med.
        Returns (col', res\<lparr>res_exec := res_exec res @ [v],
          res_run := res_run res @ [overall\<lparr>r_median := med\<rparr>]\<rparr>)))))"

definition aggregateStatistics ::
  "'d double_ops \<Rightarrow> stats_env \<Rightarrow> range_smpl_collector \<Rightarrow> 'd results
    \<Rightarrow> (range_smpl_collector \<times> 'd results) call_result" where
  "aggregateStatistics fp env col res = for_each (aggregate_run fp env) (below (st_runs env)) (col, res)"

text \<open>
  \<open>deleteDump\<close> frees every result and empties both vectors.
\<close>

definition deleteDump :: "'d results \<Rightarrow> 'd results" where
  "deleteDump res = res\<lparr>res_run := [], res_exec := []\<rparr>"

text \<open>The collector \<open>dumpData\<close> makes when it is given none.\<close>

definition default_collector :: "bool \<Rightarrow> stats_env \<Rightarrow> range_smpl_collector call_result" where
  "default_collector alloc_ok env =
     new_range_smpl_collector alloc_ok (st_threads env) 0 (st_threads env) (1 < st_runs env)"

section \<open>What aggregation computes\<close>

text \<open>The samples of the threads a run takes from one execution.\<close>

definition picked_samples :: "stats_env \<Rightarrow> int list \<Rightarrow> range_smpl_collector \<Rightarrow> nat \<Rightarrow> nat \<Rightarrow> int list" where
  "picked_samples env xs c run exec =
     map (\<lambda>t. xs ! slot (unat (st_threads env)) (unat (st_executions env)) t exec run)
       [unat (start_index c)..<unat (start_index c) + picked c run]"

definition exec_stats :: "'d double_ops \<Rightarrow> stats_env \<Rightarrow> int list \<Rightarrow> range_smpl_collector \<Rightarrow> nat \<Rightarrow> nat \<Rightarrow> 'd result_t" where
  "exec_stats fp env xs c run exec = stats_of fp (picked_samples env xs c run exec) (new_result fp)"

definition run_maxima :: "stats_env \<Rightarrow> int list \<Rightarrow> range_smpl_collector \<Rightarrow> nat \<Rightarrow> int list" where
  "run_maxima env xs c run =
     map (\<lambda>exec. Max (set (picked_samples env xs c run exec))) [0..<unat (st_executions env)]"


definition median_spec :: "'d double_ops \<Rightarrow> int list \<Rightarrow> int" where
  "median_spec fp ms =
     (let k = length ms div 2
      in if odd (length ms) then sort ms ! k
         else to_ll fp (ddiv fp (of_ll fp (sort ms ! (k - 1) + sort ms ! k)) (of_ll fp 2)))"

definition run_stats :: "'d double_ops \<Rightarrow> stats_env \<Rightarrow> int list \<Rightarrow> range_smpl_collector \<Rightarrow> nat \<Rightarrow> 'd result_t" where
  "run_stats fp env xs c run =
     (stats_of fp (run_maxima env xs c run) (new_result fp))
       \<lparr>r_median := median_spec fp (run_maxima env xs c run)\<rparr>"

text \<open>The samples are small enough that no sum over the threads or the executions overflows.\<close>

definition aggregation_ok :: "stats_env \<Rightarrow> int list \<Rightarrow> range_smpl_collector \<Rightarrow> int \<Rightarrow> bool" where
  "aggregation_ok env xs c b \<longleftrightarrow> store_ok env xs \<and> collector_ok c \<and>
     population_size c = st_threads env \<and> st_runs env \<le> nr_samples c \<and>
     unat (st_threads env) < 2 ^ 31 \<and> 0 < st_executions env \<and> unat (st_executions env) < 2 ^ 31 \<and>
     (\<forall>x \<in> set xs. 0 \<le> x \<and> x \<le> b) \<and>
     int (unat (st_threads env)) * b < 2 ^ 63 \<and> int (unat (st_executions env)) * b < 2 ^ 63"

text \<open>A collector that differs from another in its buffer only.\<close>

definition same_range :: "range_smpl_collector \<Rightarrow> range_smpl_collector \<Rightarrow> bool" where
  "same_range c c' \<longleftrightarrow> c' = c\<lparr>c_sample := c_sample c'\<rparr> \<and> collector_ok c'"

lemma same_range_fields:
  assumes "same_range c c'"
  shows "start_index c' = start_index c" "stop_index c' = stop_index c" "nr_samples c' = nr_samples c"
    "picked c' k = picked c k" "collector_ok c'"
proof -
  obtain buf where "c' = c\<lparr>c_sample := buf\<rparr>" using assms unfolding same_range_def by metis
  then show "start_index c' = start_index c" "stop_index c' = stop_index c" "nr_samples c' = nr_samples c"
    "picked c' k = picked c k" by (simp_all add: picked_def)
  show "collector_ok c'" using assms by (simp add: same_range_def)
qed

lemma same_range_trans: "same_range c c' \<Longrightarrow> c'' = c'\<lparr>c_sample := c_sample c''\<rparr> \<Longrightarrow> collector_ok c'' \<Longrightarrow> same_range c c''"
  unfolding same_range_def by (metis range_smpl_collector.select_convs(6) range_smpl_collector.surjective range_smpl_collector.update_convs(6))

lemma sum_list_bound:
  assumes "\<forall>x \<in> set ys. 0 \<le> x \<and> x \<le> (b :: int)" "length ys \<le> n" "0 \<le> b"
  shows "sum_list ys \<le> int n * b"
proof -
  have "sum_list ys \<le> int (length ys) * b" using assms(1)
    by (induction ys) (auto simp: algebra_simps)
  also have "\<dots> \<le> int n * b" using assms(2,3) by (intro mult_right_mono) simp_all
  finally show ?thesis .
qed

lemma row_of_execution:
  assumes "store_ok env xs" "exec < st_executions env" "run < st_runs env" "0 < st_threads env"
  shows "unat (exec_offset env exec run) + unat (st_threads env) \<le> length xs"
proof -
  let ?n = "unat (st_threads env)"
  have "slot ?n (unat (st_executions env)) (?n - 1) (unat exec) (unat run) < length xs"
    using assms slot_less [of "?n - 1" ?n "unat exec" "unat (st_executions env)" "unat run" "unat (st_runs env)"]
    by (simp add: store_ok_def word_less_nat_alt)
  then show ?thesis
    using assms exec_offset_slot [of env exec run] by (simp add: store_ok_def slot_def word_less_nat_alt)
qed

lemma picked_samples_range:
  assumes a: "aggregation_ok env xs c b" and "exec < unat (st_executions env)" "run < unat (st_runs env)"
  shows "\<forall>x \<in> set (picked_samples env xs c run exec). 0 \<le> x \<and> x \<le> b"
    and "length (picked_samples env xs c run exec) = picked c run"
    and "0 < picked c run" and "picked c run \<le> unat (st_threads env)"
    and "unat (start_index c) + picked c run \<le> unat (st_threads env)"
proof -
  have ok: "collector_ok c" and pop: "population_size c = st_threads env"
    and runs: "st_runs env \<le> nr_samples c"
    using a by (simp_all add: aggregation_ok_def)
  have "run < unat (nr_samples c)" using runs assms(3) by (simp add: word_le_nat_alt)
  moreover have "run < 2 ^ 32" using assms(3) unsigned_less [of "st_runs env", where 'a = nat] by simp
  then have u: "unat (of_nat run :: 32 word) = run" by (simp add: unat_of_nat)
  ultimately have "of_nat run < nr_samples c" by (simp add: word_less_nat_alt)
  note cnt = collector_counts [OF ok this, unfolded u]
  have ord: "unat (start_index c) \<le> unat (stop_index c)" "unat (stop_index c) \<le> unat (st_threads env)"
    using ok pop by (simp_all add: collector_ok_def word_le_nat_alt)
  show "0 < picked c run" by (rule cnt(4))
  show le: "unat (start_index c) + picked c run \<le> unat (st_threads env)" using cnt(1,2) ord by linarith
  then show "picked c run \<le> unat (st_threads env)" by simp
  show "length (picked_samples env xs c run exec) = picked c run" by (simp add: picked_samples_def)
  show "\<forall>x \<in> set (picked_samples env xs c run exec). 0 \<le> x \<and> x \<le> b"
  proof
    fix x assume "x \<in> set (picked_samples env xs c run exec)"
    then obtain t where t: "t < unat (start_index c) + picked c run"
      "x = xs ! slot (unat (st_threads env)) (unat (st_executions env)) t exec run"
      by (auto simp: picked_samples_def)
    have "slot (unat (st_threads env)) (unat (st_executions env)) t exec run < length xs"
      using t(1) le assms a slot_less [of t "unat (st_threads env)" exec "unat (st_executions env)" run "unat (st_runs env)"]
      by (simp add: aggregation_ok_def store_ok_def)
    then show "0 \<le> x \<and> x \<le> b" using a t(2) by (auto simp: aggregation_ok_def)
  qed
qed


lemma aggregate_exec_ok:
  assumes a: "aggregation_ok env xs c b" and run: "run < st_runs env" and exec: "exec < st_executions env"
    and same: "same_range c col"
  shows "\<exists>col'. aggregate_exec fp env run exec (col, v) =
      Returns (col', v @ [exec_stats fp env xs c (unat run) (unat exec)]) \<and> same_range c col'"
proof -
  let ?off = "unat (exec_offset env exec run)"
  let ?n = "st_threads env" and ?k = "picked c (unat run)"
  let ?ps = "picked_samples env xs c (unat run) (unat exec)"
  note f = same_range_fields [OF same]
  have ux: "unat exec < unat (st_executions env)" "unat run < unat (st_runs env)"
    using exec run by (simp_all add: word_less_nat_alt)
  note ps = picked_samples_range [OF a ux]
  have st: "store_ok env xs" and nw: "no_wrap ?n (st_executions env) (st_runs env)"
    and s: "sample env = Allocated_samples xs"
    using a by (simp_all add: aggregation_ok_def store_ok_def)
  have pos: "0 < ?n" using ps(3,4) by (simp add: word_less_nat_alt)
  have rc: "run < nr_samples col" using a run f(3) by (auto simp: aggregation_ok_def)
  have row: "?off + unat ?n \<le> length xs" by (rule row_of_execution [OF st exec run pos])
  have "unat (stop_index col) \<le> unat ?n"
    using a f(2) by (auto simp: aggregation_ok_def collector_ok_def word_le_nat_alt)
  with row have "unat (stop_index col) \<le> length (drop ?off xs)" by simp
  from get_samples_ok [OF f(5) rc this] obtain col' where col':
    "get_samples run (drop ?off xs) col = Returns (col', c_sample col')" "collector_ok col'"
    "col' = col\<lparr>c_sample := c_sample col'\<rparr>"
    "take ?k (c_sample col') = map Some (take ?k (drop (unat (start_index c)) (drop ?off xs)))"
    unfolding f(1,4) by blast
  have same': "same_range c col'" by (rule same_range_trans [OF same col'(3,2)])
  note f' = same_range_fields [OF same']
  have "run < nr_samples col'" using rc f(3) f'(3) by simp
  from get_nr_samples_ok [OF f'(5) this] obtain k where
    k: "get_nr_samples run col' = Returns k" "unat k = ?k" unfolding f'(4) by blast
  have kpos: "0 < k" using k(2) ps(3) by (simp add: word_less_nat_alt)
  have k31: "?k < 2 ^ 31" using ps(4) a by (simp add: aggregation_ok_def)
  then have sk: "sint k = int ?k"
    using k(2) sint_small [of k] by simp
  have picks: "take ?k (drop (unat (start_index c)) (drop ?off xs)) = ?ps"
  proof -
    have "drop (unat (start_index c)) (drop ?off xs) = drop (?off + unat (start_index c)) xs"
      by (simp add: add.commute)
    moreover have "?off + unat (start_index c) + ?k \<le> length xs" using row ps(5) by linarith
    ultimately have "take ?k (drop (unat (start_index c)) (drop ?off xs)) =
        map ((!) xs) [?off + unat (start_index c)..<?off + unat (start_index c) + ?k]"
      by (simp add: take_drop_map_nth)
    also have "\<dots> = ?ps"
      by (intro nth_equalityI) (simp_all add: picked_samples_def exec_offset_slot [OF nw exec run pos] slot_def algebra_simps)
    finally show ?thesis .
  qed
  have b0: "0 \<le> b" using ps(1,2,3) by (cases ?ps) auto
  have "sum_list ?ps \<le> int (unat ?n) * b" using ps(1,2,4) b0 by (intro sum_list_bound) auto
  then have "sum_list ?ps < 2 ^ 63" using a by (simp add: aggregation_ok_def)
  with doStats_ok [of "int ?k" "c_sample col'" ?ps fp "new_result fp"] col'(4) ps(1,2,3) k31 picks
  have "doStats fp (c_sample col') (int ?k) (new_result fp) = Returns (exec_stats fp env xs c (unat run) (unat exec))"
    by (simp add: exec_stats_def)
  with col'(1) k(1) kpos sk row same' show ?thesis
    by (auto simp: aggregate_exec_def s)
qed


lemma map_upt_Suc: "map f [0..<Suc k] = map f [0..<k] @ [f k]"
  by simp

lemma set_below_sort: "k < length ms \<Longrightarrow> sort ms ! k \<in> set (ms :: int list)"
  by (metis length_sort nth_mem set_sort)

lemma median_ok:
  assumes "ms \<noteq> []" "\<forall>x \<in> set ms. 0 \<le> x \<and> x \<le> b" "int (length ms) * b < 2 ^ 63"
  shows "median_of fp (sort ms) = Returns (median_spec fp ms)"
proof (cases "odd (length ms)")
  case True
  then show ?thesis by (simp add: median_of_def median_spec_def Let_def odd_iff_mod_2_eq_one)
next
  case False
  let ?k = "length ms div 2"
  have two: "2 \<le> length ms" using assms(1) False by (cases ms; cases "tl ms") auto
  have k: "?k < length ms" "?k - 1 < length ms" using two by linarith+
  have r: "0 \<le> sort ms ! ?k \<and> sort ms ! ?k \<le> b" "0 \<le> sort ms ! (?k - 1) \<and> sort ms ! (?k - 1) \<le> b"
    using assms(2) set_below_sort [OF k(1)] set_below_sort [OF k(2)] by blast+
  have "2 * b \<le> int (length ms) * b" using two r by (intro mult_right_mono) simp_all
  then have "long_long (sort ms ! (?k - 1) + sort ms ! ?k) = Returns (sort ms ! (?k - 1) + sort ms ! ?k)"
    using r assms(3) by (simp add: long_long_def)
  with False show ?thesis by (simp add: median_of_def median_spec_def Let_def even_iff_mod_2_eq_zero)
qed

lemma run_maxima_range:
  assumes a: "aggregation_ok env xs c b" and "run < unat (st_runs env)"
  shows "\<forall>x \<in> set (run_maxima env xs c run). 0 \<le> x \<and> x \<le> b"
    and "length (run_maxima env xs c run) = unat (st_executions env)"
proof -
  show "length (run_maxima env xs c run) = unat (st_executions env)" by (simp add: run_maxima_def)
  show "\<forall>x \<in> set (run_maxima env xs c run). 0 \<le> x \<and> x \<le> b"
  proof
    fix x assume "x \<in> set (run_maxima env xs c run)"
    then obtain e where e: "e < unat (st_executions env)" "x = Max (set (picked_samples env xs c run e))"
      by (auto simp: run_maxima_def)
    note ps = picked_samples_range [OF a e(1) assms(2)]
    have "set (picked_samples env xs c run e) \<noteq> {}" using ps(2,3) by auto
    then have "x \<in> set (picked_samples env xs c run e)" unfolding e(2) by (intro Max_in) simp_all
    with ps(1) show "0 \<le> x \<and> x \<le> b" by blast
  qed
qed

lemma aggregate_run_ok:
  assumes a: "aggregation_ok env xs c b" and run: "run < st_runs env" and same: "same_range c col"
  shows "\<exists>col'. aggregate_run fp env run (col, res) = Returns (col', res
      \<lparr>res_exec := res_exec res @ [map (exec_stats fp env xs c (unat run)) [0..<unat (st_executions env)]],
       res_run := res_run res @ [run_stats fp env xs c (unat run)]\<rparr>) \<and> same_range c col'"
proof -
  let ?e = "unat (st_executions env)"
  let ?v = "map (exec_stats fp env xs c (unat run)) [0..<?e]"
  let ?ms = "run_maxima env xs c (unat run)"
  have urun: "unat run < unat (st_runs env)" using run by (simp add: word_less_nat_alt)
  define I where "I = (\<lambda>k (col', v). same_range c col' \<and> v = map (exec_stats fp env xs c (unat run)) [0..<k])"
  have "\<exists>s. for_each (aggregate_exec fp env run) (below (st_executions env)) (col, []) = Returns s \<and> I ?e s"
  proof (rule for_each_below [where I = I])
    show "I 0 (col, [])" using same by (simp add: I_def)
  next
    fix i s assume i: "i < st_executions env" and Is: "I (unat i) s"
    obtain col1 v where s: "s = (col1, v)" by (cases s)
    with Is have "same_range c col1" and v: "v = map (exec_stats fp env xs c (unat run)) [0..<unat i]"
      by (simp_all add: I_def)
    from aggregate_exec_ok [OF a run i this(1)] obtain col2 where
      "aggregate_exec fp env run i (col1, v) = Returns (col2, v @ [exec_stats fp env xs c (unat run) (unat i)])"
      "same_range c col2" by blast
    with s v show "\<exists>s'. aggregate_exec fp env run i s = Returns s' \<and> I (Suc (unat i)) s'"
      by (auto simp: I_def)
  qed
  then obtain col' where loop: "for_each (aggregate_exec fp env run) (below (st_executions env)) (col, []) = Returns (col', ?v)"
    and same': "same_range c col'" by (auto simp: I_def)
  have maxima: "map r_max ?v = ?ms"
    by (simp add: run_maxima_def exec_stats_def stats_of_def Let_def comp_def)
  note ms = run_maxima_range [OF a urun]
  have e: "0 < ?e" "?e < 2 ^ 31" "int ?e * b < 2 ^ 63"
    using a by (auto simp: aggregation_ok_def word_less_nat_alt)
  have ne: "?ms \<noteq> []" using ms(2) e(1) by auto
  have b0: "0 \<le> b" using ms(1) ne by (cases ?ms) auto
  have "sum_list ?ms \<le> int ?e * b" using ms b0 by (intro sum_list_bound) auto
  then have sum: "sum_list ?ms < 2 ^ 63" using e(3) by simp
  have se: "sint (st_executions env) = int ?e" by (rule sint_small [OF e(2)])
  have "doStats fp (map Some ?ms) (int ?e) (new_result fp) = Returns (stats_of fp ?ms (new_result fp))"
    using ms(1,2) e(1,2) sum by (intro doStats_whole) auto
  moreover have "median_of fp (sort ?ms) = Returns (median_spec fp ?ms)"
    using ne ms e(3) by (intro median_ok) simp_all
  ultimately show ?thesis
    using same' unfolding aggregate_run_def by (auto simp: loop maxima se run_stats_def Let_def simp del: map_map)
qed

lemma aggregateStatistics_ok:
  fixes fp :: "'a double_ops"
  assumes a: "aggregation_ok env xs c b"
  shows "\<exists>c' res'. aggregateStatistics fp env c res = Returns (c', res') \<and>
    res_exec res' = res_exec res @
      map (\<lambda>run. map (exec_stats fp env xs c run) [0..<unat (st_executions env)]) [0..<unat (st_runs env)] \<and>
    res_run res' = res_run res @ map (run_stats fp env xs c) [0..<unat (st_runs env)] \<and> same_range c c'"
proof -
  let ?ex = "\<lambda>run. map (exec_stats fp env xs c run) [0..<unat (st_executions env)]"
  define I where "I = (\<lambda>k (col', res' :: 'a results). same_range c col' \<and> res_exec res' = res_exec res @ map ?ex [0..<k] \<and>
    res_run res' = res_run res @ map (run_stats fp env xs c) [0..<k])"
  have "\<exists>s. for_each (aggregate_run fp env) (below (st_runs env)) (c, res) = Returns s \<and> I (unat (st_runs env)) s"
  proof (rule for_each_below [where I = I])
    show "I 0 (c, res)" using a by (simp add: I_def same_range_def aggregation_ok_def)
  next
    fix i s assume i: "i < st_runs env" and Is: "I (unat i) s"
    obtain col1 res1 where s: "s = (col1, res1)" by (cases s)
    with Is have same: "same_range c col1" by (simp add: I_def)
    from aggregate_run_ok [OF a i same, of fp res1] Is s
    show "\<exists>s'. aggregate_run fp env i s = Returns s' \<and> I (Suc (unat i)) s'"
      by (auto simp: I_def)
  qed
  then show ?thesis by (auto simp: aggregateStatistics_def I_def)
qed

text \<open>
  C22: when the sample store was initialised without overflow and the samples are not negative and
  small enough to be summed, \<open>aggregateStatistics\<close> returns - no access leaves the store or the
  collector, nothing divides by zero or overflows - and for every run it appends the statistics of
  each execution over exactly the threads the collector picks, and the statistics with the median of
  the maxima of the executions.
\<close>

theorem aggregate_refines:
  fixes fp :: "'a double_ops"
  assumes a: "aggregation_ok env xs c b"
  shows "\<exists>c' res'. aggregateStatistics fp env c res = Returns (c', res') \<and>
    res_exec res' = res_exec res @
      map (\<lambda>run. map (exec_stats fp env xs c run) [0..<unat (st_executions env)]) [0..<unat (st_runs env)] \<and>
    res_run res' = res_run res @ map (run_stats fp env xs c) [0..<unat (st_runs env)]"
  using aggregateStatistics_ok [OF a, of fp res] by blast


text \<open>The operations on exact reals, for concrete runs.\<close>

definition real_ops :: "real double_ops" where
  "real_ops = \<lparr>of_ll = real_of_int, to_ll = floor, dadd = (+), dmul = (*), ddiv = (/), dsqrt = sqrt\<rparr>"

lemma aggregate_refines_witness:
  "\<exists>c c' res'. default_collector True
       (stats0\<lparr>st_threads := 2, st_executions := 3, st_runs := 2,
          sample := Allocated_samples [4, 0, 6, 0, 5, 0, 7, 8, 1, 2, 9, 3]\<rparr>) = Returns c \<and>
     aggregateStatistics real_ops
       (stats0\<lparr>st_threads := 2, st_executions := 3, st_runs := 2,
          sample := Allocated_samples [4, 0, 6, 0, 5, 0, 7, 8, 1, 2, 9, 3]\<rparr>)
       c \<lparr>res_exec = [], res_run = []\<rparr> = Returns (c', res') \<and>
     map (\<lambda>r. (r_max r, r_median r)) (res_run res') = [(6, 5), (9, 8)]"
proof -
  let ?xs = "[4, 0, 6, 0, 5, 0, 7, 8, 1, 2, 9, 3 :: int]"
  let ?env = "stats0\<lparr>st_threads := 2, st_executions := 3, st_runs := 2, sample := Allocated_samples ?xs\<rparr>"
  obtain c where new: "new_range_smpl_collector True 2 0 2 True = Returns c" and c: "collector_ok c"
    "population_size c = 2" "start_index c = 0" "stop_index c = 2" "nr_samples c = 2" "is_scaling c"
    using new_collector_ok [of 0 2 2 True] by auto
  have def: "default_collector True ?env = Returns c" by (simp add: default_collector_def new)
  have "aggregation_ok ?env ?xs c 9"
    by (simp add: aggregation_ok_def store_ok_def no_wrap_def c)
  from aggregate_refines [OF this, of real_ops "\<lparr>res_exec = [], res_run = []\<rparr>"]
  obtain c' res' where r: "aggregateStatistics real_ops ?env c \<lparr>res_exec = [], res_run = []\<rparr> = Returns (c', res')"
    "res_run res' = map (run_stats real_ops ?env ?xs c) [0, 1]"
    by (auto simp: upt_rec)
  have "r_max (run_stats real_ops ?env ?xs c k) = Max (set (run_maxima ?env ?xs c k))"
    "r_median (run_stats real_ops ?env ?xs c k) = sort (run_maxima ?env ?xs c k) ! 1" for k
    by (simp_all add: run_stats_def stats_of_def median_spec_def Let_def run_maxima_def)
  moreover have "run_maxima ?env ?xs c 0 = [4, 6, 5]" "run_maxima ?env ?xs c 1 = [8, 2, 9]"
    by (simp_all add: run_maxima_def picked_samples_def picked_def slot_def c upt_rec)
  ultimately have "map (\<lambda>r. (r_max r, r_median r)) (res_run res') = [(6, 5), (9, 8)]"
    by (simp add: r(2))
  with def r(1) show ?thesis by (intro exI conjI)
qed

text \<open>
  In the statistics of an execution the maximum is one of the collected samples, no collected
  sample exceeds it, and the mean lies between zero and it.
\<close>

theorem exec_stats_bounds:
  assumes "aggregation_ok env xs c b" "exec < unat (st_executions env)" "run < unat (st_runs env)"
  shows "r_max (exec_stats fp env xs c run exec) \<in> set (picked_samples env xs c run exec) \<and>
    (\<forall>x \<in> set (picked_samples env xs c run exec). x \<le> r_max (exec_stats fp env xs c run exec)) \<and>
    0 \<le> r_mean (exec_stats fp env xs c run exec) \<and>
    r_mean (exec_stats fp env xs c run exec) \<le> r_max (exec_stats fp env xs c run exec)"
proof -
  let ?ps = "picked_samples env xs c run exec"
  note ps = picked_samples_range [OF assms]
  have len: "0 < length ?ps" using ps(2,3) by simp
  then have "set ?ps \<noteq> {}" by auto
  then have mx: "Max (set ?ps) \<in> set ?ps" "\<forall>x \<in> set ?ps. x \<le> Max (set ?ps)" by simp_all
  have "\<forall>x \<in> set ?ps. 0 \<le> x \<and> x \<le> Max (set ?ps)" "0 \<le> Max (set ?ps)" using mx ps(1) by blast+
  then have "sum_list ?ps \<le> int (length ?ps) * Max (set ?ps)" by (intro sum_list_bound) simp_all
  then have "sum_list ?ps div int (length ?ps) \<le> int (length ?ps) * Max (set ?ps) div int (length ?ps)"
    using len by (intro zdiv_mono1) simp_all
  also have "\<dots> = Max (set ?ps)" using len by simp
  finally have "sum_list ?ps div int (length ?ps) \<le> Max (set ?ps)" .
  moreover have "0 \<le> sum_list ?ps" using ps(1) by (intro sum_list_nonneg) simp
  then have "0 \<le> sum_list ?ps div int (length ?ps)" using len by (simp add: pos_imp_zdiv_nonneg_iff)
  ultimately show ?thesis using mx by (simp add: exec_stats_def stats_of_def Let_def)
qed

lemma exec_stats_bounds_witness:
  "\<exists>c. new_range_smpl_collector True 2 0 2 False = Returns c \<and>
     0 \<le> r_mean (exec_stats real_ops
       (stats0\<lparr>st_threads := 2, st_executions := 1, st_runs := 1, sample := Allocated_samples [4, 6]\<rparr>) [4, 6] c 0 0)"
proof -
  obtain c where c: "new_range_smpl_collector True 2 0 2 False = Returns c" "collector_ok c"
    "population_size c = 2" "nr_samples c = 2"
    using new_collector_ok [of 0 2 2 False] by auto
  have "aggregation_ok (stats0\<lparr>st_threads := 2, st_executions := 1, st_runs := 1, sample := Allocated_samples [4, 6]\<rparr>) [4, 6] c 6"
    by (simp add: aggregation_ok_def store_ok_def no_wrap_def c)
  from exec_stats_bounds [OF this, of 0 0 real_ops] c(1) show ?thesis by auto
qed

end
