(* ===== verification/Text_Out.thy ===== *)
theory Text_Out
  imports Collector
begin

text \<open>
  Formatted output: what \<open>operator<<\<close> of the C++ streams writes for strings and integers under the
  manipulators the statistics use (\<open>setw\<close>, \<open>left\<close>, \<open>right\<close>, \<open>precision\<close>, \<open>scientific\<close>), and a
  reader for decimal numbers against which the output is checked.
\<close>

section \<open>Decimal numbers\<close>

definition digit :: "nat \<Rightarrow> char" where
  "digit d = char_of (48 + d)"

fun dec_nat :: "nat \<Rightarrow> string" where
  "dec_nat n = (if n < 10 then [digit n] else dec_nat (n div 10) @ [digit (n mod 10)])"

declare dec_nat.simps [simp del]

definition dec :: "int \<Rightarrow> string" where
  "dec k = (if k < 0 then CHR ''-'' # dec_nat (nat (- k)) else dec_nat (nat k))"

definition read_nat :: "string \<Rightarrow> nat" where
  "read_nat s = foldl (\<lambda>a c. 10 * a + (of_char c - 48)) 0 s"

fun read_dec :: "string \<Rightarrow> int" where
  "read_dec [] = 0"
| "read_dec (c # s) = (if c = CHR ''-'' then - int (read_nat s) else int (read_nat (c # s)))"

lemma of_char_digit: "d < 10 \<Longrightarrow> of_char (digit d) = 48 + d"
  by (simp add: digit_def)

lemma digit_not:
  assumes "d < 10"
  shows "digit d \<noteq> CHR '' ''" "digit d \<noteq> CHR 0x0A" "digit d \<noteq> CHR ''-''" "digit d \<noteq> CHR ''#''"
proof -
  have "of_char (digit d) = 48 + d" by (rule of_char_digit [OF assms])
  then show "digit d \<noteq> CHR '' ''" "digit d \<noteq> CHR 0x0A" "digit d \<noteq> CHR ''-''" "digit d \<noteq> CHR ''#''"
    by auto
qed

lemma dec_nat_digits: "c \<in> set (dec_nat n) \<Longrightarrow> \<exists>d<10. c = digit d"
proof (induction n rule: dec_nat.induct)
  case (1 n)
  show ?case
  proof (cases "n < 10")
    case True
    then show ?thesis using "1.prems" by (simp add: dec_nat.simps [of n]) blast
  next
    case False
    with "1.prems" have "c \<in> set (dec_nat (n div 10)) \<or> c = digit (n mod 10)"
      by (auto simp: dec_nat.simps [of n])
    moreover have "n mod 10 < 10" by simp
    ultimately show ?thesis using "1.IH" [OF False] by blast
  qed
qed

lemma dec_nat_nonempty [simp]: "dec_nat n \<noteq> []"
  by (simp add: dec_nat.simps [of n])

lemma read_nat_snoc: "read_nat (s @ [c]) = 10 * read_nat s + (of_char c - 48)"
  by (simp add: read_nat_def)

lemma read_dec_nat: "read_nat (dec_nat n) = n"
proof (induction n rule: dec_nat.induct)
  case (1 n)
  show ?case
  proof (cases "n < 10")
    case True
    then show ?thesis by (simp add: dec_nat.simps [of n] read_nat_def of_char_digit)
  next
    case False
    then show ?thesis
      using 1 by (simp add: dec_nat.simps [of n] read_nat_snoc of_char_digit)
  qed
qed

lemma dec_nat_chars:
  assumes "c \<in> set (dec_nat n)"
  shows "c \<noteq> CHR '' ''" "c \<noteq> CHR 0x0A" "c \<noteq> CHR ''-''" "c \<noteq> CHR ''#''"
proof -
  obtain d where "d < 10" "c = digit d" using dec_nat_digits [OF assms] by blast
  then show "c \<noteq> CHR '' ''" "c \<noteq> CHR 0x0A" "c \<noteq> CHR ''-''" "c \<noteq> CHR ''#''"
    using digit_not [of d] by simp_all
qed

lemma read_dec_dec: "read_dec (dec k) = k"
proof (cases "k < 0")
  case True
  then show ?thesis by (simp add: dec_def read_dec_nat)
next
  case False
  obtain c s where s: "dec_nat (nat k) = c # s" by (cases "dec_nat (nat k)") auto
  then have "c \<in> set (dec_nat (nat k))" by simp
  then have "c \<noteq> CHR ''-''" by (rule dec_nat_chars)
  with False s read_dec_nat [of "nat k"] show ?thesis by (simp add: dec_def)
qed

lemma dec_chars:
  assumes "c \<in> set (dec k)"
  shows "c \<noteq> CHR '' ''" "c \<noteq> CHR 0x0A" "c \<noteq> CHR ''#''"
proof -
  have "c = CHR ''-'' \<or> c \<in> set (dec_nat (nat k)) \<or> c \<in> set (dec_nat (nat (- k)))"
    using assms by (auto simp: dec_def split: if_splits)
  then show "c \<noteq> CHR '' ''" "c \<noteq> CHR 0x0A" "c \<noteq> CHR ''#''"
    using dec_nat_chars [of c "nat k"] dec_nat_chars [of c "nat (- k)"] by auto
qed

lemma dec_nonempty [simp]: "dec k \<noteq> []"
  by (simp add: dec_def)

lemma length_dec_nat: "0 < n \<Longrightarrow> 10 ^ (length (dec_nat n) - 1) \<le> n \<and> n < 10 ^ length (dec_nat n)"
proof (induction n rule: dec_nat.induct)
  case (1 n)
  show ?case
  proof (cases "n < 10")
    case True
    with "1.prems" show ?thesis by (simp add: dec_nat.simps [of n])
  next
    case False
    let ?l = "length (dec_nat (n div 10))"
    have "0 < ?l" by simp
    then obtain m where m: "?l = Suc m" by (cases ?l) auto
    have "10 ^ (?l - 1) \<le> n div 10 \<and> n div 10 < 10 ^ ?l" using "1.IH" [OF False] False by simp
    then have "10 * 10 ^ m \<le> n" "n < 10 * 10 ^ ?l" by (simp_all add: m) linarith+
    then show ?thesis using False m by (simp add: dec_nat.simps [of n])
  qed
qed

section \<open>Lines and words\<close>

fun split_at :: "char \<Rightarrow> string \<Rightarrow> string list" where
  "split_at c [] = [[]]"
| "split_at c (x # xs) =
     (if x = c then [] # split_at c xs
      else (case split_at c xs of [] \<Rightarrow> [[x]] | y # ys \<Rightarrow> (x # y) # ys))"

definition lines :: "string \<Rightarrow> string list" where
  "lines = split_at (CHR 0x0A)"

definition words :: "string \<Rightarrow> string list" where
  "words s = filter (\<lambda>w. w \<noteq> []) (split_at (CHR '' '') s)"

lemma split_at_append: "c \<notin> set s \<Longrightarrow> split_at c (s @ c # t) = s # split_at c t"
  by (induction s) auto

lemma split_at_none: "c \<notin> set s \<Longrightarrow> split_at c s = [s]"
  by (induction s) auto

lemma lines_append: "CHR 0x0A \<notin> set s \<Longrightarrow> lines (s @ CHR 0x0A # t) = s # lines t"
  by (simp add: lines_def split_at_append)

lemma words_blanks: "words (replicate k (CHR '' '') @ s) = words s"
  by (induction k) (simp_all add: words_def)

lemma words_word: "CHR '' '' \<notin> set w \<Longrightarrow> w \<noteq> [] \<Longrightarrow> words (w @ CHR '' '' # s) = w # words s"
  by (simp add: words_def split_at_append)

lemma words_last: "CHR '' '' \<notin> set w \<Longrightarrow> w \<noteq> [] \<Longrightarrow> words w = [w]"
  by (simp add: words_def split_at_none)

section \<open>Streams\<close>

text \<open>
  The characters written so far and the flags of a stream. \<open>width\<close> is consumed by the next item that
  is formatted, the other flags stay.
\<close>

record ostream =
  written :: string
  width :: int
  left_adjust :: bool
  precision :: int
  scientific :: bool

definition new_stream :: ostream where
  "new_stream = \<lparr>written = [], width = 0, left_adjust = False, precision = 6, scientific = False\<rparr>"

text \<open>What the sources insert into a stream with \<open><<\<close>.\<close>

datatype 'd item =
    Str string
  | Num int
  | Dbl 'd
  | Setw int
  | Adjust_left
  | Adjust_right
  | Set_scientific
  | Set_precision int
  | Endl

definition pad :: "bool \<Rightarrow> int \<Rightarrow> string \<Rightarrow> string" where
  "pad left w s =
     (let fill = replicate (nat w - length s) (CHR '' '')
      in if left then s @ fill else fill @ s)"

definition newline :: string where
  "newline = [CHR 0x0A]"

definition format_item :: "string \<Rightarrow> ostream \<Rightarrow> ostream" where
  "format_item s os = os\<lparr>written := written os @ pad (left_adjust os) (width os) s, width := 0\<rparr>"

text \<open>\<open>show_double\<close>: the text of a floating-point number in scientific notation or not, and with a
  precision.\<close>

fun put :: "(bool \<Rightarrow> int \<Rightarrow> 'd \<Rightarrow> string) \<Rightarrow> 'd item \<Rightarrow> ostream \<Rightarrow> ostream" where
  "put show_double (Str s) os = format_item s os"
| "put show_double (Num k) os = format_item (dec k) os"
| "put show_double (Dbl d) os = format_item (show_double (scientific os) (precision os) d) os"
| "put show_double (Setw w) os = os\<lparr>width := w\<rparr>"
| "put show_double Adjust_left os = os\<lparr>left_adjust := True\<rparr>"
| "put show_double Adjust_right os = os\<lparr>left_adjust := False\<rparr>"
| "put show_double Set_scientific os = os\<lparr>scientific := True\<rparr>"
| "put show_double (Set_precision p) os = os\<lparr>precision := p\<rparr>"
| "put show_double Endl os = os\<lparr>written := written os @ newline\<rparr>"

definition emit :: "(bool \<Rightarrow> int \<Rightarrow> 'd \<Rightarrow> string) \<Rightarrow> 'd item list \<Rightarrow> ostream \<Rightarrow> ostream" where
  "emit show_double items os = fold (put show_double) items os"

lemma emit_simps [simp]:
  "emit sd [] os = os"
  "emit sd (x # xs) os = emit sd xs (put sd x os)"
  by (simp_all add: emit_def)

lemma emit_append: "emit sd (xs @ ys) os = emit sd ys (emit sd xs os)"
  by (simp add: emit_def)

lemma pad_0 [simp]: "pad left 0 s = s"
  by (simp add: pad_def)

lemma length_pad: "int (length s) \<le> w \<Longrightarrow> int (length (pad left w s)) = w"
  by (auto simp: pad_def Let_def)

lemma pad_right: "pad False w s = replicate (nat w - length s) (CHR '' '') @ s"
  by (simp add: pad_def)

text \<open>A stream that is right-adjusted and has no width pending, as every line here leaves it.\<close>

definition plain :: "ostream \<Rightarrow> bool" where
  "plain os \<longleftrightarrow> \<not> left_adjust os \<and> width os = 0"

text \<open>A counting loop each of whose rounds appends a text.\<close>

lemma for_each_written:
  assumes "plain os0"
    and "\<And>i os. i < n \<Longrightarrow> plain os \<Longrightarrow>
      \<exists>os'. body i os = Returns os' \<and> plain os' \<and> written os' = written os @ f (unat i)"
  shows "\<exists>os'. for_each body (below n) os0 = Returns os' \<and> plain os' \<and>
    written os' = written os0 @ concat (map f [0..<unat n])"
proof (rule for_each_below [where I = "\<lambda>k os. plain os \<and> written os = written os0 @ concat (map f [0..<k])"])
  show "plain os0 \<and> written os0 = written os0 @ concat (map f [0..<0])" using assms(1) by simp
next
  fix i os
  assume i: "i < n" and os: "plain os \<and> written os = written os0 @ concat (map f [0..<unat i])"
  from assms(2) [OF i] os obtain os' where
    "body i os = Returns os'" "plain os'" "written os' = written os @ f (unat i)" by blast
  with os show "\<exists>os'. body i os = Returns os' \<and> plain os' \<and>
      written os' = written os0 @ concat (map f [0..<Suc (unat i)])" by simp
qed

end
