(* ===== verification/Report.thy ===== *)
theory Report
  imports Aggregate Text_Out
begin

text \<open>
  The reports of the statistics (\<open>common/stats/stats.cpp\<close>): column widths, the tables of a run and of
  all runs, the raw dump, and \<open>dumpData\<close>, which aggregates and prints; and the choice of colours
  (\<open>common/stats/color_term.cpp\<close>). Each function inserts the items of its source into a stream in
  order.
\<close>

section \<open>Widths of columns\<close>

text \<open>The further operations on \<open>double\<close> that printing needs.\<close>

record 'd text_ops = "'d double_ops" +
  dlog10 :: "'d \<Rightarrow> 'd"
  dfloor :: "'d \<Rightarrow> int"
  deq0 :: "'d \<Rightarrow> bool"
  dlt0 :: "'d \<Rightarrow> bool"
  dneg :: "'d \<Rightarrow> 'd"
  show_double :: "bool \<Rightarrow> int \<Rightarrow> 'd \<Rightarrow> string"

definition numWidth :: "'d text_ops \<Rightarrow> 'd \<Rightarrow> int" where
  "numWidth fp num =
     (if deq0 fp num then 1
      else let num' = (if dlt0 fp num then dneg fp num else num)
           in 1 + dfloor fp (dlog10 fp num'))"

text \<open>Called with an integer, which is converted first.\<close>

definition num_width :: "'d text_ops \<Rightarrow> int \<Rightarrow> int" where
  "num_width fp k = numWidth fp (of_ll fp k)"

definition printSep :: "(bool \<Rightarrow> int \<Rightarrow> 'd \<Rightarrow> string) \<Rightarrow> int \<Rightarrow> char \<Rightarrow> ostream \<Rightarrow> ostream" where
  "printSep sd cols sep os = emit sd (replicate (nat cols) (Str [sep]) @ [Endl]) os"

text \<open>\<open>dumpMask\<close> of the collector, on the stream that is the standard output.\<close>

definition dumpMask :: "(bool \<Rightarrow> int \<Rightarrow> 'd \<Rightarrow> string) \<Rightarrow> range_smpl_collector \<Rightarrow> ostream \<Rightarrow> ostream" where
  "dumpMask sd c os =
     emit sd [Str ''Threads in mask: ['', Num (uint (start_index c)), Str ''..'', Num (uint (stop_index c)),
       Str (''['' @ newline)] os"

text \<open>\<open>computeSampleWidths\<close>; \<open>width\<close> is the array, with any contents before it is initialised.\<close>

definition clear_width :: "32 word \<Rightarrow> int list \<Rightarrow> int list call_result" where
  "clear_width thr ws =
     (case array_store ws (unat thr) 0 of None \<Rightarrow> Undefined_behaviour | Some ws' \<Rightarrow> Returns ws')"

definition widen :: "'d text_ops \<Rightarrow> stats_env \<Rightarrow> 32 word \<Rightarrow> 32 word \<Rightarrow> 32 word \<Rightarrow> int list \<Rightarrow> int list call_result" where
  "widen fp env run exec thr ws =
     (case raw_sample env thr exec run of
        None \<Rightarrow> Undefined_behaviour
      | Some s \<Rightarrow>
          (case array_load ws (unat thr) of
             None \<Rightarrow> Undefined_behaviour
           | Some w \<Rightarrow> Returns (ws[unat thr := max w (num_width fp s)])))"

definition computeSampleWidths ::
  "'d text_ops \<Rightarrow> stats_env \<Rightarrow> 32 word \<Rightarrow> bool \<Rightarrow> int list \<Rightarrow> int list call_result" where
  "computeSampleWidths fp env run initialize ws =
     and_then (if initialize then for_each clear_width (below (st_threads env)) ws else Returns ws)
       (for_each (\<lambda>exec. for_each (widen fp env run exec) (below (st_threads env))) (below (st_executions env)))"

section \<open>The raw dump\<close>

text \<open>The loop over the samples of one execution.\<close>

definition dump_row :: "'d text_ops \<Rightarrow> stats_env \<Rightarrow> int list \<Rightarrow> 32 word \<Rightarrow> 32 word \<Rightarrow> ostream \<Rightarrow> ostream call_result" where
  "dump_row fp env ws run exec =
     for_each (\<lambda>tr os.
       case array_load ws (unat tr) of
         None \<Rightarrow> Undefined_behaviour
       | Some w \<Rightarrow>
           (case raw_sample env tr exec run of
              None \<Rightarrow> Undefined_behaviour
            | Some s \<Rightarrow> Returns (emit (show_double fp)
                ([Setw w, Num s] @ (if tr + 1 = st_threads env then [Endl] else [Str '' ''])) os)))
       (below (st_threads env))"

definition dump_runs :: "'d text_ops \<Rightarrow> stats_env \<Rightarrow> int list \<Rightarrow> ostream \<Rightarrow> ostream call_result" where
  "dump_runs fp env ws =
     for_each (\<lambda>run os.
       for_each (\<lambda>exec os.
           dump_row fp env ws run exec (emit (show_double fp) [Str ''# EXE: '', Num (uint exec), Endl] os))
         (below (st_executions env))
         (emit (show_double fp) [Str ''# RUN: '', Num (uint run), Endl] os))
       (below (st_runs env))"

text \<open>
  \<open>dumpRawData\<close>: the name of the file and what is written to it. \<open>width0\<close>: the memory of the
  variable-length array \<open>width[nr_threads]\<close>, a length of zero is undefined.
\<close>

definition dumpRawData ::
  "'d text_ops \<Rightarrow> stats_env \<Rightarrow> int list \<Rightarrow> string option \<Rightarrow> (string \<times> string) call_result" where
  "dumpRawData fp env width0 f_name =
     (let my_f_name = (case f_name of None \<Rightarrow> ''dump.txt'' | Some f \<Rightarrow> f)
      in if st_threads env = 0 then Undefined_behaviour
         else and_then
           (for_each (\<lambda>run. computeSampleWidths fp env run (run = 0)) (below (st_runs env)) width0)
           (\<lambda>ws. and_then (dump_runs fp env ws new_stream)
           (\<lambda>os. Returns (my_f_name, written os))))"


section \<open>What the raw dump contains\<close>

lemma raw_sample_slot:
  assumes "store_ok env xs" "thr < st_threads env" "exec < st_executions env" "run < st_runs env"
  shows "raw_sample env thr exec run =
    Some (xs ! slot (unat (st_threads env)) (unat (st_executions env)) (unat thr) (unat exec) (unat run))"
proof -
  let ?i = "slot (unat (st_threads env)) (unat (st_executions env)) (unat thr) (unat exec) (unat run)"
  have "?i < length xs"
    using assms slot_less [of "unat thr" _ "unat exec" _ "unat run" "unat (st_runs env)"]
    by (simp add: store_ok_def word_less_nat_alt)
  then show ?thesis
    using assms raw_index_slot [of env thr exec run]
    by (simp add: raw_sample_def store_ok_def array_simps)
qed

text \<open>The sample at a position, as a number.\<close>

definition sample_at :: "stats_env \<Rightarrow> int list \<Rightarrow> nat \<Rightarrow> nat \<Rightarrow> nat \<Rightarrow> int" where
  "sample_at env xs run exec thr = xs ! slot (unat (st_threads env)) (unat (st_executions env)) thr exec run"

lemma raw_sample_at:
  assumes "store_ok env xs" "thr < st_threads env" "exec < st_executions env" "run < st_runs env"
  shows "raw_sample env thr exec run = Some (sample_at env xs (unat run) (unat exec) (unat thr))"
  using raw_sample_slot [OF assms] by (simp add: sample_at_def)

text \<open>\<open>computeSampleWidths\<close> computes, column by column, the maximum over the executions of the run and
  what the array held unless it was told to initialise it.\<close>

lemma widths_of_execution:
  assumes st: "store_ok env xs" and run: "run < st_runs env" and exec: "exec < st_executions env"
    and len: "length ws = unat (st_threads env)"
  shows "\<exists>ws'. for_each (widen fp env run exec) (below (st_threads env)) ws = Returns ws' \<and>
    length ws' = length ws \<and>
    (\<forall>t<length ws. ws' ! t = max (ws ! t) (num_width fp (sample_at env xs (unat run) (unat exec) t)))"
proof -
  define I where "I = (\<lambda>k ws'. length ws' = length ws \<and>
    (\<forall>t<length ws. ws' ! t = (if t < k then max (ws ! t) (num_width fp (sample_at env xs (unat run) (unat exec) t)) else ws ! t)))"
  have "\<exists>ws'. for_each (widen fp env run exec) (below (st_threads env)) ws = Returns ws' \<and> I (unat (st_threads env)) ws'"
  proof (rule for_each_below [where I = I])
    show "I 0 ws" by (simp add: I_def)
  next
    fix thr ws1 assume thr: "thr < st_threads env" and I1: "I (unat thr) ws1"
    let ?ws2 = "ws1[unat thr := max (ws1 ! unat thr) (num_width fp (sample_at env xs (unat run) (unat exec) (unat thr)))]"
    have t: "unat thr < length ws" "length ws1 = length ws"
      using thr len I1 by (simp_all add: word_less_nat_alt I_def)
    have "widen fp env run exec thr ws1 = Returns ?ws2"
      using t by (simp add: widen_def raw_sample_at [OF st thr exec run] array_simps)
    moreover have "I (Suc (unat thr)) ?ws2"
      using I1 t by (auto simp: I_def nth_list_update less_Suc_eq)
    ultimately show "\<exists>ws'. widen fp env run exec thr ws1 = Returns ws' \<and> I (Suc (unat thr)) ws'" by blast
  qed
  with len show ?thesis by (auto simp: I_def)
qed

lemma clear_widths:
  assumes "length ws = unat n"
  shows "for_each clear_width (below n) ws = Returns (replicate (length ws) 0)"
proof -
  define I where "I = (\<lambda>k ws'. length ws' = length ws \<and> (\<forall>t<k. t < length ws \<longrightarrow> ws' ! t = (0 :: int)))"
  have "\<exists>ws'. for_each clear_width (below n) ws = Returns ws' \<and> I (unat n) ws'"
  proof (rule for_each_below [where I = I])
    fix thr ws1 assume "thr < n" "I (unat thr) ws1"
    then show "\<exists>ws'. clear_width thr ws1 = Returns ws' \<and> I (Suc (unat thr)) ws'"
      using assms
      by (auto simp: clear_width_def I_def array_simps word_less_nat_alt nth_list_update less_Suc_eq)
  qed (simp add: I_def)
  then obtain ws' where "for_each clear_width (below n) ws = Returns ws'" "I (unat n) ws'" by blast
  moreover from this(2) assms have "ws' = replicate (length ws) 0"
    by (intro nth_equalityI) (simp_all add: I_def)
  ultimately show ?thesis by simp
qed

lemma Max_image_Suc:
  fixes f :: "nat \<Rightarrow> int"
  shows "Max (insert b (f ` {..<Suc k})) = max (Max (insert b (f ` {..<k}))) (f k)"
proof -
  have "insert b (f ` {..<Suc k}) = insert (f k) (insert b (f ` {..<k}))"
    by (auto simp: lessThan_Suc)
  moreover have "Max (insert (f k) (insert b (f ` {..<k}))) = max (f k) (Max (insert b (f ` {..<k})))"
    by (intro Max_insert) simp_all
  ultimately show ?thesis by (simp add: max.commute)
qed

lemma computeSampleWidths_ok:
  assumes st: "store_ok env xs" and run: "run < st_runs env" and len: "length ws = unat (st_threads env)"
  shows "\<exists>ws'. computeSampleWidths fp env run initialize ws = Returns ws' \<and> length ws' = length ws \<and>
    (\<forall>t<length ws. ws' ! t = Max (insert (if initialize then 0 else ws ! t)
       ((\<lambda>exec. num_width fp (sample_at env xs (unat run) exec t)) ` {..<unat (st_executions env)})))"
proof -
  let ?nw = "\<lambda>t exec. num_width fp (sample_at env xs (unat run) exec t)"
  let ?base = "\<lambda>t. if initialize then 0 else ws ! t"
  define ws1 where "ws1 = (if initialize then replicate (length ws) 0 else ws)"
  define I where "I = (\<lambda>k ws'. length ws' = length ws \<and>
    (\<forall>t<length ws. ws' ! t = Max (insert (?base t) (?nw t ` {..<k}))))"
  have "\<exists>ws'. for_each (\<lambda>exec. for_each (widen fp env run exec) (below (st_threads env)))
      (below (st_executions env)) ws1 = Returns ws' \<and> I (unat (st_executions env)) ws'"
  proof (rule for_each_below [where I = I])
    show "I 0 ws1" by (simp add: I_def ws1_def)
  next
    fix exec ws2 assume exec: "exec < st_executions env" and I2: "I (unat exec) ws2"
    have "length ws2 = unat (st_threads env)" using I2 len by (simp add: I_def)
    from widths_of_execution [OF st run exec this, of fp] obtain ws3 where
      w3: "for_each (widen fp env run exec) (below (st_threads env)) ws2 = Returns ws3"
      "length ws3 = length ws2" "\<forall>t<length ws2. ws3 ! t = max (ws2 ! t) (?nw t (unat exec))" by blast
    with I2 have "I (Suc (unat exec)) ws3" by (simp add: I_def Max_image_Suc)
    with w3(1) show "\<exists>ws'. for_each (widen fp env run exec) (below (st_threads env)) ws2 = Returns ws' \<and>
        I (Suc (unat exec)) ws'" by blast
  qed
  then show ?thesis using clear_widths [OF len]
    by (auto simp: computeSampleWidths_def ws1_def I_def)
qed


text \<open>The widths after all runs: the maximum over runs and executions, column by column.\<close>

lemma all_widths:
  assumes st: "store_ok env xs" and len: "length ws = unat (st_threads env)"
  shows "\<exists>ws'. for_each (\<lambda>run. computeSampleWidths fp env run (run = 0)) (below (st_runs env)) ws = Returns ws' \<and>
    length ws' = length ws \<and>
    (\<forall>t<length ws. \<forall>run<unat (st_runs env). \<forall>exec<unat (st_executions env).
       num_width fp (sample_at env xs run exec t) \<le> ws' ! t)"
proof -
  define I where "I = (\<lambda>k ws'. length ws' = length ws \<and>
    (\<forall>t<length ws. \<forall>run<k. \<forall>exec<unat (st_executions env).
       num_width fp (sample_at env xs run exec t) \<le> ws' ! t))"
  have "\<exists>ws'. for_each (\<lambda>run. computeSampleWidths fp env run (run = 0)) (below (st_runs env)) ws = Returns ws' \<and>
    I (unat (st_runs env)) ws'"
  proof (rule for_each_below [where I = I])
    show "I 0 ws" by (simp add: I_def)
  next
    fix run ws1 assume run: "run < st_runs env" and I1: "I (unat run) ws1"
    have len1: "length ws1 = unat (st_threads env)" using I1 len by (simp add: I_def)
    from computeSampleWidths_ok [OF st run len1, of fp "run = 0"] obtain ws2 where
      w2: "computeSampleWidths fp env run (run = 0) ws1 = Returns ws2" "length ws2 = length ws1"
      "\<forall>t<length ws1. ws2 ! t = Max (insert (if run = 0 then 0 else ws1 ! t)
         ((\<lambda>exec. num_width fp (sample_at env xs (unat run) exec t)) ` {..<unat (st_executions env)}))" by blast
    have keep: "ws1 ! t \<le> ws2 ! t" if "t < length ws" "run \<noteq> 0" for t
      using w2(3) that I1 by (simp add: I_def)
    have new: "num_width fp (sample_at env xs (unat run) exec t) \<le> ws2 ! t"
      if "t < length ws" "exec < unat (st_executions env)" for t exec
      using w2(3) that I1 by (auto simp: I_def intro!: Max_ge)
    have "num_width fp (sample_at env xs r exec t) \<le> ws2 ! t"
      if t: "t < length ws" and r: "r < Suc (unat run)" and e: "exec < unat (st_executions env)" for t r exec
    proof (cases "r = unat run")
      case False
      with r have "r < unat run" by simp
      moreover from this have "run \<noteq> 0" by auto
      ultimately show ?thesis using I1 keep [OF t] t e by (fastforce simp: I_def)
    qed (use new t e in simp)
    with w2 I1 have "I (Suc (unat run)) ws2" by (simp add: I_def)
    with w2(1) show "\<exists>ws'. computeSampleWidths fp env run (run = 0) ws1 = Returns ws' \<and> I (Suc (unat run)) ws'"
      by blast
  qed
  then show ?thesis by (auto simp: I_def)
qed

text \<open>The text of a row: each sample right-adjusted in its column.\<close>

definition cell :: "int list \<Rightarrow> nat list \<Rightarrow> (nat \<Rightarrow> int) \<Rightarrow> string" where
  "cell ws ts f = concat (map (\<lambda>t. pad False (ws ! t) (dec (f t)) @ '' '') ts)"

definition row_line :: "int list \<Rightarrow> (nat \<Rightarrow> int) \<Rightarrow> string" where
  "row_line ws f = cell ws [0..<length ws - 1] f @
     pad False (ws ! (length ws - 1)) (dec (f (length ws - 1)))"

lemma dump_row_text:
  assumes st: "store_ok env xs" and run: "run < st_runs env" and exec: "exec < st_executions env"
    and len: "length ws = unat (st_threads env)" and pos: "0 < st_threads env" and os: "plain os"
  shows "\<exists>os'. dump_row fp env ws run exec os = Returns os' \<and> plain os' \<and>
    written os' = written os @ row_line ws (sample_at env xs (unat run) (unat exec)) @ newline"
proof -
  let ?n = "unat (st_threads env)" and ?f = "sample_at env xs (unat run) (unat exec)"
  let ?g = "\<lambda>t. pad False (ws ! t) (dec (?f t)) @ (if Suc t = ?n then newline else '' '')"
  have "\<exists>os'. dump_row fp env ws run exec os = Returns os' \<and> plain os' \<and>
      written os' = written os @ concat (map ?g [0..<?n])"
    unfolding dump_row_def
  proof (rule for_each_written [OF os])
    fix tr os1 assume tr: "tr < st_threads env" and os1: "plain os1"
    have t: "unat tr < length ws" using tr len by (simp add: word_less_nat_alt)
    have "Suc (unat tr) < 2 ^ 32 \<or> Suc (unat tr) = 2 ^ 32"
      using unsigned_less [of tr, where 'a = nat] by simp linarith
    moreover have "Suc (unat tr) \<le> ?n" using tr by (simp add: word_less_nat_alt)
    moreover have "?n < 2 ^ 32" using unsigned_less [of "st_threads env", where 'a = nat] by simp
    ultimately have "unat (tr + 1) = Suc (unat tr)" by (simp add: unat_word_ariths)
    then have "tr + 1 = st_threads env \<longleftrightarrow> Suc (unat tr) = ?n" by (simp add: word_unat_eq_iff)
    with t os1 show "\<exists>os'. (case array_load ws (unat tr) of
         None \<Rightarrow> Undefined_behaviour
       | Some w \<Rightarrow>
           (case raw_sample env tr exec run of
              None \<Rightarrow> Undefined_behaviour
            | Some s \<Rightarrow> Returns (emit (show_double fp)
                ([Setw w, Num s] @ (if tr + 1 = st_threads env then [Endl] else [Str '' ''])) os1))) = Returns os' \<and>
        plain os' \<and> written os' = written os1 @ ?g (unat tr)"
      by (simp add: raw_sample_at [OF st tr exec run] array_simps plain_def format_item_def newline_def)
  qed
  moreover have "concat (map ?g [0..<?n]) = row_line ws ?f @ newline"
  proof -
    obtain m where m: "?n = Suc m" using pos by (cases ?n) (simp_all add: word_less_nat_alt)
    have "concat (map (\<lambda>t. pad False (ws ! t) (dec (?f t)) @ (if t = m then newline else '' '')) [0..<m]) =
        concat (map (\<lambda>t. pad False (ws ! t) (dec (?f t)) @ '' '') [0..<m])"
      by (intro arg_cong [where f = concat] map_cong) auto
    then show ?thesis using m len by (simp add: row_line_def cell_def)
  qed
  ultimately show ?thesis by simp
qed

text \<open>The text of the whole dump.\<close>

definition dump_text :: "stats_env \<Rightarrow> int list \<Rightarrow> int list \<Rightarrow> string" where
  "dump_text env xs ws =
     concat (map (\<lambda>run. (''# RUN: '' @ dec (int run) @ newline) @
       concat (map (\<lambda>exec. (''# EXE: '' @ dec (int exec) @ newline) @
         row_line ws (sample_at env xs run exec) @ newline)
       [0..<unat (st_executions env)])) [0..<unat (st_runs env)])"

lemma dump_runs_text:
  assumes st: "store_ok env xs" and len: "length ws = unat (st_threads env)" and pos: "0 < st_threads env"
  shows "\<exists>os'. dump_runs fp env ws new_stream = Returns os' \<and> written os' = dump_text env xs ws"
proof -
  have "\<exists>os'. dump_runs fp env ws new_stream = Returns os' \<and> plain os' \<and>
      written os' = written new_stream @ dump_text env xs ws"
    unfolding dump_runs_def dump_text_def
  proof (rule for_each_written)
    fix run os assume run: "run < st_runs env" and os: "plain os"
    let ?h = "''# RUN: '' @ dec (int (unat run)) @ newline"
    let ?os = "emit (show_double fp) [Str ''# RUN: '', Num (uint run), Endl] os"
    have h: "plain ?os" "written ?os = written os @ ?h"
      using os by (simp_all add: plain_def format_item_def)
    have "\<exists>os'. for_each (\<lambda>exec os.
           dump_row fp env ws run exec (emit (show_double fp) [Str ''# EXE: '', Num (uint exec), Endl] os))
         (below (st_executions env)) ?os = Returns os' \<and> plain os' \<and> written os' = written ?os @
       concat (map (\<lambda>exec. (''# EXE: '' @ dec (int exec) @ newline) @
         row_line ws (sample_at env xs (unat run) exec) @ newline) [0..<unat (st_executions env)])"
    proof (rule for_each_written [OF h(1)])
      fix exec os1 assume exec: "exec < st_executions env" and os1: "plain os1"
      let ?os1 = "emit (show_double fp) [Str ''# EXE: '', Num (uint exec), Endl] os1"
      have "plain ?os1" "written ?os1 = written os1 @ ''# EXE: '' @ dec (int (unat exec)) @ newline"
        using os1 by (simp_all add: plain_def format_item_def)
      with dump_row_text [OF st run exec len pos this(1), of fp]
      show "\<exists>os'. dump_row fp env ws run exec ?os1 = Returns os' \<and> plain os' \<and>
          written os' = written os1 @ (''# EXE: '' @ dec (int (unat exec)) @ newline) @
            row_line ws (sample_at env xs (unat run) (unat exec)) @ newline"
        by auto
    qed
    then show "\<exists>os'. for_each (\<lambda>exec os.
           dump_row fp env ws run exec (emit (show_double fp) [Str ''# EXE: '', Num (uint exec), Endl] os))
         (below (st_executions env)) ?os = Returns os' \<and> plain os' \<and> written os' = written os @ ?h @
       concat (map (\<lambda>exec. (''# EXE: '' @ dec (int exec) @ newline) @
         row_line ws (sample_at env xs (unat run) exec) @ newline) [0..<unat (st_executions env)])"
      unfolding h(2) by simp
  qed (simp add: plain_def new_stream_def)
  then show ?thesis by (auto simp: new_stream_def)
qed


section \<open>Reading the raw dump back\<close>

text \<open>Lines that begin with \<open>#\<close> are comments, the others hold numbers between blanks.\<close>

definition read_line :: "string \<Rightarrow> int list" where
  "read_line l = (if l \<noteq> [] \<and> hd l = CHR ''#'' then [] else map read_dec (words l))"

definition read_dump :: "string \<Rightarrow> int list" where
  "read_dump text = concat (map read_line (lines text))"

lemma read_dump_line:
  "CHR 0x0A \<notin> set l \<Longrightarrow> read_dump (l @ newline @ t) = read_line l @ read_dump t"
  by (simp add: read_dump_def newline_def lines_append)

lemma read_dump_nil [simp]: "read_dump [] = []"
  by (simp add: read_dump_def lines_def read_line_def words_def)

lemma read_dump_concat:
  assumes "\<And>x t. x \<in> set xs \<Longrightarrow> read_dump (f x @ t) = g x @ read_dump t"
  shows "read_dump (concat (map f xs) @ t) = concat (map g xs) @ read_dump t"
  using assms by (induction xs) simp_all

lemma dec_no_blank: "CHR '' '' \<notin> set (dec k)"
  using dec_chars(1) by blast

lemma pad_chars: "c \<in> set (pad False w (dec k)) \<Longrightarrow> c = CHR '' '' \<or> c \<in> set (dec k)"
  by (auto simp: pad_right)

lemma row_line_chars:
  assumes "c \<in> set (row_line ws f)"
  shows "c \<noteq> CHR 0x0A" "c \<noteq> CHR ''#''"
proof -
  have "c = CHR '' '' \<or> (\<exists>k. c \<in> set (dec k))"
    using assms by (auto simp: row_line_def cell_def dest!: pad_chars split: if_splits)
  then show "c \<noteq> CHR 0x0A" "c \<noteq> CHR ''#''" using dec_chars by blast+
qed

lemma words_pad: "words (pad False w (dec k) @ CHR '' '' # s) = dec k # words s"
  by (simp add: pad_right words_blanks words_word dec_no_blank)

lemma words_cell: "words (cell ws ts f @ s) = map (\<lambda>t. dec (f t)) ts @ words s"
  by (induction ts) (simp_all add: cell_def words_pad)

lemma words_pad_last: "words (pad False w (dec k)) = [dec k]"
  by (simp add: pad_right words_blanks words_last dec_no_blank)

lemma read_row:
  assumes "0 < length ws"
  shows "read_line (row_line ws f) = map f [0..<length ws]"
proof -
  obtain m where m: "length ws = Suc m" using assms by (cases "length ws") auto
  have "\<not> (row_line ws f \<noteq> [] \<and> hd (row_line ws f) = CHR ''#'')"
    using row_line_chars(2) [of "hd (row_line ws f)" ws f] by (cases "row_line ws f") auto
  then have "read_line (row_line ws f) = map read_dec (words (row_line ws f))"
    unfolding read_line_def by meson
  also have "\<dots> = map f [0..<length ws]"
    by (simp add: row_line_def words_cell words_pad_last comp_def read_dec_dec m)
  finally show ?thesis .
qed

lemma read_header: "read_dump ((CHR ''#'' # s @ dec k @ newline) @ t) = read_dump t" if "CHR 0x0A \<notin> set s"
proof -
  have "CHR 0x0A \<notin> set (CHR ''#'' # s @ dec k)" using that dec_chars(2) [of _ k] by auto
  from read_dump_line [OF this, of t] show ?thesis by (simp add: read_line_def)
qed

lemma read_dump_text:
  assumes "0 < length ws"
  shows "read_dump (dump_text env xs ws) =
    concat (map (\<lambda>run. concat (map (\<lambda>exec. map (sample_at env xs run exec) [0..<length ws])
      [0..<unat (st_executions env)])) [0..<unat (st_runs env)])"
proof -
  have "read_dump (dump_text env xs ws @ []) =
    concat (map (\<lambda>run. concat (map (\<lambda>exec. map (sample_at env xs run exec) [0..<length ws])
      [0..<unat (st_executions env)])) [0..<unat (st_runs env)]) @ read_dump []"
    unfolding dump_text_def
  proof (rule read_dump_concat)
    fix run t
    let ?rows = "concat (map (\<lambda>exec. (''# EXE: '' @ dec (int exec) @ newline) @
         row_line ws (sample_at env xs run exec) @ newline) [0..<unat (st_executions env)])"
    have "read_dump (?rows @ t) = concat (map (\<lambda>exec. map (sample_at env xs run exec) [0..<length ws])
        [0..<unat (st_executions env)]) @ read_dump t"
    proof (rule read_dump_concat)
      fix exec t
      have "CHR 0x0A \<notin> set (row_line ws (sample_at env xs run exec))" using row_line_chars(1) by blast
      from read_dump_line [OF this, of t] read_header [of "'' EXE: ''" "int exec"]
      show "read_dump (((''# EXE: '' @ dec (int exec) @ newline) @
           row_line ws (sample_at env xs run exec) @ newline) @ t) =
          map (sample_at env xs run exec) [0..<length ws] @ read_dump t"
        by (simp add: read_row [OF assms])
    qed
    then show "read_dump (((''# RUN: '' @ dec (int run) @ newline) @ ?rows) @ t) =
        concat (map (\<lambda>exec. map (sample_at env xs run exec) [0..<length ws])
          [0..<unat (st_executions env)]) @ read_dump t"
      using read_header [of "'' RUN: ''" "int run" "?rows @ t"] by simp
  qed
  then show ?thesis by simp
qed

lemma concat_rows: "concat (map (\<lambda>i. map (\<lambda>j. g (i * n + j)) [0..<n]) [0..<m]) = map g [0..<m * n]"
proof (induction m)
  case (Suc m)
  have "[0..<Suc m * n] = [0..<m * n] @ [m * n..<m * n + n]"
    using upt_add_eq_append [of 0 "m * n" n] by (simp add: add.commute)
  moreover have "[m * n..<m * n + n] = map (\<lambda>j. m * n + j) [0..<n]"
    by (simp add: map_add_upt add.commute)
  ultimately show ?case using Suc by (simp add: comp_def)
qed simp

lemma concat_blocks:
  "concat (map (\<lambda>i. concat (map (\<lambda>j. f (i * e + j)) [0..<e])) [0..<m]) = concat (map f [0..<m * e])"
proof -
  have "concat (map (\<lambda>i. concat (map (\<lambda>j. f (i * e + j)) [0..<e])) [0..<m]) =
      concat (concat (map (\<lambda>i. map (\<lambda>j. f (i * e + j)) [0..<e]) [0..<m]))"
    by (induction m) simp_all
  then show ?thesis by (simp add: concat_rows)
qed

lemma samples_in_order:
  assumes "store_ok env xs"
  shows "concat (map (\<lambda>run. concat (map (\<lambda>exec. map (sample_at env xs run exec) [0..<unat (st_threads env)])
      [0..<unat (st_executions env)])) [0..<unat (st_runs env)]) = xs"
proof -
  let ?n = "unat (st_threads env)" and ?e = "unat (st_executions env)" and ?r = "unat (st_runs env)"
  have row: "map (sample_at env xs run exec) [0..<?n] = map (\<lambda>j. xs ! ((run * ?e + exec) * ?n + j)) [0..<?n]" for run exec
    by (simp add: sample_at_def slot_def)
  have "concat (map (\<lambda>run. concat (map (\<lambda>exec. map (sample_at env xs run exec) [0..<?n]) [0..<?e])) [0..<?r]) =
      concat (map (\<lambda>i. map (\<lambda>j. xs ! (i * ?n + j)) [0..<?n]) [0..<?r * ?e])"
    unfolding row by (rule concat_blocks)
  also have "\<dots> = map ((!) xs) [0..<?r * ?e * ?n]" by (rule concat_rows)
  also have "?r * ?e * ?n = length xs" using assms by (simp add: store_ok_def)
  finally show ?thesis by (simp add: map_nth)
qed


section \<open>Properties of the raw dump\<close>

text \<open>
  C23: \<open>dumpRawData\<close> loses nothing: reading the numbers of the text it writes, comment lines aside,
  gives back the whole sample array in its order, whatever the samples are and however columns
  were padded.
\<close>

theorem dumpRawData_roundtrip:
  assumes "store_ok env xs" and "0 < st_threads env" and "length mem = unat (st_threads env)"
  shows "\<exists>text. dumpRawData fp env mem f_name = Returns (case f_name of None \<Rightarrow> ''dump.txt'' | Some f \<Rightarrow> f, text) \<and>
    read_dump text = xs"
proof -
  obtain ws where ws: "for_each (\<lambda>run. computeSampleWidths fp env run (run = 0)) (below (st_runs env)) mem = Returns ws"
    "length ws = length mem" using all_widths [OF assms(1,3)] by blast
  have len: "length ws = unat (st_threads env)" using ws(2) assms(3) by simp
  obtain os where os: "dump_runs fp env ws new_stream = Returns os" "written os = dump_text env xs ws"
    using dump_runs_text [OF assms(1) len assms(2)] by blast
  have "0 < length ws" using len assms(2) by (simp add: word_less_nat_alt)
  from read_dump_text [OF this, of env xs] samples_in_order [OF assms(1)]
  have "read_dump (written os) = xs" by (simp add: os(2) len)
  with assms(2) ws(1) os(1) show ?thesis by (auto simp: dumpRawData_def Let_def)
qed


text \<open>The operations on exact reals.\<close>

definition real_text :: "real text_ops" where
  "real_text = \<lparr>of_ll = real_of_int, to_ll = floor, dadd = (+), dmul = (*), ddiv = (/), dsqrt = sqrt,
     dlog10 = log 10, dfloor = floor, deq0 = (\<lambda>x. x = 0), dlt0 = (\<lambda>x. x < 0), dneg = uminus,
     show_double = (\<lambda>sci prec x. dec (floor x))\<rparr>"

lemma dumpRawData_roundtrip_witness:
  "\<exists>text. dumpRawData real_text
       (stats0\<lparr>st_threads := 2, st_executions := 1, st_runs := 2, sample := Allocated_samples [4, 10, -7, 123]\<rparr>)
       [0, 0] None = Returns (''dump.txt'', text) \<and>
     read_dump text = [4, 10, -7, 123]"
proof -
  have "store_ok (stats0\<lparr>st_threads := 2, st_executions := 1, st_runs := 2,
      sample := Allocated_samples [4, 10, -7, 123]\<rparr>) [4, 10, -7, 123]"
    by (simp add: store_ok_def no_wrap_def)
  from dumpRawData_roundtrip [OF this, of "[0, 0]" real_text None] show ?thesis by simp
qed

lemma num_width_real:
  "num_width real_text k = int (length (dec_nat (nat \<bar>k\<bar>)))"
proof (cases "k = 0")
  case True
  then show ?thesis by (simp add: num_width_def numWidth_def real_text_def dec_nat.simps [of 0])
next
  case False
  let ?n = "nat \<bar>k\<bar>"
  obtain m where m: "length (dec_nat ?n) = Suc m" by (cases "length (dec_nat ?n)") auto
  have "10 ^ m \<le> ?n" "?n < 10 ^ Suc m" using length_dec_nat [of ?n] False m by simp_all
  then have "real (10 ^ m) \<le> real ?n" "real ?n < real (10 ^ Suc m)" by (simp_all only: of_nat_le_iff of_nat_less_iff)
  then have b: "10 ^ m \<le> \<bar>real_of_int k\<bar>" "\<bar>real_of_int k\<bar> < 10 ^ Suc m" by simp_all
  have "real m \<le> log 10 \<bar>real_of_int k\<bar>"
    using b(1) False by (subst le_log_iff) (simp_all add: powr_realpow)
  moreover have "log 10 \<bar>real_of_int k\<bar> < real m + 1"
    using b(2) False by (subst log_less_iff) (simp_all add: powr_realpow powr_add)
  ultimately have "\<lfloor>log 10 \<bar>real_of_int k\<bar>\<rfloor> = int m" by (intro floor_unique) simp_all
  then show ?thesis using False m
    by (cases "k < 0") (simp_all add: num_width_def numWidth_def real_text_def Let_def)
qed

text \<open>
  Computed without rounding, \<open>numWidth\<close> of an integer is the number of its decimal digits; the
  sign of a negative number is not counted.
\<close>

theorem numWidth_digits:
  "num_width real_text k = int (length (dec_nat (nat \<bar>k\<bar>)))"
  by (rule num_width_real)

text \<open>Every line of a text satisfies a predicate.\<close>

definition all_lines :: "(string \<Rightarrow> bool) \<Rightarrow> string \<Rightarrow> bool" where
  "all_lines P text \<longleftrightarrow> list_all P (lines text)"

lemma all_lines_line: "CHR 0x0A \<notin> set l \<Longrightarrow> all_lines P (l @ newline @ t) \<longleftrightarrow> P l \<and> all_lines P t"
  by (simp add: all_lines_def newline_def lines_append)

lemma all_lines_nil: "all_lines P [] \<longleftrightarrow> P []"
  by (simp add: all_lines_def lines_def)

lemma all_lines_concat:
  assumes "\<And>x t. x \<in> set xs \<Longrightarrow> all_lines P t \<Longrightarrow> all_lines P (f x @ t)" and "all_lines P t"
  shows "all_lines P (concat (map f xs) @ t)"
  using assms by (induction xs) simp_all

lemma all_lines_header:
  assumes "CHR 0x0A \<notin> set s" "P (CHR ''#'' # s @ dec k)" "all_lines P t"
  shows "all_lines P ((CHR ''#'' # s @ dec k @ newline) @ t)"
proof -
  have "CHR 0x0A \<notin> set (CHR ''#'' # s @ dec k)" using assms(1) dec_chars(2) [of _ k] by auto
  from all_lines_line [OF this, of P t] assms(2,3) show ?thesis by simp
qed

lemma length_row_line:
  assumes "0 < length ws" and "\<And>t. t < length ws \<Longrightarrow> int (length (dec (f t))) \<le> ws ! t"
  shows "int (length (row_line ws f)) = sum_list ws + int (length ws) - 1"
proof -
  have c: "int (length (cell ws [0..<k] f)) = sum_list (take k ws) + int k" if "k \<le> length ws" for k
    using that
  proof (induction k)
    case (Suc k)
    then have "int (length (pad False (ws ! k) (dec (f k)))) = ws ! k" using assms(2) by (intro length_pad) simp
    with Suc show ?case by (simp add: cell_def take_Suc_conv_app_nth)
  qed (simp add: cell_def)
  obtain m where m: "length ws = Suc m" using assms(1) by (cases "length ws") auto
  have "int (length (pad False (ws ! m) (dec (f m)))) = ws ! m" using assms(2) m by (intro length_pad) simp
  moreover have "ws = take m ws @ [ws ! m]" using take_Suc_conv_app_nth [of m ws] m by simp
  then have "sum_list ws = sum_list (take m ws @ [ws ! m])" by (rule arg_cong)
  then have "sum_list ws = sum_list (take m ws) + ws ! m" by simp
  ultimately show ?thesis using c [of m] m by (simp add: row_line_def)
qed

lemma all_lines_dump:
  assumes "P []" and "\<And>s. P (CHR ''#'' # s)"
    and row: "\<And>run exec. run < unat (st_runs env) \<Longrightarrow> exec < unat (st_executions env) \<Longrightarrow>
      P (row_line ws (sample_at env xs run exec))"
  shows "all_lines P (dump_text env xs ws)"
proof -
  have "all_lines P (dump_text env xs ws @ [])"
    unfolding dump_text_def
  proof (rule all_lines_concat)
    show "all_lines P []" using assms(1) by (simp add: all_lines_nil)
    fix run t assume run: "run \<in> set [0..<unat (st_runs env)]" and t: "all_lines P t"
    let ?rows = "concat (map (\<lambda>exec. (''# EXE: '' @ dec (int exec) @ newline) @
         row_line ws (sample_at env xs run exec) @ newline) [0..<unat (st_executions env)])"
    have "all_lines P (?rows @ t)"
    proof (rule all_lines_concat)
      fix exec t assume exec: "exec \<in> set [0..<unat (st_executions env)]" and t: "all_lines P t"
      have "CHR 0x0A \<notin> set (row_line ws (sample_at env xs run exec))" using row_line_chars(1) by blast
      from all_lines_line [OF this, of P t] row [of run exec] run exec t
      have "all_lines P (row_line ws (sample_at env xs run exec) @ newline @ t)" by simp
      from all_lines_header [of "'' EXE: ''" P "int exec", OF _ assms(2) this]
      show "all_lines P (((''# EXE: '' @ dec (int exec) @ newline) @
           row_line ws (sample_at env xs run exec) @ newline) @ t)" by simp
    qed (rule t)
    from all_lines_header [of "'' RUN: ''" P "int run", OF _ assms(2) this]
    show "all_lines P (((''# RUN: '' @ dec (int run) @ newline) @ ?rows) @ t)" by simp
  qed
  then show ?thesis by simp
qed

text \<open>
  The columns of the raw dump are aligned: as long as \<open>numWidth\<close> is at least the number of digits
  and no sample is negative, all lines but the comments have the same length.
\<close>

theorem dumpRawData_aligned:
  assumes "store_ok env xs" and "0 < st_threads env" and "length mem = unat (st_threads env)"
    and "\<forall>k\<ge>0. int (length (dec k)) \<le> num_width fp k" and "\<forall>x\<in>set xs. 0 \<le> x"
  shows "\<exists>text len. dumpRawData fp env mem f_name = Returns (case f_name of None \<Rightarrow> ''dump.txt'' | Some f \<Rightarrow> f, text) \<and>
    all_lines (\<lambda>l. l = [] \<or> hd l = CHR ''#'' \<or> int (length l) = len) text"
proof -
  obtain ws where ws: "for_each (\<lambda>run. computeSampleWidths fp env run (run = 0)) (below (st_runs env)) mem = Returns ws"
    "length ws = length mem" "\<forall>t<length mem. \<forall>run<unat (st_runs env). \<forall>exec<unat (st_executions env).
       num_width fp (sample_at env xs run exec t) \<le> ws ! t" using all_widths [OF assms(1,3)] by blast
  have len: "length ws = unat (st_threads env)" using ws(2) assms(3) by simp
  have pos: "0 < length ws" using len assms(2) by (simp add: word_less_nat_alt)
  obtain os where os: "dump_runs fp env ws new_stream = Returns os" "written os = dump_text env xs ws"
    using dump_runs_text [OF assms(1) len assms(2)] by blast
  let ?P = "\<lambda>l. l = [] \<or> hd l = CHR ''#'' \<or> int (length l) = sum_list ws + int (length ws) - 1"
  have row: "?P (row_line ws (sample_at env xs run exec))"
    if "run < unat (st_runs env)" "exec < unat (st_executions env)" for run exec
  proof -
    have "int (length (dec (sample_at env xs run exec t))) \<le> ws ! t" if t: "t < length ws" for t
    proof -
      have "slot (unat (st_threads env)) (unat (st_executions env)) t exec run < length xs"
        using slot_less [of t _ exec _ run] t len assms(1) \<open>run < _\<close> \<open>exec < _\<close> by (simp add: store_ok_def)
      then have "0 \<le> sample_at env xs run exec t" using assms(5) by (simp add: sample_at_def)
      with assms(4) have "int (length (dec (sample_at env xs run exec t))) \<le> num_width fp (sample_at env xs run exec t)" by blast
      also have "\<dots> \<le> ws ! t" using ws(2,3) t \<open>run < _\<close> \<open>exec < _\<close> by simp
      finally show ?thesis .
    qed
    from length_row_line [OF pos this] show ?thesis by simp
  qed
  from row have "all_lines ?P (dump_text env xs ws)" by (intro all_lines_dump) simp_all
  then have "all_lines ?P (written os)" by (simp add: os(2))
  with assms(2) ws(1) os(1) show ?thesis by (auto simp: dumpRawData_def Let_def)
qed

lemma dumpRawData_aligned_witness:
  "\<exists>text len. dumpRawData real_text
       (stats0\<lparr>st_threads := 2, st_executions := 1, st_runs := 2, sample := Allocated_samples [4, 10, 7, 123]\<rparr>)
       [0, 0] None = Returns (''dump.txt'', text) \<and>
     all_lines (\<lambda>l. l = [] \<or> hd l = CHR ''#'' \<or> int (length l) = len) text"
proof -
  have "store_ok (stats0\<lparr>st_threads := 2, st_executions := 1, st_runs := 2,
      sample := Allocated_samples [4, 10, 7, 123]\<rparr>) [4, 10, 7, 123]"
    by (simp add: store_ok_def no_wrap_def)
  moreover have "int (length (dec k)) \<le> num_width real_text k" if "0 \<le> k" for k
    using that by (simp add: num_width_real dec_def)
  ultimately show ?thesis
    using dumpRawData_aligned [of "stats0\<lparr>st_threads := 2, st_executions := 1, st_runs := 2,
      sample := Allocated_samples [4, 10, 7, 123]\<rparr>" "[4, 10, 7, 123]" "[0, 0]" real_text None] by simp
qed

end
