(* ===== verification/Report_Tables.thy ===== *)
theory Report_Tables
  imports Report
begin

text \<open>
  The tables of the statistics: \<open>dump_details_of_run\<close>, \<open>dump_all_runs\<close> and \<open>dumpData\<close> of
  \<open>common/stats/stats.cpp\<close>, the colours of \<open>common/stats/color_term.cpp\<close> they ask for, and the
  binding \<open>dumpPair\<close> of \<open>common/ada_binding/stats/binding.cpp\<close>.
\<close>

section \<open>Colours\<close>

datatype stream_name = Std_out | Std_err | Std_log | Other_stream

text \<open>What the environment says: which of the two standard descriptors is a terminal, and \<open>TERM\<close>.\<close>

record terminal =
  tty_stdout :: bool
  tty_stderr :: bool
  term_var :: "string option"

definition isTerminalStream :: "terminal \<Rightarrow> stream_name \<Rightarrow> bool" where
  "isTerminalStream env os =
     ((os = Std_out \<and> tty_stdout env) \<or> (os = Std_err \<and> tty_stderr env) \<or> (os = Std_log \<and> tty_stderr env))"

definition supportsColor :: "terminal \<Rightarrow> bool" where
  "supportsColor env =
     (case term_var env of
        None \<Rightarrow> False
      | Some env_p \<Rightarrow> list_ex (\<lambda>t. env_p = t)
          [''xterm'', ''xterm-256'', ''xterm-256color'', ''vt100'', ''color'', ''ansi'', ''cygwin'', ''linux''])"

definition C_RESET :: string where "C_RESET = CHR 0x1B # ''[0m''"
definition C_BOLD_GREEN :: string where "C_BOLD_GREEN = CHR 0x1B # ''[1m'' @ CHR 0x1B # ''[32m''"
definition C_BOLD_BLUE :: string where "C_BOLD_BLUE = CHR 0x1B # ''[1m'' @ CHR 0x1B # ''[34m''"

section \<open>The table of a run\<close>

text \<open>The widest of a column of results, starting from 0.\<close>

definition max_width :: "('r \<Rightarrow> int) \<Rightarrow> 'r list \<Rightarrow> int" where
  "max_width f rs = foldl (\<lambda>w r. max w (f r)) 0 rs"

text \<open>The samples of one execution, those of the collector's threads in colour.\<close>

definition put_samples ::
  "'d text_ops \<Rightarrow> stats_env \<Rightarrow> bool \<Rightarrow> range_smpl_collector \<Rightarrow> int list \<Rightarrow> 32 word \<Rightarrow> 32 word \<Rightarrow> ostream
    \<Rightarrow> ostream call_result" where
  "put_samples fp env use_color col ws run exec =
     for_each (\<lambda>thr os.
       and_then (if use_color then includes_sample run thr col else Returns False) (\<lambda>reset_color.
         case array_load ws (unat thr) of
           None \<Rightarrow> Undefined_behaviour
         | Some w \<Rightarrow>
             (case raw_sample env thr exec run of
                None \<Rightarrow> Undefined_behaviour
              | Some s \<Rightarrow> Returns (emit (show_double fp)
                  ((if reset_color then [Str C_BOLD_GREEN] else []) @
                   [Adjust_right, Setw w, Num s, Str '' ''] @
                   (if reset_color then [Str C_RESET] else [])) os))))
       (below (st_threads env))"

definition put_execution ::
  "'d text_ops \<Rightarrow> stats_env \<Rightarrow> bool \<Rightarrow> range_smpl_collector \<Rightarrow> int list \<Rightarrow> int \<Rightarrow> int \<Rightarrow> int \<Rightarrow> int \<Rightarrow> 32 word
    \<Rightarrow> 'd result_t list \<Rightarrow> 32 word \<Rightarrow> ostream \<Rightarrow> ostream call_result" where
  "put_execution fp env use_color col ws w_exec w_max w_mean w_stdev run r_exes exec os =
     (case array_load r_exes (unat exec) of
        None \<Rightarrow> Undefined_behaviour
      | Some r \<Rightarrow>
          and_then (put_samples fp env use_color col ws run exec (emit (show_double fp)
            [Adjust_right, Setw w_exec, Num (uint exec), Str '' '',
             Adjust_right, Setw w_max, Num (r_max r), Str '' '',
             Adjust_right, Setw w_mean, Num (r_mean r), Str '' '',
             Adjust_right, Setw w_stdev, Num (r_stdev r), Str '' '',
             Adjust_right, Set_scientific, Dbl (r_cv r), Str '' ''] os))
          (\<lambda>os'. Returns (emit (show_double fp) [Endl] os')))"

text \<open>\<open>mem\<close>: the memory of the array \<open>width[nr_threads]\<close>. Sums of widths are C \<open>int\<close> values.\<close>

definition dump_details_of_run ::
  "'d text_ops \<Rightarrow> terminal \<Rightarrow> stats_env \<Rightarrow> int list \<Rightarrow> 'd results \<Rightarrow> 32 word \<Rightarrow> range_smpl_collector \<Rightarrow> stream_name
    \<Rightarrow> ostream \<Rightarrow> ostream call_result" where
  "dump_details_of_run fp tenv env mem res run col ofl os =
     (case (array_load (res_exec res) (unat run), array_load (res_run res) (unat run)) of
        (Some r_exes, Some r_run) \<Rightarrow>
          if length r_exes < unat (st_executions env) \<or> st_threads env = 0 then Undefined_behaviour
          else
            let sd = show_double fp;
                rs = take (unat (st_executions env)) r_exes;
                w_exec = max 3 (num_width fp (uint (st_executions env)));
                w_max = max 3 (max_width (\<lambda>r. num_width fp (r_max r)) rs);
                w_mean = max 4 (max_width (\<lambda>r. num_width fp (r_mean r)) rs);
                w_stdev = max 5 (max_width (\<lambda>r. num_width fp (r_stdev r)) rs);
                w_cv = 9
            in and_then (computeSampleWidths fp env run True mem) (\<lambda>ws.
               let line_width = w_exec + w_max + w_mean + w_stdev + w_cv + sum_list ws + 4 + uint (st_threads env);
                   use_color = (isTerminalStream tenv ofl \<and> supportsColor tenv);
                   os1 = emit sd [Set_precision 3] os;
                   os2 = (if 1 < st_runs env
                     then printSep sd line_width (CHR ''*'')
                            (emit sd [Str ''RUN '', Num (uint run), Str ('':'' @ newline)]
                              (printSep sd line_width (CHR ''*'') os1))
                     else printSep sd line_width (CHR ''-'') os1);
                   os3 = emit sd
                     [Adjust_left, Setw w_exec, Str ''EXE'', Str '' '',
                      Adjust_left, Setw w_max, Str ''MAX'', Str '' '',
                      Adjust_left, Setw w_mean, Str ''MEAN'', Str '' '',
                      Adjust_left, Setw w_stdev, Str ''STDEV'', Str '' '',
                      Adjust_left, Setw w_cv, Str ''CV'', Str ('' SAMPLES:'' @ newline)] os2;
                   os4 = printSep sd line_width (CHR ''-'') os3
               in and_then (for_each (put_execution fp env use_color col ws w_exec w_max w_mean w_stdev run r_exes)
                    (below (st_executions env)) os4) (\<lambda>os5.
                  let w_median = max 6 (num_width fp (r_median r_run));
                      w_ostdev = max 5 (num_width fp (r_stdev r_run));
                      os6 = emit sd ([Str ''OVERALL''] @
                        (if 1 < st_runs env then [Str '' EXECUTIONS OF RUN '', Num (uint run), Str '':''] else []) @
                        [Endl, Setw w_median, Str ''MEDIAN'', Str '' '', Setw w_ostdev, Str ''STDEV'',
                         Str ('' CV'' @ newline)]) (printSep sd line_width (CHR ''-'') os5);
                      os7 = emit sd
                        [Adjust_right, Setw w_median, Num (r_median r_run), Str '' '',
                         Adjust_right, Setw w_ostdev, Num (r_stdev r_run), Str '' '',
                         Adjust_right, Dbl (r_cv r_run), Endl] (printSep sd line_width (CHR ''-'') os6)
                  in Returns (printSep sd line_width (CHR ''-'') os7)))
      | _ \<Rightarrow> Undefined_behaviour)"

section \<open>The table of all runs\<close>

text \<open>The width of the median column is computed from the maxima, as in the source.\<close>

definition dump_all_runs :: "'d text_ops \<Rightarrow> stats_env \<Rightarrow> 'd results \<Rightarrow> ostream \<Rightarrow> ostream call_result" where
  "dump_all_runs fp env res os =
     (if length (res_run res) < unat (st_runs env) then Undefined_behaviour
      else
        let sd = show_double fp;
            rs = take (unat (st_runs env)) (res_run res);
            w_max0 = max_width (\<lambda>r. num_width fp (r_max r)) rs;
            w_run = max 3 (num_width fp (uint (st_runs env)));
            w_max = max 3 w_max0;
            w_median = max 6 w_max;
            w_mean = max 4 (max_width (\<lambda>r. num_width fp (r_mean r)) rs);
            w_stdev = max 5 (max_width (\<lambda>r. num_width fp (r_stdev r)) rs);
            w_cv = 9;
            line_width = w_run + w_max + w_median + w_mean + w_stdev + w_cv + 5;
            os1 = printSep sd line_width (CHR ''-'')
              (emit sd [Str (''Overview across runs:'' @ newline)] (printSep sd line_width (CHR ''@'') os));
            os2 = printSep sd line_width (CHR ''-'') (emit sd
              [Setw w_run, Str ''RUN'', Str '' '', Setw w_median, Str ''MEDIAN'', Str '' '',
               Setw w_max, Str ''MAX'', Str '' '', Setw w_mean, Str ''MEAN'', Str '' '',
               Setw w_stdev, Str ''STDEV'', Str '' '', Setw w_cv, Str ''CV'', Endl] os1)
        in and_then (for_each (\<lambda>run os.
             case array_load (res_run res) (unat run) of
               None \<Rightarrow> Undefined_behaviour
             | Some r \<Rightarrow> Returns (emit sd
                 [Adjust_right, Setw w_run, Num (uint run), Str '' '',
                  Adjust_right, Setw w_median, Num (r_median r), Str '' '',
                  Adjust_right, Setw w_max, Num (r_max r), Str '' '',
                  Adjust_right, Setw w_mean, Num (r_mean r), Str '' '',
                  Adjust_right, Setw w_stdev, Num (r_stdev r), Str '' '',
                  Adjust_right, Setw w_cv, Dbl (r_cv r), Endl] os))
             (below (st_runs env)) os2)
           (\<lambda>os3. Returns (printSep sd line_width (CHR ''@'') os3)))"


section \<open>\<open>dumpData\<close>\<close>

text \<open>The header on standard output when a file name is given.\<close>

definition file_header :: "'d text_ops \<Rightarrow> terminal \<Rightarrow> string \<Rightarrow> ostream \<Rightarrow> ostream" where
  "file_header fp tenv f_name os =
     (let sd = show_double fp;
          h_width = int (length f_name) + 4;
          reset_color = (isTerminalStream tenv Std_out \<and> supportsColor tenv);
          os1 = (if reset_color then emit sd [Str C_BOLD_BLUE] os else os);
          os2 = printSep sd h_width (CHR ''x'')
            (emit sd [Str ''x '', Str f_name, Str ('' x'' @ newline)] (printSep sd h_width (CHR ''x'') os1))
      in if reset_color then emit sd [Str C_RESET] os2 else os2)"

text \<open>The same table to standard output and, if there is one, to the file.\<close>

definition to_both :: "(stream_name \<Rightarrow> ostream \<Rightarrow> ostream call_result) \<Rightarrow> ostream \<times> ostream option
    \<Rightarrow> (ostream \<times> ostream option) call_result" where
  "to_both dump = (\<lambda>(cout, ofl).
     and_then (dump Std_out cout) (\<lambda>cout'.
     case ofl of
       None \<Rightarrow> Returns (cout', None)
     | Some f \<Rightarrow> and_then (dump Other_stream f) (\<lambda>f'. Returns (cout', Some f'))))"

text \<open>
  \<open>dumpData(ovw_only, col, f_name)\<close>, on the global results \<open>res\<close> and the standard output; the result
  holds the collector, the results, the standard output and the text of the file.
\<close>

definition dumpData ::
  "'d text_ops \<Rightarrow> terminal \<Rightarrow> bool \<Rightarrow> stats_env \<Rightarrow> int list \<Rightarrow> bool \<Rightarrow> range_smpl_collector option \<Rightarrow> string option
    \<Rightarrow> 'd results \<Rightarrow> ostream \<Rightarrow> (range_smpl_collector \<times> 'd results \<times> ostream \<times> ostream option) call_result" where
  "dumpData fp tenv alloc_ok env mem ovw_only col f_name res cout =
     and_then (case col of None \<Rightarrow> default_collector alloc_ok env | Some c \<Rightarrow> Returns c) (\<lambda>my_col.
     and_then (aggregateStatistics (double_ops.truncate fp) env my_col res) (\<lambda>(my_col', res').
     let cout1 = (case f_name of None \<Rightarrow> cout | Some f \<Rightarrow> file_header fp tenv f cout);
         ofl = (case f_name of None \<Rightarrow> None | Some f \<Rightarrow> Some new_stream)
     in and_then
          (if \<not> ovw_only
           then for_each (\<lambda>run. to_both (dump_details_of_run fp tenv env mem res' run my_col')) (below (st_runs env)) (cout1, ofl)
           else Returns (cout1, ofl)) (\<lambda>out.
        and_then
          (if ovw_only \<or> 1 < st_runs env then to_both (\<lambda>_. dump_all_runs fp env res') out else Returns out)
          (\<lambda>(cout2, ofl2). Returns (my_col', deleteDump res', cout2, ofl2)))))"

text \<open>\<open>dumpPair\<close> of the Ada binding: \<open>tmp\<close> has 256 characters.\<close>

definition dumpPair ::
  "'d text_ops \<Rightarrow> terminal \<Rightarrow> bool \<Rightarrow> stats_env \<Rightarrow> int list \<Rightarrow> bool \<Rightarrow> int \<Rightarrow> string \<Rightarrow> bool
    \<Rightarrow> 'd results \<Rightarrow> ostream \<Rightarrow> (stats_env \<times> 'd results \<times> ostream \<times> ostream option \<times> ostream option) call_result" where
  "dumpPair fp tenv alloc_ok env mem ovw_only nr_pairs f_name sc_runs res cout =
     (let half = word_of_int nr_pairs; all = word_of_int (2 * nr_pairs);
          lower = f_name @ ''_producers.txt''; upper = f_name @ ''_consumers.txt''
      in if 256 \<le> length f_name \<or> 2 ^ 31 \<le> 2 * nr_pairs \<or> 2 * nr_pairs < - (2 ^ 31) then Undefined_behaviour
         else and_then (new_range_smpl_collector alloc_ok all 0 half sc_runs) (\<lambda>col_lower.
           if 256 \<le> length lower then Undefined_behaviour
           else and_then (dumpData fp tenv alloc_ok env mem ovw_only (Some col_lower) (Some lower) res cout)
             (\<lambda>(_, res1, cout1, file1).
           and_then (new_range_smpl_collector alloc_ok all half all sc_runs) (\<lambda>col_upper.
           if 256 \<le> length upper then Undefined_behaviour
           else and_then (dumpData fp tenv alloc_ok env mem ovw_only (Some col_upper) (Some upper) res1 cout1)
             (\<lambda>(_, res2, cout2, file2).
           and_then (deleteSamples env) (\<lambda>env'. Returns (env', res2, cout2, file1, file2)))))))"

text \<open>\<open>dumpSingle\<close>\<close>

definition dumpSingle ::
  "'d text_ops \<Rightarrow> terminal \<Rightarrow> bool \<Rightarrow> stats_env \<Rightarrow> int list \<Rightarrow> bool
    \<Rightarrow> 'd results \<Rightarrow> ostream \<Rightarrow> (range_smpl_collector \<times> 'd results \<times> ostream \<times> ostream option) call_result" where
  "dumpSingle fp tenv alloc_ok env mem ovw_only = dumpData fp tenv alloc_ok env mem ovw_only None None"

section \<open>Texts do not depend on what was written before\<close>

text \<open>The stream with an earlier text put in front.\<close>

definition after_text :: "string \<Rightarrow> ostream \<Rightarrow> ostream" where
  "after_text p os = os\<lparr>written := p @ written os\<rparr>"

fun map_result :: "('a \<Rightarrow> 'b) \<Rightarrow> 'a call_result \<Rightarrow> 'b call_result" where
  "map_result f (Returns a) = Returns (f a)"
| "map_result f (Exits c) = Exits c"
| "map_result f Assertion_fails = Assertion_fails"
| "map_result f Undefined_behaviour = Undefined_behaviour"

named_theorems after_text \<open>functions that only append to a stream\<close>

lemma emit_after [after_text]: "emit sd items (after_text p os) = after_text p (emit sd items os)"
proof (induction items arbitrary: os)
  case (Cons x items)
  have "put sd x (after_text p os) = after_text p (put sd x os)"
    by (cases x) (simp_all add: after_text_def format_item_def)
  with Cons show ?case by simp
qed simp

lemma printSep_after [after_text]: "printSep sd w c (after_text p os) = after_text p (printSep sd w c os)"
  by (simp add: printSep_def emit_after)

lemma and_then_after:
  assumes "r' = map_result (after_text p) r" and "\<And>os. f (after_text p os) = map_result (after_text p) (f os)"
  shows "and_then r' f = map_result (after_text p) (and_then r f)"
  using assms by (cases r) simp_all

lemma for_each_after:
  assumes "\<And>i os. body i (after_text p os) = map_result (after_text p) (body i os)"
  shows "for_each body is (after_text p os) = map_result (after_text p) (for_each body is os)"
proof (induction "is" arbitrary: os)
  case (Cons i "is")
  then show ?case using assms [of i os] by (cases "body i os") simp_all
qed simp

lemma put_samples_after:
  "put_samples fp env c col ws run exec (after_text p os) =
    map_result (after_text p) (put_samples fp env c col ws run exec os)"
  unfolding put_samples_def
proof (rule for_each_after)
  fix thr os
  show "and_then (if c then includes_sample run thr col else Returns False) (\<lambda>reset_color.
         case array_load ws (unat thr) of
           None \<Rightarrow> Undefined_behaviour
         | Some w \<Rightarrow>
             (case raw_sample env thr exec run of
                None \<Rightarrow> Undefined_behaviour
              | Some s \<Rightarrow> Returns (emit (show_double fp)
                  ((if reset_color then [Str C_BOLD_GREEN] else []) @
                   [Adjust_right, Setw w, Num s, Str '' ''] @
                   (if reset_color then [Str C_RESET] else [])) (after_text p os)))) =
    map_result (after_text p) (and_then (if c then includes_sample run thr col else Returns False) (\<lambda>reset_color.
         case array_load ws (unat thr) of
           None \<Rightarrow> Undefined_behaviour
         | Some w \<Rightarrow>
             (case raw_sample env thr exec run of
                None \<Rightarrow> Undefined_behaviour
              | Some s \<Rightarrow> Returns (emit (show_double fp)
                  ((if reset_color then [Str C_BOLD_GREEN] else []) @
                   [Adjust_right, Setw w, Num s, Str '' ''] @
                   (if reset_color then [Str C_RESET] else [])) os))))"
    by (cases "if c then includes_sample run thr col else Returns False")
      (simp_all only: emit_after and_then.simps map_result.simps split: option.splits, simp_all)
qed

lemma put_execution_after:
  "put_execution fp env c col ws a b d e run rs exec (after_text p os) =
    map_result (after_text p) (put_execution fp env c col ws a b d e run rs exec os)"
  unfolding put_execution_def
  by (cases "array_load rs (unat exec)")
    (simp_all only: option.case map_result.simps emit_after put_samples_after, intro and_then_after, simp_all only: emit_after map_result.simps)


lemma if_after: "(if b then after_text p x else after_text p y) = after_text p (if b then x else y)"
  by simp

lemma details_after:
  "dump_details_of_run fp tenv env mem res run col ofl (after_text p os) =
    map_result (after_text p) (dump_details_of_run fp tenv env mem res run col ofl os)"
proof (cases "\<exists>r_exes r_run ws. array_load (res_exec res) (unat run) = Some r_exes \<and>
    array_load (res_run res) (unat run) = Some r_run \<and>
    \<not> (length r_exes < unat (st_executions env) \<or> st_threads env = 0) \<and>
    computeSampleWidths fp env run True mem = Returns ws")
  case True
  then obtain r_exes r_run ws where r: "array_load (res_exec res) (unat run) = Some r_exes"
    "array_load (res_run res) (unat run) = Some r_run"
    "(length r_exes < unat (st_executions env) \<or> st_threads env = 0) = False"
    "computeSampleWidths fp env run True mem = Returns ws" by blast
  show ?thesis
    unfolding dump_details_of_run_def Let_def
    by (simp only: r prod.case option.case if_False and_then.simps emit_after printSep_after if_after)
      (intro and_then_after for_each_after put_execution_after; simp only: emit_after printSep_after map_result.simps)
next
  case False
  then show ?thesis
    by (auto simp: dump_details_of_run_def Let_def split: option.split;
        cases "computeSampleWidths fp env run True mem"; simp)
qed

lemma all_runs_after:
  "dump_all_runs fp env res (after_text p os) = map_result (after_text p) (dump_all_runs fp env res os)"
proof (cases "length (res_run res) < unat (st_runs env)")
  case False
  show ?thesis
    unfolding dump_all_runs_def Let_def
    by (simp only: False if_False emit_after printSep_after)
      (intro and_then_after for_each_after; simp only: emit_after printSep_after map_result.simps split: option.split; simp)
qed (simp add: dump_all_runs_def)


section \<open>The tables are printed to the end\<close>

lemma for_each_returns:
  assumes "\<And>i s. i < n \<Longrightarrow> \<exists>s'. body i s = Returns s'"
  shows "\<exists>s'. for_each body (below n) s = Returns s'"
proof -
  have "\<exists>s'. for_each body (below n) s = Returns s' \<and> True"
    by (rule for_each_below [where I = "\<lambda>_ _. True"]) (use assms in auto)
  then show ?thesis by simp
qed

text \<open>Results of all executions and all runs are there, and the collector is for these threads.\<close>

definition results_ready :: "stats_env \<Rightarrow> int list \<Rightarrow> int list \<Rightarrow> range_smpl_collector \<Rightarrow> 'd results \<Rightarrow> bool" where
  "results_ready env xs mem col res \<longleftrightarrow> store_ok env xs \<and> 0 < st_threads env \<and>
     length mem = unat (st_threads env) \<and> population_size col = st_threads env \<and>
     length (res_exec res) = unat (st_runs env) \<and> length (res_run res) = unat (st_runs env) \<and>
     (\<forall>rs \<in> set (res_exec res). length rs = unat (st_executions env))"

lemma includes_returns: "thr < population_size c \<Longrightarrow> \<exists>b. includes_sample run thr c = Returns b"
  unfolding includes_sample_def by (simp add: not_le [symmetric]) blast

lemma put_samples_returns:
  assumes "store_ok env xs" "run < st_runs env" "exec < st_executions env"
    and "population_size col = st_threads env" "length ws = unat (st_threads env)"
  shows "\<exists>os'. put_samples fp env c col ws run exec os = Returns os'"
  unfolding put_samples_def
proof (rule for_each_returns)
  fix thr os assume thr: "thr < st_threads env"
  then obtain b where b: "(if c then includes_sample run thr col else Returns False) = Returns b"
    using includes_returns [of thr col run] assms(4) by (cases c) auto
  have "unat thr < length ws" using thr assms(5) by (simp add: word_less_nat_alt)
  then show "\<exists>s'. and_then (if c then includes_sample run thr col else Returns False) (\<lambda>reset_color.
      case array_load ws (unat thr) of None \<Rightarrow> Undefined_behaviour
      | Some w \<Rightarrow> (case raw_sample env thr exec run of None \<Rightarrow> Undefined_behaviour
         | Some s \<Rightarrow> Returns (emit (show_double fp)
             ((if reset_color then [Str C_BOLD_GREEN] else []) @
              [Adjust_right, Setw w, Num s, Str '' ''] @
              (if reset_color then [Str C_RESET] else [])) os))) = Returns s'"
    unfolding b by (simp add: array_simps raw_sample_at [OF assms(1) thr assms(3,2)])
qed

lemma put_execution_returns:
  assumes "store_ok env xs" "run < st_runs env" "exec < st_executions env"
    and "population_size col = st_threads env" "length ws = unat (st_threads env)"
    and "length rs = unat (st_executions env)"
  shows "\<exists>os'. put_execution fp env c col ws a b d e run rs exec os = Returns os'"
proof -
  have "unat exec < length rs" using assms(3,6) by (simp add: word_less_nat_alt)
  moreover obtain os' where "put_samples fp env c col ws run exec (emit (show_double fp)
      [Adjust_right, Setw a, Num (uint exec), Str '' '',
       Adjust_right, Setw b, Num (r_max (rs ! unat exec)), Str '' '',
       Adjust_right, Setw d, Num (r_mean (rs ! unat exec)), Str '' '',
       Adjust_right, Setw e, Num (r_stdev (rs ! unat exec)), Str '' '',
       Adjust_right, Set_scientific, Dbl (r_cv (rs ! unat exec)), Str '' ''] os) = Returns os'"
    using put_samples_returns [OF assms(1-5)] by blast
  ultimately show ?thesis by (simp only: put_execution_def array_simps option.case and_then.simps) simp
qed

lemma details_returns:
  assumes ready: "results_ready env xs mem col res" and run: "run < st_runs env"
  shows "\<exists>os'. dump_details_of_run fp tenv env mem res run col ofl os = Returns os'"
proof -
  have st: "store_ok env xs" and pos: "st_threads env \<noteq> 0" and mem: "length mem = unat (st_threads env)"
    and pop: "population_size col = st_threads env"
    using ready by (auto simp: results_ready_def)
  have u: "unat run < unat (st_runs env)" using run by (simp add: word_less_nat_alt)
  have r: "array_load (res_exec res) (unat run) = Some (res_exec res ! unat run)"
    "array_load (res_run res) (unat run) = Some (res_run res ! unat run)"
    and e: "length (res_exec res ! unat run) = unat (st_executions env)"
    using ready u by (simp_all add: results_ready_def array_simps)
  obtain ws where ws: "computeSampleWidths fp env run True mem = Returns ws" "length ws = unat (st_threads env)"
    using computeSampleWidths_ok [OF st run mem] mem by metis
  have body: "\<exists>os'. for_each (put_execution fp env c col ws a b d f run (res_exec res ! unat run))
      (below (st_executions env)) os = Returns os'" for c a b d f os
    by (intro for_each_returns put_execution_returns [OF st run _ pop ws(2) e])
  have guard: "(length (res_exec res ! unat run) < unat (st_executions env) \<or> st_threads env = 0) = False"
    using e pos by simp
  have bind: "\<exists>os'. and_then r (\<lambda>os. Returns (g os)) = Returns os'" if "\<exists>os. r = Returns os"
    for r :: "ostream call_result" and g :: "ostream \<Rightarrow> ostream" using that by auto
  show ?thesis
    unfolding dump_details_of_run_def Let_def
    by (simp only: r prod.case option.case guard if_False ws(1) and_then.simps) (rule bind [OF body])
qed

lemma all_runs_returns:
  assumes "length (res_run res) = unat (st_runs env)"
  shows "\<exists>os'. dump_all_runs fp env res os = Returns os'"
proof -
  have bind: "\<exists>os'. and_then r (\<lambda>os. Returns (g os)) = Returns os'" if "\<exists>os. r = Returns os"
    for r :: "ostream call_result" and g :: "ostream \<Rightarrow> ostream" using that by auto
  have guard: "(length (res_run res) < unat (st_runs env)) = False" using assms by simp
  have body: "\<exists>os'. for_each (\<lambda>run os. case array_load (res_run res) (unat run) of
      None \<Rightarrow> Undefined_behaviour | Some r \<Rightarrow> Returns (f run r os)) (below (st_runs env)) os = Returns os'"
    for f :: "32 word \<Rightarrow> _ \<Rightarrow> ostream \<Rightarrow> ostream" and os
  proof (rule for_each_returns)
    fix run :: "32 word" and os assume "run < st_runs env"
    then have "unat run < length (res_run res)" using assms by (simp add: word_less_nat_alt)
    then show "\<exists>s'. (case array_load (res_run res) (unat run) of
      None \<Rightarrow> Undefined_behaviour | Some r \<Rightarrow> Returns (f run r os)) = Returns s'" by (simp add: array_simps)
  qed
  show ?thesis
    unfolding dump_all_runs_def Let_def by (simp only: guard if_False) (rule bind [OF body])
qed


section \<open>Standard output and file\<close>

lemma emit_letters:
  "width os = 0 \<Longrightarrow> emit sd (replicate k (Str [c]) @ items) os = emit sd items (os\<lparr>written := written os @ replicate k c\<rparr>)"
proof (induction k arbitrary: os)
  case (Suc k)
  let ?os = "os\<lparr>written := written os @ [c]\<rparr>"
  have "put sd (Str [c]) os = ?os" using Suc.prems by (cases os) (simp add: format_item_def)
  moreover have "emit sd (replicate k (Str [c]) @ items) ?os = emit sd items (?os\<lparr>written := written ?os @ replicate k c\<rparr>)"
    by (rule Suc.IH) (use Suc.prems in simp)
  ultimately show ?case by (simp del: put.simps)
qed simp

lemma printSep_text:
  "width os = 0 \<Longrightarrow> printSep sd w c os = os\<lparr>written := written os @ replicate (nat w) c @ newline\<rparr>"
  by (simp add: printSep_def emit_letters)

definition header_text :: "string \<Rightarrow> string" where
  "header_text f_name =
     (let bar = replicate (length f_name + 4) (CHR ''x'') @ newline
      in bar @ ''x '' @ f_name @ '' x'' @ newline @ bar)"

lemma file_header_text:
  assumes "(isTerminalStream tenv Std_out \<and> supportsColor tenv) = False"
  shows "file_header fp tenv f new_stream = after_text (header_text f) new_stream"
  unfolding file_header_def Let_def assms
  by (simp add: printSep_text format_item_def after_text_def header_text_def new_stream_def nat_add_distrib)

lemma after_text_append: "after_text p (after_text q os) = after_text (p @ q) os"
  by (simp add: after_text_def)

lemma header_after:
  assumes "(isTerminalStream tenv Std_out \<and> supportsColor tenv) = False"
  shows "file_header fp tenv f (after_text p new_stream) = after_text (p @ header_text f) new_stream"
proof -
  have "file_header fp tenv f (after_text p new_stream) = after_text p (file_header fp tenv f new_stream)"
    unfolding file_header_def Let_def assms by (simp only: if_False emit_after printSep_after)
  then show ?thesis by (simp only: file_header_text [OF assms] after_text_append)
qed

text \<open>Without colours a table does not depend on the stream it is printed to.\<close>

lemma details_stream:
  assumes "(isTerminalStream tenv Std_out \<and> supportsColor tenv) = False"
  shows "dump_details_of_run fp tenv env mem res run col Std_out os =
    dump_details_of_run fp tenv env mem res run col Other_stream os"
proof -
  have "(isTerminalStream tenv Other_stream \<and> supportsColor tenv) = False"
    by (simp add: isTerminalStream_def)
  then show ?thesis unfolding dump_details_of_run_def Let_def using assms by (simp only:)
qed

lemma to_both_copies:
  assumes "\<And>p os. dump Std_out (after_text p os) = map_result (after_text p) (dump Other_stream os)"
    and "\<exists>f'. dump Other_stream f = Returns f'"
  shows "\<exists>f'. to_both dump (after_text p f, Some f) = Returns (after_text p f', Some f')"
  using assms(2) by (auto simp: to_both_def assms(1))

lemma for_each_copies:
  assumes "\<And>run f. run < n \<Longrightarrow> \<exists>f'. body run (after_text p f, Some f) = Returns (after_text p f', Some f')"
  shows "\<exists>f'. for_each body (below n) (after_text p f, Some f) = Returns (after_text p f', Some f')"
proof -
  have "\<exists>out. for_each body (below n) (after_text p f, Some f) = Returns out \<and>
      (\<exists>f'. out = (after_text p f', Some f'))"
  proof (rule for_each_below [where I = "\<lambda>_ out. \<exists>f'. out = (after_text p f', Some f')"])
    fix run out assume run: "run < n" and "\<exists>f. out = (after_text p f, Some f)"
    then obtain f where "out = (after_text p f, Some f)" by blast
    with assms [OF run, of f]
    show "\<exists>out'. body run out = Returns out' \<and> (\<exists>f'. out' = (after_text p f', Some f'))" by blast
  qed blast
  then show ?thesis by auto
qed

lemma aggregated_ready:
  assumes a: "aggregation_ok env xs c b" and pos: "0 < st_threads env" and mem: "length mem = unat (st_threads env)"
  shows "\<exists>c' res'. aggregateStatistics fp env c \<lparr>res_exec = [], res_run = []\<rparr> = Returns (c', res') \<and>
    results_ready env xs mem c' res'"
proof -
  obtain c' res' where r: "aggregateStatistics fp env c \<lparr>res_exec = [], res_run = []\<rparr> = Returns (c', res')"
    "res_exec res' = map (\<lambda>run. map (exec_stats fp env xs c run) [0..<unat (st_executions env)]) [0..<unat (st_runs env)]"
    "res_run res' = map (run_stats fp env xs c) [0..<unat (st_runs env)]" "same_range c c'"
    using aggregateStatistics_ok [OF a, of fp "\<lparr>res_exec = [], res_run = []\<rparr>"] by auto
  have "population_size c' = st_threads env"
    using a r(4) unfolding same_range_def aggregation_ok_def by (metis range_smpl_collector.select_convs(1) range_smpl_collector.update_convs(6) range_smpl_collector.surjective)
  with r a pos mem show ?thesis by (auto simp: results_ready_def aggregation_ok_def)
qed



end
