(* ===== verification/Log.thy ===== *)
theory Log
  imports Text_Out
begin

text \<open>
  The log (\<open>common/stats/log.cpp\<close>): messages composed in a string stream and written to the standard
  error stream in one piece, under a mutex.
\<close>

text \<open>What a call does to the mutex and to the stream, in order.\<close>

datatype log_action = Lock_outfile | Write_cerr string | Flush_cerr | Unlock_outfile

text \<open>The contents of a fresh \<open>ostringstream\<close> into which the items have been inserted.\<close>

definition composed :: "unit item list \<Rightarrow> string" where
  "composed items = written (emit (\<lambda>_ _ _. []) items new_stream)"

definition logStatus :: "string \<Rightarrow> int \<Rightarrow> string \<Rightarrow> log_action list" where
  "logStatus file line msg =
     [Lock_outfile,
      Write_cerr (composed [Str ''STATUS: '', Str msg, Str '', file '', Str file,
        Str '', line # '', Num line, Endl]),
      Flush_cerr, Unlock_outfile]"

definition logStatus_err :: "string \<Rightarrow> int \<Rightarrow> string \<Rightarrow> int \<Rightarrow> log_action list" where
  "logStatus_err file line msg err =
     logStatus file line (composed [Str msg, Str '', error: '', Num err, Endl])"

definition logSampleStatus :: "string \<Rightarrow> int \<Rightarrow> int \<Rightarrow> int \<Rightarrow> int \<Rightarrow> string \<Rightarrow> int \<Rightarrow> log_action list" where
  "logSampleStatus str s tid exec run file line =
     logStatus file line (composed [Str str, Str '' '', Num tid, Str '', sample: '', Num s,
       Str '', exec: '', Num exec, Str '', run: '', Num run])"

definition logSimple :: "string \<Rightarrow> int \<Rightarrow> string \<Rightarrow> string \<Rightarrow> int \<Rightarrow> log_action list" where
  "logSimple str tid str1 file line =
     logStatus file line (composed [Str str, Str '' '', Num tid, Str '' '', Str str1])"

section \<open>What a call writes\<close>

definition status_line :: "string \<Rightarrow> int \<Rightarrow> string \<Rightarrow> string" where
  "status_line file line msg =
     ''STATUS: '' @ msg @ '', file '' @ file @ '', line # '' @ dec line @ newline"

definition message_actions :: "string \<Rightarrow> log_action list" where
  "message_actions t = [Lock_outfile, Write_cerr t, Flush_cerr, Unlock_outfile]"

lemma logStatus_writes: "logStatus file line msg = message_actions (status_line file line msg)"
  by (simp add: logStatus_def message_actions_def status_line_def composed_def format_item_def
      new_stream_def)

text \<open>The variants, over the first one. That with an error value puts a line break into the message.\<close>

lemma log_variants:
  "logStatus_err file line msg err = logStatus file line (msg @ '', error: '' @ dec err @ newline)"
  "logSampleStatus str s tid exec run file line = logStatus file line
     (str @ '' '' @ dec tid @ '', sample: '' @ dec s @ '', exec: '' @ dec exec @ '', run: '' @ dec run)"
  "logSimple str tid str1 file line = logStatus file line (str @ '' '' @ dec tid @ '' '' @ str1)"
  by (simp_all add: logStatus_err_def logSampleStatus_def logSimple_def composed_def format_item_def
      new_stream_def)

section \<open>Threads that log\<close>

text \<open>
  The standard error stream under an interleaving of several threads' actions: characters are written
  one by one, the mutex is held by at most one thread, a thread that wants it waits. A state is the
  holder, what has been written, and what each thread still has to do.
\<close>

record log_state =
  holder :: "nat option"
  cerr :: string
  todo :: "nat \<Rightarrow> log_action list"

inductive log_step :: "log_state \<Rightarrow> log_state \<Rightarrow> bool" where
  log_lock: "todo s i = Lock_outfile # as \<Longrightarrow> holder s = None \<Longrightarrow>
    log_step s (s\<lparr>holder := Some i, todo := (todo s)(i := as)\<rparr>)"
| log_write: "todo s i = Write_cerr (c # t) # as \<Longrightarrow>
    log_step s (s\<lparr>cerr := cerr s @ [c], todo := (todo s)(i := Write_cerr t # as)\<rparr>)"
| log_written: "todo s i = Write_cerr [] # as \<Longrightarrow> log_step s (s\<lparr>todo := (todo s)(i := as)\<rparr>)"
| log_flush: "todo s i = Flush_cerr # as \<Longrightarrow> log_step s (s\<lparr>todo := (todo s)(i := as)\<rparr>)"
| log_unlock: "todo s i = Unlock_outfile # as \<Longrightarrow>
    log_step s (s\<lparr>holder := None, todo := (todo s)(i := as)\<rparr>)"

definition messages_actions :: "string list \<Rightarrow> log_action list" where
  "messages_actions ms = concat (map message_actions ms)"

lemma messages_actions_Cons:
  "messages_actions ms = a # as \<Longrightarrow>
    \<exists>m ms'. ms = m # ms' \<and> a = Lock_outfile \<and>
      as = Write_cerr m # Flush_cerr # Unlock_outfile # messages_actions ms'"
  by (cases ms) (auto simp: messages_actions_def message_actions_def)

text \<open>
  The history \<open>hs\<close> of the complete messages written and the part of the next one; what thread \<open>i\<close> has
  written and has still to write are the messages \<open>texts i\<close>.
\<close>

definition sent :: "nat \<Rightarrow> (nat \<times> string) list \<Rightarrow> string list" where
  "sent i hs = map snd (filter (\<lambda>h. fst h = i) hs)"

definition log_thread :: "log_state \<Rightarrow> (nat \<times> string) list \<Rightarrow> string \<Rightarrow> nat \<Rightarrow> string list \<Rightarrow> bool" where
  "log_thread s hs part i ts \<longleftrightarrow> (\<exists>ms.
     holder s \<noteq> Some i \<and> todo s i = messages_actions ms \<and> sent i hs @ ms = ts \<or>
     holder s = Some i \<and>
       ((\<exists>t. todo s i = Write_cerr t # Flush_cerr # Unlock_outfile # messages_actions ms \<and>
           sent i hs @ (part @ t) # ms = ts) \<or>
        part = [] \<and> sent i hs @ ms = ts \<and>
          (todo s i = Flush_cerr # Unlock_outfile # messages_actions ms \<or>
           todo s i = Unlock_outfile # messages_actions ms)))"

definition log_inv :: "(nat \<Rightarrow> string list) \<Rightarrow> log_state \<Rightarrow> bool" where
  "log_inv texts s \<longleftrightarrow> (\<exists>hs part.
     cerr s = concat (map snd hs) @ part \<and> (holder s = None \<longrightarrow> part = []) \<and>
     (\<forall>i. log_thread s hs part i (texts i)))"

lemma sent_snoc [simp]: "sent i (hs @ [(j, t)]) = sent i hs @ (if j = i then [t] else [])"
  by (simp add: sent_def)

text \<open>A thread whose next action is not to lock holds the mutex.\<close>

lemma log_thread_inside:
  assumes "log_thread s hs part i ts" and "todo s i = a # as" and "a \<noteq> Lock_outfile"
  shows "holder s = Some i"
proof (rule ccontr)
  assume "holder s \<noteq> Some i"
  with assms(1,2) obtain ms where "messages_actions ms = a # as" by (auto simp: log_thread_def)
  with assms(3) messages_actions_Cons show False by blast
qed

lemma log_thread_other:
  assumes "log_thread s hs part j ts" and "holder s \<noteq> Some j" and "holder s' \<noteq> Some j"
    and "todo s' j = todo s j" and "sent j hs' = sent j hs"
  shows "log_thread s' hs' part' j ts"
  using assms by (simp add: log_thread_def)

lemma log_inv_step:
  assumes "log_step s s'" and "log_inv texts s"
  shows "log_inv texts s'"
proof -
  obtain hs part where cerr: "cerr s = concat (map snd hs) @ part" and none: "holder s = None \<longrightarrow> part = []"
    and threads: "\<And>i. log_thread s hs part i (texts i)"
    using assms(2) by (auto simp: log_inv_def)
  from assms(1) show ?thesis
  proof cases
    case (log_lock i as)
    from threads [of i] log_lock obtain ms' where
      "messages_actions ms' = Lock_outfile # as" "sent i hs @ ms' = texts i"
      by (auto simp: log_thread_def)
    then obtain m ms where as: "as = Write_cerr m # Flush_cerr # Unlock_outfile # messages_actions ms"
      and ms: "sent i hs @ m # ms = texts i"
      using messages_actions_Cons by blast
    have "log_thread s' hs part j (texts j)" for j
    proof (cases "j = i")
      case True
      then show ?thesis using log_lock as ms none by (auto simp: log_thread_def)
    next
      case False
      then show ?thesis using log_lock by (intro log_thread_other [OF threads]) auto
    qed
    with cerr log_lock show ?thesis unfolding log_inv_def by (intro exI [of _ hs] exI [of _ part]) simp
  next
    case (log_write i c t as)
    have held: "holder s = Some i" using log_thread_inside [OF threads, of i] log_write by simp
    have "log_thread s' hs (part @ [c]) j (texts j)" for j
    proof (cases "j = i")
      case True
      then show ?thesis using log_write threads [of i] held by (auto simp: log_thread_def)
    next
      case False
      then show ?thesis using log_write held by (intro log_thread_other [OF threads]) auto
    qed
    with cerr log_write held show ?thesis
      unfolding log_inv_def by (intro exI [of _ hs] exI [of _ "part @ [c]"]) simp
  next
    case (log_written i as)
    have held: "holder s = Some i" using log_thread_inside [OF threads, of i] log_written by simp
    have "log_thread s' (hs @ [(i, part)]) [] j (texts j)" for j
    proof (cases "j = i")
      case True
      then show ?thesis using log_written threads [of i] held by (auto simp: log_thread_def)
    next
      case False
      then show ?thesis using log_written held by (intro log_thread_other [OF threads]) auto
    qed
    with cerr log_written held show ?thesis
      unfolding log_inv_def by (intro exI [of _ "hs @ [(i, part)]"] exI [of _ "[]"]) simp
  next
    case (log_flush i as)
    have held: "holder s = Some i" using log_thread_inside [OF threads, of i] log_flush by simp
    have "log_thread s' hs part j (texts j)" for j
    proof (cases "j = i")
      case True
      then show ?thesis using log_flush threads [of i] held by (auto simp: log_thread_def)
    next
      case False
      then show ?thesis using log_flush held by (intro log_thread_other [OF threads]) auto
    qed
    with cerr log_flush held show ?thesis
      unfolding log_inv_def by (intro exI [of _ hs] exI [of _ part]) simp
  next
    case (log_unlock i as)
    have held: "holder s = Some i" using log_thread_inside [OF threads, of i] log_unlock by simp
    have part: "part = []" using log_unlock threads [of i] held by (auto simp: log_thread_def)
    have "log_thread s' hs part j (texts j)" for j
    proof (cases "j = i")
      case True
      then show ?thesis using log_unlock threads [of i] held by (auto simp: log_thread_def)
    next
      case False
      then show ?thesis using log_unlock held by (intro log_thread_other [OF threads]) auto
    qed
    with cerr part log_unlock show ?thesis
      unfolding log_inv_def by (intro exI [of _ hs] exI [of _ part]) simp
  qed
qed

text \<open>
  C27: messages of different threads are not mixed: when threads that call \<open>logStatus\<close> have finished, in
  whatever order their actions and the single characters were written, the error stream holds whole
  lines, and those of each thread are its messages, complete and in the order of its calls.
\<close>

theorem log_lines_whole:
  assumes "log_step\<^sup>*\<^sup>* \<lparr>holder = None, cerr = [],
      todo = \<lambda>i. concat (map (\<lambda>(file, line, msg). logStatus file line msg) (calls i))\<rparr> s"
    and "\<And>i. todo s i = []"
  shows "\<exists>hs. cerr s = concat (map snd hs) \<and>
    (\<forall>i. map snd (filter (\<lambda>h. fst h = i) hs) =
      map (\<lambda>(file, line, msg). status_line file line msg) (calls i))"
proof -
  let ?texts = "\<lambda>i. map (\<lambda>(file, line, msg). status_line file line msg) (calls i)"
  have acts: "concat (map (\<lambda>(file, line, msg). logStatus file line msg) cs) =
      messages_actions (map (\<lambda>(file, line, msg). status_line file line msg) cs)" for cs
    by (induction cs) (auto simp: messages_actions_def logStatus_writes)
  have "log_inv ?texts s"
    using assms(1)
  proof (induction rule: rtranclp_induct)
    case base
    have "log_thread \<lparr>holder = None, cerr = [], todo = \<lambda>i. messages_actions (?texts i)\<rparr> [] [] i (?texts i)" for i
      by (auto simp: log_thread_def sent_def)
    then show ?case unfolding log_inv_def acts by (intro exI [of _ "[]"]) simp
  qed (rule log_inv_step)
  then obtain hs part where cerr: "cerr s = concat (map snd hs) @ part" "holder s = None \<longrightarrow> part = []"
    and threads: "\<And>i. log_thread s hs part i (?texts i)"
    by (auto simp: log_inv_def)
  have "holder s \<noteq> Some i \<and> sent i hs = ?texts i" for i
    using threads [of i] assms(2) by (auto simp: log_thread_def messages_actions_def message_actions_def)
  then have "part = []" "\<forall>i. sent i hs = ?texts i" using cerr(2) by (cases "holder s"; blast)+
  with cerr(1) show ?thesis by (auto simp: sent_def)
qed

text \<open>A thread that finds the mutex free can write its next message.\<close>

lemma log_write_all:
  "todo s i = Write_cerr t # as \<Longrightarrow>
    log_step\<^sup>*\<^sup>* s (s\<lparr>cerr := cerr s @ t, todo := (todo s)(i := as)\<rparr>)"
proof (induction t arbitrary: s)
  case Nil
  then show ?case using log_written [of s i "as"] by (simp add: fun_upd_def)
next
  case (Cons c t)
  let ?s = "s\<lparr>cerr := cerr s @ [c], todo := (todo s)(i := Write_cerr t # as)\<rparr>"
  have "log_step s ?s" using Cons.prems by (rule log_write)
  also have "log_step\<^sup>*\<^sup>* ?s (?s\<lparr>cerr := cerr ?s @ t, todo := (todo ?s)(i := as)\<rparr>)"
    by (rule Cons.IH) simp
  finally show ?case by (simp add: fun_upd_def cong: if_cong)
qed

lemma log_message_run:
  assumes "holder s = None" and "todo s i = message_actions t @ as"
  shows "log_step\<^sup>*\<^sup>* s (s\<lparr>cerr := cerr s @ t, todo := (todo s)(i := as)\<rparr>)"
proof -
  let ?s1 = "s\<lparr>holder := Some i, todo := (todo s)(i := Write_cerr t # Flush_cerr # Unlock_outfile # as)\<rparr>"
  let ?s2 = "?s1\<lparr>cerr := cerr s @ t, todo := (todo s)(i := Flush_cerr # Unlock_outfile # as)\<rparr>"
  let ?s3 = "?s2\<lparr>todo := (todo s)(i := Unlock_outfile # as)\<rparr>"
  have "log_step s ?s1" using assms by (intro log_lock) (simp_all add: message_actions_def)
  moreover have "log_step\<^sup>*\<^sup>* ?s1 ?s2"
    using log_write_all [of ?s1 i t "Flush_cerr # Unlock_outfile # as"] by simp
  moreover have "log_step ?s2 ?s3" using log_flush [of ?s2 i "Unlock_outfile # as"] by simp
  moreover have "log_step ?s3 (?s3\<lparr>holder := None, todo := (todo ?s3)(i := as)\<rparr>)"
    by (rule log_unlock) simp
  ultimately have "log_step\<^sup>*\<^sup>* s (?s3\<lparr>holder := None, todo := (todo ?s3)(i := as)\<rparr>)"
    by (blast intro: converse_rtranclp_into_rtranclp rtranclp.rtrancl_into_rtrancl)
  moreover have "?s3\<lparr>holder := None, todo := (todo ?s3)(i := as)\<rparr> = s\<lparr>cerr := cerr s @ t, todo := (todo s)(i := as)\<rparr>"
    using assms(1) by (cases s) simp
  ultimately show ?thesis by simp
qed

definition log_example :: "nat \<Rightarrow> (string \<times> int \<times> string) list" where
  "log_example i = (if i = 4 then [(''a.cpp'', 12, ''go'')] else [])"

lemma log_lines_whole_witness:
  "\<exists>(s :: log_state) (hs :: (nat \<times> string) list). cerr s = concat (map snd hs) \<and>
    map snd (filter (\<lambda>h. fst h = 4) hs) = [''STATUS: go, file a.cpp, line # 12'' @ newline]"
proof -
  let ?s0 = "\<lparr>holder = None, cerr = [],
      todo = \<lambda>i. concat (map (\<lambda>(file, line, msg). logStatus file line msg) (log_example i))\<rparr>"
  define s1 where "s1 = ?s0\<lparr>cerr := cerr ?s0 @ status_line ''a.cpp'' 12 ''go'', todo := (todo ?s0)(4 := [])\<rparr>"
  have "log_step\<^sup>*\<^sup>* ?s0 s1"
    unfolding s1_def by (rule log_message_run) (simp_all add: log_example_def logStatus_writes)
  moreover have "\<And>i. todo s1 i = []" by (simp add: s1_def log_example_def)
  ultimately obtain hs where hs: "cerr s1 = concat (map snd hs)"
    "\<forall>i. map snd (filter (\<lambda>h. fst h = i) hs) = map (\<lambda>(file, line, msg). status_line file line msg) (log_example i)"
    using log_lines_whole [of log_example s1] by blast
  have "dec 12 = ''12''" by code_simp
  then have "status_line ''a.cpp'' 12 ''go'' = ''STATUS: go, file a.cpp, line # 12'' @ newline"
    by (simp add: status_line_def)
  with hs(2) have "map snd (filter (\<lambda>h. fst h = 4) hs) = [''STATUS: go, file a.cpp, line # 12'' @ newline]"
    by (simp add: log_example_def)
  with hs(1) show ?thesis by (intro exI [of _ s1] exI [of _ hs] conjI)
qed

end
