(* ===== verification/Papi_Binding.thy ===== *)
theory Papi_Binding
  imports Report
begin

text \<open>
  Timing of the Ada benchmarks (\<open>common/ada_binding/papi/binding.cpp\<close>): start and end times per thread,
  the longest time of a thread, and the counting of transactional cycles. PAPI is a parameter, a
  record of its functions over a state of its own that they may read and change.
\<close>

section \<open>PAPI and the state of the binding\<close>

record time_measure =
  tm_start :: int
  tm_end :: int
  tm_elapsed :: int

text \<open>Where a function of PAPI returns a value through a pointer, it is a further result here.\<close>

record 'w papi =
  papi_version :: int
  papi_ok :: int
  papi_null :: int
  papi_inherit_all :: int
  library_init :: "int \<Rightarrow> 'w \<Rightarrow> int \<times> 'w"
  create_eventset :: "int \<Rightarrow> 'w \<Rightarrow> int \<times> int \<times> 'w"
  assign_eventset_component :: "int \<Rightarrow> int \<Rightarrow> 'w \<Rightarrow> int \<times> 'w"
  set_opt_inherit :: "int \<Rightarrow> int \<Rightarrow> 'w \<Rightarrow> int \<times> 'w"
  event_name_to_code :: "string \<Rightarrow> 'w \<Rightarrow> int \<times> int \<times> 'w"
  add_events :: "int \<Rightarrow> int list \<Rightarrow> 'w \<Rightarrow> int \<times> 'w"
  papi_start :: "int \<Rightarrow> 'w \<Rightarrow> int \<times> 'w"
  papi_read :: "int \<Rightarrow> 'w \<Rightarrow> int \<times> int list \<times> 'w"
  papi_stop :: "int \<Rightarrow> 'w \<Rightarrow> int \<times> int list \<times> 'w"
  get_real_nsec :: "'w \<Rightarrow> int \<times> 'w"

record 'w binding =
  world :: 'w
  printed :: string
  thread_time :: "time_measure list"

text \<open>Static storage starts out as zeros.\<close>

definition thread_time0 :: "time_measure list" where
  "thread_time0 = replicate MAX_NR_THREADS \<lparr>tm_start = 0, tm_end = 0, tm_elapsed = 0\<rparr>"

definition binding0 :: "'w \<Rightarrow> 'w binding" where
  "binding0 w = \<lparr>world = w, printed = [], thread_time = thread_time0\<rparr>"

definition say :: "string \<Rightarrow> 'w binding \<Rightarrow> 'w binding" where
  "say msg st = st\<lparr>printed := printed st @ msg @ newline\<rparr>"

definition PAPI_setup :: "'w papi \<Rightarrow> 'w binding \<Rightarrow> 'w binding" where
  "PAPI_setup P st =
     (let (retval, w) = library_init P (papi_version P) (world st);
          st' = st\<lparr>world := w\<rparr>
      in if retval \<noteq> papi_version P then say ''PAPI library init error'' st' else st')"

section \<open>Transactional cycles\<close>

definition cpu_events :: "string list" where
  "cpu_events = [''CPU_CLK_UNHALTED'', ''CPU_CLK_UNHALTED:intx=1'', ''CPU_CLK_UNHALTED:intx=1:intxcp=1'']"

text \<open>A call of PAPI whose failure is printed and ends the function, and what follows a success.\<close>

definition checked :: "'w papi \<Rightarrow> string \<Rightarrow> int \<Rightarrow> ('w binding \<Rightarrow> 'w binding) \<Rightarrow> 'w binding \<Rightarrow> 'w binding" where
  "checked P msg code continue st = (if code \<noteq> papi_ok P then say msg st else continue st)"

definition coding_error :: "string \<Rightarrow> string" where
  "coding_error event = ''PAPI coding error: '' @ [CHR 0x27] @ event @ [CHR 0x27]"

text \<open>The event set, which is also a result, and the state of the binding.\<close>

definition PAPI_start_tsx :: "'w papi \<Rightarrow> 'w binding \<Rightarrow> int \<times> 'w binding" where
  "PAPI_start_tsx P st =
     (let (c1, es, w1) = create_eventset P (papi_null P) (world st) in
      (es, checked P ''PAPI library init error'' c1 (\<lambda>st.
        let (c2, w2) = assign_eventset_component P es 0 (world st) in
        checked P ''PAPI_assign_eventset_component error'' c2 (\<lambda>st.
          let (c3, w3) = set_opt_inherit P (papi_inherit_all P) es (world st) in
          checked P ''PAPI_set_opt error'' c3 (\<lambda>st.
            let (c4, code0, w4) = event_name_to_code P (cpu_events ! 0) (world st) in
            checked P (coding_error (cpu_events ! 0)) c4 (\<lambda>st.
              let (c5, code1, w5) = event_name_to_code P (cpu_events ! 1) (world st) in
              checked P (coding_error (cpu_events ! 1)) c5 (\<lambda>st.
                let (c6, code2, w6) = event_name_to_code P (cpu_events ! 2) (world st) in
                checked P (coding_error (cpu_events ! 2)) c6 (\<lambda>st.
                  let (c7, w7) = add_events P es [code0, code1, code2] (world st) in
                  checked P ''PAPI add_events error'' c7 (\<lambda>st.
                    let (c8, w8) = papi_start P es (world st) in
                    checked P ''PAPI start error'' c8 (\<lambda>st. st) (st\<lparr>world := w8\<rparr>))
                  (st\<lparr>world := w7\<rparr>))
                (st\<lparr>world := w6\<rparr>))
              (st\<lparr>world := w5\<rparr>))
            (st\<lparr>world := w4\<rparr>))
          (st\<lparr>world := w3\<rparr>))
        (st\<lparr>world := w2\<rparr>))
      (st\<lparr>world := w1\<rparr>)))"

text \<open>The conversion \<open>%llu\<close> of a signed value, and \<open>%lf\<close> as a parameter.\<close>

definition llu :: "int \<Rightarrow> string" where
  "llu k = dec (uint (word_of_int k :: 64 word))"

definition PAPI_end_tsx ::
  "'d double_ops \<Rightarrow> ('d \<Rightarrow> string) \<Rightarrow> 'w papi \<Rightarrow> int \<Rightarrow> 'w binding \<Rightarrow> 'w binding" where
  "PAPI_end_tsx fp lf P es st =
     (let (c1, _, w1) = papi_read P es (world st) in
      checked P ''PAPI read error'' c1 (\<lambda>st.
        let (c2, values, w2) = papi_stop P es (world st) in
        checked P ''PAPI stop error'' c2 (\<lambda>st.
          say (''Succ%:  '' @ lf (ddiv fp (dmul fp (of_ll fp (values ! 2)) (of_ll fp 100)) (of_ll fp (values ! 1))))
          (say (''Commited TSX cycles : '' @ llu (values ! 2))
          (say (''Total TSX cycles    : '' @ llu (values ! 1))
          (say (''Total cycles        : '' @ llu (values ! 0)) st))))
        (st\<lparr>world := w2\<rparr>))
      (st\<lparr>world := w1\<rparr>))"

section \<open>Times of threads\<close>

text \<open>An element of \<open>thread_time\<close>; a thread number outside the array is undefined.\<close>

definition at_thread :: "int \<Rightarrow> (time_measure \<Rightarrow> time_measure) \<Rightarrow> 'w binding \<Rightarrow> 'w binding call_result" where
  "at_thread tid f st =
     (if tid < 0 then Undefined_behaviour
      else case array_load (thread_time st) (nat tid) of
        None \<Rightarrow> Undefined_behaviour
      | Some t \<Rightarrow> Returns (st\<lparr>thread_time := (thread_time st)[nat tid := f t]\<rparr>))"

definition PAPI_start_nsec :: "'w papi \<Rightarrow> int \<Rightarrow> 'w binding \<Rightarrow> 'w binding call_result" where
  "PAPI_start_nsec P tid st =
     (let (now, w) = get_real_nsec P (world st)
      in at_thread tid (\<lambda>t. t\<lparr>tm_start := now\<rparr>) (st\<lparr>world := w\<rparr>))"

definition PAPI_end_nsec :: "'w papi \<Rightarrow> int \<Rightarrow> 'w binding \<Rightarrow> 'w binding call_result" where
  "PAPI_end_nsec P tid st =
     (let (now, w) = get_real_nsec P (world st)
      in at_thread tid (\<lambda>t. t\<lparr>tm_end := now\<rparr>) (st\<lparr>world := w\<rparr>))"

definition PAPI_get_nsec :: "int \<Rightarrow> 'w binding \<Rightarrow> int call_result" where
  "PAPI_get_nsec tid st =
     (if tid < 0 then Undefined_behaviour
      else case array_load (thread_time st) (nat tid) of
        None \<Rightarrow> Undefined_behaviour
      | Some t \<Rightarrow> long_long (tm_end t - tm_start t))"

text \<open>One round of the loop of \<open>PAPI_measure\<close>: the elapsed time of a slot is stored and compared.\<close>

definition elapse :: "nat \<Rightarrow> 'w binding \<Rightarrow> (int \<times> 'w binding) call_result" where
  "elapse i st =
     (case array_load (thread_time st) i of
        None \<Rightarrow> Undefined_behaviour
      | Some t \<Rightarrow> and_then (long_long (tm_end t - tm_start t))
          (\<lambda>e. Returns (e, st\<lparr>thread_time := (thread_time st)[i := t\<lparr>tm_elapsed := e\<rparr>]\<rparr>)))"

definition PAPI_measure :: "'w binding \<Rightarrow> (int \<times> 'w binding) call_result" where
  "PAPI_measure st =
     and_then (elapse 0 st)
       (for_each (\<lambda>i (elapsed_nsec, st).
          and_then (elapse i st) (\<lambda>(e, st). Returns (if elapsed_nsec \<le> e then e else elapsed_nsec, st)))
          [1..<MAX_NR_THREADS])"

section \<open>What is reported\<close>

definition tsx_messages :: "string set" where
  "tsx_messages = {''PAPI library init error'', ''PAPI_assign_eventset_component error'',
     ''PAPI_set_opt error'', coding_error (cpu_events ! 0), coding_error (cpu_events ! 1),
     coding_error (cpu_events ! 2), ''PAPI add_events error'', ''PAPI start error''}"

text \<open>What has to go well for the cycles to be counted, from state \<open>w\<close> of PAPI to \<open>w'\<close>.\<close>

definition tsx_counting :: "'w papi \<Rightarrow> 'w \<Rightarrow> int \<Rightarrow> 'w \<Rightarrow> bool" where
  "tsx_counting P w es w' \<longleftrightarrow> (\<exists>w1 w2 w3 w4 w5 w6 w7 a b c.
     create_eventset P (papi_null P) w = (papi_ok P, es, w1) \<and>
     assign_eventset_component P es 0 w1 = (papi_ok P, w2) \<and>
     set_opt_inherit P (papi_inherit_all P) es w2 = (papi_ok P, w3) \<and>
     event_name_to_code P ''CPU_CLK_UNHALTED'' w3 = (papi_ok P, a, w4) \<and>
     event_name_to_code P ''CPU_CLK_UNHALTED:intx=1'' w4 = (papi_ok P, b, w5) \<and>
     event_name_to_code P ''CPU_CLK_UNHALTED:intx=1:intxcp=1'' w5 = (papi_ok P, c, w6) \<and>
     add_events P es [a, b, c] w6 = (papi_ok P, w7) \<and>
     papi_start P es w7 = (papi_ok P, w'))"

lemma cpu_events_nth:
  "cpu_events ! 0 = ''CPU_CLK_UNHALTED''"
  "cpu_events ! Suc 0 = ''CPU_CLK_UNHALTED:intx=1''"
  "cpu_events ! 2 = ''CPU_CLK_UNHALTED:intx=1:intxcp=1''"
  by (simp_all add: cpu_events_def)

text \<open>
  \<open>PAPI_start_tsx\<close> is silent exactly when each of its eight calls succeeded, made in this order and
  each on the result of the previous ones; otherwise it prints one line, the message of a call that
  failed, and returns as usual. The times of the threads are not touched.
\<close>

theorem papi_start_tsx_errors:
  "case PAPI_start_tsx P st of (es, st') \<Rightarrow>
     (printed st' = printed st \<longleftrightarrow> tsx_counting P (world st) es (world st')) \<and>
     (printed st' = printed st \<or> (\<exists>m\<in>tsx_messages. printed st' = printed st @ m @ newline)) \<and>
     thread_time st' = thread_time st"
proof -
  obtain es st' where r: "PAPI_start_tsx P st = (es, st')" by (cases "PAPI_start_tsx P st")
  have "printed st' = printed st \<longleftrightarrow> tsx_counting P (world st) es (world st')"
    using r by (auto simp: PAPI_start_tsx_def checked_def say_def newline_def cpu_events_nth tsx_counting_def
        split: prod.splits if_splits)
  moreover have "printed st' = printed st \<or> (\<exists>m\<in>tsx_messages. printed st' = printed st @ m @ newline)"
    using r by (auto simp: PAPI_start_tsx_def checked_def say_def tsx_messages_def newline_def
        split: prod.splits if_splits)
  moreover have "thread_time st' = thread_time st"
    using r by (auto simp: PAPI_start_tsx_def checked_def say_def split: prod.splits if_splits)
  ultimately show ?thesis by (simp add: r)
qed

section \<open>The longest thread\<close>

text \<open>Calls that read the clock, and the value each of them reads.\<close>

datatype clock_call = Start_of nat | End_of nat

fun caller :: "clock_call \<Rightarrow> nat" where
  "caller (Start_of i) = i"
| "caller (End_of i) = i"

fun nsec_call :: "'w papi \<Rightarrow> clock_call \<Rightarrow> 'w binding \<Rightarrow> 'w binding call_result" where
  "nsec_call P (Start_of i) st = PAPI_start_nsec P (int i) st"
| "nsec_call P (End_of i) st = PAPI_end_nsec P (int i) st"

fun clock_log :: "'w papi \<Rightarrow> clock_call list \<Rightarrow> 'w \<Rightarrow> (clock_call \<times> int) list" where
  "clock_log P [] w = []"
| "clock_log P (c # cs) w = (let (now, w') = get_real_nsec P w in (c, now) # clock_log P cs w')"

text \<open>The reading at the last call \<open>c\<close>, or what was there before.\<close>

definition reading :: "clock_call \<Rightarrow> int \<Rightarrow> (clock_call \<times> int) list \<Rightarrow> int" where
  "reading c before rs = foldl (\<lambda>t (c', now). if c' = c then now else t) before rs"

definition duration :: "(clock_call \<times> int) list \<Rightarrow> nat \<Rightarrow> int" where
  "duration rs i = reading (End_of i) 0 rs - reading (Start_of i) 0 rs"

lemma reading_simps [simp]:
  "reading c t [] = t"
  "reading c t ((c', now) # rs) = reading c (if c' = c then now else t) rs"
  by (simp_all add: reading_def)

lemma reading_cases: "reading c t rs = t \<or> reading c t rs \<in> snd ` set rs"
  by (induction rs arbitrary: t) (auto split: if_splits, force+)

lemma nsec_calls:
  assumes "length (thread_time st) = MAX_NR_THREADS" and "\<forall>c\<in>set calls. caller c < MAX_NR_THREADS"
  shows "\<exists>st'. for_each (nsec_call P) calls st = Returns st' \<and>
    length (thread_time st') = MAX_NR_THREADS \<and>
    (\<forall>i<MAX_NR_THREADS.
       tm_start (thread_time st' ! i) =
         reading (Start_of i) (tm_start (thread_time st ! i)) (clock_log P calls (world st)) \<and>
       tm_end (thread_time st' ! i) =
         reading (End_of i) (tm_end (thread_time st ! i)) (clock_log P calls (world st)))"
  using assms
proof (induction calls arbitrary: st)
  case (Cons c calls)
  obtain now w where clock: "get_real_nsec P (world st) = (now, w)" by (cases "get_real_nsec P (world st)")
  define f where "f t = (case c of Start_of _ \<Rightarrow> t\<lparr>tm_start := now\<rparr> | End_of _ \<Rightarrow> t\<lparr>tm_end := now\<rparr>)"
    for t :: time_measure
  define st1 where "st1 = st\<lparr>world := w, thread_time := (thread_time st)[caller c := f (thread_time st ! caller c)]\<rparr>"
  have st1: "nsec_call P c st = Returns st1"
    using Cons.prems clock
    by (cases c) (auto simp: PAPI_start_nsec_def PAPI_end_nsec_def at_thread_def array_simps st1_def f_def)
  have len: "length (thread_time st1) = MAX_NR_THREADS" using Cons.prems by (simp add: st1_def)
  have c: "caller c < length (thread_time st)" using Cons.prems by simp
  have starts: "tm_start (thread_time st1 ! i) = (if c = Start_of i then now else tm_start (thread_time st ! i))"
    for i using c by (cases c) (simp_all add: st1_def f_def nth_list_update)
  have ends: "tm_end (thread_time st1 ! i) = (if c = End_of i then now else tm_end (thread_time st ! i))"
    for i using c by (cases c) (simp_all add: st1_def f_def nth_list_update)
  have "world st1 = w" by (simp add: st1_def)
  with Cons.IH [OF len] Cons.prems show ?case by (simp add: st1 clock starts ends)
qed simp

lemma elapse_ok:
  assumes "i < length (thread_time st)"
    and "- (2 ^ 63) \<le> tm_end (thread_time st ! i) - tm_start (thread_time st ! i)"
    and "tm_end (thread_time st ! i) - tm_start (thread_time st ! i) < 2 ^ 63"
  shows "elapse i st = Returns (tm_end (thread_time st ! i) - tm_start (thread_time st ! i),
    st\<lparr>thread_time := (thread_time st)[i := (thread_time st ! i)
      \<lparr>tm_elapsed := tm_end (thread_time st ! i) - tm_start (thread_time st ! i)\<rparr>]\<rparr>)"
  using assms by (simp add: elapse_def array_simps long_long_def)

lemma for_each_upt:
  assumes "a \<le> b" and "I a s"
    and "\<And>k s. a \<le> k \<Longrightarrow> k < b \<Longrightarrow> I k s \<Longrightarrow> \<exists>s'. body k s = Returns s' \<and> I (Suc k) s'"
  shows "\<exists>s'. for_each body [a..<b] s = Returns s' \<and> I b s'"
  using assms(1) assms(3)
proof (induction b rule: dec_induct)
  case base
  with assms(2) show ?case by simp
next
  case (step b)
  from step.IH [OF step.prems] obtain s1 where s1: "for_each body [a..<b] s = Returns s1" "I b s1" by auto
  with step.prems [of b s1] step.hyps obtain s2 where "body b s1 = Returns s2" "I (Suc b) s2" by auto
  with s1 step.hyps show ?case by (simp add: for_each_append)
qed

text \<open>What \<open>PAPI_measure\<close> has done after \<open>k\<close> slots: the times are as before, the maximum is known.\<close>

definition measured :: "(nat \<Rightarrow> int) \<Rightarrow> 'w binding \<Rightarrow> nat \<Rightarrow> int \<times> 'w binding \<Rightarrow> bool" where
  "measured d st0 k r \<longleftrightarrow> fst r = Max (d ` {..<k}) \<and> length (thread_time (snd r)) = MAX_NR_THREADS \<and>
     (\<forall>i<MAX_NR_THREADS.
        tm_start (thread_time (snd r) ! i) = tm_start (thread_time st0 ! i) \<and>
        tm_end (thread_time (snd r) ! i) = tm_end (thread_time st0 ! i) \<and>
        (i < k \<longrightarrow> tm_elapsed (thread_time (snd r) ! i) = d i))"

lemma PAPI_measure_max:
  assumes len: "length (thread_time st) = MAX_NR_THREADS"
    and d: "\<And>i. i < MAX_NR_THREADS \<Longrightarrow> tm_end (thread_time st ! i) - tm_start (thread_time st ! i) = d i"
    and bounded: "\<And>i. i < MAX_NR_THREADS \<Longrightarrow> - (2 ^ 63) \<le> d i \<and> d i < 2 ^ 63"
  shows "\<exists>st'. PAPI_measure st = Returns (Max (d ` {..<MAX_NR_THREADS}), st') \<and>
    measured d st MAX_NR_THREADS (Max (d ` {..<MAX_NR_THREADS}), st')"
proof -
  have pos: "0 < MAX_NR_THREADS" by (simp add: MAX_NR_THREADS_def)
  let ?body = "\<lambda>i (elapsed_nsec, st).
    and_then (elapse i st) (\<lambda>(e, st). Returns (if elapsed_nsec \<le> e then e else elapsed_nsec, st))"
  let ?st1 = "st\<lparr>thread_time := (thread_time st)[0 := (thread_time st ! 0)\<lparr>tm_elapsed := d 0\<rparr>]\<rparr>"
  have first: "elapse 0 st = Returns (d 0, ?st1)"
    using len pos d [OF pos] bounded [OF pos] by (subst elapse_ok) simp_all
  have start: "measured d st 1 (d 0, ?st1)"
    using len by (auto simp: measured_def nth_list_update lessThan_Suc)
  have "\<exists>r. for_each ?body [1..<MAX_NR_THREADS] (d 0, ?st1) = Returns r \<and> measured d st MAX_NR_THREADS r"
  proof (rule for_each_upt [where I = "measured d st", OF _ start])
    fix k r
    assume k: "1 \<le> k" "k < MAX_NR_THREADS" and I: "measured d st k r"
    obtain m st' where r: "r = (m, st')" by (cases r)
    let ?st2 = "st'\<lparr>thread_time := (thread_time st')[k := (thread_time st' ! k)\<lparr>tm_elapsed := d k\<rparr>]\<rparr>"
    have same: "tm_end (thread_time st' ! k) - tm_start (thread_time st' ! k) = d k"
      using I k(2) d [OF k(2)] by (simp add: measured_def r)
    then have "elapse k st' = Returns (d k, ?st2)"
      using I k(2) bounded [OF k(2)] by (subst elapse_ok) (simp_all add: measured_def r)
    moreover have "Max (d ` {..<Suc k}) = max (d k) (Max (d ` {..<k}))"
      using k(1) by (simp add: lessThan_Suc, subst Max_insert) (auto simp: lessThan_empty_iff)
    then have "measured d st (Suc k) (if m \<le> d k then d k else m, ?st2)"
      using I k(2) by (auto simp: measured_def r nth_list_update less_Suc_eq max_def)
    ultimately show "\<exists>r'. ?body k r = Returns r' \<and> measured d st (Suc k) r'" by (simp add: r)
  qed (use pos in simp)
  then obtain r where r: "for_each ?body [1..<MAX_NR_THREADS] (d 0, ?st1) = Returns r"
    "measured d st MAX_NR_THREADS r" by blast
  then have "fst r = Max (d ` {..<MAX_NR_THREADS})" by (simp add: measured_def)
  with r show ?thesis by (cases r) (simp add: PAPI_measure_def first)
qed

lemma reading_range:
  assumes "\<forall>r\<in>set rs. 0 \<le> snd r \<and> snd r < 2 ^ 63"
  shows "0 \<le> reading c 0 rs \<and> reading c 0 rs < 2 ^ 63"
  using reading_cases [of c 0 rs] assms by auto

text \<open>
  C28: after any sequence of calls of \<open>PAPI_start_nsec\<close> and \<open>PAPI_end_nsec\<close> by threads of the array, with
  clock readings of 63 bits, \<open>PAPI_measure\<close> is the largest of the durations of the 28 slots, each the
  last end minus the last start, with a slot nobody used counting as 0, no subtraction overflows,
  and afterwards \<open>PAPI_get_nsec\<close> still has each thread's own duration.
\<close>

theorem papi_longest_thread:
  assumes "\<forall>c\<in>set calls. caller c < MAX_NR_THREADS"
    and "\<forall>r\<in>set (clock_log P calls w). 0 \<le> snd r \<and> snd r < 2 ^ 63"
  shows "\<exists>st st'. for_each (nsec_call P) calls (binding0 w) = Returns st \<and>
    PAPI_measure st = Returns (Max (duration (clock_log P calls w) ` {..<MAX_NR_THREADS}), st') \<and>
    (\<forall>i<MAX_NR_THREADS. PAPI_get_nsec (int i) st' = Returns (duration (clock_log P calls w) i))"
proof -
  let ?rs = "clock_log P calls w"
  let ?d = "duration ?rs"
  have "length (thread_time (binding0 w)) = MAX_NR_THREADS" by (simp add: binding0_def thread_time0_def)
  from nsec_calls [OF this assms(1), of P] obtain st where
    st: "for_each (nsec_call P) calls (binding0 w) = Returns st"
    and len: "length (thread_time st) = MAX_NR_THREADS"
    and times: "\<And>i. i < MAX_NR_THREADS \<Longrightarrow>
      tm_end (thread_time st ! i) - tm_start (thread_time st ! i) = ?d i"
    by (auto simp: binding0_def thread_time0_def duration_def)
  have bounded: "- (2 ^ 63) \<le> ?d i \<and> ?d i < 2 ^ 63" for i
    using reading_range [OF assms(2), of "Start_of i"] reading_range [OF assms(2), of "End_of i"]
    by (simp add: duration_def)
  from PAPI_measure_max [OF len times] bounded obtain st' where
    st': "PAPI_measure st = Returns (Max (?d ` {..<MAX_NR_THREADS}), st')"
    and m: "measured ?d st MAX_NR_THREADS (Max (?d ` {..<MAX_NR_THREADS}), st')" by blast
  have "PAPI_get_nsec (int i) st' = Returns (?d i)" if "i < MAX_NR_THREADS" for i
    using that m times [OF that] bounded [of i]
    by (simp add: PAPI_get_nsec_def measured_def array_simps long_long_def)
  with st st' show ?thesis by blast
qed

text \<open>A clock that advances by ten at each reading and calls that all succeed.\<close>

definition ticking :: "int papi" where
  "ticking = \<lparr>papi_version = 7, papi_ok = 0, papi_null = - 1, papi_inherit_all = 1,
     library_init = \<lambda>v w. (v, w), create_eventset = \<lambda>e w. (0, 1, w),
     assign_eventset_component = \<lambda>e c w. (0, w), set_opt_inherit = \<lambda>i e w. (0, w),
     event_name_to_code = \<lambda>n w. (0, 0, w), add_events = \<lambda>e cs w. (0, w), papi_start = \<lambda>e w. (0, w),
     papi_read = \<lambda>e w. (0, [0, 0, 0], w), papi_stop = \<lambda>e w. (0, [0, 0, 0], w),
     get_real_nsec = \<lambda>w. (w, w + 10)\<rparr>"

lemma papi_longest_thread_witness:
  "\<exists>st st'. for_each (nsec_call ticking) [Start_of 0, Start_of 1, End_of 0, End_of 1] (binding0 5) = Returns st \<and>
    PAPI_measure st = Returns (20, st')"
proof -
  let ?calls = "[Start_of 0, Start_of 1, End_of 0, End_of 1]"
  have now: "get_real_nsec ticking t = (t, t + 10)" for t by (simp add: ticking_def)
  have rs: "clock_log ticking ?calls 5 = [(Start_of 0, 5), (Start_of 1, 15), (End_of 0, 25), (End_of 1, 35)]"
    by (simp add: now)
  have "duration (clock_log ticking ?calls 5) i = (if i < 2 then 20 else 0)" for i
    by (cases "i = 0"; cases "i = 1") (auto simp: now duration_def)
  then have "Max (duration (clock_log ticking ?calls 5) ` {..<MAX_NR_THREADS}) = 20"
    by (intro Max_eqI) (auto simp: MAX_NR_THREADS_def image_iff intro!: exI [of _ 0] bexI [of _ 0])
  with papi_longest_thread [of ?calls ticking 5] show ?thesis
    by (auto simp: now MAX_NR_THREADS_def)
qed

end
