(* ===== verification/Timer.thy ===== *)
theory Timer
  imports Prelude "HOL-Library.Monad_Syntax"
begin

text \<open>
  Busy waiting (\<open>common/timer/timer_x86.cpp\<close>): a loop that counts down, delays in micro- and
  nanoseconds in terms of \<open>loops_per_jiffy\<close>, and the calibration of that number against the clock
  ticks of the system. All arithmetic has the width of the source; \<open>unsigned long\<close> has 64 bits.
\<close>

unbundle bit_operations_syntax

section \<open>Delays\<close>

lemma unat_pred: "(x :: 64 word) \<noteq> 0 \<Longrightarrow> Suc (unat (x - 1)) = unat x"
  by (subst unat_sub) (auto simp: word_le_nat_alt Suc_le_eq unat_gt_0)

text \<open>The two instructions from label 2 on: the rounds until the register is zero.\<close>

function (sequential) count_down :: "64 word \<Rightarrow> nat" where
  "count_down r = (let r' = r - 1 in if r' = 0 then 1 else Suc (count_down r'))"
  by pat_completeness auto

termination
proof (relation "measure (\<lambda>r. unat (r - 1))")
  fix r r' :: "64 word" assume "r' = r - 1" "r' \<noteq> 0"
  then show "(r', r) \<in> measure (\<lambda>r. unat (r - 1))"
    using unat_pred [of r'] by simp
qed simp

declare count_down.simps [simp del]

text \<open>The number of rounds \<open>delay_loop\<close> makes.\<close>

definition delay_loop :: "64 word \<Rightarrow> nat" where
  "delay_loop loops = (if loops = 0 then 0 else count_down loops)"

text \<open>\<open>mull\<close>: the upper half of the product of the lower halves of two registers.\<close>

definition mull_high :: "64 word \<Rightarrow> 64 word \<Rightarrow> 64 word" where
  "mull_high a d = drop_bit 32 (take_bit 32 a * take_bit 32 d)"

text \<open>\<open>lpj\<close> is the variable \<open>loops_per_jiffy\<close>, \<open>HZ\<close> the number of clock ticks per second.\<close>

definition const_udelay :: "64 word \<Rightarrow> 64 word \<Rightarrow> 64 word \<Rightarrow> nat" where
  "const_udelay HZ lpj xloops =
     (let xloops = xloops * 4;
          xloops = mull_high xloops (lpj * (HZ div 4))
      in delay_loop (xloops + 1))"

definition useful_work_us :: "64 word \<Rightarrow> 64 word \<Rightarrow> 64 word \<Rightarrow> nat" where
  "useful_work_us HZ lpj usecs = const_udelay HZ lpj (usecs * 0x10c7)"

definition useful_work_ns :: "64 word \<Rightarrow> 64 word \<Rightarrow> 64 word \<Rightarrow> nat" where
  "useful_work_ns HZ lpj nsecs = const_udelay HZ lpj (nsecs * 0x5)"

section \<open>Calibration\<close>

text \<open>
  The machine as the calibration sees it: \<open>times\<close> reads the clock (\<open>JIFFIES\<close>), \<open>spin\<close> lets so many
  rounds of the delay loop go by.
\<close>

record 'w machine =
  times :: "'w \<Rightarrow> 64 word \<times> 'w"
  spin :: "nat \<Rightarrow> 'w \<Rightarrow> 'w"

text \<open>\<open>while (ticks == JIFFIES) ;\<close> need not end.\<close>

partial_function (option) wait_while :: "'w machine \<Rightarrow> 64 word \<Rightarrow> 'w \<Rightarrow> 'w option" where
  "wait_while M ticks w =
     (let r = times M w in if fst r = ticks then wait_while M ticks (snd r) else Some (snd r))"

text \<open>The three lines with which each measurement starts.\<close>

definition next_tick :: "'w machine \<Rightarrow> 'w \<Rightarrow> (64 word \<times> 'w) option" where
  "next_tick M w =
     (let (ticks, w1) = times M w
      in Option.bind (wait_while M ticks w1) (\<lambda>w2. Some (times M w2)))"

text \<open>
  The first loop, with its variables of type \<open>int\<close>: \<open>Some None\<close> is undefined behaviour (an overflow),
  \<open>None\<close> that it does not end.
\<close>

partial_function (option) band_loop ::
  "'w machine \<Rightarrow> 64 word \<Rightarrow> 64 word \<Rightarrow> int \<Rightarrow> int \<Rightarrow> int \<Rightarrow> 'w \<Rightarrow> (int \<times> int \<times> 'w) option option" where
  "band_loop M ticks lpj trial band trial_in_band w =
     (if \<not> band < 31 then Some None
      else let switch = (trial_in_band + 1 = 2 ^ nat band);
               band' = (if switch then band + 1 else band);
               trial_in_band' = (if switch then 0 else trial_in_band + 1);
               w1 = spin M (delay_loop (lpj * word_of_int band')) w;
               trial' = trial + band';
               r = times M w1
           in if \<not> trial' < 2 ^ 31 then Some None
              else if fst r = ticks then band_loop M ticks lpj trial' band' trial_in_band' (snd r)
              else Some (Some (trial', band', snd r)))"

definition LPS_PREC :: nat where
  "LPS_PREC = 8"

text \<open>The loop that halves \<open>loopadd\<close>.\<close>

partial_function (option) bisect ::
  "'w machine \<Rightarrow> 64 word \<Rightarrow> 64 word \<Rightarrow> 64 word \<Rightarrow> 'w \<Rightarrow> (64 word \<times> 64 word \<times> 'w) option" where
  "bisect M chop_limit lpj loopadd w =
     (if chop_limit < loopadd then
        Option.bind (next_tick M w) (\<lambda>(ticks, w1).
          let lpj1 = lpj + loopadd;
              r = times M (spin M (delay_loop lpj1) w1);
              lpj2 = (if fst r \<noteq> ticks then lpj1 - loopadd else lpj1)
          in bisect M chop_limit lpj2 (drop_bit 1 loopadd) (snd r))
      else Some (lpj, loopadd, w))"

text \<open>From the label \<open>recalibrate\<close> to the \<open>goto\<close>.\<close>

partial_function (option) recalibrate ::
  "'w machine \<Rightarrow> 64 word \<Rightarrow> 64 word \<Rightarrow> 'w \<Rightarrow> (64 word \<times> 'w) option" where
  "recalibrate M lpj_base loopadd_base w =
     Option.bind (bisect M (drop_bit LPS_PREC lpj_base) lpj_base loopadd_base w) (\<lambda>(lpj, loopadd, w1).
       if lpj + loopadd * 2 = lpj_base + loopadd_base * 2
       then recalibrate M lpj (push_bit 2 loopadd_base) w1
       else Some (lpj, w1))"

definition calibrate_delay :: "'w machine \<Rightarrow> 'w \<Rightarrow> (64 word \<times> 'w) option option" where
  "calibrate_delay M w =
     (let lpj = push_bit 12 1 in
      Option.bind (next_tick M w) (\<lambda>(ticks, w1).
      Option.bind (band_loop M ticks lpj 0 0 0 w1) (\<lambda>r.
        case r of
          None \<Rightarrow> Some None
        | Some (trial, band, w2) \<Rightarrow>
            let trial = trial - band;
                loopadd_base = lpj * word_of_int band;
                lpj_base = lpj * word_of_int trial
            in map_option Some (recalibrate M lpj_base loopadd_base w2))))"

section \<open>The length of a delay\<close>

lemma count_down_unat: "r \<noteq> 0 \<Longrightarrow> count_down r = unat r"
proof (induction r rule: count_down.induct)
  case (1 r)
  show ?case
  proof (cases "r - 1 = 0")
    case True
    then have "r = 1" by simp
    then show ?thesis by (simp add: count_down.simps [of 1])
  next
    case False
    with 1 unat_pred [of r] show ?thesis by (simp add: count_down.simps [of r] Let_def)
  qed
qed

lemma delay_loop_unat: "delay_loop loops = unat loops"
  by (simp add: delay_loop_def count_down_unat)

text \<open>
  The loop ends for every argument, after exactly as many rounds as the argument says; zero, from
  which a countdown would run through all $2^{64}$ values, is handled by the test before it.
\<close>

theorem delay_loop_rounds: "delay_loop loops = unat loops"
  by (rule delay_loop_unat)

lemma unat_mult_less: "unat a * unat b < 2 ^ 64 \<Longrightarrow> unat (a * b :: 64 word) = unat a * unat b"
  by (simp add: unat_word_ariths)

lemma unat_add_less: "unat a + unat b < 2 ^ 64 \<Longrightarrow> unat (a + b :: 64 word) = unat a + unat b"
  by (simp add: unat_word_ariths)

lemma unat_take_bit_32: "unat (take_bit 32 (a :: 64 word)) = unat a mod 2 ^ 32"
  unfolding unsigned_take_bit_eq by (rule take_bit_eq_mod)

lemma unat_drop_bit_div: "unat (drop_bit n (a :: 64 word)) = unat a div 2 ^ n"
  using unsigned_less [of a, where 'a = nat]
  unfolding unsigned_drop_bit_eq by (simp add: drop_bit_eq_div take_bit_nat_eq_self)

lemma unat_mull_high: "unat (mull_high a d) = (unat a mod 2 ^ 32) * (unat d mod 2 ^ 32) div 2 ^ 32"
proof -
  let ?a = "unat a mod 2 ^ 32" and ?d = "unat d mod 2 ^ 32"
  have "?a * ?d \<le> 2 ^ 32 * ?d" by (intro mult_right_mono) simp_all
  also have "\<dots> < 2 ^ 32 * 2 ^ 32" by simp
  finally have "?a * ?d < 2 ^ 64" by simp
  then show ?thesis
    by (simp add: mull_high_def unat_drop_bit_div unat_mult_less unat_take_bit_32)
qed

text \<open>The rounds of a delay: one for the increment, and the upper half of the product.\<close>

lemma const_udelay_rounds:
  "const_udelay HZ lpj xloops =
     Suc (unat (xloops * 4) mod 2 ^ 32 * (unat (lpj * (HZ div 4)) mod 2 ^ 32) div 2 ^ 32)"
proof -
  let ?a = "unat (xloops * 4) mod 2 ^ 32" and ?d = "unat (lpj * (HZ div 4)) mod 2 ^ 32"
  let ?h = "mull_high (xloops * 4) (lpj * (HZ div 4))"
  have "?a * ?d div 2 ^ 32 \<le> 2 ^ 32 * ?d div 2 ^ 32"
    by (intro div_le_mono mult_right_mono) simp_all
  also have "\<dots> < 2 ^ 32" by simp
  finally have "unat ?h + unat (1 :: 64 word) < 2 ^ 64" by (simp add: unat_mull_high)
  then have "unat (?h + 1) = Suc (unat ?h)" by (subst unat_add_less) simp_all
  then show ?thesis by (simp add: const_udelay_def delay_loop_unat unat_mull_high)
qed

lemma useful_work_ns_bounds:
  assumes "20 * unat nsecs < 2 ^ 32" and "4 dvd unat HZ" and "unat lpj * (unat HZ div 4) < 2 ^ 32"
  shows "useful_work_ns HZ lpj nsecs = Suc (5 * unat nsecs * unat HZ * unat lpj div 2 ^ 32)"
    and "unat nsecs * unat HZ * unat lpj \<le> 10 ^ 9 * useful_work_ns HZ lpj nsecs"
    and "2 ^ 32 * (useful_work_ns HZ lpj nsecs - 1) \<le> 5 * unat nsecs * unat HZ * unat lpj"
proof -
  obtain q where q: "unat HZ = 4 * q" using assms(2) by (auto simp: dvd_def)
  have "unat (HZ div 4) = q" by (simp add: unat_div q)
  with assms(3) have d: "unat (lpj * (HZ div 4)) = unat lpj * q" by (subst unat_mult_less) (simp_all add: q)
  have "unat (nsecs * 0x5) = unat nsecs * 5" using assms(1) by (subst unat_mult_less) simp_all
  with assms(1) have a: "unat (nsecs * 0x5 * 4) = 20 * unat nsecs" by (subst unat_mult_less) simp_all
  let ?X = "unat nsecs * unat HZ * unat lpj"
  have prod: "20 * unat nsecs * (unat lpj * q) = 5 * ?X" by (simp add: q)
  have lpj: "unat lpj * q < 2 ^ 32" using assms(3) by (simp add: q)
  show eq: "useful_work_ns HZ lpj nsecs = Suc (5 * unat nsecs * unat HZ * unat lpj div 2 ^ 32)"
    unfolding useful_work_ns_def const_udelay_rounds a d mod_less [OF assms(1)] mod_less [OF lpj] prod
    by (simp add: ac_simps)
  have "5 * ?X < 2 ^ 32 * Suc (5 * ?X div 2 ^ 32)"
    using mult_div_mod_eq [of "2 ^ 32" "5 * ?X"] mod_less_divisor [of "2 ^ 32" "5 * ?X"] by simp
  then show "?X \<le> 10 ^ 9 * useful_work_ns HZ lpj nsecs" unfolding eq by (simp add: ac_simps)
  show "2 ^ 32 * (useful_work_ns HZ lpj nsecs - 1) \<le> 5 * unat nsecs * unat HZ * unat lpj"
    unfolding eq by (simp add: times_div_less_eq_dividend)
qed

text \<open>
  C36: a delay of \<open>n\<close> nanoseconds is never too short and at most a sixth too long: as long as \<open>20 * n\<close>
  and \<open>lpj * HZ / 4\<close> have 32 bits, it makes at least the rounds that \<open>n\<close> nanoseconds take on a machine
  with \<open>HZ\<close> jiffies per second and \<open>lpj\<close> rounds per jiffy, and at most one more than
  \<open>5 * 10^9 / 2^32\<close> times these. But the product is taken modulo $2^{32}$: delays that differ by
  $2^{30}$ nanoseconds are the same.
\<close>

theorem delay_ns_bounds:
  "(20 * unat nsecs < 2 ^ 32 \<and> 4 dvd unat HZ \<and> unat lpj * (unat HZ div 4) < 2 ^ 32 \<longrightarrow>
     unat nsecs * unat HZ * unat lpj \<le> 10 ^ 9 * useful_work_ns HZ lpj nsecs \<and>
     2 ^ 32 * (useful_work_ns HZ lpj nsecs - 1) \<le> 5 * unat nsecs * unat HZ * unat lpj) \<and>
   useful_work_ns HZ lpj (nsecs + 2 ^ 30) = useful_work_ns HZ lpj nsecs"
proof -
  have "(nsecs + 2 ^ 30) * 5 * 4 = nsecs * 5 * 4 + 0x500000000" by (simp add: algebra_simps)
  moreover have "unat (x + 0x500000000) mod 2 ^ 32 = unat x mod 2 ^ 32" for x :: "64 word"
  proof -
    have "unat (x + 0x500000000) = (unat x + 5 * 2 ^ 32) mod 2 ^ 64" by (simp add: unat_word_ariths)
    moreover have "(unat x + 5 * 2 ^ 32) mod 2 ^ 64 mod 2 ^ 32 = (unat x + 5 * 2 ^ 32) mod (2 ^ 32 :: nat)"
      by (rule mod_mod_cancel) (simp add: dvd_def)
    ultimately show ?thesis by (simp only: mod_mult_self1)
  qed
  ultimately have "useful_work_ns HZ lpj (nsecs + 2 ^ 30) = useful_work_ns HZ lpj nsecs"
    by (simp only: useful_work_ns_def const_udelay_rounds)
  with useful_work_ns_bounds [of nsecs HZ lpj] show ?thesis by blast
qed

lemma delay_ns_bounds_witness:
  "\<exists>n. useful_work_ns 100 40000000 1000 = n \<and> 4000 \<le> n \<and> n \<le> 4658"
  using delay_ns_bounds [of 1000 100 40000000] by simp linarith

end
