(* ===== verification/Calibration.thy ===== *)
theory Calibration
  imports Timer
begin

text \<open>
  What the calibration of \<open>Timer\<close> computes on a machine of constant speed: it ends, without overflow,
  and \<open>loops_per_jiffy\<close> is within one part in 128 of the rounds of the delay loop per clock tick. With
  the length of a delay this gives the time that \<open>useful_work_ns\<close> takes.
\<close>

section \<open>A machine of constant speed\<close>

text \<open>
  Time is counted in rounds of the delay loop; there are \<open>L\<close> of them to a clock tick, and reading the
  clock takes the time of \<open>c\<close>.
\<close>

definition steady :: "nat \<Rightarrow> nat \<Rightarrow> nat machine" where
  "steady L c = \<lparr>times = \<lambda>t. (of_nat (t div L), t + c), spin = \<lambda>n t. t + n\<rparr>"

definition steady_ok :: "nat \<Rightarrow> nat \<Rightarrow> bool" where
  "steady_ok L c \<longleftrightarrow> 0 < c \<and> c \<le> 2 ^ 10 \<and> 2 ^ 14 \<le> L \<and> L < 2 ^ 42"

lemma steady_simps [simp]:
  "times (steady L c) t = (of_nat (t div L), t + c)"
  "spin (steady L c) n t = t + n"
  by (simp_all add: steady_def)

lemma of_nat_eq_near:
  assumes "(of_nat a :: 64 word) = of_nat b" and "a \<le> b" and "b - a < 2 ^ 64"
  shows "a = b"
proof -
  have "(of_nat (b - a) :: 64 word) = 0" using assms(1,2) by (simp add: of_nat_diff)
  then have "2 ^ 64 dvd b - a" by (simp add: word_of_nat_eq_0_iff)
  with assms(2,3) show ?thesis by (auto dest: dvd_imp_le)
qed

lemma wait_while_steady:
  assumes "steady_ok L c" and "q * L \<le> t" and "t < Suc q * L + c"
  shows "\<exists>s. wait_while (steady L c) (of_nat q) t = Some (s + c) \<and> Suc q * L \<le> s \<and> s < Suc q * L + c"
  using assms(2,3)
proof (induction "Suc q * L + c - t" arbitrary: t rule: less_induct)
  case less
  have L: "c < L" "0 < c" using assms(1) by (simp_all add: steady_ok_def)
  show ?case
  proof (cases "t < Suc q * L")
    case True
    with less.prems have "t div L = q" by (intro div_nat_eqI) (simp_all add: ac_simps)
    then have "wait_while (steady L c) (of_nat q) t = wait_while (steady L c) (of_nat q) (t + c)"
      by (subst wait_while.simps) simp
    moreover have "Suc q * L + c - (t + c) < Suc q * L + c - t" "q * L \<le> t + c" "t + c < Suc q * L + c"
      using True less.prems L by linarith+
    ultimately show ?thesis using less.hyps [of "t + c"] by simp
  next
    case False
    with less.prems L have "t div L = Suc q" by (intro div_nat_eqI) (simp_all add: ac_simps)
    moreover have "(of_nat (Suc q) :: 64 word) \<noteq> of_nat q" by simp
    ultimately show ?thesis
      using False less.prems by (subst wait_while.simps) auto
  qed
qed

text \<open>A measurement starts shortly after a tick.\<close>

lemma next_tick_steady:
  assumes "steady_ok L c"
  shows "\<exists>q s. next_tick (steady L c) t = Some (of_nat q, s) \<and> q * L + 2 * c \<le> s \<and> s < q * L + 3 * c"
proof -
  have L: "3 * c < L" "0 < c" using assms by (simp_all add: steady_ok_def)
  let ?q = "t div L"
  have "?q * L \<le> t" by simp
  then have "?q * L \<le> t + c" "t + c < Suc ?q * L + c"
    using L dividend_less_div_times [of L t] by (linarith, simp)
  from wait_while_steady [OF assms this] obtain s where
    s: "wait_while (steady L c) (of_nat ?q) (t + c) = Some (s + c)" "Suc ?q * L \<le> s" "s < Suc ?q * L + c"
    by blast
  have "(s + c) div L = Suc ?q" using s(2,3) L by (intro div_nat_eqI) (simp_all add: ac_simps)
  with s show ?thesis
    by (intro exI [of _ "Suc ?q"] exI [of _ "s + c + c"]) (simp add: next_tick_def)
qed

text \<open>Whether the clock ticks during a delay that starts then.\<close>

lemma tick_during:
  assumes "steady_ok L c" and "q * L + 2 * c \<le> s" and "s < q * L + 3 * c" and "n < 2 ^ 63"
  shows "((of_nat ((s + n) div L) :: 64 word) \<noteq> of_nat q) = (Suc q * L \<le> s + n)"
proof
  assume "(of_nat ((s + n) div L) :: 64 word) \<noteq> of_nat q"
  then have "(s + n) div L \<noteq> q" by auto
  show "Suc q * L \<le> s + n"
  proof (rule ccontr)
    assume "\<not> ?thesis"
    with assms(2) have "(s + n) div L = q" by (intro div_nat_eqI) (simp_all add: ac_simps)
    with \<open>(s + n) div L \<noteq> q\<close> show False ..
  qed
next
  assume *: "Suc q * L \<le> s + n"
  have L: "3 * c < 2 ^ 12" "0 < L" using assms(1) by (simp_all add: steady_ok_def)
  have "Suc q \<le> (s + n) div L" using * L(2) by (simp add: less_eq_div_iff_mult_less_eq)
  moreover have "(s + n) div L \<le> (q * L + (3 * c + n)) div L" using assms(3) by (intro div_le_mono) simp
  moreover have "(q * L + (3 * c + n)) div L = q + (3 * c + n) div L" using L(2) by simp
  moreover have "(3 * c + n) div L \<le> 3 * c + n" by simp
  moreover have "3 * c + n < 2 ^ 64" using L(1) assms(4) by simp
  ultimately have "q \<le> (s + n) div L" "(s + n) div L - q < 2 ^ 64" "q \<noteq> (s + n) div L" by linarith+
  then show "(of_nat ((s + n) div L) :: 64 word) \<noteq> of_nat q"
    using of_nat_eq_near [of q "(s + n) div L"] by auto
qed

section \<open>The search\<close>

text \<open>
  The search for the number of rounds to a tick works on \<open>lpj\<close> and \<open>loopadd\<close>, here numbers \<open>p\<close> and
  \<open>a\<close>. It keeps \<open>p\<close> below the target; unless every measurement so far was too short, the target is
  below \<open>p + 2 * a\<close>.
\<close>

definition found :: "nat \<Rightarrow> nat \<Rightarrow> nat \<Rightarrow> nat \<Rightarrow> nat \<Rightarrow> nat \<Rightarrow> nat \<Rightarrow> bool" where
  "found L c chop p a p' a' \<longleftrightarrow>
     a' \<le> chop \<and> p \<le> p' \<and> (p' = p \<or> p' < L) \<and> p' + 2 * a' \<le> p + 2 * a \<and>
     (p' + 2 * a' = p + 2 * a \<or> L < p' + 2 * a' + 3 * c) \<and>
     (p' + 2 * a' = p + 2 * a \<longrightarrow> chop < a \<longrightarrow> p + a \<le> p') \<and> (a \<le> chop \<longrightarrow> p' = p)"

text \<open>Halving is exact while it goes on, if it starts from a multiple of 4096 not far above the limit.\<close>

definition halves :: "nat \<Rightarrow> nat \<Rightarrow> bool" where
  "halves chop a \<longleftrightarrow> 0 < chop \<and> (\<exists>k m. a * 2 ^ k = 4096 * m \<and> 4096 * m \<le> 1024 * chop)"

lemma halves_step:
  assumes "halves chop a" and "chop < a"
  shows "2 * (a div 2) = a" and "halves chop (a div 2)"
proof -
  from assms(1) obtain k m where k: "a * 2 ^ k = 4096 * m" "4096 * m \<le> 1024 * chop" and pos: "0 < chop"
    by (auto simp: halves_def)
  have "2 ^ k * a \<le> 1024 * chop" using k by (simp add: ac_simps)
  also have "\<dots> < 1024 * a" using assms(2) by simp
  finally have "(2 :: nat) ^ k < 2 ^ 10" by simp
  then have "k < 10" by (rule power_less_imp_less_exp [rotated]) simp
  then have "(4096 :: nat) = 2 ^ k * (2 * 2 ^ (11 - k))"
    by (simp flip: power_Suc power_add add: Suc_diff_le)
  with k(1) have "2 ^ k * a = 2 ^ k * (2 * 2 ^ (11 - k) * m)" by (simp add: ac_simps)
  then have a: "a = 2 * (2 ^ (11 - k) * m)" by simp
  then show even: "2 * (a div 2) = a" by simp
  have "a div 2 * 2 ^ Suc k = 2 * (a div 2) * 2 ^ k" by simp
  also have "\<dots> = 4096 * m" using even k(1) by simp
  finally have "a div 2 * 2 ^ Suc k = 4096 * m" .
  with k(2) pos show "halves chop (a div 2)" unfolding halves_def by blast
qed

lemma unat_of_nat_small: "n < 2 ^ 64 \<Longrightarrow> unat (of_nat n :: 64 word) = n"
  by (simp add: unat_of_nat)

lemma of_nat_less_64: "m < 2 ^ 64 \<Longrightarrow> n < 2 ^ 64 \<Longrightarrow> ((of_nat m :: 64 word) < of_nat n) = (m < n)"
  by (simp add: word_less_nat_alt unat_of_nat_small)

lemma drop_bit_of_nat_64: "m < 2 ^ 64 \<Longrightarrow> drop_bit n (of_nat m :: 64 word) = of_nat (m div 2 ^ n)"
  by (rule word_unat_eq_iff [THEN iffD2]) (simp add: unat_drop_bit_div unat_of_nat_small
      le_less_trans [OF div_le_dividend])

lemma bisect_steady:
  assumes ok: "steady_ok L c" and "halves chop a" and "p + 2 * a < 2 ^ 63" and chop: "chop < 2 ^ 63"
  shows "\<exists>p' a' w'. bisect (steady L c) (of_nat chop) (of_nat p) (of_nat a) w =
      Some (of_nat p', of_nat a', w') \<and> found L c chop p a p' a'"
  using assms(2,3)
proof (induction a arbitrary: p w rule: less_induct)
  case (less a)
  show ?case
  proof (cases "chop < a")
    case False
    with less.prems(2) chop have "\<not> (of_nat chop :: 64 word) < of_nat a" by (simp add: of_nat_less_64)
    moreover from False have "found L c chop p a p a" by (simp add: found_def)
    ultimately show ?thesis by (subst bisect.simps) auto
  next
    case True
    note half = halves_step [OF less.prems(1) True]
    let ?M = "steady L c"
    obtain q s where tick: "next_tick ?M w = Some (of_nat q, s)" and s: "q * L + 2 * c \<le> s" "s < q * L + 3 * c"
      using next_tick_steady [OF ok] by blast
    have small: "p + a < 2 ^ 63" "chop < 2 ^ 64" "a < 2 ^ 64" using less.prems(2) True chop by simp_all
    then have "unat (of_nat p + of_nat a :: 64 word) = p + a"
      by (simp flip: of_nat_add add: unat_of_nat_small)
    then have delay: "delay_loop (of_nat p + of_nat a) = p + a" by (simp add: delay_loop_unat)
    have less: "(of_nat chop :: 64 word) < of_nat a" using small True by (simp add: of_nat_less_64)
    let ?p = "if Suc q * L \<le> s + (p + a) then p else p + a"
    have "bisect ?M (of_nat chop) (of_nat p) (of_nat a) w =
        bisect ?M (of_nat chop) (of_nat ?p) (of_nat (a div 2)) (s + (p + a) + c)"
      using small tick_during [OF ok s small(1)]
      by (subst bisect.simps)
        (simp add: tick Let_def delay less drop_bit_of_nat_64)
    moreover have "a div 2 < a" "?p + 2 * (a div 2) < 2 ^ 63" using True half(1) less.prems(2) by auto
    ultimately obtain p' a' w' where
      r: "bisect ?M (of_nat chop) (of_nat p) (of_nat a) w = Some (of_nat p', of_nat a', w')"
      and f: "found L c chop ?p (a div 2) p' a'"
      using less.IH [of "a div 2" ?p "s + (p + a) + c"] half(2) by auto
    have "found L c chop p a p' a'"
      using f half(1) s True by (auto simp: found_def split: if_splits)
    with r show ?thesis by blast
  qed
qed

text \<open>
  Starting from a lower bound \<open>b\<close> and a step that is not much larger, the search ends: each repetition
  raises the bound or brings the step above the limit.
\<close>

lemma halves_start:
  assumes "a \<le> 4 * b" and "4096 dvd a" and "0 < a"
  shows "halves (b div 256) a"
proof -
  obtain m where m: "a = 4096 * m" using assms(2) by (auto simp: dvd_def)
  have "1024 * m \<le> b" using assms(1) m by simp
  then have "(1024 * m) div 256 \<le> b div 256" by (rule div_le_mono)
  then have "4 * m \<le> b div 256" by simp
  moreover have "0 < m" using assms(3) m by simp
  moreover have "a * 2 ^ 0 = 4096 * m" using m by simp
  ultimately have "0 < b div 256" "a * 2 ^ 0 = 4096 * m" "4096 * m \<le> 1024 * (b div 256)" by simp_all
  then show ?thesis unfolding halves_def by blast
qed

lemma recalibrate_steady:
  assumes ok: "steady_ok L c" and "b < L" and "a \<le> 4 * b" and "4096 dvd a" and "0 < a"
  shows "\<exists>p w'. recalibrate (steady L c) (of_nat b) (of_nat a) w = Some (of_nat p, w') \<and>
    p < L \<and> L < p + 2 * (p div 256) + 3 * c"
  using assms(2-)
proof (induction "(L - b, 4 * b - a)" arbitrary: b a w rule: wf_induct_rule [OF wf_lex_prod [OF wf_less_than wf_less_than]])
  case (1 b a)
  let ?M = "steady L c" and ?chop = "b div 256"
  have L: "L < 2 ^ 42" using ok by (simp add: steady_ok_def)
  have small: "b + 2 * a < 2 ^ 62" using "1.prems"(1,2) L by simp
  have chop: "?chop < 2 ^ 63" using small by (simp add: div_less_iff_less_mult)
  have "b + 2 * a < 2 ^ 63" using small by simp
  from bisect_steady [OF ok halves_start [OF "1.prems"(2-4)] this chop, of w] obtain p a' w' where
    r: "bisect ?M (of_nat ?chop) (of_nat b) (of_nat a) w = Some (of_nat p, of_nat a', w')"
    and f: "found L c ?chop b a p a'" by blast
  have drop: "drop_bit LPS_PREC (of_nat b :: 64 word) = of_nat ?chop"
    using small by (simp add: LPS_PREC_def drop_bit_of_nat_64)
  have eq: "((of_nat p :: 64 word) + of_nat a' * 2 = of_nat b + of_nat a * 2) = (p + a' * 2 = b + a * 2)"
  proof -
    have "p + a' * 2 < 2 ^ 64" "b + a * 2 < 2 ^ 64" using f small by (simp_all add: found_def)
    then have "(of_nat (p + a' * 2) = (of_nat (b + a * 2) :: 64 word)) = (p + a' * 2 = b + a * 2)"
      by (metis unat_of_nat_small)
    then show ?thesis by simp
  qed
  show ?case
  proof (cases "p + a' * 2 = b + a * 2")
    case False
    with f have "p < L" "L < p + 2 * a' + 3 * c" "a' \<le> ?chop" "b \<le> p"
      using "1.prems"(1) by (auto simp: found_def)
    moreover have "?chop \<le> p div 256" using \<open>b \<le> p\<close> by (rule div_le_mono)
    ultimately have "p < L \<and> L < p + 2 * (p div 256) + 3 * c" by linarith
    with False show ?thesis
      by (subst recalibrate.simps) (auto simp: drop r eq)
  next
    case True
    have push: "push_bit 2 (of_nat a) = (of_nat (4 * a) :: 64 word)" by (simp add: push_bit_eq_mult)
    have again: "recalibrate ?M (of_nat b) (of_nat a) w = recalibrate ?M (of_nat p) (of_nat (4 * a)) w'"
      using True by (subst recalibrate.simps) (simp add: drop r eq push del: of_nat_mult)
    have p: "p < L" "b \<le> p" "?chop < a \<longrightarrow> b + a \<le> p" "a \<le> ?chop \<longrightarrow> p = b"
      using f True "1.prems"(1) by (auto simp: found_def)
    have "4 * a \<le> 4 * p"
      using p(2,3) by (cases "?chop < a") (auto intro: order_trans [OF _ div_le_dividend])
    moreover have "((L - p, 4 * p - 4 * a), (L - b, 4 * b - a)) \<in> less_than <*lex*> less_than"
    proof (cases "?chop < a")
      case True
      with p(1,3) "1.prems"(4) have "L - p < L - b" by linarith
      then show ?thesis by simp
    next
      case False
      moreover have "a \<le> b" using False div_le_dividend [of b 256] by linarith
      ultimately show ?thesis using p(4) "1.prems"(4) by simp
    qed
    ultimately show ?thesis
      using "1.hyps" [of p "4 * a" w'] p(1) "1.prems"(3,4) unfolding again by (simp add: dvd_mult)
  qed
qed

section \<open>The first bounds\<close>

text \<open>
  The state of the first loop after \<open>T\<close> (\<open>trial\<close>), \<open>b\<close> (\<open>band\<close>) and \<open>i\<close> (\<open>trial_in_band\<close>) at time
  \<open>w\<close>, when the clock showed tick \<open>q\<close> at time \<open>s\<close>: the \<open>T\<close> delays have passed without a tick, and the
  bands are logarithmic in their number.
\<close>

definition banding :: "nat \<Rightarrow> nat \<Rightarrow> nat \<Rightarrow> nat \<Rightarrow> nat \<Rightarrow> nat \<Rightarrow> nat \<Rightarrow> nat \<Rightarrow> bool" where
  "banding L c q s T b i w \<longleftrightarrow>
     s + 4096 * T \<le> w \<and> w < Suc q * L + c \<and> (T = 0 \<longrightarrow> w = s) \<and>
     b \<le> T \<and> 2 ^ b + i \<le> T + 2 \<and> (b = 0 \<longrightarrow> i = 0) \<and> i < 2 ^ b"

definition next_band :: "nat \<Rightarrow> nat \<Rightarrow> nat \<times> nat" where
  "next_band b i = (if Suc i = 2 ^ b then (Suc b, 0) else (b, Suc i))"

lemma banding_bounds:
  assumes "steady_ok L c" and "q * L + 2 * c \<le> s" and "banding L c q s T b i w"
  shows "4096 * T < L" and "T < 2 ^ 30" and "b < 31" and "T + fst (next_band b i) < 2 ^ 31"
    and "0 < fst (next_band b i)" and "fst (next_band b i) \<le> Suc T"
proof -
  show T: "4096 * T < L" using assms(2,3) by (simp add: banding_def)
  moreover have "L < 2 ^ 42" using assms(1) by (simp add: steady_ok_def)
  ultimately show T30: "T < 2 ^ 30" by simp
  have "2 ^ b \<le> T + 2" using assms(3) by (simp add: banding_def)
  also have "\<dots> < 2 ^ 31" using T30 by simp
  finally have "(2 :: nat) ^ b < 2 ^ 31" .
  then show "b < 31" by (rule power_less_imp_less_exp [rotated]) simp
  show b1: "fst (next_band b i) \<le> Suc T" using assms(3) by (simp add: banding_def next_band_def)
  then show "T + fst (next_band b i) < 2 ^ 31" using T30 by simp
  show "0 < fst (next_band b i)" using assms(3) by (cases b) (auto simp: banding_def next_band_def)
qed

lemma banding_step:
  assumes "banding L c q s T b i w" and "next_band b i = (b1, i1)" and "w + 4096 * b1 < Suc q * L"
  shows "banding L c q s (T + b1) b1 i1 (w + 4096 * b1 + c)"
proof -
  have inv: "b \<le> T" "2 ^ b + i \<le> T + 2" "i < 2 ^ b" "s + 4096 * T \<le> w" using assms(1)
    by (simp_all add: banding_def)
  have pos: "0 < b1" using assms(1,2) by (cases b) (auto simp: banding_def next_band_def split: if_splits)
  have "2 ^ b1 + i1 \<le> T + b1 + 2 \<and> i1 < 2 ^ b1"
  proof (cases "Suc i = 2 ^ b")
    case True
    with assms(2) have "b1 = Suc b" "i1 = 0" by (simp_all add: next_band_def)
    moreover have "2 ^ Suc b = 2 ^ b + Suc i" using True by simp
    ultimately show ?thesis using inv(2) by simp
  next
    case False
    with assms(2) have "b1 = b" "i1 = Suc i" by (simp_all add: next_band_def)
    with inv(2,3) pos False show ?thesis by simp
  qed
  moreover have "s + 4096 * (T + b1) \<le> w + 4096 * b1 + c" using inv(4) by simp
  moreover have "w + 4096 * b1 + c < Suc q * L + c" using assms(3) by simp
  ultimately show ?thesis using pos by (simp only: banding_def) simp
qed

lemma band_loop_steady:
  assumes ok: "steady_ok L c" and s: "q * L + 2 * c \<le> s" "s < q * L + 3 * c"
    and "banding L c q s T b i w"
  shows "\<exists>T' b' w'. band_loop (steady L c) (of_nat q) (push_bit 12 1) (int T) (int b) (int i) w =
      Some (Some (int (T' + b'), int b', w')) \<and> 4096 * T' < L \<and> 0 < b' \<and> b' \<le> 2 * T' \<and> b' < 2 ^ 32"
  using assms(4)
proof (induction "Suc q * L + c - w" arbitrary: T b i w rule: less_induct)
  case less
  let ?M = "steady L c"
  obtain b1 i1 where next1: "next_band b i = (b1, i1)" by (cases "next_band b i")
  note bounds = banding_bounds [OF ok s(1) less.prems, unfolded next1 fst_conv]
  have band: "(int i + 1 = 2 ^ nat (int b)) = (Suc i = 2 ^ b)"
    by (metis nat_int of_nat_Suc of_nat_numeral of_nat_power of_nat_eq_iff add.commute)
  have b1: "(if int i + 1 = 2 ^ nat (int b) then int b + 1 else int b) = int b1"
    and i1: "(if int i + 1 = 2 ^ nat (int b) then 0 else int i + 1) = int i1"
    using next1 unfolding band by (auto simp: next_band_def split: if_splits)
  have w1: "delay_loop (push_bit 12 1 * of_nat b1) = 4096 * b1"
  proof -
    have "4096 * b1 < 2 ^ 64" using bounds(2,6) by simp
    then have "unat (of_nat (4096 * b1) :: 64 word) = 4096 * b1" by (rule unat_of_nat_small)
    then show ?thesis by (simp add: delay_loop_unat push_bit_eq_mult)
  qed
  let ?w1 = "w + 4096 * b1"
  have "s \<le> w" "w < Suc q * L + c" using less.prems by (simp_all add: banding_def)
  have n: "s + (?w1 - s) = ?w1" "?w1 - s < 2 ^ 63"
  proof -
    show "s + (?w1 - s) = ?w1" using \<open>s \<le> w\<close> by simp
    have "?w1 - s < L + c + 4096 * b1" using \<open>w < Suc q * L + c\<close> \<open>s \<le> w\<close> s(1) by simp
    also have "\<dots> < 2 ^ 63" using ok bounds(2,6) by (simp add: steady_ok_def)
    finally show "?w1 - s < 2 ^ 63" .
  qed
  have ticks: "((of_nat (?w1 div L) :: 64 word) = of_nat q) = (?w1 < Suc q * L)"
    using tick_during [OF ok s n(2)] unfolding n(1) by (metis linorder_not_less)
  have step: "band_loop ?M (of_nat q) (push_bit 12 1) (int T) (int b) (int i) w =
      (if ?w1 < Suc q * L
       then band_loop ?M (of_nat q) (push_bit 12 1) (int (T + b1)) (int b1) (int i1) (?w1 + c)
       else Some (Some (int (T + b1), int b1, ?w1 + c)))"
  proof -
    have "int b < 31" "int T + int b1 < 2 ^ 31" using bounds(3,4) by simp_all
    then show ?thesis
      unfolding band_loop.simps [of _ _ _ "int T"] Let_def b1 i1 using w1 by (simp add: ticks)
  qed
  show ?case
  proof (cases "?w1 < Suc q * L")
    case True
    have "Suc q * L + c - (?w1 + c) < Suc q * L + c - w"
      using \<open>w < Suc q * L + c\<close> bounds(5) True by simp
    from less.hyps [OF this banding_step [OF less.prems next1 True]] True show ?thesis by (simp only: step) simp
  next
    case False
    have "T \<noteq> 0"
    proof
      assume "T = 0"
      with less.prems bounds(6) have "w = s" "b1 \<le> 1" by (simp_all add: banding_def)
      then have "?w1 \<le> s + 4096" by simp
      also have "\<dots> < Suc q * L" using s(2) ok by (simp add: steady_ok_def)
      finally show False using False by simp
    qed
    with bounds(6) have "b1 \<le> 2 * T" by simp
    moreover have "b1 < 2 ^ 32" using bounds(4) by simp
    moreover have "band_loop ?M (of_nat q) (push_bit 12 1) (int T) (int b) (int i) w =
        Some (Some (int (T + b1), int b1, ?w1 + c))"
      using False by (simp only: step if_False)
    ultimately show ?thesis using bounds(1,5) by blast
  qed
qed

section \<open>The result\<close>

lemma calibrate_steady:
  assumes ok: "steady_ok L c"
  shows "\<exists>lpj w'. calibrate_delay (steady L c) w = Some (Some (lpj, w')) \<and>
    unat lpj < L \<and> L < unat lpj + 2 * (unat lpj div 256) + 3 * c"
proof -
  let ?M = "steady L c"
  have L: "3 * c < L" "0 < c" "L < 2 ^ 42" using ok by (simp_all add: steady_ok_def)
  obtain q s where tick: "next_tick ?M w = Some (of_nat q, s)" and s: "q * L + 2 * c \<le> s" "s < q * L + 3 * c"
    using next_tick_steady [OF ok] by blast
  have "banding L c q s 0 0 0 s" using s L by (simp add: banding_def)
  from band_loop_steady [OF ok s this] obtain T b w1 where
    r: "band_loop ?M (of_nat q) (push_bit 12 1) 0 0 0 s = Some (Some (int (T + b), int b, w1))"
    and T: "4096 * T < L" "0 < b" "b \<le> 2 * T" by auto
  have "\<exists>p w'. recalibrate ?M (of_nat (4096 * T)) (of_nat (4096 * b)) w1 = Some (of_nat p, w') \<and>
      p < L \<and> L < p + 2 * (p div 256) + 3 * c"
    using T by (intro recalibrate_steady [OF ok]) simp_all
  then obtain p w' where p: "recalibrate ?M (of_nat (4096 * T)) (of_nat (4096 * b)) w1 = Some (of_nat p, w')"
    "p < L" "L < p + 2 * (p div 256) + 3 * c" by blast
  have "calibrate_delay ?M w = Some (Some (of_nat p, w'))"
    using p(1) r by (simp add: calibrate_delay_def tick push_bit_eq_mult)
  moreover have "unat (of_nat p :: 64 word) = p" using p(2) L by (simp add: unat_of_nat_small)
  ultimately show ?thesis using p(2,3) by auto
qed

text \<open>
  C8: on a machine of constant speed, with \<open>L\<close> rounds of the delay loop to a clock tick (between $2^{14}$
  and $2^{42}$) and readings of the clock that take \<open>c\<close> rounds, the calibration returns from every
  starting time, no counter of it overflows, and \<open>loops_per_jiffy\<close> is less than \<open>L\<close> and more than
  \<open>L - 3 * c\<close> less one part in 128.
\<close>

theorem calibration_accurate:
  assumes "steady_ok L c"
  shows "\<exists>lpj w'. calibrate_delay (steady L c) w = Some (Some (lpj, w')) \<and>
    unat lpj < L \<and> 128 * L < 129 * unat lpj + 384 * c"
proof -
  obtain lpj w' where "calibrate_delay (steady L c) w = Some (Some (lpj, w'))" "unat lpj < L"
    and l: "L < unat lpj + 2 * (unat lpj div 256) + 3 * c"
    using calibrate_steady [OF assms] by blast
  moreover have "256 * (unat lpj div 256) \<le> unat lpj" by simp
  with l have "128 * L < 129 * unat lpj + 384 * c" by linarith
  ultimately show ?thesis by blast
qed

lemma calibration_accurate_witness:
  "\<exists>lpj w'. calibrate_delay (steady 20000000 50) 12345 = Some (Some (lpj, w')) \<and> 19844800 < unat lpj"
  using calibration_accurate [of 20000000 50 12345] by (force simp: steady_ok_def)

text \<open>
  C20: calibrated on such a machine, with readings of the clock below a 192nd of a tick, a delay of \<open>n\<close>
  nanoseconds spends in its loop at least the rounds that the machine makes in \<open>n\<close> nanoseconds
  (\<open>n * HZ * L / 10^9\<close>), and at most one more than 1.165 times these, for delays up to 0.2 seconds.
\<close>

theorem calibrated_delay:
  assumes "steady_ok L c" and "192 * c \<le> L" and "4 dvd unat HZ" and "L * (unat HZ div 4) < 2 ^ 32"
    and "20 * unat nsecs < 2 ^ 32"
  shows "\<exists>lpj w'. calibrate_delay (steady L c) w = Some (Some (lpj, w')) \<and>
    unat nsecs * unat HZ * L \<le> 10 ^ 9 * useful_work_ns HZ lpj nsecs \<and>
    2 ^ 32 * (useful_work_ns HZ lpj nsecs - 1) \<le> 5 * unat nsecs * unat HZ * L"
proof -
  obtain lpj w' where cal: "calibrate_delay (steady L c) w = Some (Some (lpj, w'))" "unat lpj < L"
    and l: "L < unat lpj + 2 * (unat lpj div 256) + 3 * c"
    using calibrate_steady [OF assms(1)] by blast
  let ?n = "unat nsecs * unat HZ" and ?R = "useful_work_ns HZ lpj nsecs"
  have "256 * (unat lpj div 256) \<le> unat lpj" by simp
  with l assms(2) have L: "2 ^ 32 * L \<le> 5 * 10 ^ 9 * unat lpj" by simp
  have "unat lpj * (unat HZ div 4) \<le> L * (unat HZ div 4)" using cal(2) by (intro mult_right_mono) simp_all
  then have small: "unat lpj * (unat HZ div 4) < 2 ^ 32" using assms(4) by (rule le_less_trans)
  note b = useful_work_ns_bounds [OF assms(5,3) small]
  have "5 * (?n * unat lpj) < 2 ^ 32 * ?R"
    using mult_div_mod_eq [of "2 ^ 32" "5 * (?n * unat lpj)"] mod_less_divisor [of "2 ^ 32" "5 * (?n * unat lpj)"]
    unfolding b(1) by (simp add: ac_simps)
  moreover have "?n * (2 ^ 32 * L) \<le> ?n * (5 * 10 ^ 9 * unat lpj)" using L by (rule mult_left_mono) simp
  then have "2 ^ 32 * (?n * L) \<le> 5 * 10 ^ 9 * (?n * unat lpj)"
    by (simp only: mult.left_commute [of ?n])
  moreover have "X \<le> 10 ^ 9 * R" if "5 * Y < 2 ^ 32 * R" "2 ^ 32 * X \<le> 5 * 10 ^ 9 * Y" for X Y R :: nat
    using that by simp
  ultimately have "?n * L \<le> 10 ^ 9 * ?R" by blast
  moreover have "5 * unat nsecs * unat HZ * unat lpj \<le> 5 * unat nsecs * unat HZ * L"
    using cal(2) by (intro mult_left_mono) simp_all
  with b(3) have "2 ^ 32 * (?R - 1) \<le> 5 * unat nsecs * unat HZ * L" by (rule le_trans)
  ultimately show ?thesis using cal(1) by blast
qed

lemma calibrated_delay_witness:
  "\<exists>lpj w'. calibrate_delay (steady 20000000 50) 0 = Some (Some (lpj, w')) \<and>
    2000 \<le> useful_work_ns 100 lpj 1000"
  using calibrated_delay [of 20000000 50 100 1000 0] by (force simp: steady_ok_def)

end
