(* ===== verification/Gcc_Atomics.thy ===== *)
theory Gcc_Atomics
  imports Prelude
begin

text \<open>
  The wrappers through which the Ada benchmarks reach the atomic built-ins of GCC
  (\<open>common/atomic_intrinsic/ada/gcc_atomics.c\<close>). Objects are passed by address and size, so the memory
  is one of bytes; the built-ins behave as GCC documents them, with a weak exchange allowed to fail
  without a reason. The flag \<open>dw\<close> is the macro \<open>USE_DWATOMIC\<close>.
\<close>

section \<open>Memory and built-ins\<close>

datatype builtin = Builtin_load | Builtin_store | Builtin_compare_exchange

text \<open>\<open>issued\<close>: the built-ins executed so far, each with its operand size and memory orders.\<close>

record atomics =
  bytes :: "nat \<Rightarrow> 8 word"
  issued :: "(builtin \<times> nat \<times> int list) list"

definition load_bytes :: "(nat \<Rightarrow> 8 word) \<Rightarrow> nat \<Rightarrow> nat \<Rightarrow> 8 word list" where
  "load_bytes m a n = map (\<lambda>i. m (a + i)) [0..<n]"

definition store_bytes :: "nat \<Rightarrow> 8 word list \<Rightarrow> (nat \<Rightarrow> 8 word) \<Rightarrow> nat \<Rightarrow> 8 word" where
  "store_bytes a vs m = (\<lambda>x. if a \<le> x \<and> x < a + length vs then vs ! (x - a) else m x)"

definition atomic_load :: "nat \<Rightarrow> nat \<Rightarrow> nat \<Rightarrow> int \<Rightarrow> atomics \<Rightarrow> atomics" where
  "atomic_load n ptr ret order s =
     s\<lparr>bytes := store_bytes ret (load_bytes (bytes s) ptr n) (bytes s),
       issued := issued s @ [(Builtin_load, n, [order])]\<rparr>"

definition atomic_store :: "nat \<Rightarrow> nat \<Rightarrow> nat \<Rightarrow> int \<Rightarrow> atomics \<Rightarrow> atomics" where
  "atomic_store n ptr val order s =
     s\<lparr>bytes := store_bytes ptr (load_bytes (bytes s) val n) (bytes s),
       issued := issued s @ [(Builtin_store, n, [order])]\<rparr>"

text \<open>\<open>spurious\<close>: the processor gives up a weak exchange although the values agree.\<close>

definition atomic_compare_exchange ::
  "nat \<Rightarrow> bool \<Rightarrow> nat \<Rightarrow> nat \<Rightarrow> 8 word list \<Rightarrow> int \<Rightarrow> int \<Rightarrow> int \<Rightarrow> atomics \<Rightarrow> int \<times> atomics" where
  "atomic_compare_exchange n spurious ptr expected desired weak succ fail s =
     (let s' = s\<lparr>issued := issued s @ [(Builtin_compare_exchange, n, [succ, fail])]\<rparr>;
          current = load_bytes (bytes s) ptr n
      in if current = load_bytes (bytes s) expected n \<and> \<not> (weak \<noteq> 0 \<and> spurious)
         then (1, s'\<lparr>bytes := store_bytes ptr desired (bytes s)\<rparr>)
         else (0, s'\<lparr>bytes := store_bytes expected current (bytes s)\<rparr>))"

section \<open>The wrappers\<close>

text \<open>The macros \<open>__ATOMIC_*\<close> have the values 0 to 5 in this order.\<close>

definition ATOMIC_RELAXED :: int where "ATOMIC_RELAXED = 0"
definition ATOMIC_CONSUME :: int where "ATOMIC_CONSUME = 1"
definition ATOMIC_ACQUIRE :: int where "ATOMIC_ACQUIRE = 2"
definition ATOMIC_RELEASE :: int where "ATOMIC_RELEASE = 3"
definition ATOMIC_ACQ_REL :: int where "ATOMIC_ACQ_REL = 4"
definition ATOMIC_SEQ_CST :: int where "ATOMIC_SEQ_CST = 5"

lemmas atomic_orders = ATOMIC_RELAXED_def ATOMIC_CONSUME_def ATOMIC_ACQUIRE_def ATOMIC_RELEASE_def
  ATOMIC_ACQ_REL_def ATOMIC_SEQ_CST_def

definition gcc_memorder :: "int \<Rightarrow> int" where
  "gcc_memorder mo =
     (if mo = 0 then ATOMIC_RELAXED
      else if mo = 1 then ATOMIC_CONSUME
      else if mo = 2 then ATOMIC_ACQUIRE
      else if mo = 3 then ATOMIC_RELEASE
      else if mo = 4 then ATOMIC_ACQ_REL
      else if mo = 5 then ATOMIC_SEQ_CST
      else - 1)"

definition gcc_atomic_load :: "bool \<Rightarrow> nat \<Rightarrow> nat \<Rightarrow> int \<Rightarrow> int \<Rightarrow> atomics \<Rightarrow> atomics" where
  "gcc_atomic_load dw ptr ret memorder sz s =
     (if sz = 1 then atomic_load 1 ptr ret (gcc_memorder memorder) s
      else if sz = 2 then atomic_load 2 ptr ret (gcc_memorder memorder) s
      else if sz = 4 then atomic_load 4 ptr ret (gcc_memorder memorder) s
      else if sz = 8 then atomic_load 8 ptr ret (gcc_memorder memorder) s
      else if dw \<and> sz = 16 then atomic_load 16 ptr ret (gcc_memorder memorder) s
      else s)"

definition gcc_atomic_store :: "bool \<Rightarrow> nat \<Rightarrow> nat \<Rightarrow> int \<Rightarrow> int \<Rightarrow> atomics \<Rightarrow> atomics" where
  "gcc_atomic_store dw ptr val memorder sz s =
     (if sz = 1 then atomic_store 1 ptr val (gcc_memorder memorder) s
      else if sz = 2 then atomic_store 2 ptr val (gcc_memorder memorder) s
      else if sz = 4 then atomic_store 4 ptr val (gcc_memorder memorder) s
      else if sz = 8 then atomic_store 8 ptr val (gcc_memorder memorder) s
      else if dw \<and> sz = 16 then atomic_store 16 ptr val (gcc_memorder memorder) s
      else s)"

text \<open>Here the orders are passed on as they are, and the new value is read before the exchange.\<close>

definition gcc_atomic_compare_exchange ::
  "bool \<Rightarrow> bool \<Rightarrow> nat \<Rightarrow> nat \<Rightarrow> nat \<Rightarrow> int \<Rightarrow> int \<Rightarrow> int \<Rightarrow> int \<Rightarrow> atomics \<Rightarrow> int \<times> atomics" where
  "gcc_atomic_compare_exchange dw spurious ptr expected desired sz weak succ fail s =
     (if sz = 1 then
        atomic_compare_exchange 1 spurious ptr expected (load_bytes (bytes s) desired 1) weak succ fail s
      else if sz = 2 then
        atomic_compare_exchange 2 spurious ptr expected (load_bytes (bytes s) desired 2) weak succ fail s
      else if sz = 4 then
        atomic_compare_exchange 4 spurious ptr expected (load_bytes (bytes s) desired 4) weak succ fail s
      else if sz = 8 then
        atomic_compare_exchange 8 spurious ptr expected (load_bytes (bytes s) desired 8) weak succ fail s
      else if dw \<and> sz = 16 then
        atomic_compare_exchange 16 spurious ptr expected (load_bytes (bytes s) desired 16) weak succ fail s
      else (0, s))"

section \<open>What they do to objects\<close>

definition supported_size :: "bool \<Rightarrow> int \<Rightarrow> bool" where
  "supported_size dw sz \<longleftrightarrow> sz \<in> {1, 2, 4, 8} \<or> dw \<and> sz = 16"

text \<open>An object is a region of memory; two objects are the same or do not touch.\<close>

definition object_at :: "atomics \<Rightarrow> nat \<Rightarrow> int \<Rightarrow> 8 word list" where
  "object_at s a sz = load_bytes (bytes s) a (nat sz)"

definition apart :: "nat \<Rightarrow> nat \<Rightarrow> int \<Rightarrow> bool" where
  "apart a b sz \<longleftrightarrow> a + nat sz \<le> b \<or> b + nat sz \<le> a"

text \<open>Nothing outside the object was written.\<close>

definition only_changes :: "nat \<Rightarrow> int \<Rightarrow> atomics \<Rightarrow> atomics \<Rightarrow> bool" where
  "only_changes a sz s s' \<longleftrightarrow> (\<forall>x. x < a \<or> a + nat sz \<le> x \<longrightarrow> bytes s' x = bytes s x)"

text \<open>Compare-and-swap on values: the result, the new value of the variable and of \<open>expected\<close>.\<close>

definition cas_spec :: "bool \<Rightarrow> 'v \<Rightarrow> 'v \<Rightarrow> 'v \<Rightarrow> bool \<times> 'v \<times> 'v" where
  "cas_spec give_up current expected desired =
     (if current = expected \<and> \<not> give_up then (True, desired, expected) else (False, current, current))"

lemma length_load_bytes [simp]: "length (load_bytes m a n) = n"
  by (simp add: load_bytes_def)

lemma load_store_same: "length vs = n \<Longrightarrow> load_bytes (store_bytes a vs m) a n = vs"
  by (rule nth_equalityI) (auto simp: load_bytes_def store_bytes_def)

lemma load_store_apart:
  "a + n \<le> b \<or> b + length vs \<le> a \<Longrightarrow> load_bytes (store_bytes b vs m) a n = load_bytes m a n"
  by (auto simp: load_bytes_def store_bytes_def)

lemma store_bytes_outside: "x < a \<or> a + length vs \<le> x \<Longrightarrow> store_bytes a vs m x = m x"
  by (auto simp: store_bytes_def)

text \<open>The switches select the built-in of the size, or nothing.\<close>

lemma gcc_atomics_select:
  assumes "supported_size dw sz"
  shows "gcc_atomic_load dw p r mo sz s = atomic_load (nat sz) p r (gcc_memorder mo) s"
    and "gcc_atomic_store dw p v mo sz s = atomic_store (nat sz) p v (gcc_memorder mo) s"
    and "gcc_atomic_compare_exchange dw sp p e d sz weak succ fail s =
      atomic_compare_exchange (nat sz) sp p e (load_bytes (bytes s) d (nat sz)) weak succ fail s"
  using assms
  by (auto simp: supported_size_def gcc_atomic_load_def gcc_atomic_store_def gcc_atomic_compare_exchange_def)

text \<open>
  For every supported size, a load makes the target equal to the object and a store the object
  equal to the source, and nothing else is written, whether or not the two are the same object.
\<close>

theorem gcc_load_store:
  assumes "supported_size dw sz"
  shows "object_at (gcc_atomic_load dw ptr ret mo sz s) ret sz = object_at s ptr sz \<and>
    only_changes ret sz s (gcc_atomic_load dw ptr ret mo sz s) \<and>
    object_at (gcc_atomic_store dw ptr val mo sz s) ptr sz = object_at s val sz \<and>
    only_changes ptr sz s (gcc_atomic_store dw ptr val mo sz s)"
  by (auto simp: gcc_atomics_select [OF assms] atomic_load_def atomic_store_def object_at_def
      only_changes_def load_store_same store_bytes_outside)

definition atomics0 :: atomics where
  "atomics0 = \<lparr>bytes = \<lambda>x. of_nat x, issued = []\<rparr>"

lemma gcc_load_store_witness:
  "object_at (gcc_atomic_load False 16 32 5 4 atomics0) 32 4 = [16, 17, 18, 19]"
proof -
  have "supported_size False 4" by (simp add: supported_size_def)
  from gcc_load_store [OF this, of 16 32 5 atomics0]
  have "object_at (gcc_atomic_load False 16 32 5 4 atomics0) 32 4 = object_at atomics0 16 4" by blast
  also have "\<dots> = [16, 17, 18, 19]"
    by (simp add: object_at_def load_bytes_def atomics0_def upt_rec)
  finally show ?thesis .
qed

text \<open>
  C29: for every supported size, \<open>gcc_atomic_compare_exchange\<close> is a compare-and-swap: it returns 1
  and stores the new value if the object had the expected one (and a weak exchange did not give up),
  otherwise it returns 0, leaves the object and tells its value in \<open>expected\<close>; a strong exchange
  gives up in no other case. The object may also be the source of the new value.
\<close>

theorem gcc_cas_refines:
  assumes "supported_size dw sz" and "apart ptr expected sz"
  shows "case (gcc_atomic_compare_exchange dw spurious ptr expected desired sz weak succ fail s,
      cas_spec (weak \<noteq> 0 \<and> spurious) (object_at s ptr sz) (object_at s expected sz)
        (object_at s desired sz)) of
    ((r, s'), (ok, new, seen)) \<Rightarrow>
      r = (if ok then 1 else 0) \<and> object_at s' ptr sz = new \<and> object_at s' expected sz = seen \<and>
      (if ok then only_changes ptr sz s s' else only_changes expected sz s s')"
  using assms(2)
  by (auto simp: gcc_atomics_select [OF assms(1)] atomic_compare_exchange_def cas_spec_def object_at_def
      only_changes_def Let_def load_store_same load_store_apart store_bytes_outside apart_def)

lemma gcc_cas_refines_witness:
  "fst (gcc_atomic_compare_exchange True False 0 16 32 16 0 5 5 atomics0) = 0"
proof -
  have "supported_size True 16" "apart 0 16 16" by (simp_all add: supported_size_def apart_def)
  from gcc_cas_refines [OF this, where spurious = False and desired = 32 and weak = 0 and succ = 5 and fail = 5 and s = atomics0]
  have "fst (gcc_atomic_compare_exchange True False 0 16 32 16 0 5 5 atomics0) =
      (if fst (cas_spec False (object_at atomics0 0 16) (object_at atomics0 16 16) (object_at atomics0 32 16))
       then 1 else 0)"
    by (auto split: prod.splits)
  also have "\<dots> = 0"
    by (simp add: cas_spec_def object_at_def load_bytes_def atomics0_def upt_rec)
  finally show ?thesis .
qed

text \<open>
  Errors. A size that is not supported, 16 without \<open>USE_DWATOMIC\<close> among them, is not reported: the
  load and the store do nothing and the exchange returns 0, as if the values had differed, but
  without refreshing \<open>expected\<close>. A memory order that does not exist reaches the built-in as -1 from a
  load or a store, and unchecked from an exchange.
\<close>

theorem gcc_atomics_errors:
  "(\<not> supported_size dw sz \<longrightarrow>
      gcc_atomic_load dw p q mo sz s = s \<and> gcc_atomic_store dw p q mo sz s = s \<and>
      gcc_atomic_compare_exchange dw sp p q d sz weak succ fail s = (0, s)) \<and>
   (supported_size dw sz \<longrightarrow>
      issued (gcc_atomic_load dw p q mo sz s) =
        issued s @ [(Builtin_load, nat sz, [if 0 \<le> mo \<and> mo \<le> 5 then mo else - 1])] \<and>
      issued (gcc_atomic_store dw p q mo sz s) =
        issued s @ [(Builtin_store, nat sz, [if 0 \<le> mo \<and> mo \<le> 5 then mo else - 1])] \<and>
      issued (snd (gcc_atomic_compare_exchange dw sp p q d sz weak succ fail s)) =
        issued s @ [(Builtin_compare_exchange, nat sz, [succ, fail])])"
proof -
  have order: "gcc_memorder mo = (if 0 \<le> mo \<and> mo \<le> 5 then mo else - 1)"
    by (simp add: gcc_memorder_def atomic_orders)
  show ?thesis
    by (auto simp: gcc_atomics_select order atomic_load_def atomic_store_def atomic_compare_exchange_def Let_def
        supported_size_def gcc_atomic_load_def gcc_atomic_store_def gcc_atomic_compare_exchange_def)
qed

lemma gcc_atomics_errors_witness:
  "gcc_atomic_compare_exchange False False 0 0 8 16 0 5 5 atomics0 = (0, atomics0)"
proof -
  have "\<not> supported_size False 16" by (simp add: supported_size_def)
  with gcc_atomics_errors [of False 16] show ?thesis by blast
qed

end
