(* ===== verification/Fences.thy ===== *)
theory Fences
  imports Prelude "HOL-Library.Word"
begin

text \<open>
  Memory fences by kind (\<open>common/atomic_intrinsic/c++/fences.h\<close>, \<open>fences_x86_64.h\<close>,
  \<open>fences_aarch64.h\<close>): a fence is asked for by the pairs of accesses it must keep in order, and each
  architecture chooses instructions. What an instruction orders is what its manual says.
\<close>

unbundle bit_operations_syntax

section \<open>The enumeration\<close>

text \<open>\<open>ss\<close>: store before store, \<open>sl\<close>: store before load, and so on.\<close>

datatype fences =
    Ss | Sl | Ls | Ll | Sl_ss | Ls_ss | Ls_sl | Ls_sl_ss | Ll_ss | Ll_sl | Ll_sl_ss | Ll_ls
  | Ll_ls_ss | Ll_ls_sl | Ll_ls_sl_ss

fun fence_value :: "fences \<Rightarrow> 32 word" where
  "fence_value Ss = 0x01"
| "fence_value Sl = 0x02"
| "fence_value Ls = 0x04"
| "fence_value Ll = 0x08"
| "fence_value Sl_ss = 0x02 OR 0x01"
| "fence_value Ls_ss = 0x04 OR 0x01"
| "fence_value Ls_sl = 0x04 OR 0x02"
| "fence_value Ls_sl_ss = 0x04 OR 0x02 OR 0x01"
| "fence_value Ll_ss = 0x08 OR 0x01"
| "fence_value Ll_sl = 0x08 OR 0x02"
| "fence_value Ll_sl_ss = 0x08 OR 0x02 OR 0x01"
| "fence_value Ll_ls = 0x08 OR 0x04"
| "fence_value Ll_ls_ss = 0x08 OR 0x04 OR 0x01"
| "fence_value Ll_ls_sl = 0x08 OR 0x04 OR 0x02"
| "fence_value Ll_ls_sl_ss = 0x08 OR 0x04 OR 0x02 OR 0x01"

section \<open>Instructions\<close>

datatype x86_fence = Sfence | Lfence | Mfence

fun mem_fence_x86 :: "fences \<Rightarrow> x86_fence list" where
  "mem_fence_x86 Ss = [Sfence]"
| "mem_fence_x86 Ll = [Lfence]"
| "mem_fence_x86 Ll_ss = [Lfence, Sfence]"
| "mem_fence_x86 _ = [Mfence]"

datatype arm_fence = Dmb_ishst | Dmb_ishld | Dmb_ish

fun mem_fence_aarch64 :: "fences \<Rightarrow> arm_fence list" where
  "mem_fence_aarch64 Ss = [Dmb_ishst]"
| "mem_fence_aarch64 Ll = [Dmb_ishld]"
| "mem_fence_aarch64 Ll_ss = [Dmb_ishld, Dmb_ishst]"
| "mem_fence_aarch64 Ls = [Dmb_ishld]"
| "mem_fence_aarch64 Ll_ls = [Dmb_ishld]"
| "mem_fence_aarch64 Ll_ls_ss = [Dmb_ishld, Dmb_ishst]"
| "mem_fence_aarch64 _ = [Dmb_ish]"

text \<open>The kinds of pairs an instruction orders, as a mask like \<open>fence_value\<close>.\<close>

fun x86_orders :: "x86_fence \<Rightarrow> 32 word" where
  "x86_orders Sfence = 0x01"
| "x86_orders Lfence = 0x08 OR 0x04"
| "x86_orders Mfence = 0x0F"

fun arm_orders :: "arm_fence \<Rightarrow> 32 word" where
  "arm_orders Dmb_ishst = 0x01"
| "arm_orders Dmb_ishld = 0x08 OR 0x04"
| "arm_orders Dmb_ish = 0x0F"

definition all_orders :: "('i \<Rightarrow> 32 word) \<Rightarrow> 'i list \<Rightarrow> 32 word" where
  "all_orders orders is = fold (\<lambda>i m. m OR orders i) is 0"

text \<open>
  C31: on both architectures the instructions chosen for a fence order at least the pairs of accesses
  it asks for; and on AArch64 the full barrier is used only where the two weaker ones together
  would not do, with one exception, the combination of \<open>ls\<close> and \<open>ss\<close> without \<open>ll\<close>.
\<close>

theorem fences_sound:
  "fence_value f AND NOT (all_orders x86_orders (mem_fence_x86 f)) = 0 \<and>
   fence_value f AND NOT (all_orders arm_orders (mem_fence_aarch64 f)) = 0 \<and>
   (mem_fence_aarch64 f = [Dmb_ish] \<longleftrightarrow>
     0 < fence_value f AND NOT (arm_orders Dmb_ishst OR arm_orders Dmb_ishld) \<or> f = Ls_ss)"
  by (cases f) (simp_all add: all_orders_def)

text \<open>The enumerators are the fifteen non-empty sets of kinds, each once.\<close>

lemma fence_values: "fence_value f = fence_value g \<Longrightarrow> f = g"
  by (cases f; cases g) simp_all

end
