(* ===== verification/Tagged_Pointers.thy ===== *)
theory Tagged_Pointers
  imports Prelude "HOL-Library.Word"
begin

text \<open>
  Tagged pointers (\<open>common/tagged_pointers/tagged.c\<close>): a 48-bit pointer and a 16-bit counter in one
  64-bit word, so that a compare-and-swap on the word notices that a pointer was changed and changed
  back.
\<close>

unbundle bit_operations_syntax

definition MASK_PTR :: "64 word" where
  "MASK_PTR = 0xffffffffffff"

definition MASK_CNT :: "64 word" where
  "MASK_CNT = push_bit 48 0xffff"

definition get_ptr :: "64 word \<Rightarrow> 64 word" where
  "get_ptr tagged_ptr = tagged_ptr AND MASK_PTR"

text \<open>\<open>set_ptr\<close> returns the new value of the variable it updates.\<close>

definition set_ptr :: "64 word \<Rightarrow> 64 word \<Rightarrow> 64 word" where
  "set_ptr tagged_ptr ptr = (tagged_ptr AND MASK_CNT) OR (ptr AND MASK_PTR)"

definition get_count :: "64 word \<Rightarrow> 64 word" where
  "get_count tagged_ptr = drop_bit 48 tagged_ptr"

definition create_tagged_ptr :: "64 word \<Rightarrow> 64 word \<Rightarrow> 64 word" where
  "create_tagged_ptr ptr count = (ptr AND MASK_PTR) OR push_bit 48 count"

lemma MASK_PTR_mask: "MASK_PTR = mask 48"
  by (simp add: MASK_PTR_def mask_eq_exp_minus_1)

lemma bit_MASK_PTR: "bit MASK_PTR n \<longleftrightarrow> n < 48"
  by (auto simp: MASK_PTR_mask bit_mask_iff)

lemma bit_MASK_CNT: "bit MASK_CNT n \<longleftrightarrow> 48 \<le> n \<and> n < 64"
proof -
  have MASK_CNT: "MASK_CNT = push_bit 48 (mask 16)" by (simp add: MASK_CNT_def mask_eq_exp_minus_1)
  show ?thesis unfolding MASK_CNT by (auto simp: bit_push_bit_iff bit_mask_iff)
qed

lemma tagged_parts:
  "get_ptr (create_tagged_ptr p c) = take_bit 48 p"
  "get_count (create_tagged_ptr p c) = take_bit 16 c"
  "get_ptr (set_ptr t p) = take_bit 48 p"
  "get_count (set_ptr t p) = get_count t"
  by (rule bit_word_eqI, auto simp: get_ptr_def create_tagged_ptr_def get_count_def set_ptr_def bit_simps
      bit_MASK_PTR bit_MASK_CNT dest: bit_imp_le_length)+

lemma tagged_whole: "create_tagged_ptr (get_ptr t) (get_count t) = t"
proof (rule bit_word_eqI)
  fix n assume "n < LENGTH(64)"
  then show "bit (create_tagged_ptr (get_ptr t) (get_count t)) n = bit t n"
    by (cases "n < 48")
      (auto simp: get_ptr_def create_tagged_ptr_def get_count_def bit_simps bit_MASK_PTR)
qed

lemma take_bit_small:
  assumes "(w :: 64 word) < 2 ^ n" and "n < 64"
  shows "take_bit n w = w"
proof (rule word_unat_eq_iff [THEN iffD2])
  have "unat w < unat (2 ^ n :: 64 word)" using assms(1) by (simp add: word_less_nat_alt)
  also have "\<dots> \<le> 2 ^ n" by (metis of_nat_numeral of_nat_power unat_of_nat mod_less_eq_dividend)
  finally have "unat w < 2 ^ n" .
  then show "unat (take_bit n w) = unat w" by (simp add: unsigned_take_bit_eq take_bit_nat_eq_self)
qed

text \<open>
  C30: a tagged pointer is taken apart into what it was made of, when the pointer fits 48 bits and
  the counter 16; any word is the tagged pointer of its parts; and \<open>set_ptr\<close> exchanges the pointer
  and keeps the counter.
\<close>

theorem tagged_ptr_roundtrip:
  assumes "p < 2 ^ 48" and "c < 2 ^ 16"
  shows "get_ptr (create_tagged_ptr p c) = p \<and> get_count (create_tagged_ptr p c) = c \<and>
    create_tagged_ptr (get_ptr t) (get_count t) = t \<and>
    set_ptr t p = create_tagged_ptr p (get_count t)"
proof (intro conjI)
  show "set_ptr t p = create_tagged_ptr p (get_count t)"
    by (rule bit_word_eqI)
      (auto simp: set_ptr_def create_tagged_ptr_def get_count_def bit_simps bit_MASK_PTR bit_MASK_CNT)
qed (use assms in \<open>simp_all add: tagged_parts tagged_whole take_bit_small\<close>)

lemma tagged_ptr_roundtrip_witness:
  "get_ptr (create_tagged_ptr 0x7fff12345678 3) = 0x7fff12345678 \<and>
   get_count (create_tagged_ptr 0x7fff12345678 3) = 3"
  using tagged_ptr_roundtrip [where p = "0x7fff12345678" and c = 3] by simp

text \<open>
  The counter counts modulo $2^{16}$: after 65536 increments the tagged pointer is the same again,
  so the word cannot tell that many changes from none.
\<close>

theorem tagged_ptr_wraps:
  "create_tagged_ptr p c = create_tagged_ptr p (c + 2 ^ 16 * k)"
proof -
  have wrap: "18446744073709551616 = (0 :: 64 word)" by (simp add: word_unat_eq_iff)
  have "push_bit 48 (c + 2 ^ 16 * k) = push_bit 48 c"
    by (simp add: push_bit_eq_mult algebra_simps wrap)
  then show ?thesis by (simp add: create_tagged_ptr_def)
qed

end
