(* ===== verification/Spec2Isabelle.thy ===== *)
theory Spec2Isabelle
  imports Pair_Executions Lock_Executions COstack_Pairs COstack_Spec RA_Locks RA_Peterson RA_Array RA_CLH
    Mutex_Stack Boost_Queues TAS_Lock TATAS_Lock Mutex_Lock Peterson_Lock Array_Lock CLH_Lock Filter_Lock Fair_Lock
    Barrier Lock_Drivers Pair_Drivers Store_Calls Aggregate BQueue Report_Tables Log Papi_Binding Calibration
    Hazard_Pointers Gcc_Atomics Fences Tagged_Pointers
begin

text \<open>
  A verification of \<open>shm_sync\<close>, a collection of benchmarks of synchronisation constructs on shared
  memory. A benchmark is a program of its own: a driver (\<open>benchmark/**/driver.cpp\<close>) parses the
  command line, prepares a barrier (\<open>common/barrier\<close>), a store for samples (\<open>common/stats\<close>) and
  the lock or queue under test, starts the threads, and each thread calls, in every execution of
  every run, the benchmarked function between two readings of a clock. The benchmarked function of a
  lock runs \<open>nr_iter\<close> critical sections; that of a queue produces or consumes \<open>nr_iter\<close> elements.

  \<^bold>\<open>Concurrency.\<close> \<open>Interleave\<close> has the execution model: threads with local states over a shared state,
  each instruction that touches shared memory is one step, a schedule is any list of thread numbers,
  and a scheduled thread that cannot step is skipped. The variants \<open>*_sc.cpp\<close> use sequentially
  consistent atomics, for which interleaving is the semantics of the language. For the variants
  \<open>*_ar.cpp\<close>, \<open>Release_Acquire\<close> has a memory that keeps every message written to a variable and threads
  that read any message not older than the ones they know; it is the semantics of the language for
  relaxed, acquire, release and \<open>acq_rel\<close> accesses without values out of thin air. \<open>Sync_Loop\<close> has the
  loop all lock benchmarks share (\<open>lock(); useful_in(); unlock(); useful_out()\<close>); a lock is the
  record of its instructions. A thread is in its critical section while it runs \<open>useful_in\<close>. The delay
  functions touch no shared variable and are single steps. An access outside an array, or
  through a null pointer, leads to the state \<open>Crashed\<close>.

  \<^bold>\<open>Contract of a lock.\<close> The abstract specification is the automaton
  \<open>lock_spec\<close> over enter and exit events, whose state is the thread inside. The locale
  \<open>observed_loop\<close> proves, for any program whose threads run the loop and perhaps more, that
  mutual exclusion makes every run a run of the automaton. The locale \<open>sync_lock\<close> asks an
  implementation for mutual exclusion and the absence of crashes and proves that every run is a run of the
  automaton and that a finished thread entered \<open>nr_iter\<close> times; \<open>live_lock\<close> adds a
  measure that some continuation decreases and proves that every partial run can be completed (which excludes
  deadlock); \<open>fifo_lock\<close> adds a queue of waiting threads and proves first come, first served.
  \<open>flag_lock\<close> (theory \<open>Flag_Lock\<close>) gives the first two for locks with an owner.
  Every locale is interpreted on the model of a lock of the repository.

  \<^bold>\<open>Executions.\<close> A driver repeats the measured call, and an execution starts with the memory that the ones
  before it left. \<open>Executions\<close> composes them: \<open>each_execution\<close> says of every execution, and of all data the
  earlier ones can leave, that a condition holds. \<open>Lock_Executions\<close> does so for locks, with what a driver
  initialises in between. In the drivers of the filter lock and of Peterson's lock a thread resets its
  variables for the next execution before it waits at the barrier, so while others still compete for the
  lock: the locale \<open>resettable_lock\<close> asks for an invariant that bears these stores, and both locks have one.
  \<open>Pair_Executions\<close> does so for queues and stacks, which keep the elements an execution leaves: the locale
  \<open>accumulating\<close> counts them, and the result is the exact condition under which no driver run gets stuck.

  \<^bold>\<open>Theories and code\<close> (paths under \<open>src/\<close>, \<open>B\<close> is \<open>benchmark/blocking\<close>):

  \<^item> \<open>Prelude\<close>: limits of \<open>common/include/globals.h\<close>, benchmark configurations, checked arrays,
    atomic operations.
  \<^item> \<open>TAS_Lock\<close>, \<open>TATAS_Lock\<close>, \<open>Mutex_Lock\<close>: \<open>B/TASLock/taslock_sc.cpp\<close>,
    \<open>B/TATASLock/tatas_lock_sc.cpp\<close>, \<open>B/C++11MutexLock/cpp11_mutex_lock.cpp\<close>,
    \<open>B/POSIXMutexLock/posix_mutex_lock.cpp\<close>; mutexes behave as their standards say.
  \<^item> \<open>Peterson_Lock\<close>, \<open>Filter_Lock\<close>: \<open>B/PetersonLock/peterson_lock_sc.cpp\<close> (two threads; it fails
    for three) and \<open>B/FilterLock/filter_lock_sc.cpp\<close> (any number).
  \<^item> \<open>Array_Lock\<close>, \<open>CLH_Lock\<close>: \<open>B/ArrayLock/arraylock_sc.cpp\<close> and
    \<open>B/CLHQueueLock/clhqueue_lock_sc.cpp\<close>, both first come, first served.
  \<^item> \<open>Fair_Lock\<close>: \<open>B/Taubenfeld/fair_lock_sc.cpp\<close>.
  \<^item> \<open>Barrier\<close>: \<open>common/barrier/barrier.cpp\<close> with its 64-bit counters; safety, and the exact
    condition under which threads that meet at it cannot block each other.
  \<^item> \<open>Driver\<close>: calls of a thread function and of \<open>main\<close>, the split of the iterations, and two
    locales: what a driver must promise to the barrier and to the sample store.
  \<^item> \<open>Lock_Drivers\<close>, \<open>Pair_Drivers\<close>: the nine drivers of locks and the five of queues and stacks,
    thread functions and \<open>main\<close>, over parameters for the command-line library and PAPI.
  \<^item> \<open>Stats\<close>, \<open>Collector\<close>, \<open>Aggregate\<close>: \<open>common/stats/stats.cpp\<close> and
    \<open>common/stats/smpl_collector.cpp\<close>, with \<open>Store_Calls\<close> for sequences of calls: the flattened sample array with its 32- and 64-bit index
    arithmetic, the choice of samples, and the statistics. Arithmetic on \<open>double\<close> is a record of
    operations; the theorems hold for any.
  \<^item> \<open>BQueue\<close>: \<open>benchmark/nonblocking/BQueue\<close>, the ring buffer of \<open>fifo.c\<close> and the loops of
    \<open>bqueue.cpp\<close>, as a bounded FIFO queue between one producer and one consumer.
  \<^item> \<open>Text_Out\<close>, \<open>Report\<close>, \<open>Report_Tables\<close>: what \<open>stats.cpp\<close> prints, as the text written to a stream
    with its width, adjustment and precision: the raw dump and a reader for it, the tables of
    \<open>dumpData\<close>, the colours of \<open>color_term.cpp\<close>, and \<open>ada_binding/stats/binding.cpp\<close>. The text of a
    \<open>double\<close> is a parameter. \<open>Log\<close>: \<open>common/stats/log.cpp\<close>, threads that log at the same time.
  \<^item> \<open>Timer\<close>, \<open>Calibration\<close>: \<open>common/timer/timer_x86.cpp\<close> at its width over a clock that is a
    parameter, and what it computes on a machine of constant speed.
  \<^item> \<open>Hazard_Pointers\<close>: \<open>common/hazard_pointers/hazard_pointers.hpp\<close>, one operation at a time on a
    heap of cells, with the memory orders as values.
  \<^item> \<open>COstack\<close>, \<open>COstack_Invariant\<close>, \<open>COstack_Spec\<close>, \<open>COstack_Pairs\<close>: \<open>benchmark/nonblocking/COstack\<close>, the
    threads that push and pop and the reclamation, access by access: the program; memory safety for 14
    producers and 14 consumers, by an invariant about who owns each node and cell; linearizability as a
    LIFO stack; and the runs that reach deleted memory for every other number of pairs.
  \<^item> \<open>Release_Acquire\<close>: the memory model, the events that happened before, and runs of it that can be
    computed. \<open>RA_Flag_Lock\<close>: the contract of a lock around one flag, as a locale. \<open>RA_Locks\<close>:
    \<open>B/TASLock/taslock_ar.cpp\<close>, \<open>B/TATASLock/tatas_lock_ar.cpp\<close> and \<open>B/Taubenfeld/fair_lock_ar.cpp\<close>, on which it is
    interpreted. \<open>RA_Peterson\<close>: \<open>B/PetersonLock/peterson_lock_ar.cpp\<close> and \<open>B/FilterLock/filter_lock_ar.cpp\<close>,
    whose critical sections are not ordered. \<open>RA_Array\<close>: \<open>B/ArrayLock/arraylock_ar.cpp\<close>, by an invariant on what
    each thread knows of the flags that earlier tickets cleared. \<open>RA_CLH\<close>: \<open>B/CLHQueueLock/clhqueue_lock_ar.cpp\<close>, by a
    simulation by the sequentially consistent variant; the inline assembly of its barrier is no access, and
    the order of its exchange a parameter, for which the lock is correct or not.
  \<^item> \<open>Mutex_Stack\<close>: \<open>B/C++11MutexStack/mutexstack.cpp\<close>, the linked list on the heap under a mutex, as a LIFO
    stack without leaks, and what its destructor does at the end of the program.
  \<^item> \<open>Boost_Queues\<close>: the loops of \<open>boost_mpmc.cpp\<close> and \<open>boost_spsc.cpp\<close> over the queues of the library as parameters.
  \<^item> \<open>Papi_Binding\<close>: \<open>common/ada_binding/papi/binding.cpp\<close> over PAPI as a parameter. \<open>Gcc_Atomics\<close>,
    \<open>Fences\<close>, \<open>Tagged_Pointers\<close>: \<open>common/atomic_intrinsic\<close> and \<open>common/tagged_pointers\<close>.
  \<^item> \<open>Executions\<close>, \<open>Lock_Executions\<close>, \<open>Pair_Executions\<close>: see above.
  \<^item> This theory: a lock driver together with its lock, over all its executions, for all nine at once.

  \<^bold>\<open>Bounds.\<close> Counters and indices have the width of the source. The array lock is proved, in both variants, for fewer
  than $2^{63}$ tickets, after which \<open>tail % nr_threads\<close> of the source is negative; a driver run
  draws \<open>nr_iter\<close>, an \<open>int\<close>. The barrier is proved for fewer than $2^{64}$ calls per thread, and
  drivers make at most $3 \cdot 4096 \cdot 2^{31}$. The sample store is proved for products of its
  three dimensions below $2^{32}$, and shown to fail beyond. The calibration is proved for $2^{14}$ to
  $2^{42}$ loop rounds per clock tick (a tick of 10 ms has about $4 \cdot 10^7$), delays for up to
  $2^{32} / 20$ nanoseconds, and shown to wrap around beyond. No definition uses fuel: a spinning
  loop of a thread is a step that leads back to itself, and termination is the existence of a
  completion; sequential loops that may not end (\<open>wait_while\<close>, \<open>band_loop\<close>, \<open>bisect\<close>, \<open>recalibrate\<close>,
  \<open>delete_loop\<close>) are partial functions whose result is proved to exist.

  \<^bold>\<open>Not modelled:\<close> \<open>COstack_ar.cpp\<close>, which calls the reclamation with an order for
  which it is undefined (\<open>acquire_pass_undefined\<close>); the allocation of the \<open>*_ar.cpp\<close> variants; the Ada
  benchmarks, which are not C++, the transactional-memory benchmarks, which have no C++ code of their
  own here, and the test programs.
\<close>

section \<open>A lock benchmark as its driver runs it\<close>

text \<open>
  The executions of a lock driver, seen from the lock: the argument \<open>nr_threads\<close>, which is the same in
  every run, and the \<open>nr_iter\<close> argument each thread passes to the benchmarked function, 0 for a thread
  that does not call it in the run.
\<close>

definition execution_bench :: "lock_bench \<Rightarrow> int \<Rightarrow> int \<Rightarrow> bench" where
  "execution_bench p exec run =
     \<lparr>nr_threads = p_threads p, iters = \<lambda>i. work nr_iter_of exec run (lock_bench_actions p i)\<rparr>"

definition lock_executions :: "lock_bench \<Rightarrow> bench list" where
  "lock_executions p =
     concat (map (\<lambda>run. map (\<lambda>exec. execution_bench p exec run) [0..p_exec p - 1]) [0..lock_bench_runs p - 1])"

text \<open>
  The code each driver runs, from the memory its initialisation leaves, with what it initialises between
  the executions: nothing, or by the threads that wait for the next execution, or before each of them. The
  allocated memory holds anything.
\<close>

fun benchmark_completes :: "lock_name \<Rightarrow> nat \<Rightarrow> bench list \<Rightarrow> int \<Rightarrow> bool" where
  "benchmark_completes TAS n bs k \<longleftrightarrow>
     all_complete (\<lambda>_. taslock_sync) (each_with (\<lambda>m. m) bs) k (tas_mem0, \<lambda>_. ())"
| "benchmark_completes TATAS n bs k \<longleftrightarrow>
     all_complete (\<lambda>_. tatas_sync) (each_with (\<lambda>m. m) bs) k (tatas_mem0, \<lambda>_. ())"
| "benchmark_completes Array_based n bs k \<longleftrightarrow>
     all_complete (\<lambda>b. arraylock_sync (nr_threads b)) (each_with (\<lambda>m. (array_prepared n (fst m), snd m)) bs) k
       (array_mem0 n, \<lambda>_. 0)"
| "benchmark_completes Cpp11 n bs k \<longleftrightarrow>
     all_complete (\<lambda>_. cpp11_mutex_sync) (each_with (\<lambda>m. m) bs) k (cpp11_mem0, \<lambda>_. ())"
| "benchmark_completes Posix n bs k \<longleftrightarrow>
     all_complete (\<lambda>_. posix_sync) (each_with (\<lambda>m. m) bs) k (posix_mem0, \<lambda>_. ())"
| "benchmark_completes Peterson n bs k \<longleftrightarrow>
     all_complete_resetting (\<lambda>_. peterson_lock) peterson_reset_store 3 bs k peterson_mem0"
| "benchmark_completes CLH n bs k \<longleftrightarrow>
     (\<forall>gs env. length gs = length bs \<longrightarrow>
        all_complete (\<lambda>_. clhqueue_sync) (zip bs (map clh_prepare gs)) k (env, clh_static_tls))"
| "benchmark_completes Filter_based n bs k \<longleftrightarrow>
     (\<forall>mem1 mem2. all_complete_resetting (\<lambda>b. filter_lock (nr_threads b)) filter_reset_store 2 bs k
        (filter_mem0 mem1 mem2 n))"
| "benchmark_completes Fair n bs k \<longleftrightarrow>
     (\<forall>mem. all_complete (\<lambda>b. fair_sync (nr_threads b)) (each_with (\<lambda>m. m) bs) k
        (fair_mem0 mem False n, \<lambda>_. ()))"

text \<open>The thread counts for which the lock works: the driver accepts more for two of them.\<close>

definition lock_capacity :: "lock_name \<Rightarrow> nat" where
  "lock_capacity d = (case d of Peterson \<Rightarrow> 2 | Array_based \<Rightarrow> MAX_NR_THREADS | _ \<Rightarrow> MAX_ALLOC_NR_THREADS)"

lemma lock_executions_work:
  assumes p: "valid_lock_bench p" and "b \<in> set (lock_executions p)"
  shows "valid_bench b \<and> nr_threads b = p_threads p \<and> (\<Sum>i<nr_threads b. iters b i) = p_iter p"
proof -
  from assms(2) obtain exec run where e: "0 \<le> exec" "exec < p_exec p" "0 \<le> run" "run < lock_bench_runs p"
    and b: "b = execution_bench p exec run"
    by (auto simp: lock_executions_def)
  have pos: "0 < p_threads p" "0 \<le> p_iter p" using p by (simp_all add: valid_lock_bench_def)
  then have "valid_bench b"
    using e(3) split_iters_ge_0 [OF pos(2)]
    by (auto simp: valid_bench_def b execution_bench_def lock_bench_work [OF p e])
  then show ?thesis by (simp add: b execution_bench_def lock_bench_work_sum [OF p e])
qed

text \<open>
  C1: for every lock driver, in every execution of every run and for every interleaving of the threads,
  where an execution starts with what the ones before it left: as long as the thread count is one the
  lock works for, the execution can be completed, no two threads are in the critical section at once, and
  over all threads the critical section is executed exactly \<open>nr_iter\<close> times, however the driver splits the
  iterations. This includes the initialisation of the filter lock and of Peterson's lock, which threads do
  while others still compete for the lock.
\<close>

theorem lock_benchmark_correct:
  assumes "valid_lock_bench p" and "p_threads p \<le> lock_capacity (p_lock p)" and "p_iter p < 2 ^ 31"
  shows "benchmark_completes (p_lock p) (p_threads p) (lock_executions p) (p_iter p)"
proof -
  let ?bs = "lock_executions p"
  note work = lock_executions_work [OF assms(1)]
  have valid: "valid_bench b" and threads: "nr_threads b = p_threads p"
    and sum: "(\<Sum>i<p_threads p. iters b i) = p_iter p" if "b \<in> set ?bs" for b
    using work [OF that] by auto
  have flag: "valid_bench b \<and> (\<Sum>i<nr_threads b. iters b i) = p_iter p" if "b \<in> set ?bs" for b
    using work [OF that] by blast
  show ?thesis
  proof (cases "p_lock p")
    case Array_based
    with assms(2,3) have "all_complete (\<lambda>b. arraylock_sync (nr_threads b))
        (each_with (\<lambda>m. (array_prepared (p_threads p) (fst m), snd m)) ?bs) (p_iter p) (array_mem0 (p_threads p), \<lambda>_. 0)"
      by (intro array_all_executions) (simp add: valid threads sum valid_array_def lock_capacity_def)
    with Array_based show ?thesis by simp
  next
    case Peterson
    with assms(2) have "all_complete_resetting (\<lambda>_. peterson_lock) peterson_reset_store 3 ?bs (p_iter p) peterson_mem0"
      by (intro peterson_resetting.all_executions [where Q = peterson_starts])
        (simp_all add: valid threads sum valid_peterson_def lock_capacity_def peterson_starts_def
          peterson_mem0_def reset_peterson_lock_def)
    with Peterson show ?thesis by simp
  next
    case Filter_based
    have "all_complete_resetting (\<lambda>b. filter_lock (nr_threads b)) filter_reset_store 2 ?bs (p_iter p)
        (filter_mem0 mem1 mem2 (p_threads p))" for mem1 mem2
      by (intro filter_resetting.all_executions [where Q = "filter_starts (p_threads p)"])
        (simp_all add: valid threads sum filter_mem0_starts)
    with Filter_based show ?thesis by simp
  next
    case CLH
    have "all_complete (\<lambda>_. clhqueue_sync) (zip ?bs (map clh_prepare gs)) (p_iter p) (env, clh_static_tls)" for gs env
    proof (rule clh_all_executions)
      fix x
      assume "x \<in> set (zip ?bs (map clh_prepare gs))"
      then have "fst x \<in> set ?bs" "snd x \<in> set (map clh_prepare gs)"
        by (metis prod.collapse set_zip_leftD, metis prod.collapse set_zip_rightD)
      then show "(\<exists>g. snd x = clh_prepare g) \<and> valid_bench (fst x) \<and> (\<Sum>i<nr_threads (fst x). iters (fst x) i) = p_iter p"
        using flag by auto
    qed
    with CLH show ?thesis by simp
  qed (simp_all add: tas_executions tatas_executions cpp11_executions posix_executions
      fair_all_executions flag valid threads sum)
qed

lemma lock_benchmark_correct_witness:
  "benchmark_completes CLH 3 (lock_executions example_lock_bench) 10"
  using lock_benchmark_correct [OF example_lock_bench_valid]
  by (simp add: example_lock_bench_def lock_capacity_def MAX_ALLOC_NR_THREADS_def del: benchmark_completes.simps)

end
